(* ===== verification/Prelude.thy ===== *)
theory Prelude
  imports Complex_Main "HOL-Library.Multiset" "HOL-Library.Sublist" "HOL-Library.Code_Target_Numeral"
begin

text \<open>
  Shared vocabulary of the development: the Python values the program uses most (strings,
  instants, spans of time), the two places where Python's own arithmetic has to be written
  out, and the list lemmas the component theories share.

  Conventions used everywhere:
  \<^item> a Python \<open>str\<close> is a \<open>string\<close>, the list of its characters (of its UTF-8 bytes where text
    of the archive is counted or cut, see \<open>Unicode_Text\<close>); a hash, a guid or an opaque key is
    such a string too;
  \<^item> a \<open>datetime\<close> is its number of microseconds since an arbitrary epoch (\<open>instant\<close>),
    the resolution Python's \<open>datetime\<close> and Postgres' \<open>timestamptz\<close> have;
  \<^item> a Python float that the code only adds, subtracts and compares (a monotonic clock, a
    rate) is an exact rational; scores, distances and ratios, where rounding decides an order,
    are rounded as binary64 does (\<open>Binary64\<close>);
  \<^item> a raised exception is the \<open>Inl\<close> side of a sum.
\<close>

type_synonym instant = int
type_synonym clock = rat

text \<open>Python's \<open>ValueError\<close>, with its message.\<close>

datatype value_error = ValueError string

named_theorems loop_simps \<open>defining equations of the program's loops, unfolded on demand\<close>
named_theorems handler_defs \<open>definitions of whole handlers and operations\<close>

section \<open>Python arithmetic\<close>

text \<open>\<open>round\<close> of Python and of \<open>timedelta\<close>: to the nearest integer, ties to even.\<close>

definition round_half_even :: "rat \<Rightarrow> int" where
  "round_half_even x =
     (let f = \<lfloor>x\<rfloor>; r = x - of_int f
      in if r < 1 / 2 then f else if 1 / 2 < r then f + 1
         else if even f then f else f + 1)"

text \<open>\<open>timedelta(hours=h)\<close>, in microseconds.\<close>

definition timedelta_hours :: "rat \<Rightarrow> int" where
  "timedelta_hours h = round_half_even (h * 3600000000)"

lemma round_half_even_of_int [simp]: "round_half_even (of_int n) = n"
  by (simp add: round_half_even_def)

lemma round_half_even_nonneg: "0 \<le> x \<Longrightarrow> 0 \<le> round_half_even x"
  by (auto simp: round_half_even_def Let_def)

lemma timedelta_hours_nonneg: "0 \<le> h \<Longrightarrow> 0 \<le> timedelta_hours h"
  by (simp add: timedelta_hours_def round_half_even_nonneg)

lemma timedelta_hours_of_nat [simp]:
  "timedelta_hours (of_nat n) = 3600000000 * int n"
proof -
  have "(of_nat n :: rat) * 3600000000 = of_int (3600000000 * int n)" by simp
  then show ?thesis
    by (simp only: timedelta_hours_def round_half_even_of_int)
qed

section \<open>Lists\<close>

lemma last_in_set_iff [simp]: "xs \<noteq> [] \<Longrightarrow> last xs \<in> set xs"
  by simp

lemma set_butlast_last: "xs \<noteq> [] \<Longrightarrow> set xs = insert (last xs) (set (butlast xs))"
  by (cases xs rule: rev_cases) auto

lemma sorted_map_hd_le:
  "sorted (map f xs) \<Longrightarrow> x \<in> set xs \<Longrightarrow> f (hd xs) \<le> f x"
  by (cases xs) auto

lemma sorted_map_le_last:
  "sorted (map f xs) \<Longrightarrow> x \<in> set xs \<Longrightarrow> f x \<le> f (last xs)"
  by (induction xs) auto

text \<open>A list sorted by \<open>f\<close> is its part below a bound followed by the rest.\<close>

lemma sorted_filter_split:
  fixes f :: "'a \<Rightarrow> 'b::linorder"
  assumes "sorted (map f xs)"
  shows "xs = filter (\<lambda>x. f x < t) xs @ filter (\<lambda>x. t \<le> f x) xs"
  using assms
proof (induction xs)
  case Nil
  then show ?case by simp
next
  case (Cons x xs)
  show ?case
  proof (cases "f x < t")
    case True
    with Cons show ?thesis by auto
  next
    case False
    with Cons.prems have "\<forall>y \<in> set xs. t \<le> f y" by force
    then have "filter (\<lambda>x. f x < t) xs = []" and "filter (\<lambda>x. t \<le> f x) xs = xs"
      by (auto simp: filter_empty_conv filter_id_conv)
    with False show ?thesis by auto
  qed
qed

lemma sorted_map_filter: "sorted (map f xs) \<Longrightarrow> sorted (map f (filter P xs))"
  by (rule sorted_filter)

text \<open>\<open>list.sort(key=k, reverse=True)\<close> and \<open>sorted(..., reverse=True)\<close>: descending by the
  key, elements of equal key in their input order.\<close>

definition sort_desc :: "('a \<Rightarrow> 'k::linorder) \<Rightarrow> 'a list \<Rightarrow> 'a list" where
  "sort_desc k xs = rev (sort_key k (rev xs))"

lemma mset_sort_desc [simp]: "mset (sort_desc k xs) = mset xs"
  by (simp add: sort_desc_def)

lemma set_sort_desc [simp]: "set (sort_desc k xs) = set xs"
  by (simp add: sort_desc_def)

lemma length_sort_desc [simp]: "length (sort_desc k xs) = length xs"
  by (simp add: sort_desc_def)

lemma distinct_sort_desc [simp]: "distinct (sort_desc k xs) = distinct xs"
  by (simp add: sort_desc_def)

lemma sort_desc_sorted: "sorted_wrt (\<lambda>x y. k y \<le> k x) (sort_desc k xs)"
proof -
  have "sorted_wrt (\<lambda>x y. k x \<le> k y) (sort_key k (rev xs))"
    using sorted_sort_key [of k "rev xs"] by (simp add: sorted_map)
  then show ?thesis by (simp add: sort_desc_def sorted_wrt_rev)
qed

lemma length_filter_mono_on:
  "(\<And>x. x \<in> set xs \<Longrightarrow> P x \<Longrightarrow> Q x) \<Longrightarrow> length (filter P xs) \<le> length (filter Q xs)"
  by (induction xs) (auto intro: le_SucI)

lemma filter_in_take:
  assumes "distinct xs" shows "filter (\<lambda>x. x \<in> set (take k xs)) xs = take k xs"
proof -
  have "filter (\<lambda>x. x \<in> set ys) (ys @ zs) = ys" if "distinct (ys @ zs)" for ys zs :: "'a list"
    using that by (auto simp: filter_empty_conv filter_id_conv)
  from this [of "take k xs" "drop k xs"] show ?thesis using assms by simp
qed

lemma sum_list_le_bound:
  fixes b :: nat
  shows "(\<And>x. x \<in> set xs \<Longrightarrow> f x \<le> b) \<Longrightarrow> sum_list (map f xs) \<le> length xs * b"
  by (induction xs) (auto simp: add_mono)

lemma set_map_filter: "set (List.map_filter f xs) = {y. \<exists>x \<in> set xs. f x = Some y}"
proof (induction xs)
  case (Cons x xs)
  then show ?case by (cases "f x") (auto simp: map_filter_simps)
qed (simp add: map_filter_simps)

lemma sum_set_le_sum_list:
  fixes f :: "'a \<Rightarrow> int"
  assumes "\<And>x. 0 \<le> f x"
  shows "(\<Sum>x \<in> set xs. f x) \<le> sum_list (map f xs)"
proof (induction xs)
  case (Cons x xs)
  have "(\<Sum>y \<in> set (x # xs). f y) \<le> f x + (\<Sum>y \<in> set xs. f y)"
    using assms [of x] by (simp add: sum.insert_if)
  with Cons show ?case by simp
qed simp

end
