(* ===== verification/Py_Strings.thy ===== *)
theory Py_Strings
  imports Prelude
begin

text \<open>
  The string functions of Python's standard library that the public surface calls, on
  strings whose characters are code points below 256 (\<open>string\<close>; HTTP header values are
  decoded from Latin-1, so the range loses nothing there): \<open>str.isspace\<close>, \<open>str.strip\<close>,
  \<open>str.split\<close> without arguments and \<open>int\<close> of a string.
\<close>

section \<open>Characters\<close>

definition ord :: "char \<Rightarrow> nat" where "ord ch = of_char ch"

lemma ord_char_of [simp]: "n < 256 \<Longrightarrow> ord (char_of n) = n"
  by (simp add: ord_def)

text \<open>\<open>str.isspace\<close>: the control and separator characters, the no-break space included.\<close>

definition py_space :: "char \<Rightarrow> bool" where
  "py_space ch \<longleftrightarrow> ord ch \<in> {9, 10, 11, 12, 13, 28, 29, 30, 31, 32, 133, 160}"

text \<open>What \<open>int(...)\<close> skips: not the four separators 28 to 31.\<close>

definition int_space :: "char \<Rightarrow> bool" where
  "int_space ch \<longleftrightarrow> ord ch \<in> {9, 10, 11, 12, 13, 32, 133, 160}"

definition is_digit :: "char \<Rightarrow> bool" where
  "is_digit ch \<longleftrightarrow> 48 \<le> ord ch \<and> ord ch \<le> 57"

definition is_letter :: "char \<Rightarrow> bool" where
  "is_letter ch \<longleftrightarrow> 65 \<le> ord ch \<and> ord ch \<le> 90 \<or> 97 \<le> ord ch \<and> ord ch \<le> 122"

section \<open>Strip and split\<close>

definition strip_by :: "(char \<Rightarrow> bool) \<Rightarrow> string \<Rightarrow> string" where
  "strip_by P s = rev (dropWhile P (rev (dropWhile P s)))"

definition py_strip :: "string \<Rightarrow> string" where
  "py_strip s = strip_by py_space s"

fun split_loop :: "string \<Rightarrow> string \<Rightarrow> string list" where
  "split_loop word [] = (if word = [] then [] else [rev word])"
| "split_loop word (ch # s) =
     (if py_space ch then (if word = [] then [] else [rev word]) @ split_loop [] s
      else split_loop (ch # word) s)"

definition py_split :: "string \<Rightarrow> string list" where
  "py_split s = split_loop [] s"

lemma split_loop_words:
  "w \<in> set (split_loop word s) \<Longrightarrow> \<forall>ch \<in> set word. \<not> py_space ch \<Longrightarrow>
   w \<noteq> [] \<and> (\<forall>ch \<in> set w. \<not> py_space ch)"
  by (induction word s rule: split_loop.induct) (auto split: if_splits)

lemma py_split_words: "w \<in> set (py_split s) \<Longrightarrow> w \<noteq> [] \<and> (\<forall>ch \<in> set w. \<not> py_space ch)"
  by (simp add: py_split_def split_loop_words)

lemma split_loop_concat:
  "concat (split_loop word s) = rev word @ filter (\<lambda>ch. \<not> py_space ch) s"
  by (induction word s rule: split_loop.induct) auto

lemma split_loop_word_end:
  "\<forall>ch \<in> set w. \<not> py_space ch \<Longrightarrow> split_loop word (w @ s) = split_loop (rev w @ word) s"
  by (induction w arbitrary: word) auto

text \<open>Splitting undoes joining with spaces.\<close>

lemma py_split_intercalate:
  assumes "\<forall>w \<in> set ws. w \<noteq> [] \<and> (\<forall>ch \<in> set w. \<not> py_space ch)"
  shows "py_split (concat (map (\<lambda>w. w @ '' '') ws)) = ws"
  using assms
proof (induction ws)
  case (Cons w ws)
  have space: "py_space (CHR '' '')" by (simp add: py_space_def ord_def)
  have "split_loop [] (w @ CHR '' '' # concat (map (\<lambda>w. w @ '' '') ws))
      = split_loop (rev w) (CHR '' '' # concat (map (\<lambda>w. w @ '' '') ws))"
    using Cons.prems split_loop_word_end [of w "[]"] by simp
  then show ?case using Cons space by (simp add: py_split_def)
qed (simp add: py_split_def)

section \<open>Integers\<close>

text \<open>Decimal digits with single underscores between them.\<close>

fun digits_value :: "bool \<Rightarrow> nat \<Rightarrow> string \<Rightarrow> nat option" where
  "digits_value after_digit acc [] = (if after_digit then Some acc else None)"
| "digits_value after_digit acc (ch # s) =
     (if ch = CHR ''_'' then (if after_digit then digits_value False acc s else None)
      else if is_digit ch then digits_value True (10 * acc + (ord ch - 48)) s
      else None)"

definition INT_MAX_STR_DIGITS :: nat where "INT_MAX_STR_DIGITS = 4300"

definition unsigned_value :: "string \<Rightarrow> nat option" where
  "unsigned_value s =
     (if length (filter is_digit s) > INT_MAX_STR_DIGITS then None else digits_value False 0 s)"

definition py_int :: "string \<Rightarrow> int option" where
  "py_int s =
     (case strip_by int_space s of
        [] \<Rightarrow> None
      | ch # rest \<Rightarrow>
          if ch = CHR ''-'' then map_option (\<lambda>n. - int n) (unsigned_value rest)
          else if ch = CHR ''+'' then map_option int (unsigned_value rest)
          else map_option int (unsigned_value (ch # rest)))"

lemma digits_value_prefix:
  "\<forall>ch \<in> set s. is_digit ch \<Longrightarrow> s \<noteq> [] \<or> b \<Longrightarrow>
   digits_value b acc s = Some (foldl (\<lambda>n ch. 10 * n + (ord ch - 48)) acc s)"
  by (induction s arbitrary: acc b) (auto simp: is_digit_def ord_def)

lemma py_int_examples:
  "py_int ''3599'' = Some 3599" "py_int '' -1_0 '' = Some (- 10)"
  "py_int ''1__0'' = None" "py_int [] = None" "py_int ''3.5'' = None"
  by code_simp+

text \<open>\<open>str\<close> of an integer: the decimal digits, with a minus sign.\<close>

fun nat_str :: "nat \<Rightarrow> string" where
  "nat_str n = (if n < 10 then [char_of (48 + n)] else nat_str (n div 10) @ [char_of (48 + n mod 10)])"

declare nat_str.simps [simp del]

definition py_str_int :: "int \<Rightarrow> string" where
  "py_str_int i = (if i < 0 then CHR ''-'' # nat_str (nat (- i)) else nat_str (nat i))"

lemma ord_digit [simp]: "n < 10 \<Longrightarrow> ord (char_of (48 + n)) = 48 + n"
  by (simp add: ord_def)

lemma nat_str_digits: "\<forall>ch \<in> set (nat_str n). is_digit ch"
proof (induction n rule: nat_str.induct)
  case (1 n)
  have "n mod 10 < 10" by simp
  then have "n mod 10 \<le> 9" by presburger
  with 1 show ?case by (subst nat_str.simps) (simp add: is_digit_def)
qed

lemma nat_str_value: "foldl (\<lambda>n ch. 10 * n + (ord ch - 48)) 0 (nat_str n) = n"
  by (induction n rule: nat_str.induct) (subst nat_str.simps, simp)

lemma nat_str_inj: "nat_str m = nat_str n \<longleftrightarrow> m = n"
  using nat_str_value [of m] nat_str_value [of n] by metis

lemma nat_str_not_minus: "nat_str n \<noteq> CHR ''-'' # s" "CHR ''-'' # s \<noteq> nat_str n"
proof -
  have "\<not> is_digit (CHR ''-'')" by (simp add: is_digit_def ord_def)
  then show "nat_str n \<noteq> CHR ''-'' # s" using nat_str_digits [of n] by auto
  then show "CHR ''-'' # s \<noteq> nat_str n" by metis
qed

lemma py_str_int_inj: "py_str_int i = py_str_int j \<longleftrightarrow> i = j"
  by (cases "i < 0"; cases "j < 0") (auto simp: py_str_int_def nat_str_not_minus nat_str_inj)

text \<open>\<open>sep.join(xs)\<close>.\<close>

fun py_join :: "string \<Rightarrow> string list \<Rightarrow> string" where
  "py_join sep [] = []"
| "py_join sep [x] = x"
| "py_join sep (x # xs) = x @ sep @ py_join sep xs"

section \<open>JSON values\<close>

text \<open>What \<open>json.loads\<close> returns; a float is its value, \<open>None\<close> for the ones that are no number.\<close>

datatype json =
  JNull | JBool bool | JInt int | JFloat "rat option" | JStr string | JList "json list"
  | JObj "(string \<times> json) list"

text \<open>\<open>x == n\<close> for an integer \<open>n\<close>: booleans and floats of the same value are equal to it.\<close>

definition json_eq_int :: "json \<Rightarrow> int \<Rightarrow> bool" where
  "json_eq_int j n =
     (case j of JInt m \<Rightarrow> m = n | JBool b \<Rightarrow> (if b then 1 else 0) = n
              | JFloat (Some x) \<Rightarrow> x = of_int n | _ \<Rightarrow> False)"

end
