(* ===== verification/Unicode_Text.thy ===== *)
theory Unicode_Text
  imports Py_Strings
begin

text \<open>
  Text beyond Latin-1: a list of code points (\<open>utext\<close>), and the UTF-8 spelling of one as a \<open>string\<close> of
  bytes, in which the database's columns and the rendered documents are kept. Python counts, cuts and
  strips code points, so those operations decode first.
\<close>

type_synonym utext = "nat list"

text \<open>\<open>str.isspace\<close>, which is also what \<^verbatim>\<open>\s\<close> matches.\<close>

definition uspace :: "nat \<Rightarrow> bool" where
  "uspace c \<longleftrightarrow> 9 \<le> c \<and> c \<le> 13 \<or> 28 \<le> c \<and> c \<le> 32 \<or> c \<in> {133, 160, 5760} \<or> 8192 \<le> c \<and> c \<le> 8202
     \<or> c \<in> {8232, 8233, 8239, 8287, 12288}"

definition ustrip :: "utext \<Rightarrow> utext" where
  "ustrip s = rev (dropWhile uspace (rev (dropWhile uspace s)))"

section \<open>UTF-8\<close>

text \<open>The code points of a UTF-8 string.\<close>

fun code_points :: "string \<Rightarrow> utext" where
  "code_points (a # s) =
     (let x = ord a
      in if x < 0xC0 then x # code_points s
         else if x < 0xE0 then
           (case s of b # s' \<Rightarrow> ((x - 0xC0) * 64 + ord b mod 64) # code_points s' | _ \<Rightarrow> [x])
         else if x < 0xF0 then
           (case s of b # c # s' \<Rightarrow> ((x - 0xE0) * 4096 + ord b mod 64 * 64 + ord c mod 64) # code_points s' | _ \<Rightarrow> [x])
         else
           (case s of b # c # d # s' \<Rightarrow>
              ((x - 0xF0) * 262144 + ord b mod 64 * 4096 + ord c mod 64 * 64 + ord d mod 64) # code_points s' | _ \<Rightarrow> [x]))"
| "code_points [] = []"

definition utf8_char :: "nat \<Rightarrow> string" where
  "utf8_char c =
     (if c < 0x80 then [char_of c]
      else if c < 0x800 then [char_of (0xC0 + c div 64), char_of (0x80 + c mod 64)]
      else if c < 0x10000 then
        [char_of (0xE0 + c div 4096), char_of (0x80 + c div 64 mod 64), char_of (0x80 + c mod 64)]
      else
        [char_of (0xF0 + c div 262144), char_of (0x80 + c div 4096 mod 64), char_of (0x80 + c div 64 mod 64),
         char_of (0x80 + c mod 64)])"

definition utf8 :: "utext \<Rightarrow> string" where
  "utf8 t = concat (map utf8_char t)"

lemma low_bits: "(128 + n mod 64) mod 64 = n mod (64::nat)" "128 + n mod 64 < (256::nat)"
proof -
  show "(128 + n mod 64) mod 64 = n mod (64::nat)"
    using mod_mult_self1 [of "n mod 64" 2 "64::nat"] by (simp add: add.commute)
  have "n mod 64 < (64::nat)" by simp
  then show "128 + n mod 64 < (256::nat)" by linarith
qed

lemma join_bits:
  "c div 64 * 64 + c mod (64::nat) = c"
  "c div 4096 * 4096 + c div 64 mod 64 * 64 + c mod (64::nat) = c"
  "c div 262144 * 262144 + c div 4096 mod 64 * 4096 + c div 64 mod 64 * 64 + c mod (64::nat) = c"
proof -
  have one: "c div 64 * 64 + c mod 64 = c" for c :: nat by (rule div_mult_mod_eq)
  have d: "c div 64 div 64 = c div 4096" "c div 4096 div 64 = c div 262144"
    using div_mult2_eq [of c 64 64] div_mult2_eq [of c 4096 64] by simp_all
  show "c div 64 * 64 + c mod 64 = c" by (rule one)
  show two: "c div 4096 * 4096 + c div 64 mod 64 * 64 + c mod 64 = c"
    using one [of c] one [of "c div 64"] unfolding d by linarith
  show "c div 262144 * 262144 + c div 4096 mod 64 * 4096 + c div 64 mod 64 * 64 + c mod 64 = c"
    using two one [of "c div 4096"] unfolding d by linarith
qed

lemma code_points_char: "c < 0x110000 \<Longrightarrow> code_points (utf8_char c @ s) = c # code_points s"
proof -
  assume c: "c < 0x110000"
  consider "c < 0x80" | "\<not> c < 0x80" "c < 0x800" | "\<not> c < 0x800" "c < 0x10000" | "\<not> c < 0x10000" by linarith
  then show ?thesis
  proof cases
    case 2
    have "ord (char_of (192 + c div 64)) = 192 + c div 64" "192 + c div 64 < 224" using 2 by simp_all
    then show ?thesis using 2 by (simp only: utf8_char_def) (simp add: Let_def low_bits join_bits)
  next
    case 3
    have "ord (char_of (224 + c div 4096)) = 224 + c div 4096" "224 + c div 4096 < 240" using 3 by simp_all
    then show ?thesis using 3 by (simp only: utf8_char_def) (simp add: Let_def low_bits join_bits)
  next
    case 4
    have "ord (char_of (240 + c div 262144)) = 240 + c div 262144" using 4 c by simp
    then show ?thesis using 4 by (simp only: utf8_char_def) (simp add: Let_def low_bits join_bits)
  qed (simp add: utf8_char_def Let_def)
qed

text \<open>Decoding undoes encoding.\<close>

lemma code_points_utf8: "\<forall>c \<in> set t. c < 0x110000 \<Longrightarrow> code_points (utf8 t) = t"
  by (induction t) (simp_all add: utf8_def code_points_char)

lemma code_points_nil [simp]: "code_points s = [] \<longleftrightarrow> s = []"
  by (cases s) (auto simp: Let_def split: list.splits)

text \<open>\<open>len\<close>, \<open>strip\<close>, \<open>rstrip\<close> and the prefix of a string of text.\<close>

definition text_len :: "string \<Rightarrow> nat" where
  "text_len s = length (code_points s)"

definition urstrip :: "utext \<Rightarrow> utext" where
  "urstrip t = rev (dropWhile uspace (rev t))"

definition text_strip :: "string \<Rightarrow> string" where
  "text_strip s = utf8 (ustrip (code_points s))"

text \<open>The first \<open>n\<close> characters of a stripped text, with an ellipsis when it is longer.\<close>

definition shortened :: "nat \<Rightarrow> string \<Rightarrow> string" where
  "shortened n s =
     (let t = ustrip (code_points s)
      in if length t > n then utf8 (urstrip (take n t) @ [0x2026]) else utf8 t)"

end
