(* ===== verification/Sessionize.thy ===== *)
theory Sessionize
  imports Unicode_Text
begin

text \<open>
  Pass 1 of segmentation: \<open>src/imsg/segment/models.py\<close> (the data), \<open>src/imsg/tokens.py\<close>
  (the token estimate) and \<open>src/imsg/segment/sessionize.py\<close> (splitting a chat into
  sessions on time gaps, and the two ends of an incremental rebuild).

  The main result is \<open>incremental_sessions_agree\<close>: rebuilding only the range the two
  bounds name gives the sessions a full rebuild would give, as long as no session ends
  exactly one gap before the first change; \<open>incremental_boundary_gap\<close> is the run where
  that does not hold and the code differs.
\<close>

section \<open>Data\<close>

record attachment_snippet =
  attachment_key :: string
  att_kind :: string
  filename :: "string option"
  caption :: "string option"
  ocr_text :: "string option"
  transcript :: "string option"
  pdf_text :: "string option"
  document_text :: "string option"
  withheld :: bool

record edit_version =
  version_idx :: int
  ev_text :: string
  edited_at :: "instant option"

record message =
  message_id :: int
  source_guid :: string
  msg_chat_id :: int
  sent_at :: instant
  is_from_me :: bool
  sender_short_name :: string
  msg_text :: "string option"
  is_unsent :: bool
  is_edited :: bool
  has_attachments :: bool
  attachments :: "attachment_snippet list"
  tapback_suffixes :: "string list"
  edit_history :: "edit_version list"
  is_deleted :: bool

record session =
  ses_chat_id :: int
  started_at :: instant
  ended_at :: instant
  ses_messages :: "message list"
  gap_hours :: rat

record persisted_session_span =
  session_id :: int
  span_started_at :: instant
  span_ended_at :: instant

section \<open>The token estimate\<close>

text \<open>\<open>max(1, ceil(len(text) / 4))\<close>, and 0 for the empty string.\<close>

definition estimate_tokens :: "string \<Rightarrow> nat" where
  "estimate_tokens t =
     (if t = [] then 0 else max 1 (nat \<lceil>(of_nat (text_len t) :: rat) / 4\<rceil>))"

lemma estimate_tokens_div: "estimate_tokens t = (text_len t + 3) div 4"
proof (cases t)
  case Nil
  then show ?thesis by (simp add: estimate_tokens_def text_len_def)
next
  case (Cons c cs)
  define n where "n = text_len t"
  have "\<lceil>(of_nat n :: rat) / 4\<rceil> = (int n + 3) div 4"
  proof (rule ceiling_unique)
    have "int n \<le> 4 * ((int n + 3) div 4)" and "4 * ((int n + 3) div 4) < int n + 4"
      by presburger+
    then have "(of_int (int n) :: rat) \<le> of_int (4 * ((int n + 3) div 4))"
      and "(of_int (4 * ((int n + 3) div 4)) :: rat) < of_int (int n + 4)"
      by (simp_all only: of_int_le_iff of_int_less_iff)
    then show "of_int ((int n + 3) div 4) - 1 < (of_nat n :: rat) / 4"
      and "(of_nat n :: rat) / 4 \<le> of_int ((int n + 3) div 4)"
      by (simp_all add: field_simps)
  qed
  then have "nat \<lceil>(of_nat n :: rat) / 4\<rceil> = (n + 3) div 4" by (simp add: nat_div_distrib)
  moreover have "1 \<le> n" using Cons code_points_nil [of t] by (simp only: n_def text_len_def length_greater_0_conv Suc_le_eq One_nat_def) simp
  then have "1 \<le> (n + 3) div 4" by linarith
  ultimately show ?thesis using Cons by (simp add: estimate_tokens_def n_def)
qed

lemma estimate_tokens_pos: "t \<noteq> [] \<Longrightarrow> 1 \<le> estimate_tokens t"
  by (simp add: estimate_tokens_def)

text \<open>\<open>estimate_tokens(m.text or "")\<close>, the cost of a message everywhere in segmentation.\<close>

definition message_cost :: "message \<Rightarrow> nat" where
  "message_cost m = (case msg_text m of None \<Rightarrow> 0 | Some t \<Rightarrow> estimate_tokens t)"

section \<open>Splitting on gaps\<close>

text \<open>\<open>Session(...)\<close> as \<open>sessionize\<close> builds it from its non-empty \<open>current\<close> list.\<close>

definition make_session :: "int \<Rightarrow> rat \<Rightarrow> message list \<Rightarrow> session" where
  "make_session c h current =
     \<lparr>ses_chat_id = c, started_at = sent_at (hd current), ended_at = sent_at (last current),
      ses_messages = current, gap_hours = h\<rparr>"

text \<open>
  The loop over \<open>itertools.pairwise(messages)\<close>: \<open>current\<close> is the open session, \<open>prev\<close> the
  previous message; the call with no message left is the append after the loop.
\<close>

fun sessionize_loop ::
  "int \<Rightarrow> int \<Rightarrow> rat \<Rightarrow> message list \<Rightarrow> message \<Rightarrow> message list \<Rightarrow> session list" where
  "sessionize_loop gap c h current prev [] = [make_session c h current]"
| "sessionize_loop gap c h current prev (msg # rest) =
     (if sent_at msg - sent_at prev > gap
      then make_session c h current # sessionize_loop gap c h [msg] msg rest
      else sessionize_loop gap c h (current @ [msg]) msg rest)"

definition sessionize :: "message list \<Rightarrow> int \<Rightarrow> rat \<Rightarrow> session list" where
  "sessionize messages chat_id session_gap_hours =
     (case messages of
        [] \<Rightarrow> []
      | m # rest \<Rightarrow>
          sessionize_loop (timedelta_hours session_gap_hours) chat_id session_gap_hours [m] m rest)"

section \<open>Groups: the reference description\<close>

text \<open>
  The messages of the sessions, as plain groups. A grouping is right when it is a partition
  of the input into non-empty runs, every step inside a run is at most the gap, and every
  step between runs is more; there is exactly one such grouping.
\<close>

fun gap_groups :: "int \<Rightarrow> message list \<Rightarrow> message list list" where
  "gap_groups gap [] = []"
| "gap_groups gap [m] = [[m]]"
| "gap_groups gap (m # m' # ms) =
     (if sent_at m' - sent_at m > gap then [m] # gap_groups gap (m' # ms)
      else (case gap_groups gap (m' # ms) of [] \<Rightarrow> [[m]] | g # gs \<Rightarrow> (m # g) # gs))"

fun steps_within :: "int \<Rightarrow> message list \<Rightarrow> bool" where
  "steps_within gap (m # m' # ms) = (sent_at m' - sent_at m \<le> gap \<and> steps_within gap (m' # ms))"
| "steps_within gap _ = True"

fun separated :: "int \<Rightarrow> message list list \<Rightarrow> bool" where
  "separated gap (g # g' # gs) =
     (sent_at (hd g') - sent_at (last g) > gap \<and> separated gap (g' # gs))"
| "separated gap _ = True"

definition valid_grouping :: "int \<Rightarrow> message list \<Rightarrow> message list list \<Rightarrow> bool" where
  "valid_grouping gap ms gs \<longleftrightarrow>
     concat gs = ms \<and> (\<forall>g \<in> set gs. g \<noteq> [] \<and> steps_within gap g) \<and> separated gap gs"

lemma gap_groups_eq_Nil [simp]: "gap_groups gap ms = [] \<longleftrightarrow> ms = []"
  by (cases "(gap, ms)" rule: gap_groups.cases) (auto split: list.splits)

lemma gap_groups_Cons_neq: "gap_groups gap (m # ms) \<noteq> []"
  by simp

lemma concat_gap_groups [simp]: "concat (gap_groups gap ms) = ms"
  by (induction gap ms rule: gap_groups.induct) (auto split: list.splits)

lemma gap_groups_nonempty: "g \<in> set (gap_groups gap ms) \<Longrightarrow> g \<noteq> []"
  by (induction gap ms arbitrary: g rule: gap_groups.induct) (auto split: list.splits if_splits)

lemma gap_groups_hd:
  "gap_groups gap (m # ms) = g # gs \<Longrightarrow> \<exists>g'. g = m # g'"
  by (cases "(gap, m # ms)" rule: gap_groups.cases) (auto split: list.splits if_splits)

lemma gap_groups_steps: "g \<in> set (gap_groups gap ms) \<Longrightarrow> steps_within gap g"
proof (induction gap ms arbitrary: g rule: gap_groups.induct)
  case (3 gap m m' ms)
  obtain h hs where h: "gap_groups gap (m' # ms) = h # hs"
    by (cases "gap_groups gap (m' # ms)") auto
  obtain h' where h': "h = m' # h'" using gap_groups_hd [OF h] by blast
  show ?case using 3 h h' by (auto split: if_splits)
qed auto

lemma gap_groups_separated: "separated gap (gap_groups gap ms)"
proof (induction gap ms rule: gap_groups.induct)
  case (3 gap m m' ms)
  obtain h hs where h: "gap_groups gap (m' # ms) = h # hs"
    by (cases "gap_groups gap (m' # ms)") auto
  obtain h' where h': "h = m' # h'" using gap_groups_hd [OF h] by blast
  show ?case using 3 h h' by (cases hs) (auto split: if_splits)
qed auto

lemma gap_groups_valid: "valid_grouping gap ms (gap_groups gap ms)"
  by (auto simp: valid_grouping_def gap_groups_separated gap_groups_steps dest: gap_groups_nonempty)

lemma gap_groups_run:
  assumes "g \<noteq> []" and "steps_within gap g"
    and "rest \<noteq> [] \<Longrightarrow> sent_at (hd rest) - sent_at (last g) > gap"
  shows "gap_groups gap (g @ rest) = g # gap_groups gap rest"
  using assms
proof (induction g)
  case Nil
  then show ?case by simp
next
  case (Cons m g)
  then show ?case by (cases g; cases rest) auto
qed

lemma valid_grouping_unique:
  assumes "valid_grouping gap ms gs"
  shows "gs = gap_groups gap ms"
  using assms
proof (induction gs arbitrary: ms)
  case Nil
  then show ?case by (simp add: valid_grouping_def)
next
  case (Cons g gs)
  have ms: "ms = g @ concat gs" using Cons.prems by (auto simp: valid_grouping_def)
  have rest: "valid_grouping gap (concat gs) gs"
    using Cons.prems by (cases gs) (auto simp: valid_grouping_def)
  have "sent_at (hd (concat gs)) - sent_at (last g) > gap" if ne: "concat gs \<noteq> []"
  proof -
    obtain h hs where gs: "gs = h # hs" using ne by (cases gs) auto
    with Cons.prems have "h \<noteq> []" and "sent_at (hd h) - sent_at (last g) > gap"
      by (auto simp: valid_grouping_def)
    with gs show ?thesis by simp
  qed
  moreover have "g \<noteq> []" and "steps_within gap g"
    using Cons.prems by (auto simp: valid_grouping_def)
  ultimately have "gap_groups gap ms = g # gap_groups gap (concat gs)"
    unfolding ms by (metis gap_groups_run)
  then show ?case using Cons.IH [OF rest] by simp
qed

text \<open>Cutting a stream at a gap splits its grouping.\<close>

lemma gap_groups_append:
  assumes "xs \<noteq> [] \<Longrightarrow> ys \<noteq> [] \<Longrightarrow> sent_at (hd ys) - sent_at (last xs) > gap"
  shows "gap_groups gap (xs @ ys) = gap_groups gap xs @ gap_groups gap ys"
  using assms
proof (induction gap xs rule: gap_groups.induct)
  case (1 gap)
  then show ?case by simp
next
  case (2 gap m)
  then show ?case by (cases ys) auto
next
  case (3 gap m m' ms)
  then show ?case
    by (cases "gap_groups gap (m' # ms)") (auto split: if_splits)
qed

section \<open>The loop computes the grouping\<close>

lemma sessionize_loop_groups:
  assumes "current \<noteq> []" and "prev = last current" and "steps_within gap current"
  shows "sessionize_loop gap c h current prev ms =
         map (make_session c h) (gap_groups gap (current @ ms))"
  using assms
proof (induction gap c h current prev ms rule: sessionize_loop.induct)
  case (1 gap c h current prev)
  then have "gap_groups gap current = [current]"
    using gap_groups_run [of current gap "[]"] by simp
  then show ?case by simp
next
  case (2 gap c h current prev msg rest)
  show ?case
  proof (cases "sent_at msg - sent_at prev > gap")
    case True
    have "gap_groups gap (current @ msg # rest) = current # gap_groups gap (msg # rest)"
      using 2 True by (intro gap_groups_run) auto
    then show ?thesis using 2 True by simp
  next
    case False
    have "steps_within gap (current @ [msg])"
      using "2.prems" False by (induction current) (auto simp: neq_Nil_conv split: if_splits)
    then show ?thesis using 2 False by simp
  qed
qed

lemma sessionize_groups:
  "sessionize ms c h = map (make_session c h) (gap_groups (timedelta_hours h) ms)"
proof (cases ms)
  case Nil
  then show ?thesis by (simp add: sessionize_def)
next
  case (Cons m rest)
  then show ?thesis
    using sessionize_loop_groups [of "[m]" m "timedelta_hours h" c h rest]
    by (simp add: sessionize_def)
qed

lemma make_session_simps [simp]:
  "ses_messages (make_session c h g) = g"
  "started_at (make_session c h g) = sent_at (hd g)"
  "ended_at (make_session c h g) = sent_at (last g)"
  "ses_chat_id (make_session c h g) = c"
  "gap_hours (make_session c h g) = h"
  by (simp_all add: make_session_def)

lemma map_ses_messages_sessionize:
  "map ses_messages (sessionize ms c h) = gap_groups (timedelta_hours h) ms"
  by (simp add: sessionize_groups comp_def)

section \<open>The incremental frontier\<close>

text \<open>
  \<open>compute_recompute_start\<close>: the loop walks the persisted sessions from the last one down
  and stops at the first sealed one; \<open>scan_sealed ... n\<close> is the loop with \<open>n\<close> sessions
  still to look at. \<open>None\<close> is a loop that ends without a \<open>break\<close>.
\<close>

fun scan_sealed :: "persisted_session_span list \<Rightarrow> instant \<Rightarrow> int \<Rightarrow> nat \<Rightarrow> instant option" where
  "scan_sealed xs earliest gap 0 = None"
| "scan_sealed xs earliest gap (Suc i) =
     (if span_ended_at (xs ! i) + gap \<le> earliest
      then Some (if Suc i < length xs then span_started_at (xs ! Suc i) else earliest)
      else scan_sealed xs earliest gap i)"

definition compute_recompute_start ::
  "persisted_session_span list \<Rightarrow> instant \<Rightarrow> rat \<Rightarrow> instant" where
  "compute_recompute_start existing_sessions earliest_changed_at session_gap_hours =
     (let gap = timedelta_hours session_gap_hours;
          initial = (case existing_sessions of [] \<Rightarrow> earliest_changed_at
                     | s # _ \<Rightarrow> span_started_at s);
          frontier = (case scan_sealed existing_sessions earliest_changed_at gap
                             (length existing_sessions) of
                        None \<Rightarrow> initial | Some f \<Rightarrow> f)
      in min frontier earliest_changed_at)"

fun compute_recompute_end_loop ::
  "persisted_session_span list \<Rightarrow> instant \<Rightarrow> int \<Rightarrow> instant option" where
  "compute_recompute_end_loop [] latest gap = None"
| "compute_recompute_end_loop (s # rest) latest gap =
     (if span_started_at s - latest > gap then Some (span_started_at s)
      else compute_recompute_end_loop rest latest gap)"

definition compute_recompute_end ::
  "persisted_session_span list \<Rightarrow> instant \<Rightarrow> rat \<Rightarrow> instant option" where
  "compute_recompute_end existing_sessions latest_changed_at session_gap_hours =
     compute_recompute_end_loop existing_sessions latest_changed_at
       (timedelta_hours session_gap_hours)"

text \<open>The spans of the sessions a run has written, as \<open>fetch_persisted_sessions\<close> reads
  them back (ordered by start).\<close>

definition span_of :: "session \<Rightarrow> persisted_session_span" where
  "span_of s = \<lparr>session_id = 0, span_started_at = started_at s, span_ended_at = ended_at s\<rparr>"

text \<open>
  What \<open>run_segment_for_chat\<close> does with the two bounds: sessions that start before the first
  or from the second on stay as they are, and the messages between them are sessionized
  again.
\<close>

definition in_rebuild_range :: "instant \<Rightarrow> instant option \<Rightarrow> instant \<Rightarrow> bool" where
  "in_rebuild_range from to t \<longleftrightarrow> from \<le> t \<and> (case to of None \<Rightarrow> True | Some b \<Rightarrow> t < b)"

definition incremental_sessions ::
  "session list \<Rightarrow> message list \<Rightarrow> int \<Rightarrow> rat \<Rightarrow> instant \<Rightarrow> instant \<Rightarrow> session list" where
  "incremental_sessions old new c h earliest latest =
     (let spans = map span_of old;
          from = compute_recompute_start spans earliest h;
          to = compute_recompute_end spans latest h
      in filter (\<lambda>s. started_at s < from) old
         @ sessionize (filter (\<lambda>m. in_rebuild_range from to (sent_at m)) new) c h
         @ filter (\<lambda>s. case to of None \<Rightarrow> False | Some b \<Rightarrow> b \<le> started_at s) old)"

lemma compute_recompute_start_le: "compute_recompute_start xs earliest h \<le> earliest"
  by (simp add: compute_recompute_start_def Let_def)

lemma scan_sealed_Some:
  assumes "scan_sealed xs earliest gap n = Some f" and "n \<le> length xs"
  shows "\<exists>i < n. span_ended_at (xs ! i) + gap \<le> earliest \<and>
           f = (if Suc i < length xs then span_started_at (xs ! Suc i) else earliest)"
  using assms by (induction n) (auto split: if_splits intro: less_SucI)

lemma compute_recompute_end_Some:
  assumes "compute_recompute_end_loop xs latest gap = Some b"
  shows "\<exists>ys s zs. xs = ys @ s # zs \<and> b = span_started_at s \<and> b - latest > gap"
  using assms
proof (induction xs)
  case Nil
  then show ?case by simp
next
  case (Cons x xs)
  show ?case
  proof (cases "span_started_at x - latest > gap")
    case True
    with Cons.prems show ?thesis by (intro exI [of _ "[]"] exI [of _ x] exI [of _ xs]) simp
  next
    case False
    with Cons obtain ys s zs where "xs = ys @ s # zs" "b = span_started_at s" "b - latest > gap"
      by auto
    then show ?thesis by (intro exI [of _ "x # ys"] exI [of _ s] exI [of _ zs]) simp
  qed
qed

section \<open>Why the bounds are safe\<close>

text \<open>Nothing before \<open>t\<close> is within a gap of it: a stream can be cut there.\<close>

definition clear_before :: "int \<Rightarrow> instant \<Rightarrow> message list \<Rightarrow> bool" where
  "clear_before gap t ms \<longleftrightarrow> (\<forall>m \<in> set ms. sent_at m < t \<longrightarrow> t - sent_at m > gap)"

lemma sessionize_start_in: "s \<in> set (sessionize ms c h) \<Longrightarrow> \<exists>m \<in> set ms. started_at s = sent_at m"
proof -
  assume "s \<in> set (sessionize ms c h)"
  then obtain g where g: "g \<in> set (gap_groups (timedelta_hours h) ms)" and s: "s = make_session c h g"
    by (auto simp: sessionize_groups)
  from g have "hd g \<in> set ms"
    using concat_gap_groups [of "timedelta_hours h" ms] gap_groups_nonempty [OF g]
    by (metis UN_I hd_in_set set_concat)
  then show ?thesis using s by auto
qed

lemma sessionize_cut:
  assumes sorted: "sorted (map sent_at ms)" and clear: "clear_before (timedelta_hours h) t ms"
  defines "xs \<equiv> filter (\<lambda>m. sent_at m < t) ms" and "ys \<equiv> filter (\<lambda>m. t \<le> sent_at m) ms"
  shows "sessionize ms c h = sessionize xs c h @ sessionize ys c h"
    and "filter (\<lambda>s. started_at s < t) (sessionize ms c h) = sessionize xs c h"
    and "filter (\<lambda>s. t \<le> started_at s) (sessionize ms c h) = sessionize ys c h"
proof -
  have split: "ms = xs @ ys"
    unfolding xs_def ys_def by (rule sorted_filter_split [OF sorted])
  have "sent_at (hd ys) - sent_at (last xs) > timedelta_hours h" if "xs \<noteq> []" "ys \<noteq> []"
  proof -
    have "last xs \<in> set ms" and "sent_at (last xs) < t"
      using that(1) last_in_set [of xs] by (auto simp: xs_def)
    moreover have "t \<le> sent_at (hd ys)"
      using that(2) hd_in_set [of ys] by (auto simp: ys_def)
    ultimately show ?thesis using clear by (force simp: clear_before_def)
  qed
  then show eq: "sessionize ms c h = sessionize xs c h @ sessionize ys c h"
    unfolding sessionize_groups by (subst split) (simp add: gap_groups_append)
  have x: "\<forall>s \<in> set (sessionize xs c h). started_at s < t"
    by (auto dest!: sessionize_start_in simp: xs_def)
  have y: "\<forall>s \<in> set (sessionize ys c h). t \<le> started_at s"
    by (auto dest!: sessionize_start_in simp: ys_def)
  show "filter (\<lambda>s. started_at s < t) (sessionize ms c h) = sessionize xs c h"
    using x y by (simp add: eq filter_empty_conv filter_id_conv not_less)
  show "filter (\<lambda>s. t \<le> started_at s) (sessionize ms c h) = sessionize ys c h"
    using x y by (simp add: eq filter_empty_conv filter_id_conv not_le)
qed

lemma sorted_groups_bounds:
  assumes "sorted (map sent_at (concat (pre @ g # post)))" and "g \<noteq> []"
  shows "m \<in> set (concat pre) \<Longrightarrow> sent_at m \<le> sent_at (hd g)"
    and "m \<in> set (concat (pre @ [g])) \<Longrightarrow> sent_at m \<le> sent_at (last g)"
    and "m \<in> set (concat (g # post)) \<Longrightarrow> sent_at (hd g) \<le> sent_at m"
proof -
  have s: "sorted (map sent_at (concat pre @ g @ concat post))" using assms(1) by simp
  then have sg: "sorted (map sent_at g)" by (simp add: sorted_append)
  show "sent_at m \<le> sent_at (hd g)" if "m \<in> set (concat pre)"
    using that s assms(2) by (auto simp: sorted_append)
  show "sent_at m \<le> sent_at (last g)" if "m \<in> set (concat (pre @ [g]))"
  proof (cases "m \<in> set g")
    case True
    then show ?thesis using sorted_map_le_last [OF sg] by blast
  next
    case False
    with that have "m \<in> set (concat pre)" by auto
    then show ?thesis using s assms(2) by (auto simp: sorted_append)
  qed
  show "sent_at (hd g) \<le> sent_at m" if "m \<in> set (concat (g # post))"
  proof (cases "m \<in> set g")
    case True
    then show ?thesis using sorted_map_hd_le [OF sg] by blast
  next
    case False
    with that have "m \<in> set (concat post)" by auto
    then show ?thesis using s assms(2) by (auto simp: sorted_append)
  qed
qed

lemma separated_middle: "separated gap (pre @ g # g' # post) \<Longrightarrow> sent_at (hd g') - sent_at (last g) > gap"
proof (induction pre)
  case Nil
  then show ?case by simp
next
  case (Cons p pre)
  then show ?case by (cases pre) auto
qed

text \<open>A session start is clear: everything before it is more than a gap away.\<close>

lemma clear_before_group_start:
  assumes gs: "gap_groups gap ms = pre @ g # post" and sorted: "sorted (map sent_at ms)" and "0 \<le> gap"
  shows "clear_before gap (sent_at (hd g)) ms"
proof -
  have ms: "ms = concat (pre @ g # post)" using concat_gap_groups [of gap ms] gs by simp
  have "g \<noteq> []" using gap_groups_nonempty [of g gap ms] gs by simp
  have "sent_at (hd g) - sent_at m > gap" if m: "m \<in> set ms" "sent_at m < sent_at (hd g)" for m
  proof -
    have "m \<notin> set (concat (g # post))"
      using sorted_groups_bounds(3) [of pre g post m] sorted ms \<open>g \<noteq> []\<close> m(2) by auto
    then have mp: "m \<in> set (concat pre)" using m(1) ms by auto
    then obtain pre' p where pre: "pre = pre' @ [p]" by (cases pre rule: rev_cases) auto
    have "p \<noteq> []" using gap_groups_nonempty [of p gap ms] gs pre by simp
    then have "sent_at m \<le> sent_at (last p)"
      using sorted_groups_bounds(2) [of pre' p "g # post" m] sorted ms pre mp by simp
    moreover have "sent_at (hd g) - sent_at (last p) > gap"
      using separated_middle [of gap pre' p g post] gap_groups_separated [of gap ms] gs pre by simp
    ultimately show ?thesis by linarith
  qed
  then show ?thesis by (simp add: clear_before_def)
qed

text \<open>
  So is the first change, or the session start before it, when a session ends more than a
  gap before the change.
\<close>

lemma clear_before_sealed:
  assumes gs: "gap_groups gap ms = pre @ g # post" and sorted: "sorted (map sent_at ms)"
    and sealed: "earliest - sent_at (last g) > gap"
    and f: "f = (case post of [] \<Rightarrow> earliest | g' # _ \<Rightarrow> sent_at (hd g'))"
  shows "clear_before gap (min f earliest) ms"
proof -
  have ms: "ms = concat (pre @ g # post)" using concat_gap_groups [of gap ms] gs by simp
  have ne: "g \<noteq> []" "\<forall>g' \<in> set post. g' \<noteq> []"
    using gap_groups_nonempty [of _ gap ms] gs by auto
  have post_ge: "min f earliest \<le> sent_at m" if m: "m \<in> set (concat post)" for m
  proof -
    obtain g' post' where post: "post = g' # post'" using m by (cases post) auto
    then have "sent_at (hd g') \<le> sent_at m"
      using sorted_groups_bounds(3) [of "pre @ [g]" g' post' m] sorted ms ne(2) m by simp
    then show ?thesis using f post by auto
  qed
  have fg: "f - sent_at (last g) > gap"
    using f sealed gap_groups_separated [of gap ms] gs
    by (cases post) (auto dest: separated_middle)
  have "min f earliest - sent_at m > gap" if m: "m \<in> set ms" "sent_at m < min f earliest" for m
  proof -
    have "m \<notin> set (concat post)" using post_ge m(2) by force
    then have "m \<in> set (concat (pre @ [g]))" using m(1) ms by auto
    then have "sent_at m \<le> sent_at (last g)"
      using sorted_groups_bounds(2) [of pre g post m] sorted ms ne(1) by simp
    then show ?thesis using fg sealed by (simp add: min_def)
  qed
  then show ?thesis by (simp add: clear_before_def)
qed

text \<open>The spans the code reads are the ends of the groups.\<close>

lemma spans_nth:
  assumes "i < length (gap_groups (timedelta_hours h) ms)"
  shows "span_started_at (map span_of (sessionize ms c h) ! i)
           = sent_at (hd (gap_groups (timedelta_hours h) ms ! i))"
    and "span_ended_at (map span_of (sessionize ms c h) ! i)
           = sent_at (last (gap_groups (timedelta_hours h) ms ! i))"
  using assms by (simp_all add: sessionize_groups span_of_def)

lemma length_sessionize [simp]:
  "length (sessionize ms c h) = length (gap_groups (timedelta_hours h) ms)"
  by (simp add: sessionize_groups)

text \<open>With no sealed session the rebuild starts at or before the first message.\<close>

lemma recompute_start_unsealed:
  assumes none: "scan_sealed (map span_of (sessionize ms c h)) earliest (timedelta_hours h)
                   (length (sessionize ms c h)) = None"
    and "sorted (map sent_at ms)" and "m \<in> set ms"
  shows "compute_recompute_start (map span_of (sessionize ms c h)) earliest h \<le> sent_at m"
proof -
  obtain m0 rest where ms: "ms = m0 # rest" using assms(3) by (cases ms) auto
  obtain g gs where gs: "gap_groups (timedelta_hours h) ms = g # gs"
    using ms by (cases "gap_groups (timedelta_hours h) ms") auto
  then have "hd g = m0" using gap_groups_hd [of "timedelta_hours h" m0 rest g gs] ms by auto
  then have "compute_recompute_start (map span_of (sessionize ms c h)) earliest h \<le> sent_at m0"
    using none gs by (simp add: compute_recompute_start_def Let_def sessionize_groups span_of_def)
  moreover have "sent_at m0 \<le> sent_at m" using assms(2,3) ms by auto
  ultimately show ?thesis by simp
qed

lemma recompute_start_sealed:
  assumes "scan_sealed (map span_of (sessionize ms c h)) earliest (timedelta_hours h)
             (length (sessionize ms c h)) = Some f"
  obtains pre g post where
    "gap_groups (timedelta_hours h) ms = pre @ g # post"
    "sent_at (last g) + timedelta_hours h \<le> earliest"
    "f = (case post of [] \<Rightarrow> earliest | g' # _ \<Rightarrow> sent_at (hd g'))"
proof -
  let ?gs = "gap_groups (timedelta_hours h) ms"
  obtain i where i: "i < length ?gs"
      "span_ended_at (map span_of (sessionize ms c h) ! i) + timedelta_hours h \<le> earliest"
      "f = (if Suc i < length ?gs then span_started_at (map span_of (sessionize ms c h) ! Suc i)
            else earliest)"
    using scan_sealed_Some [OF assms] by auto
  have "?gs = take i ?gs @ ?gs ! i # drop (Suc i) ?gs" using i(1) by (rule id_take_nth_drop)
  moreover have "sent_at (last (?gs ! i)) + timedelta_hours h \<le> earliest"
    using i(1,2) by (simp only: spans_nth)
  moreover have "f = (case drop (Suc i) ?gs of [] \<Rightarrow> earliest | g' # _ \<Rightarrow> sent_at (hd g'))"
    using i(3) by (cases "Suc i < length ?gs") (simp_all only: spans_nth drop_eq_Nil
        Cons_nth_drop_Suc [symmetric] list.case if_True if_False not_less, simp)
  ultimately show thesis by (rule that)
qed

lemma recompute_start_clear:
  assumes sorted: "sorted (map sent_at ms)"
    and strict: "\<forall>s \<in> set (sessionize ms c h). ended_at s + timedelta_hours h \<noteq> earliest"
  shows "clear_before (timedelta_hours h)
           (compute_recompute_start (map span_of (sessionize ms c h)) earliest h) ms"
proof (cases "scan_sealed (map span_of (sessionize ms c h)) earliest (timedelta_hours h)
                (length (sessionize ms c h))")
  case None
  then show ?thesis
    using recompute_start_unsealed [OF None sorted] by (force simp: clear_before_def)
next
  case (Some f)
  obtain pre g post where g: "gap_groups (timedelta_hours h) ms = pre @ g # post"
      "sent_at (last g) + timedelta_hours h \<le> earliest"
      "f = (case post of [] \<Rightarrow> earliest | g' # _ \<Rightarrow> sent_at (hd g'))"
    using recompute_start_sealed [OF Some] .
  have "make_session c h g \<in> set (sessionize ms c h)" using g(1) by (simp add: sessionize_groups)
  then have "earliest - sent_at (last g) > timedelta_hours h" using strict g(2) by force
  then have "clear_before (timedelta_hours h) (min f earliest) ms"
    using clear_before_sealed [OF g(1) sorted _ g(3)] by simp
  then show ?thesis using Some by (simp add: compute_recompute_start_def Let_def)
qed

lemma recompute_end_clear:
  assumes sorted: "sorted (map sent_at ms)" and "0 \<le> h"
    and some: "compute_recompute_end (map span_of (sessionize ms c h)) latest h = Some b"
  shows "clear_before (timedelta_hours h) b ms" and "b - latest > timedelta_hours h"
proof -
  obtain ys s zs where s: "map span_of (sessionize ms c h) = ys @ s # zs" "b = span_started_at s"
      and late: "b - latest > timedelta_hours h"
    using compute_recompute_end_Some [of _ latest "timedelta_hours h" b] some
    unfolding compute_recompute_end_def by blast
  then obtain pre g post where "gap_groups (timedelta_hours h) ms = pre @ g # post"
      and "s = span_of (make_session c h g)"
    by (auto simp: sessionize_groups map_eq_append_conv)
  then show "clear_before (timedelta_hours h) b ms"
    using clear_before_group_start [of "timedelta_hours h" ms pre g post] sorted
      timedelta_hours_nonneg [OF \<open>0 \<le> h\<close>] s(2) by (simp add: span_of_def)
  show "b - latest > timedelta_hours h" by (rule late)
qed

text \<open>Messages outside the changed interval are the same before and after.\<close>

definition changed_within :: "instant \<Rightarrow> instant \<Rightarrow> message list \<Rightarrow> message list \<Rightarrow> bool" where
  "changed_within earliest latest old new \<longleftrightarrow>
     filter (\<lambda>m. sent_at m < earliest) old = filter (\<lambda>m. sent_at m < earliest) new \<and>
     filter (\<lambda>m. latest < sent_at m) old = filter (\<lambda>m. latest < sent_at m) new"

lemma changed_within_before:
  assumes "changed_within earliest latest old new" and "t \<le> earliest"
  shows "filter (\<lambda>m. sent_at m < t) new = filter (\<lambda>m. sent_at m < t) old"
proof -
  have *: "filter (\<lambda>m. sent_at m < t) ms =
      filter (\<lambda>m. sent_at m < t) (filter (\<lambda>m. sent_at m < earliest) ms)" for ms
    using assms(2) by (auto intro!: filter_cong)
  show ?thesis using assms(1) by (simp only: * [of new] * [of old] changed_within_def)
qed

lemma changed_within_after:
  assumes "changed_within earliest latest old new" and "latest < t"
  shows "filter (\<lambda>m. t \<le> sent_at m) new = filter (\<lambda>m. t \<le> sent_at m) old"
proof -
  have *: "filter (\<lambda>m. t \<le> sent_at m) ms =
      filter (\<lambda>m. t \<le> sent_at m) (filter (\<lambda>m. latest < sent_at m) ms)" for ms
    using assms(2) by (auto intro!: filter_cong)
  show ?thesis using assms(1) by (simp only: * [of new] * [of old] changed_within_def)
qed

lemma changed_within_clear_start:
  assumes "changed_within earliest latest old new" and "t \<le> earliest" and "clear_before gap t old"
  shows "clear_before gap t new"
proof -
  have "set (filter (\<lambda>m. sent_at m < t) new) = set (filter (\<lambda>m. sent_at m < t) old)"
    using changed_within_before [OF assms(1,2)] by simp
  then show ?thesis using assms(3) by (auto simp: clear_before_def)
qed

lemma changed_within_clear_end:
  assumes "changed_within earliest latest old new" and "t - latest > gap" and "clear_before gap t old"
  shows "clear_before gap t new"
proof -
  have "set (filter (\<lambda>m. latest < sent_at m) new) = set (filter (\<lambda>m. latest < sent_at m) old)"
    using assms(1) by (simp add: changed_within_def)
  then have late: "m \<in> set old" if "m \<in> set new" "latest < sent_at m" for m using that by auto
  have "t - sent_at m > gap" if m: "m \<in> set new" "sent_at m < t" for m
  proof (cases "latest < sent_at m")
    case True
    then show ?thesis using late m assms(3) by (simp add: clear_before_def)
  next
    case False
    then show ?thesis using assms(2) by linarith
  qed
  then show ?thesis by (simp add: clear_before_def)
qed

lemma sessionize_cut_twice:
  assumes sorted: "sorted (map sent_at ms)" and "a < b"
    and clear: "clear_before (timedelta_hours h) a ms" "clear_before (timedelta_hours h) b ms"
  shows "sessionize ms c h =
           sessionize (filter (\<lambda>m. sent_at m < a) ms) c h
           @ sessionize (filter (\<lambda>m. a \<le> sent_at m \<and> sent_at m < b) ms) c h
           @ sessionize (filter (\<lambda>m. b \<le> sent_at m) ms) c h"
proof -
  let ?tail = "filter (\<lambda>m. a \<le> sent_at m) ms"
  have "clear_before (timedelta_hours h) b ?tail" using clear(2) by (auto simp: clear_before_def)
  note cut = sessionize_cut(1) [OF sorted_map_filter [OF sorted] this, of c]
  have "filter (\<lambda>m. sent_at m < b) ?tail = filter (\<lambda>m. a \<le> sent_at m \<and> sent_at m < b) ms"
    and "filter (\<lambda>m. b \<le> sent_at m) ?tail = filter (\<lambda>m. b \<le> sent_at m) ms"
    using \<open>a < b\<close> by (auto intro!: filter_cong)
  then show ?thesis using sessionize_cut(1) [OF sorted clear(1), of c] cut by simp
qed

section \<open>Properties\<close>

text \<open>
  C33: The incremental rebuild is exact. Sessionizing again only the messages between the
  two bounds, and keeping the persisted sessions outside them, gives the sessions of a
  full rebuild, when messages changed only between \<open>earliest\<close> and \<open>latest\<close> and no
  persisted session ends exactly one gap before \<open>earliest\<close>.
\<close>

theorem incremental_sessions_agree:
  assumes sorted: "sorted (map sent_at old)" "sorted (map sent_at new)"
    and "0 \<le> h" and "earliest \<le> latest"
    and changed: "changed_within earliest latest old new"
    and strict: "\<forall>s \<in> set (sessionize old c h). ended_at s + timedelta_hours h \<noteq> earliest"
  shows "incremental_sessions (sessionize old c h) new c h earliest latest = sessionize new c h"
proof -
  let ?spans = "map span_of (sessionize old c h)"
  let ?from = "compute_recompute_start ?spans earliest h"
  have start_le: "?from \<le> earliest" by (rule compute_recompute_start_le)
  have clear_old: "clear_before (timedelta_hours h) ?from old"
    by (rule recompute_start_clear [OF sorted(1) strict])
  have clear_new: "clear_before (timedelta_hours h) ?from new"
    by (rule changed_within_clear_start [OF changed start_le clear_old])
  have pre: "filter (\<lambda>s. started_at s < ?from) (sessionize old c h)
      = sessionize (filter (\<lambda>m. sent_at m < ?from) new) c h"
    using sessionize_cut(2) [OF sorted(1) clear_old, of c] changed_within_before [OF changed start_le]
    by simp
  show ?thesis
  proof (cases "compute_recompute_end ?spans latest h")
    case None
    then show ?thesis
      using pre sessionize_cut(1) [OF sorted(2) clear_new, of c]
      by (simp add: incremental_sessions_def Let_def in_rebuild_range_def)
  next
    case (Some b)
    note b_old = recompute_end_clear [OF sorted(1) \<open>0 \<le> h\<close> Some]
    have b_new: "clear_before (timedelta_hours h) b new"
      by (rule changed_within_clear_end [OF changed b_old(2,1)])
    have "latest < b" using b_old(2) timedelta_hours_nonneg [OF \<open>0 \<le> h\<close>] by linarith
    then have post: "filter (\<lambda>s. b \<le> started_at s) (sessionize old c h)
        = sessionize (filter (\<lambda>m. b \<le> sent_at m) new) c h"
      using sessionize_cut(3) [OF sorted(1) b_old(1), of c] changed_within_after [OF changed]
      by simp
    have "?from < b" using start_le \<open>earliest \<le> latest\<close> \<open>latest < b\<close> by linarith
    then show ?thesis
      using pre post sessionize_cut_twice [OF sorted(2) _ clear_new b_new, of c] Some
      by (simp add: incremental_sessions_def Let_def in_rebuild_range_def)
  qed
qed

text \<open>A message of a given id and instant, for the concrete runs.\<close>

definition sample_message :: "int \<Rightarrow> instant \<Rightarrow> message" where
  "sample_message i t =
     \<lparr>message_id = i, source_guid = ''g'', msg_chat_id = 1, sent_at = t, is_from_me = False,
      sender_short_name = ''ann'', msg_text = Some ''hi'', is_unsent = False, is_edited = False,
      has_attachments = False, attachments = [], tapback_suffixes = [], edit_history = [],
      is_deleted = False\<rparr>"

lemma sent_at_sample [simp]: "sent_at (sample_message i t) = t"
  by (simp add: sample_message_def)

lemma timedelta_one_hour [simp]: "timedelta_hours 1 = 3600000000"
  using timedelta_hours_of_nat [of 1] by simp

theorem incremental_sessions_agree_witness:
  "incremental_sessions
     (sessionize [sample_message 1 0, sample_message 2 9000000000, sample_message 3 30000000000] 7 1)
     [sample_message 1 0, sample_message 2 9000000000, sample_message 4 9000000001,
      sample_message 3 30000000000] 7 1 9000000001 9000000001
   = sessionize [sample_message 1 0, sample_message 2 9000000000, sample_message 4 9000000001,
      sample_message 3 30000000000] 7 1"
  by (rule incremental_sessions_agree) (simp_all add: changed_within_def sessionize_def)

text \<open>
  The sessions are a partition of the chat into maximal runs: in order they hold every
  message once, no session is empty, inside a session consecutive messages are at most one
  gap apart, consecutive sessions are more than one gap apart, and each session's ends are
  those of its first and last message.
\<close>

theorem sessionize_partition:
  "valid_grouping (timedelta_hours h) ms (map ses_messages (sessionize ms c h)) \<and>
   list_all (\<lambda>s. started_at s = sent_at (hd (ses_messages s)) \<and>
                 ended_at s = sent_at (last (ses_messages s)) \<and>
                 ses_chat_id s = c \<and> gap_hours s = h) (sessionize ms c h)"
  by (simp add: map_ses_messages_sessionize gap_groups_valid)
     (simp add: sessionize_groups list_all_iff)

text \<open>
  The bounds never hide a change: the rebuild starts no later than the first change and,
  when it has an end, ends more than one gap after the last change.
\<close>

theorem rebuild_range_covers_changes:
  "compute_recompute_start spans earliest h \<le> earliest \<and>
   (case compute_recompute_end spans latest h of
      None \<Rightarrow> True | Some b \<Rightarrow> b - latest > timedelta_hours h)"
  using compute_recompute_end_Some [of spans latest "timedelta_hours h"]
  by (auto simp: compute_recompute_start_le compute_recompute_end_def split: option.split)

lemma gap_groups_snoc:
  assumes "ms \<noteq> []" and "sent_at m - sent_at (last ms) \<le> gap"
  shows "gap_groups gap (ms @ [m]) = butlast (gap_groups gap ms) @ [last (gap_groups gap ms) @ [m]]"
  using assms
proof (induction gap ms rule: gap_groups.induct)
  case (3 gap a b ms)
  then show ?case by (cases "gap_groups gap (b # ms)") (auto split: if_splits)
qed simp_all

text \<open>The newest session of a chat ends with its newest message.\<close>

lemma last_group:
  assumes "ms \<noteq> []"
  shows "last (last (gap_groups gap ms)) = last ms"
proof -
  let ?gs = "gap_groups gap ms"
  have ne: "?gs \<noteq> []" "last ?gs \<noteq> []" using assms gap_groups_nonempty [of "last ?gs" gap ms] by auto
  have "ms = concat (butlast ?gs @ [last ?gs])" using ne(1) concat_gap_groups [of gap ms] by simp
  then have "last ms = last (concat (butlast ?gs @ [last ?gs]))" by simp
  then show ?thesis using ne(2) by simp
qed

text \<open>
  C40: The seal test \<open>span.ended_at + gap <= earliest_changed_at\<close> is one microsecond too
  eager. Whatever a chat holds: a new message sent exactly one gap after its newest one belongs to the
  newest session for \<open>sessionize\<close> (which splits only on a longer gap), yet the incremental
  run seals that session and files the message in a session of its own.
\<close>

theorem incremental_boundary_gap:
  assumes "sorted (map sent_at old)" and "old \<noteq> []" and "0 < timedelta_hours h"
    and "sent_at m = sent_at (last old) + timedelta_hours h"
    and kept: "kept = map ses_messages (sessionize old c h)"
  shows "map ses_messages (sessionize (old @ [m]) c h) = butlast kept @ [last kept @ [m]]
    \<and> map ses_messages (incremental_sessions (sessionize old c h) (old @ [m]) c h (sent_at m) (sent_at m))
       = kept @ [[m]]"
proof -
  let ?gap = "timedelta_hours h" and ?gs = "gap_groups (timedelta_hours h) old"
  let ?spans = "map span_of (sessionize old c h)"
  have whole: "map ses_messages (sessionize (old @ [m]) c h) = butlast kept @ [last kept @ [m]]"
    unfolding kept map_ses_messages_sessionize by (rule gap_groups_snoc) (use assms(2,4) in simp_all)
  have before: "sent_at x < sent_at m" if "x \<in> set old" for x
    using sorted_map_le_last [OF assms(1) that] assms(3,4) by linarith
  obtain n where n: "length ?gs = Suc n" using assms(2) by (cases "length ?gs") auto
  have "span_ended_at (?spans ! n) = sent_at (last old)"
    using spans_nth(2) [of n h old c] n last_group [OF assms(2), of ?gap] last_conv_nth [of ?gs] assms(2) by simp
  then have "scan_sealed ?spans (sent_at m) ?gap (length ?spans) = Some (sent_at m)"
    using n assms(4) by simp
  then have from_m: "compute_recompute_start ?spans (sent_at m) h = sent_at m"
    by (simp add: compute_recompute_start_def Let_def)
  have start: "started_at s < sent_at m" if "s \<in> set (sessionize old c h)" for s
    using sessionize_start_in [OF that] before by auto
  have "compute_recompute_end ?spans (sent_at m) h = None"
  proof (cases "compute_recompute_end ?spans (sent_at m) h")
    case (Some b)
    then obtain ys s zs where "?spans = ys @ s # zs" "b = span_started_at s" "b - sent_at m > ?gap"
      using compute_recompute_end_Some by (fastforce simp: compute_recompute_end_def)
    then have "s \<in> set ?spans" "sent_at m + ?gap < span_started_at s" by simp_all
    then obtain t where "t \<in> set (sessionize old c h)" "sent_at m + ?gap < started_at t" by (auto simp: span_of_def)
    then show ?thesis using start [of t] assms(3) by simp
  qed
  moreover have "filter (\<lambda>s. started_at s < sent_at m) (sessionize old c h) = sessionize old c h"
    using start by (simp add: filter_id_conv)
  moreover have "filter (\<lambda>x. sent_at m \<le> sent_at x) (old @ [m]) = [m]"
    using before by (auto simp: filter_empty_conv not_le)
  moreover have one: "map ses_messages (sessionize [m] c h) = [[m]]" by (simp add: map_ses_messages_sessionize)
  ultimately have "map ses_messages (incremental_sessions (sessionize old c h) (old @ [m]) c h (sent_at m) (sent_at m))
      = kept @ [[m]]"
    by (simp add: incremental_sessions_def from_m in_rebuild_range_def Let_def kept map_ses_messages_sessionize)
  with whole show ?thesis ..
qed

theorem incremental_boundary_gap_witness:
  "map ses_messages (incremental_sessions (sessionize [sample_message 1 0] 7 1)
       [sample_message 1 0, sample_message 2 3600000000] 7 1 3600000000 3600000000)
     = [[sample_message 1 0], [sample_message 2 3600000000]] \<and>
   map ses_messages (sessionize [sample_message 1 0, sample_message 2 3600000000] 7 1)
     = [[sample_message 1 0, sample_message 2 3600000000]]"
  using incremental_boundary_gap [where old = "[sample_message 1 0]" and h = 1 and m = "sample_message 2 3600000000" and c = 7]
  by (simp add: sessionize_def make_session_def)

end
