(* ===== verification/Boundaries.thy ===== *)
theory Boundaries
  imports Sessionize
begin

text \<open>
  Pass 2 of segmentation, \<open>src/imsg/segment/boundaries.py\<close>: topical boundaries from a
  model over windows of a session, then the minimum size, then the hard caps. The model is
  the parameter \<open>detect\<close>, a function of the provider's own state; \<open>fake_detect\<close> is the
  provider the source defines, and the interface \<open>boundary_provider\<close> holds what its
  docstring promises.

  \<open>segment_session_partition\<close>: whatever the provider answers, the segments of a session
  hold its messages, in order and once. \<open>segment_session_bounded\<close>: unless the session is
  short or fell back, every segment respects both caps. \<open>hard_split_leaves_one\<close>: the caps
  come after the minimum, so a one-message segment is possible.
\<close>

record segment_draft =
  session_started_at :: instant
  seq_in_session :: nat
  draft_messages :: "message list"
  topic_label :: "string option"

datatype boundary_error = BoundaryDetectionError

type_synonym 'p detector = "'p \<Rightarrow> message list \<Rightarrow> (boundary_error + int list) \<times> 'p"

definition BOUNDARY_WINDOW_TOKENS :: nat where "BOUNDARY_WINDOW_TOKENS = 4000"
definition BOUNDARY_WINDOW_OVERLAP_MESSAGES :: int where "BOUNDARY_WINDOW_OVERLAP_MESSAGES = 10"
definition MIN_MESSAGES_PER_SEGMENT :: nat where "MIN_MESSAGES_PER_SEGMENT = 2"

section \<open>The provider interface\<close>

locale boundary_provider =
  fixes detect :: "'p \<Rightarrow> message list \<Rightarrow> (boundary_error + int list) \<times> 'p"
  assumes detect_sorted: "detect st w = (Inr bs, st') \<Longrightarrow> sorted bs \<and> distinct bs"
    and detect_in_range: "detect st w = (Inr bs, st') \<Longrightarrow> b \<in> set bs \<Longrightarrow> 0 < b \<and> b < int (length w)"

text \<open>
  \<open>FakeBoundaryProvider.detect_boundaries\<close>; its state is the number of calls so far.
  \<open>range(step, n, step)\<close> is the multiples of \<open>step\<close> below \<open>n\<close>.
\<close>

fun multiples_below :: "nat \<Rightarrow> nat \<Rightarrow> nat \<Rightarrow> nat list" where
  "multiples_below step n 0 = []"
| "multiples_below step n (Suc k) =
     multiples_below step n k @ (if step * Suc k < n then [step * Suc k] else [])"

definition range_from_step :: "nat \<Rightarrow> nat \<Rightarrow> int list" where
  "range_from_step step n = map int (multiples_below step n n)"

definition fake_detect :: "nat \<Rightarrow> bool \<Rightarrow> nat \<Rightarrow> nat detector" where
  "fake_detect messages_per_segment always_fail fail_first_n_calls calls w =
     (let calls = Suc calls
      in if always_fail \<or> calls \<le> fail_first_n_calls then (Inl BoundaryDetectionError, calls)
         else (Inr (range_from_step messages_per_segment (length w)), calls))"

lemma set_multiples_below:
  "b \<in> set (multiples_below step n k) \<Longrightarrow> b < n \<and> (\<exists>j. 0 < j \<and> j \<le> k \<and> b = step * j)"
  by (induction k) (auto split: if_splits intro: le_SucI simp del: mult_Suc_right)

lemma multiples_below_sorted: "0 < step \<Longrightarrow> sorted_wrt (<) (multiples_below step n k)"
proof (induction k)
  case (Suc k)
  have "b < step * Suc k" if "b \<in> set (multiples_below step n k)" for b
    using set_multiples_below [OF that] Suc.prems by (auto simp: less_Suc_eq_le simp del: mult_Suc_right)
  then show ?case using Suc by (auto simp: sorted_wrt_append)
qed simp

interpretation fake: boundary_provider "fake_detect (Suc step) always_fail n"
  for step always_fail n
proof
  fix st w bs st'
  assume d: "fake_detect (Suc step) always_fail n st w = (Inr bs, st')"
  then have bs: "bs = map int (multiples_below (Suc step) (length w) (length w))"
    by (auto simp: fake_detect_def Let_def range_from_step_def split: if_splits)
  have "sorted_wrt (<) (multiples_below (Suc step) (length w) (length w))"
    by (rule multiples_below_sorted) simp
  then have "sorted_wrt (<) bs" unfolding bs by (simp add: sorted_wrt_map)
  then show "sorted bs \<and> distinct bs" by (simp add: strict_sorted_iff)
  show "0 < b \<and> b < int (length w)" if "b \<in> set bs" for b
    using that set_multiples_below unfolding bs by force
qed

section \<open>Windows\<close>

text \<open>\<open>_extend_window\<close>: the loop variable \<open>i\<close> and the running \<open>total\<close>.\<close>

function extend_loop :: "message list \<Rightarrow> nat \<Rightarrow> nat \<Rightarrow> nat \<Rightarrow> nat \<Rightarrow> nat" where
  "extend_loop ms start max_tokens tot i =
     (if i < length ms
      then let cost = message_cost (ms ! i)
           in if i > start \<and> tot + cost > max_tokens then i
              else extend_loop ms start max_tokens (tot + cost) (Suc i)
      else i)"
  by pat_completeness auto
termination by (relation "measure (\<lambda>(ms, start, max_tokens, tot, i). length ms - i)") auto

declare extend_loop.simps [simp del]

definition extend_window :: "message list \<Rightarrow> nat \<Rightarrow> nat \<Rightarrow> nat" where
  "extend_window ms start max_tokens = max (extend_loop ms start max_tokens 0 start) (start + 1)"

lemma extend_loop_bounds:
  "i \<le> length ms \<Longrightarrow> i \<le> extend_loop ms start k tot i \<and> extend_loop ms start k tot i \<le> length ms"
proof (induction ms start k tot i rule: extend_loop.induct)
  case (1 ms start k tot i)
  then show ?case by (subst (1 2) extend_loop.simps) (auto simp: Let_def)
qed

lemma extend_window_bounds:
  "start < length ms \<Longrightarrow> start < extend_window ms start k \<and> extend_window ms start k \<le> length ms"
  using extend_loop_bounds [of start ms start k 0] by (auto simp: extend_window_def)

text \<open>One retry per window; a second failure is the caller's.\<close>

definition detect_boundaries_for_window ::
  "'p detector \<Rightarrow> 'p \<Rightarrow> message list \<Rightarrow> (boundary_error + int list) \<times> 'p" where
  "detect_boundaries_for_window detect st w =
     (case detect st w of (Inl _, st') \<Rightarrow> detect st' w | (Inr bs, st') \<Rightarrow> (Inr bs, st'))"

text \<open>
  One turn of the window loop: the provider's boundaries of the window at \<open>window_start\<close>,
  checked and shifted to indices of the session, and where the next window starts.
\<close>

definition window_boundaries ::
  "'p detector \<Rightarrow> message list \<Rightarrow> 'p \<Rightarrow> nat \<Rightarrow> (boundary_error + nat set) \<times> 'p" where
  "window_boundaries detect ms st window_start =
     (let window_end = extend_window ms window_start BOUNDARY_WINDOW_TOKENS;
          window = take (window_end - window_start) (drop window_start ms)
      in case detect_boundaries_for_window detect st window of
           (Inl e, st') \<Rightarrow> (Inl e, st')
         | (Inr local_boundaries, st') \<Rightarrow>
             if list_all (\<lambda>b. 0 < b \<and> b < int (length window)) local_boundaries
             then (Inr ((\<lambda>b. window_start + nat b) ` set local_boundaries), st')
             else (Inl BoundaryDetectionError, st'))"

definition next_window_start :: "message list \<Rightarrow> nat \<Rightarrow> nat" where
  "next_window_start ms window_start =
     (let window_end = extend_window ms window_start BOUNDARY_WINDOW_TOKENS;
          next_start = int window_end - BOUNDARY_WINDOW_OVERLAP_MESSAGES
      in if next_start \<le> int window_start then window_start + 1 else nat next_start)"

lemma next_window_start_grows: "window_start < next_window_start ms window_start"
  by (auto simp: next_window_start_def Let_def)

lemma window_boundaries_range:
  assumes "window_boundaries detect ms st ws = (Inr bs, st')" and "ws < length ms"
  shows "finite bs \<and> bs \<subseteq> {0<..<length ms}"
proof -
  have we: "ws < extend_window ms ws k \<and> extend_window ms ws k \<le> length ms" for k
    by (rule extend_window_bounds [OF assms(2)])
  show ?thesis
    using assms(1) we [of BOUNDARY_WINDOW_TOKENS]
    by (fastforce simp: window_boundaries_def Let_def list_all_iff split: prod.splits sum.splits if_splits)
qed

function detect_boundaries_windowed ::
  "'p detector \<Rightarrow> message list \<Rightarrow> 'p \<Rightarrow> nat set \<Rightarrow> nat \<Rightarrow> (boundary_error + nat list) \<times> 'p" where
  "detect_boundaries_windowed detect ms st found window_start =
     (if window_start < length ms
      then case window_boundaries detect ms st window_start of
             (Inl e, st') \<Rightarrow> (Inl e, st')
           | (Inr bs, st') \<Rightarrow>
               if extend_window ms window_start BOUNDARY_WINDOW_TOKENS \<ge> length ms
               then (Inr (sorted_list_of_set (found \<union> bs)), st')
               else detect_boundaries_windowed detect ms st' (found \<union> bs)
                      (next_window_start ms window_start)
      else (Inr (sorted_list_of_set found), st))"
  by pat_completeness auto
termination
  by (relation "measure (\<lambda>(detect, ms, st, found, window_start). length ms - window_start)")
     (auto intro: diff_less_mono2 next_window_start_grows)

declare detect_boundaries_windowed.simps [simp del]

text \<open>Whatever the provider answers, an accepted boundary is strictly inside the session.\<close>

lemma detect_boundaries_windowed_range:
  assumes "detect_boundaries_windowed detect ms st found ws = (Inr bs, st')"
    and "finite found" and "found \<subseteq> {0<..<length ms}"
  shows "sorted bs \<and> distinct bs \<and> set bs \<subseteq> {0<..<length ms}"
  using assms
proof (induction detect ms st found ws rule: detect_boundaries_windowed.induct)
  case (1 detect ms st found ws)
  note eq = detect_boundaries_windowed.simps [of detect ms st found ws]
  show ?case
  proof (cases "ws < length ms")
    case False
    then show ?thesis using "1.prems" by (auto simp: eq)
  next
    case True
    then obtain new st1 where w: "window_boundaries detect ms st ws = (Inr new, st1)"
      using "1.prems"(1) by (auto simp: eq split: prod.splits sum.splits)
    then have new: "finite (found \<union> new)" "found \<union> new \<subseteq> {0<..<length ms}"
      using window_boundaries_range [OF w True] "1.prems"(2,3) by auto
    show ?thesis
    proof (cases "extend_window ms ws BOUNDARY_WINDOW_TOKENS \<ge> length ms")
      case True2: True
      then have "bs = sorted_list_of_set (found \<union> new)" using "1.prems"(1) True w by (simp add: eq)
      then show ?thesis using new by (simp del: finite_Un)
    next
      case False
      then show ?thesis
        using "1.IH" [OF True w [symmetric] refl False _ new] "1.prems"(1) True w
        by (simp add: eq)
    qed
  qed
qed

text \<open>A provider that keeps its promise and never fails never causes a fallback.\<close>

context boundary_provider
begin

lemma window_boundaries_ok:
  assumes "detect st (take (extend_window ms ws BOUNDARY_WINDOW_TOKENS - ws) (drop ws ms)) = (Inr bs, st')"
  shows "\<exists>new. window_boundaries detect ms st ws = (Inr new, st')"
  using assms detect_in_range [OF assms]
  by (auto simp: window_boundaries_def Let_def detect_boundaries_for_window_def list_all_iff)

lemma windowed_never_fails:
  assumes "\<And>st w. \<exists>bs st'. detect st w = (Inr bs, st')"
  shows "\<exists>bs st'. detect_boundaries_windowed detect ms st found ws = (Inr bs, st')"
proof (induction "length ms - ws" arbitrary: st found ws rule: less_induct)
  case less
  note eq = detect_boundaries_windowed.simps [of detect ms st found ws]
  obtain new st1 where w: "window_boundaries detect ms st ws = (Inr new, st1)"
    using assms window_boundaries_ok by meson
  show ?case
  proof (cases "ws < length ms \<and> \<not> extend_window ms ws BOUNDARY_WINDOW_TOKENS \<ge> length ms")
    case True
    then show ?thesis
      using less [of "next_window_start ms ws" st1 "found \<union> new"] next_window_start_grows [of ws ms] w
      by (simp add: eq diff_less_mono2)
  next
    case False
    then show ?thesis using w by (auto simp: eq)
  qed
qed

end

section \<open>Groups of indices\<close>

type_synonym group = "nat \<times> nat"

definition boundaries_to_groups :: "nat \<Rightarrow> nat list \<Rightarrow> group list" where
  "boundaries_to_groups n boundaries =
     (let points = 0 # sort (remdups boundaries) @ [n]
      in filter (\<lambda>(a, b). a < b) (zip points (tl points)))"

text \<open>The loop of \<open>_merge_undersized_groups\<close>; \<open>merged\<close> is never empty there.\<close>

fun merge_loop :: "nat \<Rightarrow> group list \<Rightarrow> group list \<Rightarrow> group list" where
  "merge_loop min_messages merged [] = merged"
| "merge_loop min_messages merged ((s, e) # rest) =
     (if snd (last merged) - fst (last merged) < min_messages
      then merge_loop min_messages (butlast merged @ [(fst (last merged), e)]) rest
      else merge_loop min_messages (merged @ [(s, e)]) rest)"

definition merge_undersized_groups :: "group list \<Rightarrow> nat \<Rightarrow> group list" where
  "merge_undersized_groups groups min_messages =
     (case groups of
        [] \<Rightarrow> []
      | g # rest \<Rightarrow>
          let merged = merge_loop min_messages [g] rest
          in if length merged > 1 \<and> snd (last merged) - fst (last merged) < min_messages
             then butlast (butlast merged)
                  @ [(fst (last (butlast merged)), snd (last merged))]
             else merged)"

text \<open>
  The inner loop of \<open>_hard_split_groups\<close> over the indices of one group: \<open>chunk_start\<close>,
  \<open>count\<close> and \<open>token_total\<close> are its variables, \<open>end\<close> the end of the group.
\<close>

fun hard_split_loop ::
  "message list \<Rightarrow> nat \<Rightarrow> nat \<Rightarrow> nat \<Rightarrow> nat \<Rightarrow> nat \<Rightarrow> nat \<Rightarrow> nat list \<Rightarrow> group list" where
  "hard_split_loop ms max_messages max_tokens e chunk_start cnt token_total [] = [(chunk_start, e)]"
| "hard_split_loop ms max_messages max_tokens e chunk_start cnt token_total (i # is) =
     (let cost = message_cost (ms ! i);
          would_count = cnt + 1;
          would_tokens = token_total + cost
      in if cnt > 0 \<and> (would_count > max_messages \<or> would_tokens > max_tokens)
         then (chunk_start, i) # hard_split_loop ms max_messages max_tokens e i 1 cost is
         else hard_split_loop ms max_messages max_tokens e chunk_start would_count would_tokens is)"

definition hard_split_groups :: "group list \<Rightarrow> message list \<Rightarrow> nat \<Rightarrow> nat \<Rightarrow> group list" where
  "hard_split_groups groups ms max_messages max_tokens =
     concat (map (\<lambda>(s, e). hard_split_loop ms max_messages max_tokens e s 0 0 [s..<e]) groups)"

text \<open>Contiguous, non-empty groups from \<open>a\<close> to \<open>b\<close>.\<close>

fun chain :: "nat \<Rightarrow> nat \<Rightarrow> group list \<Rightarrow> bool" where
  "chain a b [] = (a = b)"
| "chain a b ((s, e) # gs) = (s = a \<and> s < e \<and> chain e b gs)"

lemma chain_append: "chain a c (xs @ ys) \<longleftrightarrow> (\<exists>b. chain a b xs \<and> chain b c ys)"
  by (induction xs arbitrary: a) auto

lemma chain_le: "chain a b gs \<Longrightarrow> a \<le> b"
  by (induction gs arbitrary: a) (simp, fastforce)

lemma chain_member: "chain a b gs \<Longrightarrow> g \<in> set gs \<Longrightarrow> a \<le> fst g \<and> fst g < snd g \<and> snd g \<le> b"
proof (induction gs arbitrary: a)
  case (Cons g' gs)
  then show ?case using chain_le [of _ b gs] by (cases g') fastforce
qed simp

lemma chain_points:
  "sorted (a # xs @ [n]) \<Longrightarrow>
   chain a n (filter (\<lambda>(a, b). a < b) (zip (a # xs @ [n]) (xs @ [n])))"
  by (induction xs arbitrary: a) auto

lemma boundaries_to_groups_chain:
  assumes "set bs \<subseteq> {0<..<n}"
  shows "chain 0 n (boundaries_to_groups n bs)"
proof -
  have "sorted (0 # sort (remdups bs) @ [n])"
    using assms by (auto simp: sorted_append)
  then show ?thesis using chain_points [of 0 "sort (remdups bs)" n]
    by (simp add: boundaries_to_groups_def Let_def)
qed

lemma chain_butlast_last:
  "gs \<noteq> [] \<Longrightarrow> chain a b gs \<Longrightarrow>
   chain a (fst (last gs)) (butlast gs) \<and> fst (last gs) < b \<and> snd (last gs) = b"
proof (induction gs arbitrary: a)
  case (Cons g gs)
  then show ?case by (cases g; cases gs) auto
qed simp

lemma chain_replace_last:
  "gs \<noteq> [] \<Longrightarrow> chain a b gs \<Longrightarrow> b \<le> c \<Longrightarrow> chain a c (butlast gs @ [(fst (last gs), c)])"
  using chain_butlast_last [of gs a b] by (auto simp: chain_append)

lemma merge_loop_chain:
  "merged \<noteq> [] \<Longrightarrow> chain a b merged \<Longrightarrow> chain b c rest \<Longrightarrow> chain a c (merge_loop k merged rest)"
proof (induction k merged rest arbitrary: b rule: merge_loop.induct)
  case (2 k merged s e rest)
  then show ?case
    using chain_replace_last [of merged a b e] by (auto simp: chain_append)
qed auto

lemma merge_loop_nonempty: "merged \<noteq> [] \<Longrightarrow> merge_loop k merged rest \<noteq> []"
  by (induction k merged rest rule: merge_loop.induct) auto

lemma merge_undersized_chain:
  assumes "chain a b gs"
  shows "chain a b (merge_undersized_groups gs k)"
proof (cases gs)
  case Nil
  with assms show ?thesis by (simp add: merge_undersized_groups_def)
next
  case (Cons g rest)
  define m where "m = merge_loop k [g] rest"
  have ne: "m \<noteq> []" by (simp add: m_def merge_loop_nonempty)
  have c: "chain a b m"
    using merge_loop_chain [of "[g]" a "snd g" b rest k] assms Cons by (cases g) (auto simp: m_def)
  have "chain a b (butlast (butlast m) @ [(fst (last (butlast m)), snd (last m))])" if "length m > 1"
  proof -
    have "butlast m \<noteq> []" using that by (cases m rule: rev_cases) auto
    then show ?thesis
      using chain_butlast_last [OF ne c] chain_replace_last [of "butlast m" a "fst (last m)" b] by simp
  qed
  then show ?thesis using Cons c by (simp add: merge_undersized_groups_def m_def [symmetric] Let_def)
qed

text \<open>After the merge every group but a lone one has the minimum size.\<close>

lemma merge_loop_sizes:
  "merged \<noteq> [] \<Longrightarrow> \<forall>(s, e) \<in> set (butlast merged). k \<le> e - s \<Longrightarrow>
   \<forall>(s, e) \<in> set (butlast (merge_loop k merged rest)). k \<le> e - s"
proof (induction k merged rest rule: merge_loop.induct)
  case (2 k merged s e rest)
  show ?case
    using 2 set_butlast_last [OF "2.prems"(1)]
    by (cases "snd (last merged) - fst (last merged) < k") (simp_all add: not_less case_prod_beta)
qed auto

lemma merge_undersized_sizes:
  assumes "chain a b gs" and "length (merge_undersized_groups gs k) > 1"
    and "(s, e) \<in> set (merge_undersized_groups gs k)"
  shows "k \<le> e - s"
proof -
  obtain g rest where gs: "gs = g # rest" using assms(2) by (cases gs) (auto simp: merge_undersized_groups_def)
  define m where "m = merge_loop k [g] rest"
  have ne: "m \<noteq> []" by (simp add: m_def merge_loop_nonempty)
  have c: "chain a b m"
    using merge_loop_chain [of "[g]" a "snd g" b rest k] assms gs by (cases g) (auto simp: m_def)
  have big: "\<forall>(s, e) \<in> set (butlast m). k \<le> e - s"
    unfolding m_def by (rule merge_loop_sizes) auto
  show ?thesis
  proof (cases "length m > 1 \<and> snd (last m) - fst (last m) < k")
    case True
    define m' where "m' = butlast m"
    have m': "m' \<noteq> []" using True by (cases m rule: rev_cases) (auto simp: m'_def)
    have res: "merge_undersized_groups gs k = butlast m' @ [(fst (last m'), snd (last m))]"
      using True gs by (simp add: merge_undersized_groups_def m_def [symmetric] m'_def Let_def)
    have cm: "chain a (fst (last m)) m'" "fst (last m) < snd (last m)"
      using chain_butlast_last [OF ne c] by (auto simp: m'_def)
    have "snd (last m') = fst (last m)" using chain_butlast_last [OF m' cm(1)] by simp
    moreover have "k \<le> snd (last m') - fst (last m')"
      using big last_in_set [OF m'] by (auto simp: m'_def split: prod.splits)
    ultimately have "k \<le> snd (last m) - fst (last m')" using cm(2) by linarith
    then show ?thesis using assms(3) res big in_set_butlastD [of "(s, e)" m'] by (auto simp: m'_def)
  next
    case False
    then have res: "merge_undersized_groups gs k = m"
      using gs by (auto simp: merge_undersized_groups_def m_def [symmetric] Let_def)
    have "(s, e) = last m \<or> (s, e) \<in> set (butlast m)"
      using set_butlast_last [OF ne] assms(3) res by simp
    then show ?thesis using assms(2) res big False by (cases "last m") auto
  qed
qed

text \<open>The hard split keeps the chain and, once the caps are at least one, respects them.\<close>

lemma hard_split_loop_chain:
  assumes "chunk_start \<le> i" and "i \<le> e" and "cnt = i - chunk_start" and "chunk_start < e"
  shows "chain chunk_start e (hard_split_loop ms mm mt e chunk_start cnt tok [i..<e])"
  using assms
proof (induction "e - i" arbitrary: chunk_start i cnt tok)
  case 0
  then show ?case by simp
next
  case (Suc n)
  then have up: "[i..<e] = i # [Suc i..<e]" by (simp add: upt_conv_Cons)
  have n: "n = e - Suc i" using Suc.hyps(2) by simp
  show ?case
    unfolding up using Suc.prems Suc.hyps(1) [OF n, of i 1] Suc.hyps(1) [OF n, of chunk_start "Suc cnt"]
      Suc.hyps(2) by (auto simp: Let_def Suc_diff_le)
qed

definition group_tokens :: "message list \<Rightarrow> nat \<Rightarrow> nat \<Rightarrow> nat" where
  "group_tokens ms s e = sum_list (map (\<lambda>i. message_cost (ms ! i)) [s..<e])"

lemma group_tokens_snoc: "s \<le> i \<Longrightarrow> group_tokens ms s (Suc i) = group_tokens ms s i + message_cost (ms ! i)"
  by (simp add: group_tokens_def)

definition group_bounded :: "message list \<Rightarrow> nat \<Rightarrow> nat \<Rightarrow> group \<Rightarrow> bool" where
  "group_bounded ms mm mt g \<longleftrightarrow>
     snd g - fst g \<le> mm \<and> (group_tokens ms (fst g) (snd g) \<le> mt \<or> snd g - fst g \<le> 1)"

lemma hard_split_loop_bounded:
  assumes "chunk_start \<le> i" and "i \<le> e" and "cnt = i - chunk_start"
    and "tok = group_tokens ms chunk_start i" and "1 \<le> mm"
    and "group_bounded ms mm mt (chunk_start, i)"
  shows "list_all (group_bounded ms mm mt) (hard_split_loop ms mm mt e chunk_start cnt tok [i..<e])"
  using assms
proof (induction "e - i" arbitrary: chunk_start i cnt tok)
  case 0
  then show ?case by simp
next
  case (Suc n)
  then have up: "[i..<e] = i # [Suc i..<e]" by (simp add: upt_conv_Cons)
  have n: "n = e - Suc i" using Suc.hyps(2) by simp
  have ie: "Suc i \<le> e" using Suc.hyps(2) by simp
  have one: "group_bounded ms mm mt (i, Suc i)" using \<open>1 \<le> mm\<close> by (simp add: group_bounded_def)
  show ?case
  proof (cases "cnt > 0 \<and> (cnt + 1 > mm \<or> tok + message_cost (ms ! i) > mt)")
    case True
    then show ?thesis
      unfolding up using Suc.prems Suc.hyps(1) [OF n _ ie, of i 1 "message_cost (ms ! i)"] one
      by (simp add: Let_def group_tokens_def)
  next
    case False
    have "group_bounded ms mm mt (chunk_start, Suc i)"
      using False Suc.prems group_tokens_snoc [of chunk_start i ms] by (auto simp: group_bounded_def)
    then show ?thesis
      unfolding up using Suc.prems False group_tokens_snoc [of chunk_start i ms]
        Suc.hyps(1) [OF n _ ie, of chunk_start "cnt + 1" "tok + message_cost (ms ! i)"]
      by (auto simp: Let_def Suc_diff_le)
  qed
qed

lemma hard_split_groups_chain:
  "chain a b gs \<Longrightarrow> chain a b (hard_split_groups gs ms mm mt)"
proof (induction gs arbitrary: a)
  case (Cons g gs)
  then show ?case
    using hard_split_loop_chain [of "fst g" "fst g" "snd g" 0 ms mm mt 0]
    by (cases g) (auto simp: hard_split_groups_def chain_append)
qed (simp add: hard_split_groups_def)

lemma hard_split_groups_bounded:
  "1 \<le> mm \<Longrightarrow> chain a b gs \<Longrightarrow> list_all (group_bounded ms mm mt) (hard_split_groups gs ms mm mt)"
proof (induction gs arbitrary: a)
  case (Cons g gs)
  have "group_bounded ms mm mt (fst g, fst g)" by (simp add: group_bounded_def)
  then show ?case
    using Cons hard_split_loop_bounded [of "fst g" "fst g" "snd g" 0 0 ms mm mt]
    by (cases g) (auto simp: hard_split_groups_def group_tokens_def)
qed (simp add: hard_split_groups_def)

section \<open>A session's segments\<close>

definition slice :: "'a list \<Rightarrow> group \<Rightarrow> 'a list" where
  "slice xs g = take (snd g - fst g) (drop (fst g) xs)"

definition one_draft :: "session \<Rightarrow> string option \<Rightarrow> segment_draft" where
  "one_draft ses label =
     \<lparr>session_started_at = started_at ses, seq_in_session = 0,
      draft_messages = ses_messages ses, topic_label = label\<rparr>"

definition number_drafts :: "session \<Rightarrow> group list \<Rightarrow> segment_draft list" where
  "number_drafts ses groups =
     map (\<lambda>(i, g). \<lparr>session_started_at = started_at ses, seq_in_session = i,
                    draft_messages = slice (ses_messages ses) g, topic_label = None\<rparr>)
       (zip [0..<length groups] groups)"

lemma map_number_drafts [simp]:
  "map draft_messages (number_drafts ses gs) = map (slice (ses_messages ses)) gs"
  "map seq_in_session (number_drafts ses gs) = [0..<length gs]"
  by (auto simp: number_drafts_def intro!: nth_equalityI)

definition segment_session ::
  "session \<Rightarrow> nat \<Rightarrow> nat \<Rightarrow> nat \<Rightarrow> 'p detector \<Rightarrow> 'p \<Rightarrow> (segment_draft list \<times> bool) \<times> 'p" where
  "segment_session ses topical_min_messages max_messages max_tokens detect st =
     (let messages = ses_messages ses; n = length messages
      in if n \<le> topical_min_messages then (([one_draft ses None], False), st)
         else case detect_boundaries_windowed detect messages st {} 0 of
                (Inl BoundaryDetectionError, st') \<Rightarrow>
                  (([one_draft ses (Some ''fallback:session'')], True), st')
              | (Inr boundaries, st') \<Rightarrow>
                  let groups = boundaries_to_groups n boundaries;
                      groups = merge_undersized_groups groups MIN_MESSAGES_PER_SEGMENT;
                      groups = hard_split_groups groups messages max_messages max_tokens
                  in ((number_drafts ses groups, False), st'))"

lemma concat_slices: "chain a b gs \<Longrightarrow> b \<le> length xs \<Longrightarrow> concat (map (slice xs) gs) = slice xs (a, b)"
proof (induction gs arbitrary: a)
  case Nil
  then show ?case by (simp add: slice_def)
next
  case (Cons g gs)
  obtain s e where g: "g = (s, e)" by (cases g)
  with Cons have c: "s = a" "s < e" "e \<le> b" "chain e b gs" by (auto dest: chain_le)
  have "take (e - a) (drop a xs) @ take (b - e) (drop e xs) = take (b - a) (drop a xs)"
    using c(1,2,3) take_add [of "e - a" "b - e" "drop a xs"] by simp
  then show ?case using Cons.IH [OF c(4) Cons.prems(2)] c g by (simp add: slice_def)
qed

lemma length_slice: "snd g \<le> length xs \<Longrightarrow> length (slice xs g) = snd g - fst g"
  by (simp add: slice_def)

lemma slice_cost:
  assumes "snd g \<le> length ms"
  shows "sum_list (map message_cost (slice ms g)) = group_tokens ms (fst g) (snd g)"
proof -
  have "slice ms g = map ((!) ms) [fst g..<snd g]"
    using assms by (intro nth_equalityI) (auto simp: slice_def)
  then show ?thesis by (simp add: group_tokens_def comp_def)
qed

text \<open>The groups of the ordinary branch: a chain over the session, within the caps.\<close>

definition session_groups :: "session \<Rightarrow> nat \<Rightarrow> nat \<Rightarrow> nat list \<Rightarrow> group list" where
  "session_groups ses mm mt bs =
     hard_split_groups
       (merge_undersized_groups (boundaries_to_groups (length (ses_messages ses)) bs)
          MIN_MESSAGES_PER_SEGMENT) (ses_messages ses) mm mt"

lemma segment_session_cases:
  obtains (short) "length (ses_messages ses) \<le> k"
      "fst (segment_session ses k mm mt detect st) = ([one_draft ses None], False)"
  | (fallback) "\<not> length (ses_messages ses) \<le> k"
      "fst (segment_session ses k mm mt detect st) = ([one_draft ses (Some ''fallback:session'')], True)"
  | (grouped) bs where "\<not> length (ses_messages ses) \<le> k"
      "set bs \<subseteq> {0<..<length (ses_messages ses)}"
      "map draft_messages (fst (fst (segment_session ses k mm mt detect st)))
         = map (slice (ses_messages ses)) (session_groups ses mm mt bs)"
      "map seq_in_session (fst (fst (segment_session ses k mm mt detect st)))
         = [0..<length (session_groups ses mm mt bs)]"
      "\<not> snd (fst (segment_session ses k mm mt detect st))"
proof (cases "length (ses_messages ses) \<le> k")
  case True
  then show thesis by (intro short) (simp_all add: segment_session_def)
next
  case long: False
  show thesis
  proof (cases "detect_boundaries_windowed detect (ses_messages ses) st {} 0")
    case (Pair r st')
    show thesis
    proof (cases r)
      case (Inl e)
      then show thesis using long Pair by (intro fallback; cases e) (simp_all add: segment_session_def)
    next
      case (Inr bs)
      have "set bs \<subseteq> {0<..<length (ses_messages ses)}"
        using detect_boundaries_windowed_range [of detect "ses_messages ses" st "{}" 0 bs st'] Pair Inr
        by simp
      moreover have "fst (segment_session ses k mm mt detect st)
          = (number_drafts ses (session_groups ses mm mt bs), False)"
        using long Pair Inr by (simp add: segment_session_def session_groups_def Let_def)
      ultimately show thesis using long by (intro grouped [of bs]) simp_all
    qed
  qed
qed

lemma session_groups_chain:
  "set bs \<subseteq> {0<..<length (ses_messages ses)} \<Longrightarrow>
   chain 0 (length (ses_messages ses)) (session_groups ses mm mt bs)"
  unfolding session_groups_def
  by (intro hard_split_groups_chain merge_undersized_chain boundaries_to_groups_chain)

lemma session_groups_bounded:
  "set bs \<subseteq> {0<..<length (ses_messages ses)} \<Longrightarrow> 1 \<le> mm \<Longrightarrow>
   list_all (group_bounded (ses_messages ses) mm mt) (session_groups ses mm mt bs)"
  unfolding session_groups_def
  by (rule hard_split_groups_bounded [OF _ merge_undersized_chain [OF boundaries_to_groups_chain]])

section \<open>Properties\<close>

text \<open>
  C34: The segments of a session are a partition of it: in order they hold every message
  once, none is empty, and they are numbered 0, 1, 2, ... This holds whatever the boundary
  model answers, malformed answers included.
\<close>

theorem segment_session_partition:
  assumes "ses_messages ses \<noteq> []"
  shows "concat (map draft_messages (fst (fst (segment_session ses k mm mt detect st)))) = ses_messages ses \<and>
         list_all (\<lambda>d. draft_messages d \<noteq> []) (fst (fst (segment_session ses k mm mt detect st))) \<and>
         map seq_in_session (fst (fst (segment_session ses k mm mt detect st)))
           = [0..<length (fst (fst (segment_session ses k mm mt detect st)))]"
proof (cases rule: segment_session_cases [of ses k mm mt detect st])
  case short
  with assms show ?thesis by (simp add: one_draft_def)
next
  case fallback
  with assms show ?thesis by (simp add: one_draft_def)
next
  case (grouped bs)
  let ?gs = "session_groups ses mm mt bs"
  let ?ds = "fst (fst (segment_session ses k mm mt detect st))"
  have c: "chain 0 (length (ses_messages ses)) ?gs" by (rule session_groups_chain [OF grouped(2)])
  have ne: "slice (ses_messages ses) g \<noteq> []" if "g \<in> set ?gs" for g
    using chain_member [OF c that] by (auto simp: slice_def)
  have "concat (map draft_messages ?ds) = ses_messages ses"
    unfolding grouped(3) using concat_slices [OF c order_refl] by (simp add: slice_def)
  moreover have "list_all (\<lambda>x. x \<noteq> []) (map draft_messages ?ds)"
    unfolding grouped(3) using ne by (auto simp: list_all_iff)
  moreover have "length ?ds = length ?gs" using arg_cong [OF grouped(3), of length] by simp
  ultimately show ?thesis using grouped(4) by (simp add: list.pred_map comp_def)
qed

theorem segment_session_partition_witness:
  "concat (map draft_messages (fst (fst (segment_session
       (make_session 7 1 [sample_message 1 0, sample_message 2 1, sample_message 3 2])
       1 50 2000 (fake_detect 2 False 0) 0))))
   = [sample_message 1 0, sample_message 2 1, sample_message 3 2]"
  by (simp add: segment_session_partition)

text \<open>
  Unless the session is short enough to be one segment or the model failed, every
  segment holds at most \<open>max_messages\<close> messages, and costs at most \<open>max_tokens\<close> unless it
  is a single message.
\<close>

theorem segment_session_bounded:
  assumes "length (ses_messages ses) > k" and "1 \<le> mm"
    and "\<not> snd (fst (segment_session ses k mm mt detect st))"
    and "d \<in> set (fst (fst (segment_session ses k mm mt detect st)))"
  shows "length (draft_messages d) \<le> mm \<and>
         (sum_list (map message_cost (draft_messages d)) \<le> mt \<or> length (draft_messages d) = 1)"
proof (cases rule: segment_session_cases [of ses k mm mt detect st])
  case (grouped bs)
  let ?gs = "session_groups ses mm mt bs"
  have "draft_messages d \<in> set (map draft_messages (fst (fst (segment_session ses k mm mt detect st))))"
    using assms(4) by simp
  then obtain g where g: "g \<in> set ?gs" "draft_messages d = slice (ses_messages ses) g"
    unfolding grouped(3) by auto
  have c: "chain 0 (length (ses_messages ses)) ?gs" by (rule session_groups_chain [OF grouped(2)])
  have in_range: "fst g < snd g" "snd g \<le> length (ses_messages ses)" using chain_member [OF c g(1)] by auto
  have "group_bounded (ses_messages ses) mm mt g"
    using session_groups_bounded [OF grouped(2) assms(2), of mt] g(1) by (simp add: list_all_iff)
  then show ?thesis
    using g(2) in_range slice_cost [of g "ses_messages ses"] length_slice [of g "ses_messages ses"]
    by (auto simp: group_bounded_def)
qed (use assms in auto)

theorem segment_session_bounded_witness:
  "length (draft_messages (hd (fst (fst (segment_session
       (make_session 7 1 [sample_message 1 0, sample_message 2 1, sample_message 3 2])
       1 2 2000 (fake_detect 5 False 0) 0))))) \<le> 2"
proof -
  let ?s = "make_session 7 1 [sample_message 1 0, sample_message 2 1, sample_message 3 2]"
  have "segment_session ?s 1 2 2000 (fake_detect 5 False 0) 0
      = ((number_drafts ?s [(0, 2), (2, 3)], False), 1)"
    by code_simp
  then have "\<not> snd (fst (segment_session ?s 1 2 2000 (fake_detect 5 False 0) 0))"
    and "hd (fst (fst (segment_session ?s 1 2 2000 (fake_detect 5 False 0) 0)))
         \<in> set (fst (fst (segment_session ?s 1 2 2000 (fake_detect 5 False 0) 0)))"
    by (simp_all add: number_drafts_def upt_rec)
  from segment_session_bounded [OF _ _ this] show ?thesis by simp
qed

text \<open>
  The minimum size does hold before the caps: after \<open>_merge_undersized_groups\<close> every
  group has at least the minimum, unless the session is a single group.
\<close>

theorem merged_groups_have_minimum:
  assumes "set bs \<subseteq> {0<..<n}"
    and "length (merge_undersized_groups (boundaries_to_groups n bs) k) > 1"
    and "(s, e) \<in> set (merge_undersized_groups (boundaries_to_groups n bs) k)"
  shows "s + k \<le> e \<and> e \<le> n"
proof -
  have c: "chain 0 n (boundaries_to_groups n bs)" by (rule boundaries_to_groups_chain [OF assms(1)])
  have "k \<le> e - s" by (rule merge_undersized_sizes [OF c assms(2,3)])
  moreover have "s < e \<and> e \<le> n"
    using chain_member [OF merge_undersized_chain [OF c] assms(3)] by simp
  ultimately show ?thesis by linarith
qed

theorem merged_groups_have_minimum_witness:
  "(0::nat) + 2 \<le> 3 \<and> (3::nat) \<le> 6"
proof (rule merged_groups_have_minimum [of "[1, 3, 5]" 6 2 0 3])
  show "set [1, 3, 5] \<subseteq> {0<..<6::nat}" by simp
  show "length (merge_undersized_groups (boundaries_to_groups 6 [1, 3, 5]) 2) > 1" by code_simp
  show "(0, 3) \<in> set (merge_undersized_groups (boundaries_to_groups 6 [1, 3, 5]) 2)" by code_simp
qed

text \<open>
  The caps are applied after the minimum, so they can undo it: four messages in one
  topic under a cap of three give a one-message segment.
\<close>

theorem hard_split_leaves_one:
  "map (map message_id \<circ> draft_messages) (fst (fst (segment_session
       (make_session 7 1 (map (\<lambda>i. sample_message i i) [1, 2, 3, 4]))
       3 3 2000 (fake_detect 5 False 0) 0))) = [[1, 2, 3], [4]]"
  by code_simp

text \<open>
  With the source's own provider configured never to fail, no session falls back.
\<close>

theorem fake_provider_never_falls_back:
  "\<not> snd (fst (segment_session ses k mm mt (fake_detect (Suc step) False 0) calls))"
proof -
  have "\<exists>bs st'. detect_boundaries_windowed (fake_detect (Suc step) False 0) (ses_messages ses) calls {} 0
          = (Inr bs, st')"
    by (rule fake.windowed_never_fails) (simp add: fake_detect_def Let_def)
  then show ?thesis by (auto simp: segment_session_def Let_def)
qed

end
