(* ===== verification/Tokeninfo.thy ===== *)
theory Tokeninfo
  imports Py_Strings
begin

text \<open>
  The token and the claims (\<open>src/imsg/mcp/auth.py\<close>): the \<open>Authorization\<close> header's regular
  expression, the Google tokeninfo introspector with its classification of failures, and
  the strict parser of its answer. The HTTP call and \<open>json.loads\<close> are parameters: the first
  is the value of type \<open>http_answer\<close> the call gives, the second a function from the bytes to
  a JSON value, \<open>None\<close> where decoding or parsing raises.
\<close>

section \<open>The bearer token\<close>

text \<open>\<open>[A-Za-z0-9\-._~+/]\<close>.\<close>

definition b64_char :: "char \<Rightarrow> bool" where
  "b64_char ch \<longleftrightarrow> is_letter ch \<or> is_digit ch \<or> ch \<in> set ''-._~+/''"

definition MAX_TOKEN_CHARS :: nat where "MAX_TOKEN_CHARS = 4096"

text \<open>The word \<open>Bearer\<close>, matched without regard to case.\<close>

definition bearer_word :: "string \<Rightarrow> bool" where
  "bearer_word s \<longleftrightarrow>
     list_all2 (\<lambda>ch both. ch \<in> set both) s [''Bb'', ''Ee'', ''Aa'', ''Rr'', ''Ee'', ''Rr'']"

text \<open>\<open>$\<close> matches at the end, and before a newline that ends the string.\<close>

definition drop_final_newline :: "string \<Rightarrow> string" where
  "drop_final_newline s = (if s \<noteq> [] \<and> last s = CHR 0x0A then butlast s else s)"

definition bearer_match :: "string \<Rightarrow> string option" where
  "bearer_match s =
     (let rest = drop 6 s;
          body = dropWhile (\<lambda>ch. ch = CHR '' '') rest;
          tok = drop_final_newline body;
          padding = dropWhile b64_char tok
      in if bearer_word (take 6 s) \<and> rest \<noteq> [] \<and> hd rest = CHR '' ''
            \<and> takeWhile b64_char tok \<noteq> [] \<and> (\<forall>ch \<in> set padding. ch = CHR ''='')
         then Some tok else None)"

text \<open>The guard and the match of \<open>_decide\<close>.\<close>

definition parse_bearer :: "string option \<Rightarrow> string option" where
  "parse_bearer authorization =
     (case authorization of
        None \<Rightarrow> None
      | Some s \<Rightarrow> if length s \<le> MAX_TOKEN_CHARS then bearer_match s else None)"

lemma bearer_match_chars:
  assumes "bearer_match s = Some tok"
  shows "tok \<noteq> []" and "\<forall>ch \<in> set tok. b64_char ch \<or> ch = CHR ''=''"
proof -
  let ?p = "dropWhile b64_char tok"
  have p: "\<forall>ch \<in> set ?p. ch = CHR ''=''" and t: "takeWhile b64_char tok \<noteq> []"
    using assms unfolding bearer_match_def Let_def by (metis option.distinct(1) option.inject)+
  then show "tok \<noteq> []" by (metis takeWhile.simps(1))
  show "\<forall>ch \<in> set tok. b64_char ch \<or> ch = CHR ''=''"
  proof
    fix ch assume "ch \<in> set tok"
    then have "ch \<in> set (takeWhile b64_char tok) \<or> ch \<in> set ?p"
      by (metis UnE set_append takeWhile_dropWhile_id)
    then show "b64_char ch \<or> ch = CHR ''=''" using p set_takeWhileD by metis
  qed
qed

lemma dropWhile_pads: "\<forall>ch \<in> set s. P ch \<Longrightarrow> dropWhile P (s @ t) = dropWhile P t"
  by (induction s) auto

text \<open>The header a client sends for a token is read back as that token.\<close>

lemma bearer_match_header:
  assumes "body \<noteq> []" and "\<forall>ch \<in> set body. b64_char ch"
  shows "bearer_match (''Bearer '' @ body @ replicate n (CHR ''='')) = Some (body @ replicate n (CHR ''=''))"
proof -
  let ?t = "body @ replicate n (CHR ''='')"
  have no_nl: "drop_final_newline ?t = ?t"
  proof -
    have "last ?t \<in> set ?t" using assms(1) by (intro last_in_set) simp
    then have "b64_char (last ?t) \<or> last ?t = CHR ''=''" using assms(2) by (auto simp del: last_in_set_iff)
    then show ?thesis by (auto simp: drop_final_newline_def b64_char_def is_letter_def is_digit_def ord_def)
  qed
  have hd: "hd ?t \<noteq> CHR '' ''"
    using assms by (cases body) (auto simp: b64_char_def is_letter_def is_digit_def ord_def)
  then have sp: "dropWhile (\<lambda>ch. ch = CHR '' '') ?t = ?t" using assms(1) by (cases body) auto
  have pad: "dropWhile b64_char ?t = replicate n (CHR ''='')"
    using assms(2) by (simp add: dropWhile_pads) (cases n; simp add: b64_char_def is_letter_def is_digit_def ord_def)
  have take: "takeWhile b64_char ?t \<noteq> []" using assms by (cases body) auto
  have parts: "bearer_word (take 6 (''Bearer '' @ ?t))" "drop 6 (''Bearer '' @ ?t) = CHR '' '' # ?t"
    by (simp_all add: bearer_word_def)
  have "dropWhile (\<lambda>ch. ch = CHR '' '') (CHR '' '' # ?t) = ?t" using sp by simp
  then show ?thesis unfolding bearer_match_def Let_def parts(2) by (simp only: no_nl pad) (use parts take in simp)
qed

section \<open>The introspector\<close>

record token_introspection =
  subject :: string
  audience :: string
  authorized_party :: "string option"
  scopes :: "string set"
  expires_in_seconds :: int

datatype introspect_error = TokenInvalidError | IntrospectionUnavailableError

type_synonym introspection = "introspect_error + token_introspection"

text \<open>The value of an optional scope claim, and of \<open>expires_in\<close>.\<close>

definition scope_field :: "json option \<Rightarrow> string set option" where
  "scope_field j =
     (case j of
        None \<Rightarrow> Some {}
      | Some JNull \<Rightarrow> Some {}
      | Some (JStr s) \<Rightarrow> Some (set (py_split s))
      | Some _ \<Rightarrow> None)"

definition expires_field :: "json option \<Rightarrow> int option" where
  "expires_field j =
     (case j of Some (JInt n) \<Rightarrow> Some n | Some (JStr s) \<Rightarrow> py_int s | _ \<Rightarrow> None)"

definition nonempty_string :: "json option \<Rightarrow> string option" where
  "nonempty_string j = (case j of Some (JStr s) \<Rightarrow> if s = [] then None else Some s | _ \<Rightarrow> None)"

text \<open>\<open>azp\<close> may be absent or null; anything else must be a string.\<close>

definition azp_field :: "json option \<Rightarrow> string option option" where
  "azp_field j =
     (case j of
        None \<Rightarrow> Some None
      | Some JNull \<Rightarrow> Some None
      | Some (JStr s) \<Rightarrow> Some (Some s)
      | Some _ \<Rightarrow> None)"

definition parse_tokeninfo_response :: "(string \<Rightarrow> json option) \<Rightarrow> string \<Rightarrow> introspection" where
  "parse_tokeninfo_response loads raw =
     (case loads raw of
        Some (JObj data) \<Rightarrow>
          (case nonempty_string (map_of data ''sub'') of
             None \<Rightarrow> Inl TokenInvalidError
           | Some sub \<Rightarrow>
          (case nonempty_string (map_of data ''aud'') of
             None \<Rightarrow> Inl TokenInvalidError
           | Some aud \<Rightarrow>
          (case azp_field (map_of data ''azp'') of
             None \<Rightarrow> Inl TokenInvalidError
           | Some azp \<Rightarrow>
          (case scope_field (map_of data ''scope'') of
             None \<Rightarrow> Inl TokenInvalidError
           | Some sc \<Rightarrow>
          (case expires_field (map_of data ''expires_in'') of
             None \<Rightarrow> Inl TokenInvalidError
           | Some n \<Rightarrow>
               Inr \<lparr>subject = sub, audience = aud, authorized_party = azp, scopes = sc,
                    expires_in_seconds = n\<rparr>)))))
      | _ \<Rightarrow> Inl IntrospectionUnavailableError)"

text \<open>What \<open>urlopen\<close> gives: an HTTP error, a failed call, or a body of at most the bytes read.\<close>

datatype http_answer = HTTPError int | Unreachable | Body string

definition MAX_TOKENINFO_BYTES :: nat where "MAX_TOKENINFO_BYTES = 64 * 1024"

definition google_introspect :: "(string \<Rightarrow> json option) \<Rightarrow> http_answer \<Rightarrow> introspection" where
  "google_introspect loads answer =
     (case answer of
        HTTPError status \<Rightarrow>
          if 400 \<le> status \<and> status < 500 then Inl TokenInvalidError
          else Inl IntrospectionUnavailableError
      | Unreachable \<Rightarrow> Inl IntrospectionUnavailableError
      | Body bytes \<Rightarrow>
          let raw = take (MAX_TOKENINFO_BYTES + 1) bytes
          in if length raw > MAX_TOKENINFO_BYTES then Inl IntrospectionUnavailableError
             else parse_tokeninfo_response loads raw)"

text \<open>Claims come only from a body in which the required ones are present.\<close>

lemma parse_tokeninfo_claims:
  assumes "parse_tokeninfo_response loads raw = Inr claims"
  obtains data where "loads raw = Some (JObj data)"
    and "map_of data ''sub'' = Some (JStr (subject claims))" and "subject claims \<noteq> []"
    and "map_of data ''aud'' = Some (JStr (audience claims))" and "audience claims \<noteq> []"
    and "expires_field (map_of data ''expires_in'') = Some (expires_in_seconds claims)"
proof -
  obtain data where d: "loads raw = Some (JObj data)"
    using assms by (auto simp: parse_tokeninfo_response_def split: option.splits json.splits)
  have ne: "\<And>j s. nonempty_string j = Some s \<longleftrightarrow> j = Some (JStr s) \<and> s \<noteq> []"
    by (auto simp: nonempty_string_def split: option.splits json.splits if_splits)
  show thesis
    using assms d that by (auto simp: parse_tokeninfo_response_def ne split: option.splits)
qed

lemma google_introspect_claims:
  assumes "google_introspect loads answer = Inr claims"
  obtains raw where "answer = Body raw" and "length raw \<le> MAX_TOKENINFO_BYTES"
    and "parse_tokeninfo_response loads raw = Inr claims"
  using assms
  by (cases answer) (auto simp: google_introspect_def Let_def min_def split: if_splits)

end
