(* ===== verification/Ordered_Dict.thy ===== *)
theory Ordered_Dict
  imports Prelude "HOL-Library.AList"
begin

text \<open>
  Python's \<open>collections.OrderedDict\<close> as the public surface uses it (in
  \<open>src/imsg/mcp/ratelimit.py\<close> and \<open>src/imsg/mcp/auth.py\<close>): an association list, oldest
  entry first, with distinct keys. \<open>lru_store\<close> is what its two users rely on; \<open>od_put\<close>,
  assignment, \<open>move_to_end\<close> and the trimming loop together, is the instance.
\<close>

type_synonym 'v ordered_dict = "(string \<times> 'v) list"

text \<open>\<open>d.move_to_end(key)\<close> of a key that is there.\<close>

definition od_move_to_end :: "string \<Rightarrow> 'v ordered_dict \<Rightarrow> 'v ordered_dict" where
  "od_move_to_end k d =
     (case map_of d k of None \<Rightarrow> d | Some v \<Rightarrow> AList.delete k d @ [(k, v)])"

text \<open>\<open>while len(d) > cap: d.popitem(last=False)\<close>.\<close>

function od_trim :: "nat \<Rightarrow> 'v ordered_dict \<Rightarrow> 'v ordered_dict" where
  "od_trim cap d = (if length d > cap then od_trim cap (tl d) else d)"
  by pat_completeness auto
termination by (relation "measure (\<lambda>(cap, d). length d)") auto

declare od_trim.simps [simp del]

definition od_put :: "nat \<Rightarrow> string \<Rightarrow> 'v \<Rightarrow> 'v ordered_dict \<Rightarrow> 'v ordered_dict" where
  "od_put cap k v d = od_trim cap (od_move_to_end k (AList.update k v d))"

definition od_wf :: "'v ordered_dict \<Rightarrow> bool" where
  "od_wf d \<longleftrightarrow> distinct (map fst d)"

lemma od_trim_drop: "od_trim cap d = drop (length d - cap) d"
proof (induction cap d rule: od_trim.induct)
  case (1 cap d)
  show ?case
  proof (cases "length d > cap")
    case True
    then have "length d - cap = Suc (length (tl d) - cap)" by simp
    then show ?thesis using 1 True by (simp add: od_trim.simps [of cap d] drop_Suc)
  next
    case False
    then show ?thesis by (simp add: od_trim.simps [of cap d])
  qed
qed

lemma length_od_trim: "length (od_trim cap d) = min cap (length d)"
  by (simp add: od_trim_drop)

lemma od_put_split:
  "od_put cap k v d = od_trim cap (AList.delete k d @ [(k, v)])"
  by (simp add: od_put_def od_move_to_end_def update_conv' delete_update_same)

lemma od_wf_delete: "od_wf d \<Longrightarrow> od_wf (AList.delete k d)"
  by (simp add: od_wf_def distinct_delete)

lemma od_wf_put: "od_wf d \<Longrightarrow> od_wf (od_put cap k v d)"
proof -
  assume "od_wf d"
  then have "distinct (map fst (AList.delete k d @ [(k, v)]))"
    by (simp add: od_wf_def delete_keys distinct_removeAll)
  then show ?thesis
    unfolding od_wf_def od_put_split od_trim_drop drop_map [symmetric] by (rule distinct_drop)
qed

lemma map_of_drop_distinct:
  "distinct (map fst d) \<Longrightarrow> map_of (drop n d) k = Some v \<Longrightarrow> map_of d k = Some v"
  by (metis in_set_dropD map_of_SomeD map_of_eq_Some_iff)

lemma map_of_od_put_same: "od_wf d \<Longrightarrow> 1 \<le> cap \<Longrightarrow> map_of (od_put cap k v d) k = Some v"
proof -
  assume "od_wf d" and "1 \<le> cap"
  then have wf: "distinct (map fst (od_put cap k v d))" using od_wf_put by (auto simp: od_wf_def)
  have "(k, v) \<in> set (od_put cap k v d)"
    using \<open>1 \<le> cap\<close> by (simp add: od_put_split od_trim_drop)
  with wf show ?thesis by simp
qed

lemma map_of_od_put_other:
  assumes "od_wf d" and "k' \<noteq> k" and "map_of (od_put cap k v d) k' = Some v'"
  shows "map_of d k' = Some v'"
proof -
  let ?d = "AList.delete k d @ [(k, v)]"
  have "distinct (map fst ?d)"
    using assms(1) by (simp add: od_wf_def delete_keys distinct_removeAll)
  then have "map_of ?d k' = Some v'"
    using assms(3) by (simp only: od_put_split od_trim_drop) (rule map_of_drop_distinct)
  then show ?thesis using assms(2) by (simp add: map_add_Some_iff delete_conv' split: if_splits)
qed

section \<open>The interface its users rely on\<close>

locale lru_store =
  fixes insert_entry :: "string \<Rightarrow> 'v \<Rightarrow> 'd \<Rightarrow> 'd"
    and lookup :: "'d \<Rightarrow> string \<Rightarrow> 'v option"
    and entries :: "'d \<Rightarrow> nat"
    and wf :: "'d \<Rightarrow> bool"
    and capacity :: nat
  assumes lookup_insert_same: "wf d \<Longrightarrow> lookup (insert_entry k v d) k = Some v"
    and lookup_insert_other:
      "wf d \<Longrightarrow> k' \<noteq> k \<Longrightarrow> lookup (insert_entry k v d) k' = Some v' \<Longrightarrow> lookup d k' = Some v'"
    and entries_insert: "wf d \<Longrightarrow> entries (insert_entry k v d) \<le> capacity"
    and wf_insert: "wf d \<Longrightarrow> wf (insert_entry k v d)"
begin

text \<open>Whatever holds of every entry keeps holding: eviction only forgets.\<close>

lemma all_entries_insert:
  assumes "wf d" and "P k v" and "\<And>k v. lookup d k = Some v \<Longrightarrow> P k v"
    and "lookup (insert_entry k v d) k' = Some v'"
  shows "P k' v'"
proof (cases "k' = k")
  case True
  then show ?thesis using assms lookup_insert_same by simp
next
  case False
  then show ?thesis using assms lookup_insert_other by blast
qed

end

interpretation od: lru_store "od_put (Suc n)" map_of length od_wf "Suc n" for n
proof
  fix d :: "'a ordered_dict" and k k' :: string and v v' :: 'a
  assume wf: "od_wf d"
  show "map_of (od_put (Suc n) k v d) k = Some v" using wf by (simp add: map_of_od_put_same)
  show "map_of d k' = Some v'" if "k' \<noteq> k" "map_of (od_put (Suc n) k v d) k' = Some v'"
    using map_of_od_put_other [OF wf that] .
  show "length (od_put (Suc n) k v d) \<le> Suc n" by (simp add: od_put_split length_od_trim)
  show "od_wf (od_put (Suc n) k v d)" by (rule od_wf_put [OF wf])
qed

end
