(* ===== verification/Audit_Trail.thy ===== *)
theory Audit_Trail
  imports Ordered_Dict "HOL-Library.List_Lexorder" "HOL-Library.Char_ord"
begin

text \<open>
  The audit trail (\<open>src/imsg/mcp/audit.py\<close>): what may be written into a row, the check that
  no foreign subject was ever accepted in its two forms, the in-memory tally of requests
  turned away before a token was judged with its writer, and the retention run with its SQL
  as operations on the two tables. Instants are microseconds since the epoch, UTC.
\<close>

section \<open>Rows\<close>

definition ALLOWED_ERROR_CODES :: "string list" where
  "ALLOWED_ERROR_CODES =
     [''INVALID_ARGUMENT'', ''PERSON_NOT_FOUND'', ''PERSON_AMBIGUOUS'', ''DATE_RANGE_INVALID'',
      ''NOT_FOUND'', ''NOT_ENRICHED'', ''SCOPE_DENIED'', ''RATE_LIMITED'', ''INTERNAL'',
      ''UNAUTHORIZED'', ''UNAVAILABLE'', ''WARMING_UP'', ''WARM_UP_FAILED'']"

definition sanitize_error_code :: "string option \<Rightarrow> string option" where
  "sanitize_error_code code =
     (case code of
        None \<Rightarrow> None
      | Some c \<Rightarrow> Some (if c \<in> set ALLOWED_ERROR_CODES then c else ''INTERNAL''))"

definition MAX_SUBJECT_CHARS :: nat where "MAX_SUBJECT_CHARS = 256"

definition truncate_subject :: "string option \<Rightarrow> string option" where
  "truncate_subject subject = map_option (take MAX_SUBJECT_CHARS) subject"

record audit_record =
  surface :: string
  aud_subject :: "string option"
  subject_ok :: bool
  aud_tool :: "string option"
  params_sha256 :: "string option"
  result_count :: "int option"
  latency_ms :: "int option"
  aud_error :: "string option"

definition sanitized :: "audit_record \<Rightarrow> audit_record" where
  "sanitized r = r\<lparr>aud_subject := truncate_subject (aud_subject r),
                   aud_error := sanitize_error_code (aud_error r)\<rparr>"

lemma sanitized_fields [simp]:
  "surface (sanitized r) = surface r" "subject_ok (sanitized r) = subject_ok r"
  "aud_subject (sanitized r) = truncate_subject (aud_subject r)"
  "aud_error (sanitized r) = sanitize_error_code (aud_error r)"
  by (simp_all add: sanitized_def)

lemma internal_allowed: "''INTERNAL'' \<in> set ALLOWED_ERROR_CODES"
  by (simp add: ALLOWED_ERROR_CODES_def)

lemma sanitize_error_code_closed:
  "sanitize_error_code c = Some e \<Longrightarrow> e \<in> set ALLOWED_ERROR_CODES"
  using internal_allowed by (auto simp: sanitize_error_code_def split: option.splits if_splits)

lemma sanitized_idem [simp]: "sanitized (sanitized r) = sanitized r"
proof -
  have "truncate_subject (truncate_subject s) = truncate_subject s" for s
    by (cases s) (simp_all add: truncate_subject_def)
  moreover have "sanitize_error_code (sanitize_error_code c) = sanitize_error_code c" for c
    using internal_allowed by (auto simp: sanitize_error_code_def split: option.splits)
  ultimately show ?thesis by (simp add: sanitized_def)
qed

section \<open>Accepted rows of a foreign subject\<close>

definition accepted_foreign_subjects :: "audit_record list \<Rightarrow> string \<Rightarrow> audit_record list" where
  "accepted_foreign_subjects rows owner =
     filter (\<lambda>r. surface r = ''public'' \<and> subject_ok r \<and> aud_subject r \<noteq> Some owner) rows"

text \<open>
  \<open>ACCEPTED_FOREIGN_SQL\<close>: in SQL \<open>subject <> owner\<close> is null, hence not true, on a null
  subject. \<open>sql_neq\<close> is that three-valued comparison.
\<close>

definition sql_neq :: "'a option \<Rightarrow> 'a option \<Rightarrow> bool option" where
  "sql_neq x y = (case (x, y) of (Some a, Some b) \<Rightarrow> Some (a \<noteq> b) | _ \<Rightarrow> None)"

definition count_accepted_foreign :: "audit_record list \<Rightarrow> string \<Rightarrow> nat" where
  "count_accepted_foreign rows owner =
     length (filter (\<lambda>r. surface r = ''public'' \<and> subject_ok r
                        \<and> sql_neq (aud_subject r) (Some owner) = Some True) rows)"

definition has_null_accept :: "audit_record list \<Rightarrow> bool" where
  "has_null_accept rows \<longleftrightarrow>
     (\<exists>r \<in> set rows. surface r = ''public'' \<and> subject_ok r \<and> aud_subject r = None)"

lemma count_accepted_foreign_le:
  "count_accepted_foreign rows owner \<le> length (accepted_foreign_subjects rows owner)"
  unfolding count_accepted_foreign_def accepted_foreign_subjects_def
  by (rule length_filter_mono_on) (auto simp: sql_neq_def split: option.splits)

lemma count_accepted_foreign_eq:
  "\<not> has_null_accept rows \<Longrightarrow>
   count_accepted_foreign rows owner = length (accepted_foreign_subjects rows owner)"
  unfolding count_accepted_foreign_def accepted_foreign_subjects_def has_null_accept_def
  by (rule arg_cong [where f = length], rule filter_cong)
    (auto simp: sql_neq_def split: option.splits)

section \<open>The tally of requests turned away before a token was judged\<close>

record tally =
  counts :: "(string \<times> nat) list"
  since :: instant

record rejection_counts =
  period_start :: instant
  period_end :: instant
  taken_counts :: "(string \<times> nat) list"

record aggregate_record =
  agg_start :: instant
  agg_end :: instant
  source :: string
  agg_surface :: string
  agg_subject_ok :: bool
  agg_tool :: "string option"
  agg_error :: "string option"
  request_count :: nat

definition new_tally :: "instant \<Rightarrow> tally" where
  "new_tally now = \<lparr>counts = [], since = now\<rparr>"

text \<open>\<open>counts.get(code, 0)\<close>, and the update both \<open>add\<close> and \<open>put_back\<close> make.\<close>

definition count_of :: "string \<Rightarrow> (string \<times> nat) list \<Rightarrow> nat" where
  "count_of code cs = (case map_of cs code of None \<Rightarrow> 0 | Some n \<Rightarrow> n)"

definition bump :: "string \<Rightarrow> nat \<Rightarrow> (string \<times> nat) list \<Rightarrow> (string \<times> nat) list" where
  "bump code n cs = AList.update code (count_of code cs + n) cs"

definition clean_code :: "string \<Rightarrow> string" where
  "clean_code code = (case sanitize_error_code (Some code) of
                        None \<Rightarrow> ''INTERNAL'' | Some c \<Rightarrow> if c = [] then ''INTERNAL'' else c)"

definition tally_add :: "string \<Rightarrow> tally \<Rightarrow> tally" where
  "tally_add code t = t\<lparr>counts := bump (clean_code code) 1 (counts t)\<rparr>"

definition tally_take :: "instant \<Rightarrow> tally \<Rightarrow> rejection_counts \<times> tally" where
  "tally_take now t =
     (\<lparr>period_start = since t, period_end = now, taken_counts = counts t\<rparr>,
      \<lparr>counts = [], since = now\<rparr>)"

definition tally_put_back :: "rejection_counts \<Rightarrow> tally \<Rightarrow> tally" where
  "tally_put_back taken t =
     \<lparr>counts = foldl (\<lambda>cs (code, n). bump code n cs) (counts t) (taken_counts taken),
      since = min (since t) (period_start taken)\<rparr>"

definition tally_records :: "string \<Rightarrow> rejection_counts \<Rightarrow> aggregate_record list" where
  "tally_records surf taken =
     map (\<lambda>(code, n). \<lparr>agg_start = period_start taken, agg_end = period_end taken,
                       source = ''unauthenticated'', agg_surface = surf, agg_subject_ok = False,
                       agg_tool = None, agg_error = Some code, request_count = n\<rparr>)
       (sort_key fst (taken_counts taken))"

text \<open>
  The codes are distinct keys, so sorting the items sorts by code.
  \<open>write_now\<close>: the rows the sink stored, the number returned, and the tally. Between \<open>take\<close>
  and \<open>put_back\<close> other threads may add; \<open>meanwhile\<close> are the codes they do.
\<close>

definition write_now ::
  "string \<Rightarrow> instant \<Rightarrow> string list \<Rightarrow> bool \<Rightarrow> tally \<Rightarrow> aggregate_record list \<times> nat \<times> tally" where
  "write_now surf now meanwhile sink_ok t =
     (let (taken, t1) = tally_take now t;
          t2 = foldl (\<lambda>t code. tally_add code t) t1 meanwhile
      in if taken_counts taken = [] then ([], 0, t2)
         else if sink_ok then
           (let rows = tally_records surf taken in (rows, length rows, t2))
         else ([], 0, tally_put_back taken t2))"

lemma count_of_bump: "count_of c (bump code n cs) = count_of c cs + (if c = code then n else 0)"
  by (simp add: count_of_def bump_def update_conv')

lemma bump_distinct: "distinct (map fst cs) \<Longrightarrow> distinct (map fst (bump code n cs))"
  by (simp add: bump_def distinct_update)

definition sum_code :: "string \<Rightarrow> (string \<times> nat) list \<Rightarrow> nat" where
  "sum_code c cs = sum_list (map snd (filter (\<lambda>p. fst p = c) cs))"

lemma sum_code_distinct: "distinct (map fst cs) \<Longrightarrow> sum_code c cs = count_of c cs"
proof (induction cs)
  case (Cons p cs)
  have "fst p = c \<Longrightarrow> filter (\<lambda>q. fst q = c) cs = []"
    using Cons.prems by (auto simp: filter_empty_conv rev_image_eqI)
  then show ?case using Cons by (cases p) (auto simp: sum_code_def count_of_def)
qed (simp add: sum_code_def count_of_def)

lemma count_of_foldl_bump:
  "count_of c (foldl (\<lambda>cs (code, n). bump code n cs) cs0 xs) = count_of c cs0 + sum_code c xs"
  by (induction xs arbitrary: cs0) (auto simp: count_of_bump sum_code_def)

lemma foldl_bump_distinct:
  "distinct (map fst cs0) \<Longrightarrow> distinct (map fst (foldl (\<lambda>cs (code, n). bump code n cs) cs0 xs))"
  by (induction xs arbitrary: cs0) (auto simp: bump_distinct)

lemma count_of_adds:
  "count_of c (counts (foldl (\<lambda>t code. tally_add code t) t codes))
     = count_of c (counts t) + length (filter (\<lambda>code. clean_code code = c) codes)"
  by (induction codes arbitrary: t) (auto simp: tally_add_def count_of_bump)

lemma adds_distinct:
  "distinct (map fst (counts t)) \<Longrightarrow>
   distinct (map fst (counts (foldl (\<lambda>t code. tally_add code t) t codes)))"
  by (induction codes arbitrary: t) (auto simp: tally_add_def bump_distinct)

text \<open>The requests the stored rows count under one code.\<close>

definition rows_count :: "string \<Rightarrow> aggregate_record list \<Rightarrow> nat" where
  "rows_count c rows = sum_list (map request_count (filter (\<lambda>r. agg_error r = Some c) rows))"

lemma count_of_Nil [simp]: "count_of c [] = 0"
  by (simp add: count_of_def)

lemma rows_count_Nil [simp]: "rows_count c [] = 0"
  by (simp add: rows_count_def)

lemma rows_count_append [simp]: "rows_count c (xs @ ys) = rows_count c xs + rows_count c ys"
  by (simp add: rows_count_def)

lemma rows_count_records: "rows_count c (tally_records surf taken) = sum_code c (taken_counts taken)"
proof -
  have eq: "rows_count c (map (\<lambda>(code, n). \<lparr>agg_start = s, agg_end = e, source = src,
              agg_surface = surf, agg_subject_ok = b, agg_tool = None, agg_error = Some code,
              request_count = n\<rparr>) xs) = sum_code c xs" for xs s e src b
    by (induction xs) (auto simp: rows_count_def sum_code_def)
  have "sum_code c (sort_key fst (taken_counts taken)) = sum_code c (taken_counts taken)"
    by (simp add: sum_code_def flip: sum_mset_sum_list)
  then show ?thesis unfolding tally_records_def by (simp add: eq)
qed

text \<open>A run of the tally: requests being counted and write attempts, in any order.\<close>

datatype tally_op = Add string | Write instant "string list" bool

fun tally_step :: "aggregate_record list \<times> tally \<Rightarrow> tally_op \<Rightarrow> aggregate_record list \<times> tally" where
  "tally_step (rows, t) (Add code) = (rows, tally_add code t)"
| "tally_step (rows, t) (Write now meanwhile sink_ok) =
     (let (new, _, t') = write_now ''public'' now meanwhile sink_ok t in (rows @ new, t'))"

fun added_codes :: "tally_op \<Rightarrow> string list" where
  "added_codes (Add code) = [code]"
| "added_codes (Write now meanwhile sink_ok) = meanwhile"

lemma tally_step_counts:
  assumes "tally_step (rows, t) op = (rows', t')" and "distinct (map fst (counts t))"
  shows "rows_count c rows' + count_of c (counts t')
           = rows_count c rows + count_of c (counts t)
             + length (filter (\<lambda>code. clean_code code = c) (added_codes op))"
    and "distinct (map fst (counts t'))"
proof -
  show "distinct (map fst (counts t'))"
  proof (cases op)
    case (Add code)
    then show ?thesis using assms by (auto simp: tally_add_def bump_distinct)
  next
    case (Write now meanwhile sink_ok)
    then show ?thesis
      using assms
      by (auto simp: write_now_def tally_take_def Let_def tally_put_back_def foldl_bump_distinct
          adds_distinct split: if_splits)
  qed
  show "rows_count c rows' + count_of c (counts t')
           = rows_count c rows + count_of c (counts t)
             + length (filter (\<lambda>code. clean_code code = c) (added_codes op))"
  proof (cases op)
    case (Add code)
    then show ?thesis using assms by (auto simp: tally_add_def count_of_bump)
  next
    case (Write now meanwhile sink_ok)
    have s: "sum_code c (counts t) = count_of c (counts t)" by (rule sum_code_distinct [OF assms(2)])
    show ?thesis
      using assms Write s
      by (auto simp: write_now_def tally_take_def Let_def rows_count_append rows_count_records
          count_of_adds tally_put_back_def count_of_foldl_bump split: if_splits)
  qed
qed

lemma tally_run_counts:
  assumes "foldl tally_step (rows, t) ops = (rows', t')" and "distinct (map fst (counts t))"
  shows "rows_count c rows' + count_of c (counts t')
           = rows_count c rows + count_of c (counts t)
             + length (filter (\<lambda>code. clean_code code = c) (concat (map added_codes ops)))"
  using assms
proof (induction ops arbitrary: rows t)
  case (Cons op ops)
  obtain r1 t1 where st: "tally_step (rows, t) op = (r1, t1)" by fastforce
  then have "foldl tally_step (r1, t1) ops = (rows', t')" using Cons.prems by simp
  from Cons.IH [OF this tally_step_counts(2) [OF st Cons.prems(2)]]
  show ?case using tally_step_counts(1) [OF st Cons.prems(2)] by simp
qed simp

section \<open>Retention\<close>

definition DAY :: int where "DAY = 86400000000"

text \<open>\<open>date_trunc('day', ts AT TIME ZONE 'UTC')\<close>, as the instant it starts.\<close>

definition day_of :: "instant \<Rightarrow> instant" where "day_of t = (t div DAY) * DAY"

definition retention_cutoff :: "instant \<Rightarrow> int \<Rightarrow> value_error + instant" where
  "retention_cutoff now days =
     (if days < 1 then Inl (ValueError ''retention must keep at least one day'')
      else Inr (day_of now - days * DAY))"

record audit_db =
  mcp_audit :: "(instant \<times> audit_record) list"
  mcp_audit_rollup :: "aggregate_record list"

text \<open>The columns \<open>surface, subject_ok, tool, error\<close> both tables share.\<close>

type_synonym outcome = "string \<times> bool \<times> string option \<times> string option"

definition detail_outcome :: "audit_record \<Rightarrow> outcome" where
  "detail_outcome r = (surface r, subject_ok r, aud_tool r, aud_error r)"

definition rollup_outcome :: "aggregate_record \<Rightarrow> outcome" where
  "rollup_outcome a = (agg_surface a, agg_subject_ok a, agg_tool a, agg_error a)"

text \<open>\<open>SELECT key, sum(val) ... GROUP BY key\<close>.\<close>

definition group_sums :: "('a \<Rightarrow> 'k) \<Rightarrow> ('a \<Rightarrow> nat) \<Rightarrow> 'a list \<Rightarrow> ('k \<times> nat) list" where
  "group_sums key val xs =
     map (\<lambda>k. (k, sum_list (map val (filter (\<lambda>x. key x = k) xs)))) (remdups (map key xs))"

definition daily_row :: "string \<Rightarrow> (instant \<times> outcome) \<times> nat \<Rightarrow> aggregate_record" where
  "daily_row src g =
     (case g of ((day, surf, ok, tool, err), n) \<Rightarrow>
        \<lparr>agg_start = day, agg_end = day + DAY, source = src, agg_surface = surf,
         agg_subject_ok = ok, agg_tool = tool, agg_error = err, request_count = n\<rparr>)"

definition accepted_public :: "instant \<times> audit_record \<Rightarrow> bool" where
  "accepted_public x \<longleftrightarrow> surface (snd x) = ''public'' \<and> subject_ok (snd x)"

definition prunable :: "instant \<Rightarrow> instant \<times> audit_record \<Rightarrow> bool" where
  "prunable cutoff x \<longleftrightarrow> fst x < cutoff \<and> \<not> accepted_public x"

text \<open>\<open>_ROLL_UP_DETAIL_SQL\<close>: the tables after it, and the counts it returns.\<close>

definition roll_up_detail :: "instant \<Rightarrow> audit_db \<Rightarrow> nat list \<times> audit_db" where
  "roll_up_detail cutoff db =
     (let moved = filter (prunable cutoff) (mcp_audit db);
          by_day = group_sums (\<lambda>(ts, r). (day_of ts, detail_outcome r)) (\<lambda>_. 1) moved
      in (map snd by_day,
          db\<lparr>mcp_audit := filter (\<lambda>x. \<not> prunable cutoff x) (mcp_audit db),
             mcp_audit_rollup := mcp_audit_rollup db @ map (daily_row ''retention'') by_day\<rparr>))"

definition mergeable :: "instant \<Rightarrow> aggregate_record \<Rightarrow> bool" where
  "mergeable cutoff a \<longleftrightarrow>
     source a = ''unauthenticated'' \<and> agg_end a \<le> cutoff \<and> agg_end a - agg_start a < DAY"

definition merge_intervals :: "instant \<Rightarrow> audit_db \<Rightarrow> nat list \<times> audit_db" where
  "merge_intervals cutoff db =
     (let merged = filter (mergeable cutoff) (mcp_audit_rollup db);
          by_day = group_sums (\<lambda>a. (day_of (agg_start a), rollup_outcome a)) request_count merged
      in (map snd by_day,
          db\<lparr>mcp_audit_rollup :=
               filter (\<lambda>a. \<not> mergeable cutoff a) (mcp_audit_rollup db)
               @ map (daily_row ''unauthenticated'') by_day\<rparr>))"

record audit_prune_report =
  cutoff_used :: instant
  detail_rows_rolled_up :: nat
  daily_rows_written :: nat
  accepted_public_rows_kept :: nat
  interval_rows_merged :: nat
  merged_rows_written :: nat
  was_dry_run :: bool

definition prune_audit :: "instant \<Rightarrow> bool \<Rightarrow> audit_db \<Rightarrow> audit_prune_report \<times> audit_db" where
  "prune_audit cutoff dry_run db =
     (let kept = length (filter (\<lambda>x. fst x < cutoff \<and> accepted_public x) (mcp_audit db));
          intervals = length (filter (mergeable cutoff) (mcp_audit_rollup db));
          (daily, db1) = roll_up_detail cutoff db;
          (merged, db2) = merge_intervals cutoff db1
      in (\<lparr>cutoff_used = cutoff, detail_rows_rolled_up = sum_list daily,
           daily_rows_written = length daily, accepted_public_rows_kept = kept,
           interval_rows_merged = intervals, merged_rows_written = length merged,
           was_dry_run = dry_run\<rparr>,
          if dry_run then db else db2))"

lemma group_sums_total_aux:
  assumes "finite K" and "key ` set xs \<subseteq> K"
  shows "(\<Sum>k \<in> K. if P k then sum_list (map val (filter (\<lambda>x. key x = k) xs)) else 0)
           = sum_list (map val (filter (\<lambda>x. P (key x)) xs))"
  using assms(2)
proof (induction xs)
  case (Cons x xs)
  have "(\<Sum>k \<in> K. if P k then sum_list (map val (filter (\<lambda>y. key y = k) (x # xs))) else 0)
      = (\<Sum>k \<in> K. (if k = key x then (if P (key x) then val x else 0) else 0)
              + (if P k then sum_list (map val (filter (\<lambda>y. key y = k) xs)) else 0))"
    by (rule sum.cong) auto
  also have "\<dots> = (if P (key x) then val x else 0) + sum_list (map val (filter (\<lambda>x. P (key x)) xs))"
    using Cons assms(1) by (simp add: sum.distrib)
  finally show ?case by simp
qed (auto intro: sum.neutral)

lemma group_sums_total:
  "sum_list (map snd (filter (\<lambda>g. P (fst g)) (group_sums key val xs)))
     = sum_list (map val (filter (\<lambda>x. P (key x)) xs))"
proof -
  let ?f = "\<lambda>k. sum_list (map val (filter (\<lambda>x. key x = k) xs))"
  have "sum_list (map snd (filter (\<lambda>g. P (fst g)) (map (\<lambda>k. (k, ?f k)) ks)))
      = sum_list (map (\<lambda>k. if P k then ?f k else 0) ks)" for ks
    by (induction ks) auto
  then have "sum_list (map snd (filter (\<lambda>g. P (fst g)) (group_sums key val xs)))
      = (\<Sum>k \<in> set (remdups (map key xs)). if P k then ?f k else 0)"
    unfolding group_sums_def by (simp only: sum_list_distinct_conv_sum_set [OF distinct_remdups])
  also have "\<dots> = sum_list (map val (filter (\<lambda>x. P (key x)) xs))"
    by (rule group_sums_total_aux) auto
  finally show ?thesis .
qed

text \<open>The requests of one outcome on one day, wherever they are counted.\<close>

definition rollup_requests :: "instant \<Rightarrow> outcome \<Rightarrow> aggregate_record list \<Rightarrow> nat" where
  "rollup_requests d out rows =
     sum_list (map request_count (filter (\<lambda>a. day_of (agg_start a) = d \<and> rollup_outcome a = out) rows))"

definition detail_requests :: "instant \<Rightarrow> outcome \<Rightarrow> (instant \<times> audit_record) list \<Rightarrow> nat" where
  "detail_requests d out rows =
     length (filter (\<lambda>(ts, r). day_of ts = d \<and> detail_outcome r = out) rows)"

definition requests_on :: "instant \<Rightarrow> outcome \<Rightarrow> audit_db \<Rightarrow> nat" where
  "requests_on d out db = detail_requests d out (mcp_audit db) + rollup_requests d out (mcp_audit_rollup db)"

lemma rollup_requests_append [simp]:
  "rollup_requests d out (xs @ ys) = rollup_requests d out xs + rollup_requests d out ys"
  by (simp add: rollup_requests_def)

lemma day_of_idem [simp]: "day_of (day_of t) = day_of t"
  by (simp add: day_of_def DAY_def)

lemma rollup_requests_daily:
  assumes "\<forall>g \<in> set gs. day_of (fst (fst g)) = fst (fst g)"
  shows "rollup_requests d out (map (daily_row src) gs)
           = sum_list (map snd (filter (\<lambda>g. fst g = (d, out)) gs))"
  using assms
proof (induction gs)
  case (Cons g gs)
  then show ?case
    by (cases g) (auto simp: rollup_requests_def daily_row_def rollup_outcome_def split: prod.splits)
qed (simp add: rollup_requests_def)

lemma group_sums_days:
  "(\<And>x. day_of (fst (key x)) = fst (key x)) \<Longrightarrow>
   \<forall>g \<in> set (group_sums key val xs). day_of (fst (fst g)) = fst (fst g)"
  by (auto simp: group_sums_def)

lemma rollup_requests_groups:
  assumes "\<And>x. day_of (fst (key x)) = fst (key x)"
  shows "rollup_requests d out (map (daily_row src) (group_sums key val xs))
           = sum_list (map val (filter (\<lambda>x. key x = (d, out)) xs))"
  using rollup_requests_daily [OF group_sums_days [where key = key, OF assms]]
    group_sums_total [where P = "\<lambda>k. k = (d, out)"] by simp

lemma sum_list_filter_split:
  "sum_list (map f (filter P xs)) + sum_list (map f (filter (\<lambda>x. \<not> P x) xs)) = sum_list (map f xs)"
  for f :: "'a \<Rightarrow> nat"
  by (induction xs) auto

lemma roll_up_detail_requests:
  "requests_on d out (snd (roll_up_detail cutoff db)) = requests_on d out db"
proof -
  let ?key = "\<lambda>(ts, r). (day_of ts, detail_outcome r)"
  let ?moved = "filter (prunable cutoff) (mcp_audit db)"
  have days: "day_of (fst (?key x)) = fst (?key x)" for x by (cases x) simp
  have groups: "rollup_requests d out (map (daily_row ''retention'') (group_sums ?key (\<lambda>_. 1) ?moved))
      = length (filter (\<lambda>x. ?key x = (d, out)) ?moved)"
    using rollup_requests_groups [where key = ?key and val = "\<lambda>_. 1", OF days]
    by (simp add: sum_list_triv)
  have split: "length (filter P xs) = length (filter P (filter Q xs)) + length (filter P (filter (\<lambda>x. \<not> Q x) xs))"
    for P Q and xs :: "(instant \<times> audit_record) list"
    by (induction xs) auto
  have key: "(\<lambda>x. ?key x = (d, out)) = (\<lambda>(ts, r). day_of ts = d \<and> detail_outcome r = out)"
    by auto
  show ?thesis
    unfolding roll_up_detail_def requests_on_def Let_def
    using groups split [of "\<lambda>(ts, r). day_of ts = d \<and> detail_outcome r = out" "mcp_audit db" "prunable cutoff"]
    by (simp add: key detail_requests_def)
qed

lemma merge_intervals_requests:
  "requests_on d out (snd (merge_intervals cutoff db)) = requests_on d out db"
proof -
  let ?key = "\<lambda>a. (day_of (agg_start a), rollup_outcome a)"
  let ?merged = "filter (mergeable cutoff) (mcp_audit_rollup db)"
  have days: "day_of (fst (?key x)) = fst (?key x)" for x by simp
  note groups = rollup_requests_groups [where key = ?key and val = request_count
      and src = "''unauthenticated''" and xs = ?merged and d = d and out = out, OF days]
  have "sum_list (map request_count (filter (\<lambda>x. ?key x = (d, out)) ?merged))
      + rollup_requests d out (filter (\<lambda>a. \<not> mergeable cutoff a) (mcp_audit_rollup db))
      = rollup_requests d out (mcp_audit_rollup db)"
    unfolding rollup_requests_def
    using sum_list_filter_split [of request_count "mergeable cutoff"
        "filter (\<lambda>a. day_of (agg_start a) = d \<and> rollup_outcome a = out) (mcp_audit_rollup db)"]
    by (simp add: conj_commute)
  then show ?thesis
    unfolding merge_intervals_def requests_on_def Let_def using groups by simp
qed

section \<open>Properties\<close>

text \<open>
  Retention loses no request: after a run, and any number before it, every outcome of every UTC
  day counts as many requests as before, in detailed rows and aggregate rows together.
\<close>

theorem prune_conserves_requests:
  "requests_on d out (snd (prune_audit cutoff dry_run db)) = requests_on d out db"
  using merge_intervals_requests [of d out cutoff "snd (roll_up_detail cutoff db)"]
    roll_up_detail_requests [of d out cutoff db]
  by (cases "roll_up_detail cutoff db"; cases "merge_intervals cutoff (snd (roll_up_detail cutoff db))")
    (simp add: prune_audit_def Let_def)

text \<open>
  Accepted public rows are kept whole and in order whatever their age, so the standing check
  that no foreign subject was accepted reads the same rows after any run of the retention; and
  no detailed row younger than the cutoff is touched.
\<close>

theorem prune_keeps_accepted:
  "filter accepted_public (mcp_audit (snd (prune_audit cutoff dry_run db)))
     = filter accepted_public (mcp_audit db)
   \<and> accepted_foreign_subjects (map snd (mcp_audit (snd (prune_audit cutoff dry_run db)))) owner
     = accepted_foreign_subjects (map snd (mcp_audit db)) owner
   \<and> filter (\<lambda>x. cutoff \<le> fst x) (mcp_audit (snd (prune_audit cutoff dry_run db)))
     = filter (\<lambda>x. cutoff \<le> fst x) (mcp_audit db)"
proof -
  have after: "mcp_audit (snd (prune_audit cutoff dry_run db))
      = (if dry_run then mcp_audit db else filter (\<lambda>x. \<not> prunable cutoff x) (mcp_audit db))"
    by (simp add: prune_audit_def roll_up_detail_def merge_intervals_def Let_def)
  have foreign: "accepted_foreign_subjects (map snd xs) owner
      = accepted_foreign_subjects (map snd (filter accepted_public xs)) owner" for xs
    by (induction xs) (auto simp: accepted_foreign_subjects_def accepted_public_def)
  have keep: "filter accepted_public (filter (\<lambda>x. \<not> prunable cutoff x) xs) = filter accepted_public xs"
    and young: "filter (\<lambda>x. cutoff \<le> fst x) (filter (\<lambda>x. \<not> prunable cutoff x) xs) = filter (\<lambda>x. cutoff \<le> fst x) xs"
    for xs
    by (auto simp: prunable_def intro!: filter_cong)
  have "filter accepted_public (mcp_audit (snd (prune_audit cutoff dry_run db))) = filter accepted_public (mcp_audit db)"
    using keep by (simp add: after)
  then show ?thesis using foreign young by (metis after)
qed

text \<open>
  No request counted in memory is lost or written twice by the tally's writer: after any run of
  counted requests and write attempts, failed ones and ones with requests arriving meanwhile
  included, the rows stored and the counts still pending add up, code by code, to the requests.
\<close>

theorem tally_conserves_counts:
  "(let (rows, t) = foldl tally_step ([], new_tally t0) ops
    in rows_count c rows + count_of c (counts t))
   = length (filter (\<lambda>code. clean_code code = c) (concat (map added_codes ops)))"
proof -
  obtain rows t where run: "foldl tally_step ([], new_tally t0) ops = (rows, t)" by fastforce
  show ?thesis using tally_run_counts [OF run, of c] run by (simp add: new_tally_def)
qed

text \<open>
  The two forms of the standing check differ: on an accepted public row whose subject is null
  the SQL comparison is null, so the count stays 0 where the check in memory reports the row.
  Where no such row exists they agree.
\<close>

theorem foreign_checks_drift:
  "(\<exists>rows. length (accepted_foreign_subjects rows owner) = 1 \<and> count_accepted_foreign rows owner = 0)
   \<and> (\<forall>rows. has_null_accept rows
        \<or> count_accepted_foreign rows owner = length (accepted_foreign_subjects rows owner))"
proof -
  let ?r = "\<lparr>surface = ''public'', aud_subject = None, subject_ok = True, aud_tool = None,
             params_sha256 = None, result_count = None, latency_ms = None, aud_error = None\<rparr>"
  have "length (accepted_foreign_subjects [?r] owner) = 1 \<and> count_accepted_foreign [?r] owner = 0"
    by (simp add: accepted_foreign_subjects_def count_accepted_foreign_def sql_neq_def)
  then show ?thesis using count_accepted_foreign_eq by blast
qed

text \<open>Two one-minute rows, the second across the midnight that ends day 0.\<close>

definition spanning_rows :: "aggregate_record list" where
  "spanning_rows =
     map (\<lambda>(s, e). \<lparr>agg_start = s, agg_end = e, source = ''unauthenticated'',
                    agg_surface = ''public'', agg_subject_ok = False, agg_tool = None,
                    agg_error = Some ''UNAUTHORIZED'', request_count = 1\<rparr>)
       [(DAY - 90000000, DAY - 30000000), (DAY - 30000000, DAY + 30000000)]"

text \<open>
  A day's interval rows can be merged in two runs: the row of the interval that spans a cutoff's
  midnight is left for the next run, which writes a second daily row for a day that has one.
\<close>

theorem interval_day_split:
  "(let db0 = \<lparr>mcp_audit = [], mcp_audit_rollup = spanning_rows\<rparr>;
        db1 = snd (prune_audit DAY False db0);
        db2 = snd (prune_audit (2 * DAY) False db1)
    in map (\<lambda>a. (agg_start a, agg_end a, request_count a)) (mcp_audit_rollup db2)
         = [(0, DAY, 1), (0, DAY, 1)])"
  by code_simp

end
