(* ===== verification/Rate_Limit.thy ===== *)
theory Rate_Limit
  imports Ordered_Dict
begin

text \<open>
  \<open>src/imsg/mcp/ratelimit.py\<close>: the sliding-window limiter of the public surface and the
  per-client failure throttle in front of it. The injected monotonic clock is an argument of
  every operation, so a run is a list of calls with non-decreasing times; the locks make each
  operation one step.

  \<open>limiter_window_bound\<close>: in no window does a key get more than its limit.
  \<open>throttle_sound\<close> and \<open>throttle_exact\<close>: a client is throttled only for failures of its own in
  the last window, and for all of them while no client had to be dropped.
  \<open>throttle_memory_bounded\<close>: both memory bounds, whatever keys an attacker chooses.
\<close>

section \<open>Logs of instants and windows over them\<close>

text \<open>\<open>while q and q[0] <= cutoff: q.popleft()\<close>.\<close>

definition expire :: "clock \<Rightarrow> clock list \<Rightarrow> clock list" where
  "expire cutoff q = dropWhile (\<lambda>t. t \<le> cutoff) q"

definition in_window :: "clock \<Rightarrow> clock \<Rightarrow> clock list \<Rightarrow> clock list" where
  "in_window w t ts = filter (\<lambda>x. t - w < x \<and> x \<le> t) ts"

text \<open>The log \<open>q\<close> holds the instants of \<open>ts\<close> after some cut-off at least a window ago.\<close>

definition tracks :: "clock \<Rightarrow> clock \<Rightarrow> clock list \<Rightarrow> clock list \<Rightarrow> bool" where
  "tracks w now ts q \<longleftrightarrow>
     sorted ts \<and> (\<forall>t \<in> set ts. t \<le> now) \<and> (\<exists>c \<le> now - w. q = filter (\<lambda>x. c < x) ts)"

definition within_budget :: "int \<Rightarrow> clock \<Rightarrow> clock list \<Rightarrow> bool" where
  "within_budget limit w ts \<longleftrightarrow> (\<forall>t. int (length (in_window w t ts)) \<le> limit)"

lemma expire_sorted: "sorted q \<Longrightarrow> expire c q = filter (\<lambda>x. c < x) q"
  unfolding expire_def
  by (induction q) (auto simp: not_le intro!: filter_True [symmetric] elim: order.strict_trans2)

lemma expire_filter: "sorted ts \<Longrightarrow> c \<le> c' \<Longrightarrow> expire c' (filter (\<lambda>x. c < x) ts) = filter (\<lambda>x. c' < x) ts"
  by (subst expire_sorted) (auto simp: sorted_filter [of id, simplified] intro!: filter_cong)

lemma tracks_Nil: "tracks w now [] []"
  by (auto simp: tracks_def intro: exI [of _ "now - w"])

lemma tracks_expire:
  assumes "tracks w now ts q" and "now \<le> now'"
  shows "expire (now' - w) q = filter (\<lambda>x. now' - w < x) ts"
    and "tracks w now' ts (expire (now' - w) q)"
proof -
  obtain c where c: "c \<le> now - w" "q = filter (\<lambda>x. c < x) ts" "sorted ts"
    using assms(1) by (auto simp: tracks_def)
  then show e: "expire (now' - w) q = filter (\<lambda>x. now' - w < x) ts"
    using assms(2) by (simp add: expire_filter)
  show "tracks w now' ts (expire (now' - w) q)"
    using assms c unfolding e by (fastforce simp: tracks_def)
qed

lemma tracks_later:
  assumes "tracks w now ts q" and "now \<le> now'"
  shows "tracks w now' ts q"
proof -
  obtain c where "c \<le> now - w" "q = filter (\<lambda>x. c < x) ts" using assms(1) by (auto simp: tracks_def)
  moreover have "c \<le> now' - w" using calculation(1) assms(2) by linarith
  moreover have "sorted ts" and "\<forall>t \<in> set ts. t \<le> now'"
    using assms by (auto simp: tracks_def intro: order_trans)
  ultimately show ?thesis unfolding tracks_def by blast
qed

lemma tracks_snoc:
  assumes "tracks w now ts q" and "0 < w"
  shows "tracks w now (ts @ [now]) (q @ [now])"
proof -
  obtain c where "c \<le> now - w" "q = filter (\<lambda>x. c < x) ts" using assms(1) by (auto simp: tracks_def)
  then show ?thesis
    using assms by (auto simp: tracks_def sorted_append intro!: exI [of _ c])
qed

lemma within_budget_snoc:
  assumes "tracks w now ts (filter (\<lambda>x. now - w < x) ts)" and "within_budget limit w ts"
    and room: "int (length (filter (\<lambda>x. now - w < x) ts)) < limit"
  shows "within_budget limit w (ts @ [now])"
  unfolding within_budget_def
proof
  fix t
  show "int (length (in_window w t (ts @ [now]))) \<le> limit"
  proof (cases "t - w < now \<and> now \<le> t")
    case True
    have "length (in_window w t ts) \<le> length (filter (\<lambda>x. now - w < x) ts)"
      unfolding in_window_def using True
      by (intro length_filter_mono_on) auto
    then show ?thesis using room True by (simp add: in_window_def)
  next
    case False
    then show ?thesis using assms(2) by (auto simp: in_window_def within_budget_def)
  qed
qed

section \<open>The limiter's interface\<close>

text \<open>What the gate relies on: the verdict counts the key's log, and only a yes extends it.\<close>

locale window_limiter =
  fixes allow :: "clock \<Rightarrow> string \<Rightarrow> 's \<Rightarrow> bool \<times> 's"
    and log :: "'s \<Rightarrow> string \<Rightarrow> clock list"
    and limit_of :: "'s \<Rightarrow> int"
    and window_of :: "'s \<Rightarrow> clock"
  assumes allow_verdict:
      "fst (allow now k s) \<longleftrightarrow> int (length (expire (now - window_of s) (log s k))) < limit_of s"
    and allow_log:
      "log (snd (allow now k s)) k
         = expire (now - window_of s) (log s k) @ (if fst (allow now k s) then [now] else [])"
    and allow_other: "k' \<noteq> k \<Longrightarrow> log (snd (allow now k s)) k' = log s k'"
    and allow_settings: "limit_of (snd (allow now k s)) = limit_of s"
      "window_of (snd (allow now k s)) = window_of s"
begin

definition accounts :: "string \<Rightarrow> clock \<Rightarrow> clock list \<Rightarrow> 's \<Rightarrow> bool" where
  "accounts k now ts s \<longleftrightarrow>
     0 < window_of s \<and> tracks (window_of s) now ts (log s k) \<and>
     within_budget (limit_of s) (window_of s) ts"

text \<open>One call keeps the account: \<open>ts\<close> is what the key was allowed so far.\<close>

lemma accounts_allow:
  assumes "accounts k now ts s" and "now \<le> now'"
  shows "accounts k now' (ts @ (if k' = k \<and> fst (allow now' k' s) then [now'] else []))
           (snd (allow now' k' s))"
proof (cases "k' = k")
  case False
  then show ?thesis
    using assms tracks_later [of _ now ts _ now'] by (auto simp: accounts_def allow_other allow_settings)
next
  case True
  have tr: "tracks (window_of s) now ts (log s k)" and w: "0 < window_of s"
    using assms(1) by (auto simp: accounts_def)
  note ex = tracks_expire [OF tr assms(2)]
  show ?thesis
  proof (cases "fst (allow now' k s)")
    case yes: True
    then have "int (length (filter (\<lambda>x. now' - window_of s < x) ts)) < limit_of s"
      using allow_verdict ex(1) by simp
    then have "within_budget (limit_of s) (window_of s) (ts @ [now'])"
      using within_budget_snoc ex assms(1) by (simp add: accounts_def)
    then show ?thesis
      using yes True w tracks_snoc [OF ex(2) w] by (simp add: accounts_def allow_log allow_settings)
  next
    case no: False
    then show ?thesis
      using True w ex(2) assms(1) by (simp add: accounts_def allow_log allow_settings)
  qed
qed

end

section \<open>SlidingWindowLimiter\<close>

record limiter =
  lim_limit :: int
  lim_window :: clock
  lim_events :: "string \<rightharpoonup> clock list"

definition new_limiter :: "int \<Rightarrow> clock \<Rightarrow> value_error + limiter" where
  "new_limiter limit window_seconds =
     (if limit < 1 then Inl (ValueError ''rate limit must be >= 1'')
      else if window_seconds \<le> 0 then Inl (ValueError ''window must be positive'')
      else Inr \<lparr>lim_limit = limit, lim_window = window_seconds, lim_events = Map.empty\<rparr>)"

definition lim_queue :: "limiter \<Rightarrow> string \<Rightarrow> clock list" where
  "lim_queue s key = (case lim_events s key of None \<Rightarrow> [] | Some q \<Rightarrow> q)"

definition limiter_allow :: "clock \<Rightarrow> string \<Rightarrow> limiter \<Rightarrow> bool \<times> limiter" where
  "limiter_allow now key s =
     (let q = expire (now - lim_window s) (lim_queue s key)
      in if int (length q) \<ge> lim_limit s then (False, s\<lparr>lim_events := (lim_events s)(key \<mapsto> q)\<rparr>)
         else (True, s\<lparr>lim_events := (lim_events s)(key \<mapsto> q @ [now])\<rparr>))"

definition limiter_note :: "clock \<Rightarrow> string \<Rightarrow> limiter \<Rightarrow> limiter" where
  "limiter_note now key s =
     s\<lparr>lim_events := (lim_events s)(key \<mapsto> expire (now - lim_window s) (lim_queue s key) @ [now])\<rparr>"

definition limiter_would_allow :: "clock \<Rightarrow> string \<Rightarrow> limiter \<Rightarrow> bool \<times> limiter" where
  "limiter_would_allow now key s =
     (case lim_events s key of
        None \<Rightarrow> (True, s)
      | Some q \<Rightarrow>
          let q = expire (now - lim_window s) q
          in (int (length q) < lim_limit s, s\<lparr>lim_events := (lim_events s)(key \<mapsto> q)\<rparr>))"

lemma lim_queue_update [simp]:
  "lim_queue (s\<lparr>lim_events := (lim_events s)(k \<mapsto> q)\<rparr>) k' = (if k' = k then q else lim_queue s k')"
  by (simp add: lim_queue_def)

interpretation sliding: window_limiter limiter_allow lim_queue lim_limit lim_window
  by unfold_locales (auto simp: limiter_allow_def Let_def)

text \<open>The check without recording answers as \<open>allow\<close> would, once the limit is at least one.\<close>

lemma limiter_would_allow_verdict:
  "1 \<le> lim_limit s \<Longrightarrow> fst (limiter_would_allow now key s) = fst (limiter_allow now key s)"
  by (auto simp: limiter_would_allow_def limiter_allow_def lim_queue_def expire_def Let_def
      split: option.splits)

section \<open>Runs of one limiter\<close>

datatype limiter_call = Allow | Note | WouldAllow

fun limiter_step :: "limiter \<Rightarrow> limiter_call \<Rightarrow> clock \<Rightarrow> string \<Rightarrow> bool \<times> limiter" where
  "limiter_step s Allow now key = limiter_allow now key s"
| "limiter_step s Note now key = (True, limiter_note now key s)"
| "limiter_step s WouldAllow now key = limiter_would_allow now key s"

text \<open>The instants at which a run's \<open>allow(key)\<close> calls were answered yes.\<close>

fun allowed_times :: "string \<Rightarrow> limiter \<Rightarrow> (limiter_call \<times> clock \<times> string) list \<Rightarrow> clock list" where
  "allowed_times key s [] = []"
| "allowed_times key s ((c, now, k) # calls) =
     (if c = Allow \<and> k = key \<and> fst (limiter_step s c now k) then [now] else [])
     @ allowed_times key (snd (limiter_step s c now k)) calls"

lemma accounts_step:
  assumes "sliding.accounts key now ts s" and "now \<le> now'" and "\<not> (c = Note \<and> k = key)"
  shows "sliding.accounts key now' (ts @ (if c = Allow \<and> k = key \<and> fst (limiter_step s c now' k) then [now'] else []))
           (snd (limiter_step s c now' k))"
proof (cases c)
  case Allow
  then show ?thesis using sliding.accounts_allow [OF assms(1,2), of k] by simp
next
  case Note
  then show ?thesis
    using assms tracks_later [of _ now ts _ now'] by (auto simp: sliding.accounts_def limiter_note_def)
next
  case WouldAllow
  have tr: "tracks (lim_window s) now ts (lim_queue s key)" using assms(1) by (simp add: sliding.accounts_def)
  then show ?thesis
    using WouldAllow assms tracks_later [OF tr] tracks_expire(2) [OF tr assms(2)]
    by (auto simp: sliding.accounts_def limiter_would_allow_def lim_queue_def Let_def split: option.splits)
qed

lemma accounts_run:
  assumes "sliding.accounts key now ts s" and "sorted (now # map (fst \<circ> snd) calls)"
    and "\<forall>(c, _, k) \<in> set calls. \<not> (c = Note \<and> k = key)"
  shows "within_budget (lim_limit s) (lim_window s) (ts @ allowed_times key s calls)"
  using assms
proof (induction calls arbitrary: now ts s)
  case Nil
  then show ?case by (simp add: sliding.accounts_def)
next
  case (Cons call calls)
  obtain c now' k where call: "call = (c, now', k)" by (cases call)
  let ?s' = "snd (limiter_step s c now' k)"
  have same: "lim_limit ?s' = lim_limit s" "lim_window ?s' = lim_window s"
    by (cases c; auto simp: limiter_allow_def limiter_note_def limiter_would_allow_def Let_def
        split: option.splits)+
  show ?case
    using Cons.IH [OF accounts_step [OF Cons.prems(1), of now' c k]] Cons.prems(2,3) call same by simp
qed

section \<open>ClientFailureThrottle\<close>

record throttle =
  thr_per_client_limit :: nat
  thr_shared_limit :: nat
  thr_window :: clock
  thr_max_clients :: nat
  thr_failures :: "clock list ordered_dict"

definition UNIDENTIFIED :: string where "UNIDENTIFIED = []"

definition new_throttle :: "nat \<Rightarrow> nat \<Rightarrow> clock \<Rightarrow> nat \<Rightarrow> value_error + throttle" where
  "new_throttle per_client_limit shared_limit window_seconds max_clients =
     (if per_client_limit < 1 \<or> shared_limit < 1 then Inl (ValueError ''failure limits must be >= 1'')
      else if window_seconds \<le> 0 then Inl (ValueError ''window must be positive'')
      else if max_clients < 1 then Inl (ValueError ''max_clients must be >= 1'')
      else Inr \<lparr>thr_per_client_limit = per_client_limit, thr_shared_limit = shared_limit,
                thr_window = window_seconds, thr_max_clients = max_clients, thr_failures = []\<rparr>)"

definition limit_for :: "throttle \<Rightarrow> string \<Rightarrow> nat" where
  "limit_for s key = (if key = UNIDENTIFIED then thr_shared_limit s else thr_per_client_limit s)"

definition client_bucket :: "string option \<Rightarrow> string" where
  "client_bucket client = (case client of None \<Rightarrow> UNIDENTIFIED | Some c \<Rightarrow> c)"

text \<open>\<open>deque(maxlen=n).append\<close>: a full deque drops its oldest entry.\<close>

definition take_last :: "nat \<Rightarrow> 'a list \<Rightarrow> 'a list" where
  "take_last n xs = drop (length xs - n) xs"

definition deque_append :: "nat \<Rightarrow> 'a list \<Rightarrow> 'a \<Rightarrow> 'a list" where
  "deque_append maxlen q x = take_last maxlen (q @ [x])"

definition thr_queue :: "throttle \<Rightarrow> string \<Rightarrow> clock list" where
  "thr_queue s key = (case map_of (thr_failures s) key of None \<Rightarrow> [] | Some q \<Rightarrow> q)"

definition note_failure :: "clock \<Rightarrow> string option \<Rightarrow> throttle \<Rightarrow> throttle" where
  "note_failure now client s =
     (let key = client_bucket client;
          q = deque_append (limit_for s key) (expire (now - thr_window s) (thr_queue s key)) now
      in s\<lparr>thr_failures := od_put (thr_max_clients s) key q (thr_failures s)\<rparr>)"

definition is_throttled :: "clock \<Rightarrow> string option \<Rightarrow> throttle \<Rightarrow> bool \<times> throttle" where
  "is_throttled now client s =
     (let key = client_bucket client
      in case map_of (thr_failures s) key of
           None \<Rightarrow> (False, s)
         | Some q \<Rightarrow>
             let q = expire (now - thr_window s) q
             in (length q \<ge> limit_for s key, s\<lparr>thr_failures := AList.update key q (thr_failures s)\<rparr>))"

definition tracked_clients :: "throttle \<Rightarrow> nat" where
  "tracked_clients s = length (thr_failures s)"

datatype throttle_call = NoteFailure | IsThrottled

fun throttle_step :: "throttle \<Rightarrow> throttle_call \<Rightarrow> clock \<Rightarrow> string option \<Rightarrow> throttle" where
  "throttle_step s NoteFailure now client = note_failure now client s"
| "throttle_step s IsThrottled now client = snd (is_throttled now client s)"

fun throttle_run :: "throttle \<Rightarrow> (throttle_call \<times> clock \<times> string option) list \<Rightarrow> throttle" where
  "throttle_run s [] = s"
| "throttle_run s ((c, now, client) # calls) = throttle_run (throttle_step s c now client) calls"

text \<open>The instants of a client's failures in a run.\<close>

fun failure_times :: "string \<Rightarrow> (throttle_call \<times> clock \<times> string option) list \<Rightarrow> clock list" where
  "failure_times key [] = []"
| "failure_times key ((c, now, client) # calls) =
     (if c = NoteFailure \<and> client_bucket client = key then [now] else []) @ failure_times key calls"

subsection \<open>Bounded deques answer like unbounded logs\<close>

lemma length_take_last: "length (take_last n xs) = min n (length xs)"
  by (simp add: take_last_def)

lemma take_last_snoc: "1 \<le> n \<Longrightarrow> take_last n (take_last n xs @ [x]) = take_last n (xs @ [x])"
  by (cases "n \<le> length xs") (auto simp: take_last_def Suc_diff_le)

lemma take_last_append_ge: "n \<le> length ys \<Longrightarrow> take_last n (xs @ ys) = take_last n ys"
  by (simp add: take_last_def)

lemma take_last_append_le: "length ys \<le> n \<Longrightarrow> take_last n (xs @ ys) = take_last (n - length ys) xs @ ys"
  by (simp add: take_last_def)

lemma set_take_last: "set (take_last n xs) \<subseteq> set xs"
  by (simp add: take_last_def set_drop_subset)

lemma sorted_split_at: "sorted xs \<Longrightarrow> xs = filter (\<lambda>x. x \<le> c) xs @ filter (\<lambda>x. c < x) (xs :: clock list)"
proof (induction xs)
  case (Cons x xs)
  show ?case
  proof (cases "x \<le> c")
    case True
    with Cons show ?thesis by auto
  next
    case False
    with Cons.prems have "\<forall>y \<in> set xs. c < y" by force
    then show ?thesis using False by (auto simp: filter_empty_conv filter_id_conv not_le)
  qed
qed simp

lemma expire_above: "set zs \<subseteq> {c<..} \<Longrightarrow> expire c zs = zs"
  by (cases zs) (auto simp: expire_def)

lemma expire_below: "set zs \<subseteq> {..c} \<Longrightarrow> expire c (zs @ ys) = expire c ys"
  by (induction zs) (auto simp: expire_def)

lemma dropWhile_take_last:
  assumes "sorted (ys :: clock list)"
  shows "expire c (take_last n ys) = take_last n (filter (\<lambda>x. c < x) ys)"
proof -
  let ?lo = "filter (\<lambda>x. x \<le> c) ys" and ?hi = "filter (\<lambda>x. c < x) ys"
  have ys: "ys = ?lo @ ?hi" by (rule sorted_split_at [OF assms])
  have hi: "set (take_last m ?hi) \<subseteq> {c<..}" for m using set_take_last [of m ?hi] by auto
  have lo: "set (take_last m ?lo) \<subseteq> {..c}" for m using set_take_last [of m ?lo] by auto
  show ?thesis
  proof (cases "n \<le> length ?hi")
    case True
    then have "take_last n ys = take_last n ?hi" using take_last_append_ge ys by metis
    then show ?thesis using expire_above [OF hi] by simp
  next
    case False
    then have "take_last n ys = take_last (n - length ?hi) ?lo @ ?hi" using take_last_append_le ys
      by (metis nat_le_linear)
    moreover have "take_last n ?hi = ?hi" using False by (simp add: take_last_def)
    ultimately show ?thesis using expire_below [OF lo] expire_above [OF hi [of n]] by simp
  qed
qed

text \<open>
  \<open>bounded_log\<close>: the deque of a client holds the last failures of \<open>ts\<close>, those noted since
  the client was last dropped.
\<close>

definition bounded_log :: "nat \<Rightarrow> clock \<Rightarrow> clock \<Rightarrow> clock list \<Rightarrow> clock list \<Rightarrow> bool" where
  "bounded_log n w now ts q \<longleftrightarrow>
     sorted ts \<and> (\<forall>t \<in> set ts. t \<le> now) \<and> (\<exists>c \<le> now - w. q = take_last n (filter (\<lambda>x. c < x) ts))"

lemma bounded_log_expire:
  assumes "bounded_log n w now ts q" and "now \<le> now'"
  shows "expire (now' - w) q = take_last n (filter (\<lambda>x. now' - w < x) ts)"
proof -
  obtain c where c: "c \<le> now - w" "q = take_last n (filter (\<lambda>x. c < x) ts)" "sorted ts"
    using assms(1) by (auto simp: bounded_log_def)
  have "filter (\<lambda>x. now' - w < x) (filter (\<lambda>x. c < x) ts) = filter (\<lambda>x. now' - w < x) ts"
    using c(1) assms(2) by (auto intro!: filter_cong)
  moreover have "sorted (filter (\<lambda>x. c < x) ts)" using sorted_map_filter [of id ts] c(3) by simp
  ultimately show ?thesis using c(2) by (simp add: dropWhile_take_last)
qed

lemma bounded_log_expired:
  assumes "bounded_log n w now ts q" and "now \<le> now'"
  shows "bounded_log n w now' ts (expire (now' - w) q)"
  using assms unfolding bounded_log_expire [OF assms]
  by (auto simp: bounded_log_def intro!: exI [of _ "now' - w"] intro: order_trans)

lemma bounded_log_later:
  assumes "bounded_log n w now ts q" and "now \<le> now'"
  shows "bounded_log n w now' ts q"
proof -
  obtain c where "c \<le> now - w" "q = take_last n (filter (\<lambda>x. c < x) ts)"
    using assms(1) by (auto simp: bounded_log_def)
  moreover have "c \<le> now' - w" using calculation(1) assms(2) by linarith
  moreover have "sorted ts" and "\<forall>t \<in> set ts. t \<le> now'"
    using assms by (auto simp: bounded_log_def intro: order_trans)
  ultimately show ?thesis unfolding bounded_log_def by blast
qed

lemma bounded_log_append:
  assumes "bounded_log n w now ts q" and "now \<le> now'" and "1 \<le> n" and "0 < w"
  shows "bounded_log n w now' (ts @ [now']) (deque_append n (expire (now' - w) q) now')"
proof -
  have "deque_append n (expire (now' - w) q) now' = take_last n (filter (\<lambda>x. now' - w < x) (ts @ [now']))"
    using assms by (simp add: deque_append_def bounded_log_expire take_last_snoc)
  then show ?thesis
    using assms unfolding bounded_log_def
    by (auto simp: sorted_append intro!: exI [of _ "now' - w"] intro: order_trans)
qed

lemma bounded_log_Nil: "bounded_log n w now [] []"
  by (auto simp: bounded_log_def take_last_def intro: exI [of _ "now - w"])

subsection \<open>The invariant of a run\<close>

definition throttle_wf :: "throttle \<Rightarrow> bool" where
  "throttle_wf s \<longleftrightarrow>
     od_wf (thr_failures s) \<and> length (thr_failures s) \<le> thr_max_clients s \<and> 0 < thr_window s \<and>
     1 \<le> thr_per_client_limit s \<and> 1 \<le> thr_shared_limit s \<and> 1 \<le> thr_max_clients s \<and>
     (\<forall>key q. map_of (thr_failures s) key = Some q \<longrightarrow> length q \<le> limit_for s key)"

text \<open>What the recorded logs say about the failures \<open>noted key\<close> of each client so far.\<close>

definition throttle_logs :: "clock \<Rightarrow> (string \<Rightarrow> clock list) \<Rightarrow> throttle \<Rightarrow> bool" where
  "throttle_logs now noted s \<longleftrightarrow>
     (\<forall>key q. map_of (thr_failures s) key = Some q \<longrightarrow>
        (\<exists>ts. suffix ts (noted key) \<and> bounded_log (limit_for s key) (thr_window s) now ts q))"

definition throttle_logs_exact :: "clock \<Rightarrow> (string \<Rightarrow> clock list) \<Rightarrow> throttle \<Rightarrow> bool" where
  "throttle_logs_exact now noted s \<longleftrightarrow>
     (\<forall>key. bounded_log (limit_for s key) (thr_window s) now (noted key) (thr_queue s key))"

definition add_note :: "throttle_call \<Rightarrow> clock \<Rightarrow> string option \<Rightarrow> (string \<Rightarrow> clock list) \<Rightarrow> string \<Rightarrow> clock list" where
  "add_note c now client noted key =
     noted key @ (if c = NoteFailure \<and> client_bucket client = key then [now] else [])"

lemma throttle_settings [simp]:
  "thr_window (throttle_step s c now cl) = thr_window s"
  "thr_max_clients (throttle_step s c now cl) = thr_max_clients s"
  "limit_for (throttle_step s c now cl) key = limit_for s key"
  "thr_per_client_limit (throttle_step s c now cl) = thr_per_client_limit s"
  "thr_shared_limit (throttle_step s c now cl) = thr_shared_limit s"
  by (cases c; simp add: note_failure_def is_throttled_def limit_for_def Let_def split: option.split)+

lemma limit_for_pos: "throttle_wf s \<Longrightarrow> 1 \<le> limit_for s key"
  by (simp add: throttle_wf_def limit_for_def)

lemma length_expire: "length (expire c q) \<le> length q"
  by (simp add: expire_def length_dropWhile_le)

lemma od_wf_update: "od_wf d \<Longrightarrow> od_wf (AList.update k v d)"
  by (simp add: od_wf_def distinct_update)

lemma length_update_present: "map_of d k = Some q \<Longrightarrow> length (AList.update k v d) = length d"
  by (induction d) (auto split: if_splits)

lemma length_od_put: "length (od_put cap k v d) \<le> cap"
  by (simp add: od_put_split length_od_trim)

lemma throttle_lookup:
  assumes "throttle_wf s" and "map_of (thr_failures (throttle_step s c now cl)) key = Some q"
  shows "(key \<noteq> client_bucket cl \<and> map_of (thr_failures s) key = Some q) \<or>
         (key = client_bucket cl \<and> c = NoteFailure \<and>
            q = deque_append (limit_for s key) (expire (now - thr_window s) (thr_queue s key)) now) \<or>
         (key = client_bucket cl \<and> c = IsThrottled \<and> map_of (thr_failures s) key \<noteq> None \<and>
            q = expire (now - thr_window s) (thr_queue s key))"
proof (cases c)
  case NoteFailure
  have wf: "od_wf (thr_failures s)" and cap: "1 \<le> thr_max_clients s" using assms(1) by (auto simp: throttle_wf_def)
  show ?thesis
    using assms(2) NoteFailure map_of_od_put_same [OF wf cap] map_of_od_put_other [OF wf]
    by (cases "key = client_bucket cl") (auto simp: note_failure_def Let_def)
next
  case IsThrottled
  then show ?thesis
    using assms(2)
    by (auto simp: is_throttled_def Let_def update_conv' thr_queue_def split: option.splits if_splits)
qed

lemma throttle_wf_step:
  assumes "throttle_wf s"
  shows "throttle_wf (throttle_step s c now cl)"
proof -
  have q: "length q \<le> limit_for s key"
    if "map_of (thr_failures (throttle_step s c now cl)) key = Some q" for key q
    using throttle_lookup [OF assms that] assms length_expire [of "now - thr_window s" "thr_queue s key"]
    by (auto simp: throttle_wf_def deque_append_def length_take_last thr_queue_def
        split: option.splits intro: order_trans)
  have "od_wf (thr_failures (throttle_step s c now cl))"
    and "length (thr_failures (throttle_step s c now cl)) \<le> thr_max_clients s"
    using assms by (cases c; auto simp: throttle_wf_def note_failure_def is_throttled_def Let_def
        od_wf_put od_wf_update length_update_present length_od_put split: option.split)+
  then show ?thesis using assms q by (auto simp: throttle_wf_def)
qed

lemma throttle_logs_step:
  assumes wf: "throttle_wf s" and logs: "throttle_logs now noted s" and "now \<le> now'"
  shows "throttle_logs now' (add_note c now' cl noted) (throttle_step s c now' cl)"
  unfolding throttle_logs_def throttle_settings
proof (intro allI impI)
  fix key q
  assume lk: "map_of (thr_failures (throttle_step s c now' cl)) key = Some q"
  let ?n = "limit_for s key" and ?w = "thr_window s"
  have pos: "1 \<le> ?n" "0 < ?w" using limit_for_pos [OF wf] wf by (auto simp: throttle_wf_def)
  obtain ts where ts: "suffix ts (noted key)" "bounded_log ?n ?w now ts (thr_queue s key)"
    using logs bounded_log_Nil [of ?n ?w now]
    by (cases "map_of (thr_failures s) key")
       (auto simp: throttle_logs_def thr_queue_def intro: that [of "[]"])
  from throttle_lookup [OF wf lk]
  show "\<exists>ts. suffix ts (add_note c now' cl noted key) \<and> bounded_log ?n ?w now' ts q"
  proof (elim disjE conjE)
    assume "key \<noteq> client_bucket cl" and "map_of (thr_failures s) key = Some q"
    then show ?thesis
      using ts bounded_log_later [OF ts(2) \<open>now \<le> now'\<close>] by (auto simp: add_note_def thr_queue_def)
  next
    assume "key = client_bucket cl" and "c = NoteFailure"
      and "q = deque_append ?n (expire (now' - ?w) (thr_queue s key)) now'"
    then show ?thesis
      using ts(1) bounded_log_append [OF ts(2) \<open>now \<le> now'\<close> pos]
      by (intro exI [of _ "ts @ [now']"]) (simp add: add_note_def)
  next
    assume "key = client_bucket cl" and "c = IsThrottled"
      and "q = expire (now' - ?w) (thr_queue s key)"
    then show ?thesis
      using ts(1) bounded_log_expired [OF ts(2) \<open>now \<le> now'\<close>] by (auto simp: add_note_def)
  qed
qed

text \<open>While the clients are few enough, nobody is dropped.\<close>

lemma od_put_no_eviction:
  assumes "od_wf d" and "insert k (fst ` set d) \<subseteq> K" and "finite K" and "card K \<le> cap"
  shows "map_of (od_put cap k v d) k' = (if k' = k then Some v else map_of d k')"
    and "fst ` set (od_put cap k v d) \<subseteq> K"
proof -
  let ?d = "AList.delete k d @ [(k, v)]"
  have "distinct (map fst ?d)" using assms(1) by (simp add: od_wf_def delete_keys distinct_removeAll)
  then have "length ?d = card (fst ` set ?d)" by (metis distinct_card length_map list.set_map)
  moreover have "set (map fst ?d) \<subseteq> K"
    using assms(2) by (simp only: map_append set_append delete_keys set_removeAll list.map) auto
  then have sub: "fst ` set ?d \<subseteq> K" by (simp only: set_map)
  ultimately have "length ?d \<le> cap" using card_mono [OF assms(3) sub] assms(4) by linarith
  then have put: "od_put cap k v d = ?d" by (simp add: od_put_split od_trim_drop)
  show "map_of (od_put cap k v d) k' = (if k' = k then Some v else map_of d k')"
    unfolding put by (simp add: map_add_def delete_conv' split: option.split)
  show "fst ` set (od_put cap k v d) \<subseteq> K" unfolding put by (rule sub)
qed

lemma throttle_exact_step:
  assumes wf: "throttle_wf s" and ex: "throttle_logs_exact now noted s" and "now \<le> now'"
    and few: "fst ` set (thr_failures s) \<subseteq> K" "client_bucket cl \<in> K" "finite K" "card K \<le> thr_max_clients s"
  shows "throttle_logs_exact now' (add_note c now' cl noted) (throttle_step s c now' cl)"
    and "fst ` set (thr_failures (throttle_step s c now' cl)) \<subseteq> K"
proof -
  have odwf: "od_wf (thr_failures s)" and w: "0 < thr_window s" using wf by (auto simp: throttle_wf_def)
  note put = od_put_no_eviction [OF odwf _ few(3,4), of "client_bucket cl"]
  show "fst ` set (thr_failures (throttle_step s c now' cl)) \<subseteq> K"
    using few put(2) by (cases c) (auto simp: note_failure_def is_throttled_def Let_def dom_update
        split: option.split)
  show "throttle_logs_exact now' (add_note c now' cl noted) (throttle_step s c now' cl)"
    unfolding throttle_logs_exact_def throttle_settings
  proof
    fix key
    let ?n = "limit_for s key" and ?w = "thr_window s" and ?s' = "throttle_step s c now' cl"
    have log: "bounded_log ?n ?w now (noted key) (thr_queue s key)"
      using ex by (simp add: throttle_logs_exact_def)
    have pos: "1 \<le> ?n" using limit_for_pos [OF wf] .
    have queue: "thr_queue ?s' key =
        (if key \<noteq> client_bucket cl then thr_queue s key
         else if c = NoteFailure then deque_append ?n (expire (now' - ?w) (thr_queue s key)) now'
         else expire (now' - ?w) (thr_queue s key))"
      using few put(1) [of _ key] by (cases c)
        (auto simp: note_failure_def is_throttled_def Let_def thr_queue_def update_conv' expire_def
          split: option.splits)
    then show "bounded_log ?n ?w now' (add_note c now' cl noted key) (thr_queue ?s' key)"
      using bounded_log_later [OF log \<open>now \<le> now'\<close>] bounded_log_expired [OF log \<open>now \<le> now'\<close>]
        bounded_log_append [OF log \<open>now \<le> now'\<close> pos w]
      by (cases c) (auto simp: add_note_def)
  qed
qed

lemma throttle_run_logs:
  assumes "throttle_wf s" and "throttle_logs now noted s" and "sorted (now # map (fst \<circ> snd) calls @ [t])"
  shows "throttle_wf (throttle_run s calls) \<and>
         throttle_logs t (\<lambda>key. noted key @ failure_times key calls) (throttle_run s calls) \<and>
         limit_for (throttle_run s calls) = limit_for s \<and>
         thr_window (throttle_run s calls) = thr_window s"
  using assms
proof (induction s calls arbitrary: now noted rule: throttle_run.induct)
  case (1 s)
  then show ?case using bounded_log_later by (fastforce simp: throttle_logs_def)
next
  case (2 s c now' cl calls)
  have eq: "(\<lambda>key. add_note c now' cl noted key @ failure_times key calls)
      = (\<lambda>key. noted key @ failure_times key ((c, now', cl) # calls))"
    by (auto simp: add_note_def)
  have le: "now \<le> now'" and rest: "sorted (now' # map (fst \<circ> snd) calls @ [t])"
    using "2.prems"(3) by (auto simp: comp_def)
  show ?case
    using "2.IH" [OF throttle_wf_step [OF "2.prems"(1)] throttle_logs_step [OF "2.prems"(1,2) le] rest] eq
    by (auto simp: fun_eq_iff)
qed

lemma throttle_run_exact:
  assumes "throttle_wf s" and "throttle_logs_exact now noted s"
    and "sorted (now # map (fst \<circ> snd) calls @ [t])"
    and "fst ` set (thr_failures s) \<union> (\<lambda>(c, now, cl). client_bucket cl) ` set calls \<subseteq> K"
    and "finite K" and "card K \<le> thr_max_clients s"
  shows "throttle_logs_exact t (\<lambda>key. noted key @ failure_times key calls) (throttle_run s calls)"
  using assms
proof (induction s calls arbitrary: now noted rule: throttle_run.induct)
  case (1 s)
  then show ?case using bounded_log_later by (fastforce simp: throttle_logs_exact_def)
next
  case (2 s c now' cl calls)
  have eq: "(\<lambda>key. add_note c now' cl noted key @ failure_times key calls)
      = (\<lambda>key. noted key @ failure_times key ((c, now', cl) # calls))"
    by (auto simp: add_note_def)
  have le: "now \<le> now'" and rest: "sorted (now' # map (fst \<circ> snd) calls @ [t])"
    using "2.prems"(3) by (auto simp: comp_def)
  have few: "fst ` set (thr_failures s) \<subseteq> K" "client_bucket cl \<in> K" using "2.prems"(4) by auto
  note step = throttle_exact_step [OF "2.prems"(1,2) le few "2.prems"(5,6)]
  show ?case
    using "2.IH" [OF throttle_wf_step [OF "2.prems"(1)] step(1) rest _ "2.prems"(5)] step(2) "2.prems"(4,6) eq
    by auto
qed

lemma new_throttle_ok:
  assumes "new_throttle p sh w m = Inr s"
  shows "throttle_wf s" and "throttle_logs now (\<lambda>_. []) s" and "throttle_logs_exact now (\<lambda>_. []) s"
    and "thr_failures s = []" and "thr_max_clients s = m" and "thr_window s = w"
  using assms by (auto simp: new_throttle_def throttle_wf_def od_wf_def throttle_logs_def
      throttle_logs_exact_def thr_queue_def bounded_log_Nil split: if_splits)

lemma in_window_filter: "\<forall>x \<in> set ts. x \<le> t \<Longrightarrow> in_window w t ts = filter (\<lambda>x. t - w < x) ts"
  by (auto simp: in_window_def intro!: filter_cong)

lemma is_throttled_queue:
  "throttle_wf s \<Longrightarrow> fst (is_throttled t client s) \<longleftrightarrow>
     limit_for s (client_bucket client) \<le> length (expire (t - thr_window s) (thr_queue s (client_bucket client)))"
  using limit_for_pos [of s "client_bucket client"]
  by (auto simp: is_throttled_def thr_queue_def expire_def Let_def split: option.split)

lemma failure_times_le:
  "sorted (map (fst \<circ> snd) calls @ [t]) \<Longrightarrow> x \<in> set (failure_times key calls) \<Longrightarrow> x \<le> t"
  by (induction key calls rule: failure_times.induct) (auto split: if_splits)

section \<open>Properties\<close>

text \<open>
  A true sliding window: after any run of calls on a limiter whose clock never goes
  back, no window of its length holds more than \<open>limit\<close> instants at which the key was
  allowed, wherever the window is placed.
\<close>

theorem limiter_window_bound:
  assumes "new_limiter limit w = Inr s" and "sorted (map (fst \<circ> snd) calls)"
    and "\<forall>(c, _, k) \<in> set calls. \<not> (c = Note \<and> k = key)"
  shows "int (length (in_window w t (allowed_times key s calls))) \<le> limit"
proof -
  have s: "lim_limit s = limit" "lim_window s = w" "lim_queue s key = []" "0 < w" "1 \<le> limit"
    using assms(1) by (auto simp: new_limiter_def lim_queue_def split: if_splits)
  define start where "start = (case calls of [] \<Rightarrow> 0 | c # _ \<Rightarrow> fst (snd c))"
  have "sliding.accounts key start [] s"
    using s by (simp add: sliding.accounts_def tracks_Nil within_budget_def in_window_def)
  moreover have "sorted (start # map (fst \<circ> snd) calls)"
    using assms(2) by (cases calls) (auto simp: start_def)
  ultimately have "within_budget limit w ([] @ allowed_times key s calls)"
    using accounts_run [of key start "[]" s calls] assms(3) s by simp
  then show ?thesis by (simp add: within_budget_def)
qed

theorem limiter_window_bound_witness:
  "int (length (in_window 60 61 (allowed_times ''owner''
     \<lparr>lim_limit = 2, lim_window = 60, lim_events = Map.empty\<rparr>
     [(Allow, 1, ''owner''), (WouldAllow, 2, ''owner''), (Allow, 3, ''owner''), (Allow, 4, ''owner''),
      (Allow, 61, ''owner'')]))) \<le> 2"
  by (rule limiter_window_bound) (simp_all add: new_limiter_def)

text \<open>
  Nobody is throttled for others: a client is throttled only when it has itself failed at
  least its limit of times within the last window.
\<close>

theorem throttle_sound:
  assumes "new_throttle p sh w m = Inr s" and "sorted (map (fst \<circ> snd) calls @ [t])"
    and "fst (is_throttled t client (throttle_run s calls))"
  shows "limit_for s (client_bucket client)
         \<le> length (in_window w t (failure_times (client_bucket client) calls))"
proof -
  let ?key = "client_bucket client" and ?s' = "throttle_run s calls"
  define start where "start = (case calls of [] \<Rightarrow> t | c # _ \<Rightarrow> fst (snd c))"
  have "sorted (start # map (fst \<circ> snd) calls @ [t])"
    using assms(2) by (cases calls) (auto simp: start_def)
  then have run: "throttle_wf ?s'" "throttle_logs t (\<lambda>key. failure_times key calls) ?s'"
      "limit_for ?s' = limit_for s" "thr_window ?s' = w"
    using throttle_run_logs [OF new_throttle_ok(1,2) [OF assms(1)], of start calls t]
      new_throttle_ok(6) [OF assms(1)] by auto
  then obtain q where q: "map_of (thr_failures ?s') ?key = Some q"
    and long: "limit_for s ?key \<le> length (expire (t - w) q)"
    using assms(3) by (auto simp: is_throttled_def Let_def split: option.splits)
  then obtain ts where ts: "suffix ts (failure_times ?key calls)"
      "bounded_log (limit_for s ?key) w t ts q"
    using run by (force simp: throttle_logs_def)
  have "length (expire (t - w) q) \<le> length (filter (\<lambda>x. t - w < x) ts)"
    using bounded_log_expire [OF ts(2) order_refl] by (simp add: length_take_last)
  also have "\<dots> \<le> length (filter (\<lambda>x. t - w < x) (failure_times ?key calls))"
    using ts(1) by (auto simp: suffix_def)
  finally show ?thesis
    using long in_window_filter [of "failure_times ?key calls" t w] failure_times_le [OF assms(2)] by auto
qed

theorem throttle_sound_witness:
  "limit_for \<lparr>thr_per_client_limit = 2, thr_shared_limit = 3, thr_window = 60, thr_max_clients = 1,
      thr_failures = []\<rparr> (client_bucket (Some ''a''))
   \<le> length (in_window 60 5 (failure_times (client_bucket (Some ''a''))
        [(NoteFailure, 1, Some ''a''), (NoteFailure, 2, Some ''a'')]))"
  by (rule throttle_sound [where p = 2 and sh = 3 and m = 1])
     (simp add: new_throttle_def, simp, code_simp)

text \<open>
  While the clients seen are no more than the table holds, the verdict is exact: a client
  is throttled if and only if it failed at least its limit of times within the last window,
  although each deque keeps only that many instants.
\<close>

theorem throttle_exact:
  assumes "new_throttle p sh w m = Inr s" and "sorted (map (fst \<circ> snd) calls @ [t])"
    and "card (insert (client_bucket client) ((\<lambda>(c, now, cl). client_bucket cl) ` set calls)) \<le> m"
  shows "fst (is_throttled t client (throttle_run s calls)) \<longleftrightarrow>
         limit_for s (client_bucket client)
         \<le> length (in_window w t (failure_times (client_bucket client) calls))"
proof -
  let ?key = "client_bucket client" and ?s' = "throttle_run s calls"
  let ?K = "insert ?key ((\<lambda>(c, now, cl). client_bucket cl) ` set calls)"
  define start where "start = (case calls of [] \<Rightarrow> t | c # _ \<Rightarrow> fst (snd c))"
  have start: "sorted (start # map (fst \<circ> snd) calls @ [t])"
    using assms(2) by (cases calls) (auto simp: start_def)
  note new = new_throttle_ok [OF assms(1)]
  have run: "throttle_wf ?s'" "limit_for ?s' = limit_for s" "thr_window ?s' = w"
    using throttle_run_logs [OF new(1,2) start] new(6) by auto
  have "throttle_logs_exact t (\<lambda>key. [] @ failure_times key calls) ?s'"
    by (rule throttle_run_exact [OF new(1,3) start, of ?K]) (use assms(3) new in \<open>force+\<close>)
  then have log: "bounded_log (limit_for s ?key) w t (failure_times ?key calls) (thr_queue ?s' ?key)"
    using run by (simp add: throttle_logs_exact_def)
  show ?thesis
    unfolding is_throttled_queue [OF run(1)] run(2,3) bounded_log_expire [OF log order_refl]
    using in_window_filter [of "failure_times ?key calls" t w] failure_times_le [OF assms(2)]
    by (auto simp: length_take_last)
qed

theorem throttle_exact_witness:
  "fst (is_throttled 70 (Some ''a'') (throttle_run
      \<lparr>thr_per_client_limit = 2, thr_shared_limit = 3, thr_window = 60, thr_max_clients = 2, thr_failures = []\<rparr>
      [(NoteFailure, 1, Some ''a''), (NoteFailure, 2, Some ''a''), (NoteFailure, 69, Some ''a'')])) \<longleftrightarrow>
   limit_for \<lparr>thr_per_client_limit = 2, thr_shared_limit = 3, thr_window = 60, thr_max_clients = 2,
      thr_failures = []\<rparr> (client_bucket (Some ''a''))
   \<le> length (in_window 60 70 (failure_times (client_bucket (Some ''a''))
        [(NoteFailure, 1, Some ''a''), (NoteFailure, 2, Some ''a''), (NoteFailure, 69, Some ''a'')]))"
  by (rule throttle_exact [where p = 2 and sh = 3 and m = 2])
     (simp_all add: new_throttle_def client_bucket_def)

text \<open>
  Memory is bounded whatever keys are sent: at most \<open>max_clients\<close> clients are tracked, and
  each keeps at most its limit of instants.
\<close>

theorem throttle_memory_bounded:
  assumes "new_throttle p sh w m = Inr s"
  shows "tracked_clients (throttle_run s calls) \<le> m \<and>
         list_all (\<lambda>(key, q). length q \<le> (if key = UNIDENTIFIED then sh else p))
           (thr_failures (throttle_run s calls))"
proof -
  have step: "throttle_wf (throttle_run s' calls) \<and> thr_max_clients (throttle_run s' calls) = thr_max_clients s' \<and>
      limit_for (throttle_run s' calls) = limit_for s'" if "throttle_wf s'" for s'
    using that by (induction s' calls rule: throttle_run.induct) (auto simp: throttle_wf_step fun_eq_iff)
  have lim: "limit_for s key = (if key = UNIDENTIFIED then sh else p)" for key
    using assms by (auto simp: new_throttle_def limit_for_def split: if_splits)
  show ?thesis
    using step [OF new_throttle_ok(1) [OF assms]] new_throttle_ok(5) [OF assms] lim
    by (auto simp: tracked_clients_def throttle_wf_def list_all_iff od_wf_def)
qed

theorem throttle_memory_bounded_witness:
  "tracked_clients (throttle_run \<lparr>thr_per_client_limit = 2, thr_shared_limit = 3, thr_window = 60,
      thr_max_clients = 1, thr_failures = []\<rparr>
      [(NoteFailure, 1, Some ''a''), (NoteFailure, 2, Some ''b''), (IsThrottled, 3, Some ''b'')]) \<le> 1"
  by (rule throttle_memory_bounded [where p = 2 and sh = 3 and w = 60, THEN conjunct1])
     (simp add: new_throttle_def)

end
