(* ===== verification/Auth_Gate.thy ===== *)
theory Auth_Gate
  imports Tokeninfo Audit_Trail Rate_Limit
begin

text \<open>
  The gate of the public surface (\<open>src/imsg/mcp/auth.py\<close>): the verdict cache, the receipts of
  the rate limit, \<open>_validate_claims\<close>, \<open>_decide\<close> and the three entry points \<open>admit\<close>,
  \<open>authorize\<close> and \<open>dispatch\<close>. One step is one whole request: the locks make the single
  operations on the shared tables atomic, and a run is a sequence of requests.

  What the code does not compute itself is an argument of each request: the answers of the
  introspector and of the audit sink, the readings of the monotonic clock in the order the
  code takes them (\<open>rd 0\<close> first), and the digest \<open>H\<close> (\<open>sha256(..).hexdigest()\<close>).
  \<open>gate_lookups\<close> is a history the code does not keep: the calls of the introspector with the
  reading after each.
\<close>

section \<open>Data\<close>

record cache_entry =
  entry_expires :: clock
  allowed :: bool
  entry_subject :: "string option"
  entry_scopes :: "string set"

record rejection =
  status :: int
  code :: string
  www_authenticate :: "string option"

record authorized_request =
  req_subject :: string
  req_scopes :: "string set"

text \<open>A receipt; \<open>charge\<close> references are indices into the store of all receipts.\<close>

record rate_limit_charge =
  charge_gate :: nat
  charge_key :: string
  spent :: bool

record admission =
  request :: authorized_request
  adm_charge :: "nat option"

datatype verdict = Admitted admission | Rejected rejection | NeedsIO

record lookup =
  looked_up_at :: clock
  looked_up :: string
  answer :: introspection

record gate_config =
  gate_id :: nat
  client_id :: string
  owner_subject :: string
  cache_ttl :: clock
  required_scopes :: "string set"
  challenge :: string

record gate =
  cache :: "cache_entry ordered_dict"
  subject_limiter :: limiter
  failure_limiter :: limiter
  gate_throttle :: throttle
  gate_tally :: tally
  unavailable_until :: clock
  charges :: "rate_limit_charge list"
  audit_rows :: "audit_record list"
  gate_lookups :: "lookup list"

definition NEGATIVE_CACHE_CAP_SECONDS :: clock where "NEGATIVE_CACHE_CAP_SECONDS = 30"
definition UNAVAILABLE_COOLDOWN_SECONDS :: clock where "UNAVAILABLE_COOLDOWN_SECONDS = 5"
definition CACHE_MAX_ENTRIES :: nat where "CACHE_MAX_ENTRIES = 4096"
definition DEFAULT_FAILURE_BUDGET_PER_MINUTE :: nat where "DEFAULT_FAILURE_BUDGET_PER_MINUTE = 600"
definition DEFAULT_CLIENT_FAILURE_BUDGET_PER_MINUTE :: nat where
  "DEFAULT_CLIENT_FAILURE_BUDGET_PER_MINUTE = 10"
definition DEFAULT_MAX_TRACKED_CLIENTS :: nat where "DEFAULT_MAX_TRACKED_CLIENTS = 4096"
definition FAILURE_KEY :: string where "FAILURE_KEY = ''introspection-failures''"

section \<open>Construction\<close>

text \<open>\<open>_SUBJECT_RE\<close>: one to 255 ASCII digits, and \<open>$\<close> before a final newline.\<close>

definition subject_match :: "string \<Rightarrow> bool" where
  "subject_match s \<longleftrightarrow>
     (let t = drop_final_newline s in 1 \<le> length t \<and> length t \<le> 255 \<and> (\<forall>ch \<in> set t. is_digit ch))"

datatype startup_error = PublicSurfaceStartupError string | LimitError value_error

definition challenge_for :: "string option \<Rightarrow> string" where
  "challenge_for url =
     ''Bearer error=\"invalid_token\"''
     @ (case url of None \<Rightarrow> [] | Some u \<Rightarrow> '', resource_metadata=\"'' @ u @ ''\"'')"

definition new_gate ::
  "nat \<Rightarrow> string \<Rightarrow> string \<Rightarrow> int \<Rightarrow> int \<Rightarrow> nat \<Rightarrow> nat \<Rightarrow> string set \<Rightarrow> string option \<Rightarrow> instant
    \<Rightarrow> rate_limit_charge list \<Rightarrow> audit_record list \<Rightarrow> startup_error + gate_config \<times> gate" where
  "new_gate gid cid owner ttl rate failure_budget client_budget scopes_needed url wall receipts rows =
     (if cid = [] \<or> py_strip cid \<noteq> cid \<or> py_strip cid = []
      then Inl (PublicSurfaceStartupError ''client id'')
      else if \<not> subject_match owner then Inl (PublicSurfaceStartupError ''owner_subject'')
      else if ttl < 1 then Inl (PublicSurfaceStartupError ''cache TTL'')
      else (case new_limiter rate 60 of
              Inl e \<Rightarrow> Inl (LimitError e)
            | Inr subjects \<Rightarrow>
           (case new_limiter (int failure_budget) 60 of
              Inl e \<Rightarrow> Inl (LimitError e)
            | Inr failures \<Rightarrow>
           (case new_throttle client_budget failure_budget 60 DEFAULT_MAX_TRACKED_CLIENTS of
              Inl e \<Rightarrow> Inl (LimitError e)
            | Inr thr \<Rightarrow>
              Inr (\<lparr>gate_id = gid, client_id = cid, owner_subject = owner,
                    cache_ttl = of_int ttl, required_scopes = scopes_needed,
                    challenge = challenge_for url\<rparr>,
                   \<lparr>cache = [], subject_limiter = subjects, failure_limiter = failures,
                    gate_throttle = thr, gate_tally = new_tally wall, unavailable_until = 0,
                    charges = receipts, audit_rows = rows, gate_lookups = []\<rparr>)))))"

section \<open>The verdict cache\<close>

definition cache_get ::
  "clock \<Rightarrow> string \<Rightarrow> cache_entry ordered_dict \<Rightarrow> cache_entry option \<times> cache_entry ordered_dict" where
  "cache_get now key d =
     (case map_of d key of
        None \<Rightarrow> (None, d)
      | Some e \<Rightarrow>
          if entry_expires e \<le> now then (None, AList.delete key d)
          else (Some e, od_move_to_end key d))"

definition cache_put :: "clock \<Rightarrow> string \<Rightarrow> cache_entry \<Rightarrow> cache_entry ordered_dict \<Rightarrow> cache_entry ordered_dict" where
  "cache_put now key e d = (if entry_expires e \<le> now then d else od_put CACHE_MAX_ENTRIES key e d)"

section \<open>Receipts\<close>

definition charge_spend ::
  "nat \<Rightarrow> string \<Rightarrow> nat \<Rightarrow> rate_limit_charge list \<Rightarrow> bool \<times> rate_limit_charge list" where
  "charge_spend gid key i store =
     (if i < length store then
        (let c = store ! i in
         if spent c \<or> charge_gate c \<noteq> gid \<or> charge_key c \<noteq> key then (False, store)
         else (True, store[i := c\<lparr>spent := True\<rparr>]))
      else (False, store))"

section \<open>Rejections\<close>

definition unauthorized :: "gate_config \<Rightarrow> rejection" where
  "unauthorized cfg = \<lparr>status = 401, code = ''UNAUTHORIZED'', www_authenticate = Some (challenge cfg)\<rparr>"

definition rate_limited :: rejection where
  "rate_limited = \<lparr>status = 429, code = ''RATE_LIMITED'', www_authenticate = None\<rparr>"

definition unavailable :: rejection where
  "unavailable = \<lparr>status = 503, code = ''UNAVAILABLE'', www_authenticate = None\<rparr>"

text \<open>
  \<open>_record\<close>: the row of the public surface, and the 503 that a failed write forces. The digest
  of the parameters is \<open>hash_params\<close> of them.
\<close>

definition record_row ::
  "bool \<Rightarrow> string option \<Rightarrow> bool \<Rightarrow> string option \<Rightarrow> string option \<Rightarrow> int option \<Rightarrow> int option
    \<Rightarrow> string option \<Rightarrow> gate \<Rightarrow> rejection option \<times> gate" where
  "record_row sink_ok subj ok tool params_digest n latency err g =
     (let rec = \<lparr>surface = ''public'', aud_subject = subj, subject_ok = ok, aud_tool = tool,
                 params_sha256 = params_digest, result_count = n, latency_ms = latency,
                 aud_error = err\<rparr>
      in if sink_ok then (None, g\<lparr>audit_rows := audit_rows g @ [sanitized rec]\<rparr>)
         else (Some unavailable, g))"

text \<open>\<open>int((end - start) * 1000)\<close> truncates.\<close>

definition latency_of :: "clock \<Rightarrow> clock \<Rightarrow> int" where
  "latency_of started now =
     (let x = (now - started) * 1000 in if 0 \<le> x then \<lfloor>x\<rfloor> else \<lceil>x\<rceil>)"

definition note_client_failure :: "clock \<Rightarrow> string option \<Rightarrow> gate \<Rightarrow> gate" where
  "note_client_failure now client g = g\<lparr>gate_throttle := note_failure now client (gate_throttle g)\<rparr>"

definition count_unauthenticated_rejection :: "clock \<Rightarrow> string option \<Rightarrow> gate \<Rightarrow> gate" where
  "count_unauthenticated_rejection now client g =
     note_client_failure now client (g\<lparr>gate_tally := tally_add ''UNAUTHORIZED'' (gate_tally g)\<rparr>)"

section \<open>Claims\<close>

text \<open>\<open>_ct_equal\<close> compares the digests.\<close>

definition ct_equal :: "(string \<Rightarrow> string) \<Rightarrow> string \<Rightarrow> string \<Rightarrow> bool" where
  "ct_equal H a b \<longleftrightarrow> H a = H b"

definition deny :: "gate_config \<Rightarrow> clock \<Rightarrow> string option \<Rightarrow> cache_entry" where
  "deny cfg now subj =
     \<lparr>entry_expires = now + min (cache_ttl cfg) NEGATIVE_CACHE_CAP_SECONDS, allowed = False,
      entry_subject = subj, entry_scopes = {}\<rparr>"

definition validate_claims ::
  "(string \<Rightarrow> string) \<Rightarrow> gate_config \<Rightarrow> clock \<Rightarrow> token_introspection \<Rightarrow> cache_entry" where
  "validate_claims H cfg now claims =
     (if expires_in_seconds claims \<le> 0 then deny cfg now None
      else if \<not> ct_equal H (audience claims) (client_id cfg) then deny cfg now None
      else if (case authorized_party claims of
                 None \<Rightarrow> False | Some azp \<Rightarrow> \<not> ct_equal H azp (client_id cfg)) then deny cfg now None
      else if \<not> required_scopes cfg \<subseteq> scopes claims then deny cfg now None
      else if \<not> subject_match (subject claims) then deny cfg now (Some (subject claims))
      else if \<not> ct_equal H (subject claims) (owner_subject cfg) then deny cfg now (Some (subject claims))
      else \<lparr>entry_expires = now + min (cache_ttl cfg) (of_int (expires_in_seconds claims)),
            allowed = True, entry_subject = Some (owner_subject cfg),
            entry_scopes = scopes claims\<rparr>)"

section \<open>The check every request passes\<close>

text \<open>
  One call of \<open>_decide\<close>. Its readings of the clock, in order: 0 at the start, 1 and 2 for the
  cache and the throttle, 3 for the breaker, 4 for the budget, 5 to 7 after the introspection,
  8 for the limiter or the throttle's note, 9 for the latency (and 10 and 11 in \<open>dispatch\<close>).
\<close>

record gate_call =
  rd :: "nat \<Rightarrow> clock"
  authorization :: "string option"
  tool :: "string option"
  params_digest :: "string option"
  client :: "string option"
  charge :: "nat option"
  io_allowed :: bool
  introspector :: "string \<Rightarrow> introspection"
  sink_ok :: bool

definition counted :: "gate_call \<Rightarrow> rejection \<Rightarrow> bool \<Rightarrow> gate \<Rightarrow> verdict \<times> gate" where
  "counted q rej failure g =
     (let g1 = g\<lparr>gate_tally := tally_add (code rej) (gate_tally g)\<rparr>
      in (Rejected rej, if failure then note_client_failure (rd q 8) (client q) g1 else g1))"

definition recorded :: "gate_call \<Rightarrow> rejection \<Rightarrow> string option \<Rightarrow> bool \<Rightarrow> gate \<Rightarrow> verdict \<times> gate" where
  "recorded q rej subj failure g =
     (let g1 = (if failure then note_client_failure (rd q 8) (client q) g else g);
          (audit_failure, g2) = record_row (sink_ok q) subj False (tool q) (params_digest q) None
                                  (Some (latency_of (rd q 0) (rd q 9))) (Some (code rej)) g1
      in (case audit_failure of None \<Rightarrow> (Rejected rej, g2) | Some r \<Rightarrow> (Rejected r, g2)))"

definition client_throttled :: "clock \<Rightarrow> gate_call \<Rightarrow> gate \<Rightarrow> bool \<times> gate" where
  "client_throttled now q g =
     (let (b, t) = is_throttled now (client q) (gate_throttle g) in (b, g\<lparr>gate_throttle := t\<rparr>))"

text \<open>The last part: the entry is known.\<close>

definition settle ::
  "gate_config \<Rightarrow> gate_call \<Rightarrow> string \<Rightarrow> cache_entry \<Rightarrow> gate \<Rightarrow> verdict \<times> gate" where
  "settle cfg q key e g =
     (if \<not> allowed e then
        (if \<not> io_allowed q then (NeedsIO, g)
         else recorded q (unauthorized cfg) (entry_subject e) True g)
      else (case entry_subject e of
        None \<Rightarrow> if \<not> io_allowed q then (NeedsIO, g) else recorded q (unauthorized cfg) None True g
      | Some subj \<Rightarrow>
          (let (paid, store) = (case charge q of
                                  None \<Rightarrow> (False, charges g)
                                | Some i \<Rightarrow> charge_spend (gate_id cfg) key i (charges g));
               g1 = g\<lparr>charges := store\<rparr>;
               adm = \<lparr>req_subject = subj, req_scopes = entry_scopes e\<rparr>
           in if paid then (Admitted \<lparr>request = adm, adm_charge = None\<rparr>, g1)
              else
                (let (ok, lim) = limiter_allow (rd q 8) subj (subject_limiter g1);
                     g2 = g1\<lparr>subject_limiter := lim\<rparr>
                 in if \<not> ok then
                      (if \<not> io_allowed q then (NeedsIO, g2)
                       else recorded q rate_limited (Some subj) False g2)
                    else
                      (Admitted \<lparr>request = adm, adm_charge = Some (length (charges g2))\<rparr>,
                       g2\<lparr>charges := charges g2 @
                             [\<lparr>charge_gate = gate_id cfg, charge_key = key, spent = False\<rparr>]\<rparr>)))))"

definition note_budget :: "clock \<Rightarrow> gate \<Rightarrow> gate" where
  "note_budget now g = g\<lparr>failure_limiter := limiter_note now FAILURE_KEY (failure_limiter g)\<rparr>"

text \<open>The live introspection, and what it leaves behind.\<close>

definition judge :: "(string \<Rightarrow> string) \<Rightarrow> gate_config \<Rightarrow> gate_call \<Rightarrow> string \<Rightarrow> gate \<Rightarrow> verdict \<times> gate" where
  "judge H cfg q token g =
     (let key = H token;
          result = introspector q token;
          g1 = g\<lparr>gate_lookups := gate_lookups g
                   @ [\<lparr>looked_up_at = rd q 5, looked_up = token, answer = result\<rparr>]\<rparr>
      in (case result of
            Inl TokenInvalidError \<Rightarrow>
              (let e = deny cfg (rd q 6) None;
                   g2 = note_budget (rd q 5) g1
               in settle cfg q key e (g2\<lparr>cache := cache_put (rd q 7) key e (cache g2)\<rparr>))
          | Inl IntrospectionUnavailableError \<Rightarrow>
              counted q unavailable False
                (g1\<lparr>unavailable_until := rd q 5 + UNAVAILABLE_COOLDOWN_SECONDS\<rparr>)
          | Inr claims \<Rightarrow>
              (let e = validate_claims H cfg (rd q 5) claims;
                   g2 = (if allowed e then g1 else note_budget (rd q 6) g1)
               in settle cfg q key e (g2\<lparr>cache := cache_put (rd q 7) key e (cache g2)\<rparr>))))"

definition cache_miss :: "(string \<Rightarrow> string) \<Rightarrow> gate_config \<Rightarrow> gate_call \<Rightarrow> string \<Rightarrow> gate \<Rightarrow> verdict \<times> gate" where
  "cache_miss H cfg q token g =
     (if rd q 3 < unavailable_until g then counted q unavailable False g
      else
        (let (ok, lim) = limiter_would_allow (rd q 4) FAILURE_KEY (failure_limiter g);
             g1 = g\<lparr>failure_limiter := lim\<rparr>
         in if \<not> ok then counted q rate_limited False g1
            else if \<not> io_allowed q then (NeedsIO, g1)
            else judge H cfg q token g1))"

definition decide :: "(string \<Rightarrow> string) \<Rightarrow> gate_config \<Rightarrow> gate_call \<Rightarrow> gate \<Rightarrow> verdict \<times> gate" where
  "decide H cfg q g =
     (case parse_bearer (authorization q) of
        None \<Rightarrow>
          (let (throttled, g1) = client_throttled (rd q 1) q g
           in if throttled then counted q rate_limited False g1
              else counted q (unauthorized cfg) True g1)
      | Some token \<Rightarrow>
          (let key = H token;
               (cached, d) = cache_get (rd q 1) key (cache g);
               g1 = g\<lparr>cache := d\<rparr>;
               exempt = (case cached of None \<Rightarrow> False | Some e \<Rightarrow> allowed e);
               (throttled, g2) = (if exempt then (False, g1) else client_throttled (rd q 2) q g1)
           in if throttled then counted q rate_limited False g2
              else (case cached of
                      Some e \<Rightarrow> settle cfg q key e g2
                    | None \<Rightarrow> cache_miss H cfg q token g2)))"

text \<open>The same, without the intermediate names.\<close>

lemma cache_miss_unfold:
  "cache_miss H cfg q tok g =
     (let w = limiter_would_allow (rd q 4) FAILURE_KEY (failure_limiter g);
          g1 = g\<lparr>failure_limiter := snd w\<rparr>
      in if rd q 3 < unavailable_until g then counted q unavailable False g
         else if \<not> fst w then counted q rate_limited False g1
         else if \<not> io_allowed q then (NeedsIO, g1) else judge H cfg q tok g1)"
  by (simp add: cache_miss_def Let_def split: prod.split)

lemma decide_no_token:
  "parse_bearer (authorization q) = None \<Longrightarrow>
   decide H cfg q g =
     (let c = client_throttled (rd q 1) q g
      in if fst c then counted q rate_limited False (snd c) else counted q (unauthorized cfg) True (snd c))"
  by (simp add: decide_def Let_def split: prod.split)

lemma decide_token:
  assumes "parse_bearer (authorization q) = Some tok"
  shows "decide H cfg q g =
     (let c = cache_get (rd q 1) (H tok) (cache g);
          g1 = g\<lparr>cache := snd c\<rparr>;
          exempt = (case fst c of None \<Rightarrow> False | Some e \<Rightarrow> allowed e);
          t = (if exempt then (False, g1) else client_throttled (rd q 2) q g1)
      in if fst t then counted q rate_limited False (snd t)
         else (case fst c of Some e \<Rightarrow> settle cfg q (H tok) e (snd t)
                           | None \<Rightarrow> cache_miss H cfg q tok (snd t)))"
  using assms by (simp add: decide_def Let_def split: prod.split option.split)

section \<open>The entry points\<close>

text \<open>
  \<open>authorize\<close> returns the request alone: a receipt it was given is unreachable afterwards. Its
  third case is the assertion that the check always decides when it may wait.
\<close>

definition drop_receipt :: "admission \<Rightarrow> gate \<Rightarrow> gate" where
  "drop_receipt a g =
     (case adm_charge a of None \<Rightarrow> g | Some _ \<Rightarrow> g\<lparr>charges := butlast (charges g)\<rparr>)"

definition authorize ::
  "(string \<Rightarrow> string) \<Rightarrow> gate_config \<Rightarrow> gate_call \<Rightarrow> gate \<Rightarrow> (rejection + authorized_request) \<times> gate" where
  "authorize H cfg q g =
     (case decide H cfg (q\<lparr>io_allowed := True\<rparr>) g of
        (Rejected r, g') \<Rightarrow> (Inl r, g')
      | (Admitted a, g') \<Rightarrow> (Inr (request a), drop_receipt a g')
      | (NeedsIO, g') \<Rightarrow> (Inl unavailable, g'))"

definition admit ::
  "(string \<Rightarrow> string) \<Rightarrow> gate_config \<Rightarrow> gate_call \<Rightarrow> gate \<Rightarrow> verdict \<times> gate" where
  "admit H cfg q g = decide H cfg (q\<lparr>tool := None, params_digest := None, charge := None\<rparr>) g"

definition audit_allowed ::
  "authorized_request \<Rightarrow> bool \<Rightarrow> string option \<Rightarrow> string option \<Rightarrow> int option \<Rightarrow> int option
    \<Rightarrow> string option \<Rightarrow> gate \<Rightarrow> rejection option \<times> gate" where
  "audit_allowed req sink tool_name digest n latency err g =
     record_row sink (Some (req_subject req)) True tool_name digest n latency err g"

record 'p tool_outcome =
  payload :: 'p
  out_count :: "int option"
  out_error :: "string option"

text \<open>What \<open>dispatch\<close> returns, or the exception of the handler it lets through.\<close>

datatype 'p dispatch_result = Refused rejection | Served 'p | HandlerRaised

text \<open>The result, and the request the handler was given when it ran.\<close>

definition dispatch ::
  "(string \<Rightarrow> string) \<Rightarrow> gate_config \<Rightarrow> gate_call \<Rightarrow> (authorized_request \<Rightarrow> 'p tool_outcome option)
    \<Rightarrow> gate \<Rightarrow> ('p dispatch_result \<times> authorized_request option) \<times> gate" where
  "dispatch H cfg q handler g =
     (case authorize H cfg q g of
        (Inl r, g1) \<Rightarrow> ((Refused r, None), g1)
      | (Inr req, g1) \<Rightarrow>
          (case handler req of
             None \<Rightarrow>
               (let (_, g2) = record_row (sink_ok q) (Some (req_subject req)) True (tool q) (params_digest q)
                                None (Some (latency_of (rd q 0) (rd q 10))) (Some ''INTERNAL'') g1
                in ((HandlerRaised, Some req), g2))
           | Some outcome \<Rightarrow>
               (let (audit_failure, g2) = audit_allowed req (sink_ok q) (tool q) (params_digest q)
                      (out_count outcome) (Some (latency_of (rd q 0) (rd q 10))) (out_error outcome) g1
                in ((case audit_failure of None \<Rightarrow> Served (payload outcome) | Some r \<Rightarrow> Refused r,
                     Some req), g2))))"

section \<open>What each part leaves alone\<close>

lemma note_client_failure_sel [simp]:
  "cache (note_client_failure t c g) = cache g"
  "subject_limiter (note_client_failure t c g) = subject_limiter g"
  "failure_limiter (note_client_failure t c g) = failure_limiter g"
  "unavailable_until (note_client_failure t c g) = unavailable_until g"
  "charges (note_client_failure t c g) = charges g"
  "audit_rows (note_client_failure t c g) = audit_rows g"
  "gate_lookups (note_client_failure t c g) = gate_lookups g"
  "gate_tally (note_client_failure t c g) = gate_tally g"
  by (simp_all add: note_client_failure_def)

lemma note_budget_sel [simp]:
  "cache (note_budget t g) = cache g" "subject_limiter (note_budget t g) = subject_limiter g"
  "unavailable_until (note_budget t g) = unavailable_until g" "charges (note_budget t g) = charges g"
  "audit_rows (note_budget t g) = audit_rows g" "gate_lookups (note_budget t g) = gate_lookups g"
  by (simp_all add: note_budget_def)

lemma counted_sel [simp]:
  "fst (counted q r f g) = Rejected r" "cache (snd (counted q r f g)) = cache g"
  "subject_limiter (snd (counted q r f g)) = subject_limiter g"
  "failure_limiter (snd (counted q r f g)) = failure_limiter g"
  "charges (snd (counted q r f g)) = charges g" "audit_rows (snd (counted q r f g)) = audit_rows g"
  "gate_lookups (snd (counted q r f g)) = gate_lookups g"
  "unavailable_until (snd (counted q r f g)) = unavailable_until g"
  by (simp_all add: counted_def Let_def)

lemma client_throttled_sel [simp]:
  "cache (snd (client_throttled t q g)) = cache g"
  "subject_limiter (snd (client_throttled t q g)) = subject_limiter g"
  "failure_limiter (snd (client_throttled t q g)) = failure_limiter g"
  "charges (snd (client_throttled t q g)) = charges g"
  "audit_rows (snd (client_throttled t q g)) = audit_rows g"
  "gate_lookups (snd (client_throttled t q g)) = gate_lookups g"
  "unavailable_until (snd (client_throttled t q g)) = unavailable_until g"
  "gate_tally (snd (client_throttled t q g)) = gate_tally g"
  by (simp_all add: client_throttled_def split: prod.splits)

lemma record_row_sel [simp]:
  "cache (snd (record_row s a b c d e f h g)) = cache g"
  "subject_limiter (snd (record_row s a b c d e f h g)) = subject_limiter g"
  "failure_limiter (snd (record_row s a b c d e f h g)) = failure_limiter g"
  "charges (snd (record_row s a b c d e f h g)) = charges g"
  "gate_lookups (snd (record_row s a b c d e f h g)) = gate_lookups g"
  "unavailable_until (snd (record_row s a b c d e f h g)) = unavailable_until g"
  by (simp_all add: record_row_def Let_def)

lemma recorded_sel [simp]:
  "cache (snd (recorded q r s f g)) = cache g"
  "subject_limiter (snd (recorded q r s f g)) = subject_limiter g"
  "failure_limiter (snd (recorded q r s f g)) = failure_limiter g"
  "charges (snd (recorded q r s f g)) = charges g"
  "gate_lookups (snd (recorded q r s f g)) = gate_lookups g"
  "unavailable_until (snd (recorded q r s f g)) = unavailable_until g"
  by (simp_all add: recorded_def record_row_def Let_def)

text \<open>A rejected row is appended, or nothing is.\<close>

definition rejected_rows :: "audit_record list \<Rightarrow> audit_record list \<Rightarrow> bool" where
  "rejected_rows old new \<longleftrightarrow>
     (\<exists>rs. new = old @ map sanitized rs \<and> (\<forall>r \<in> set rs. \<not> subject_ok r))"

lemma rejected_rows_refl [simp]: "rejected_rows rows rows"
  unfolding rejected_rows_def by (rule exI [of _ "[]"]) simp

lemma recorded_rows: "rejected_rows (audit_rows g) (audit_rows (snd (recorded q r s f g)))"
proof -
  have "audit_rows (snd (recorded q r s f g)) = audit_rows g \<or>
      (\<exists>x. audit_rows (snd (recorded q r s f g)) = audit_rows g @ [sanitized x] \<and> \<not> subject_ok x)"
    by (auto simp: recorded_def record_row_def Let_def)
  then show ?thesis
  proof
    assume "\<exists>x. audit_rows (snd (recorded q r s f g)) = audit_rows g @ [sanitized x] \<and> \<not> subject_ok x"
    then obtain x where "audit_rows (snd (recorded q r s f g)) = audit_rows g @ [sanitized x]" "\<not> subject_ok x"
      by blast
    then show ?thesis unfolding rejected_rows_def by (intro exI [of _ "[x]"]) simp
  qed simp
qed

lemma recorded_verdict: "\<exists>r'. fst (recorded q r s f g) = Rejected r'"
  by (auto simp: recorded_def record_row_def Let_def)

lemma recorded_not [simp]:
  "fst (recorded q r s f g) \<noteq> Admitted a" "fst (recorded q r s f g) \<noteq> NeedsIO"
  using recorded_verdict [of q r s f g] by auto

lemma settle_frame:
  "cache (snd (settle cfg q key e g)) = cache g"
  "failure_limiter (snd (settle cfg q key e g)) = failure_limiter g"
  "gate_lookups (snd (settle cfg q key e g)) = gate_lookups g"
  "unavailable_until (snd (settle cfg q key e g)) = unavailable_until g"
  "rejected_rows (audit_rows g) (audit_rows (snd (settle cfg q key e g)))"
  by (simp_all add: settle_def Let_def recorded_rows split: option.splits prod.splits)
    (metis gate.select_convs gate.surjective gate.update_convs recorded_rows)+

lemma settle_admitted:
  "fst (settle cfg q key e g) = Admitted a \<Longrightarrow>
   allowed e \<and> entry_subject e = Some (req_subject (request a)) \<and> entry_scopes e = req_scopes (request a)"
  by (auto simp: settle_def Let_def split: option.splits prod.splits if_splits)

lemma settle_decides: "io_allowed q \<Longrightarrow> fst (settle cfg q key e g) \<noteq> NeedsIO"
  by (auto simp: settle_def Let_def split: option.splits prod.splits if_splits)

section \<open>The cache holds only what an introspection proved\<close>

text \<open>What the claims must show, in the gate's own tests.\<close>

definition proves_owner :: "(string \<Rightarrow> string) \<Rightarrow> gate_config \<Rightarrow> token_introspection \<Rightarrow> bool" where
  "proves_owner H cfg claims \<longleftrightarrow>
     0 < expires_in_seconds claims \<and> ct_equal H (audience claims) (client_id cfg)
     \<and> (\<forall>azp. authorized_party claims = Some azp \<longrightarrow> ct_equal H azp (client_id cfg))
     \<and> required_scopes cfg \<subseteq> scopes claims \<and> subject_match (subject claims)
     \<and> ct_equal H (subject claims) (owner_subject cfg)"

lemma validate_claims_allowed:
  "allowed (validate_claims H cfg now claims) \<longleftrightarrow> proves_owner H cfg claims"
  by (auto simp: validate_claims_def proves_owner_def deny_def split: option.splits)

lemma validate_claims_entry:
  "proves_owner H cfg claims \<Longrightarrow>
   validate_claims H cfg now claims =
     \<lparr>entry_expires = now + min (cache_ttl cfg) (of_int (expires_in_seconds claims)), allowed = True,
      entry_subject = Some (owner_subject cfg), entry_scopes = scopes claims\<rparr>"
  by (auto simp: validate_claims_def proves_owner_def split: option.splits)

definition entry_proved ::
  "(string \<Rightarrow> string) \<Rightarrow> gate_config \<Rightarrow> lookup list \<Rightarrow> string \<Rightarrow> cache_entry \<Rightarrow> bool" where
  "entry_proved H cfg looks key e \<longleftrightarrow>
     (\<exists>l claims. l \<in> set looks \<and> answer l = Inr claims \<and> H (looked_up l) = key
        \<and> proves_owner H cfg claims \<and> e = validate_claims H cfg (looked_up_at l) claims)"

definition cache_ok :: "(string \<Rightarrow> string) \<Rightarrow> gate_config \<Rightarrow> lookup list \<Rightarrow> cache_entry ordered_dict \<Rightarrow> bool" where
  "cache_ok H cfg looks d \<longleftrightarrow>
     od_wf d \<and> length d \<le> CACHE_MAX_ENTRIES
     \<and> (\<forall>(k, e) \<in> set d. allowed e \<longrightarrow> entry_proved H cfg looks k e)"

lemma cache_ok_Nil [simp]: "cache_ok H cfg looks []"
  by (simp add: cache_ok_def od_wf_def)

lemma entry_proved_more: "entry_proved H cfg looks k e \<Longrightarrow> entry_proved H cfg (looks @ ls) k e"
  by (auto simp: entry_proved_def)

lemma cache_ok_more: "cache_ok H cfg looks d \<Longrightarrow> cache_ok H cfg (looks @ ls) d"
  by (auto simp: cache_ok_def intro: entry_proved_more)

lemma set_delete_subset: "set (AList.delete k d) \<subseteq> set d"
  by (auto simp: AList.delete_eq)

lemma length_delete_present: "map_of d k = Some v \<Longrightarrow> length (AList.delete k d) < length d"
  unfolding AList.delete_eq by (rule length_filter_less [of "(k, v)"]) (auto dest: map_of_SomeD)

lemma od_wf_move: "od_wf d \<Longrightarrow> od_wf (od_move_to_end k d)"
  using delete_notin_dom [of k d]
  by (auto simp: od_move_to_end_def od_wf_def distinct_delete split: option.splits)

lemma cache_get_ok:
  assumes "cache_ok H cfg looks d"
  shows "cache_ok H cfg looks (snd (cache_get now k d))"
proof (cases "map_of d k")
  case (Some e)
  have len: "length (AList.delete k d) < length d" by (rule length_delete_present [OF Some])
  have "(k, e) \<in> set d" using Some by (rule map_of_SomeD)
  then have "set (od_move_to_end k d) \<subseteq> set d" "length (od_move_to_end k d) \<le> length d"
    using Some len set_delete_subset [of k d] by (auto simp: od_move_to_end_def)
  then show ?thesis
    using assms len set_delete_subset [of k d] Some od_wf_delete [of d k] od_wf_move [of d k]
    by (auto simp: cache_get_def cache_ok_def)
qed (use assms in \<open>simp add: cache_get_def\<close>)

lemma cache_get_hit:
  assumes "fst (cache_get now k d) = Some e"
  shows "(k, e) \<in> set d" and "now < entry_expires e"
  using assms by (auto simp: cache_get_def map_of_SomeD split: option.splits if_splits)

lemma cache_put_ok:
  assumes "cache_ok H cfg looks d" and "allowed e \<Longrightarrow> entry_proved H cfg looks k e"
  shows "cache_ok H cfg looks (cache_put now k e d)"
proof -
  have "set (od_put CACHE_MAX_ENTRIES k e d) \<subseteq> insert (k, e) (set d)"
    unfolding od_put_split od_trim_drop using set_delete_subset [of k d] set_drop_subset by fastforce
  then show ?thesis
    using assms od_wf_put [of d CACHE_MAX_ENTRIES k e] length_od_put [of CACHE_MAX_ENTRIES k e d]
    by (auto simp: cache_put_def cache_ok_def)
qed

lemma entry_proved_owner: "entry_proved H cfg looks k e \<Longrightarrow> entry_subject e = Some (owner_subject cfg)"
  by (auto simp: entry_proved_def validate_claims_entry)

lemma judge_ok:
  assumes "cache_ok H cfg (gate_lookups g) (cache g)"
  shows "cache_ok H cfg (gate_lookups (snd (judge H cfg q tok g))) (cache (snd (judge H cfg q tok g)))"
proof -
  let ?l = "\<lparr>looked_up_at = rd q 5, looked_up = tok, answer = introspector q tok\<rparr>"
  have more: "cache_ok H cfg (gate_lookups g @ [?l]) (cache g)"
    using assms by (rule cache_ok_more)
  show ?thesis
  proof (cases "introspector q tok")
    case (Inl err)
    then show ?thesis
      using more cache_put_ok [OF more, of "deny cfg (rd q 6) None" "H tok" "rd q 7"]
      by (cases err) (simp_all add: judge_def Let_def settle_frame deny_def)
  next
    case (Inr claims)
    let ?e = "validate_claims H cfg (rd q 5) claims"
    have proved: "allowed ?e \<Longrightarrow> entry_proved H cfg (gate_lookups g @ [?l]) (H tok) ?e"
      unfolding entry_proved_def using Inr by (auto simp: validate_claims_allowed intro!: exI [of _ ?l])
    from cache_put_ok [OF more this] Inr show ?thesis
      by (auto simp: judge_def Let_def settle_frame)
  qed
qed

lemma judge_rows: "rejected_rows (audit_rows g) (audit_rows (snd (judge H cfg q tok g)))"
proof -
  have step: "rejected_rows (audit_rows g) (audit_rows (snd (settle cfg q key e (g'\<lparr>cache := d\<rparr>))))"
    if "audit_rows g' = audit_rows g" for key e g' d
    using settle_frame(5) [where g = "g'\<lparr>cache := d\<rparr>"] that by simp
  show ?thesis
    by (auto simp: judge_def Let_def intro!: step split: sum.splits introspect_error.splits)
qed

lemma judge_lookups:
  "gate_lookups (snd (judge H cfg q tok g))
     = gate_lookups g @ [\<lparr>looked_up_at = rd q 5, looked_up = tok, answer = introspector q tok\<rparr>]"
  by (auto simp: judge_def Let_def settle_frame split: sum.splits introspect_error.splits)

lemma judge_admitted:
  assumes "fst (judge H cfg q tok g) = Admitted a"
  obtains claims where "introspector q tok = Inr claims" and "proves_owner H cfg claims"
    and "req_subject (request a) = owner_subject cfg" and "req_scopes (request a) = scopes claims"
proof (cases "introspector q tok")
  case (Inl err)
  then show ?thesis
    using assms settle_admitted
    by (cases err) (auto simp: judge_def Let_def deny_def dest!: settle_admitted)
next
  case (Inr claims)
  let ?e = "validate_claims H cfg (rd q 5) claims"
  obtain g' where "fst (settle cfg q (H tok) ?e g') = Admitted a"
    using assms Inr by (auto simp: judge_def Let_def)
  from settle_admitted [OF this] show ?thesis
    using that [OF Inr] validate_claims_allowed [of H cfg "rd q 5" claims]
      validate_claims_entry [of H cfg claims "rd q 5"] by auto
qed

lemma cache_miss_frame:
  assumes "cache_ok H cfg (gate_lookups g) (cache g)"
  shows "cache_ok H cfg (gate_lookups (snd (cache_miss H cfg q tok g))) (cache (snd (cache_miss H cfg q tok g)))"
    and "rejected_rows (audit_rows g) (audit_rows (snd (cache_miss H cfg q tok g)))"
  using assms judge_ok [where g = "g\<lparr>failure_limiter := l\<rparr>" for l]
    judge_rows [where g = "g\<lparr>failure_limiter := l\<rparr>" for l]
  by (auto simp: cache_miss_unfold Let_def)

lemma decide_ok:
  assumes "cache_ok H cfg (gate_lookups g) (cache g)"
  shows "cache_ok H cfg (gate_lookups (snd (decide H cfg q g))) (cache (snd (decide H cfg q g)))"
    and "rejected_rows (audit_rows g) (audit_rows (snd (decide H cfg q g)))"
proof -
  let ?ok = "\<lambda>g'. cache_ok H cfg (gate_lookups g') (cache g') \<and> rejected_rows (audit_rows g) (audit_rows g')"
  have "?ok (snd (decide H cfg q g))"
  proof (cases "parse_bearer (authorization q)")
    case None
    then show ?thesis using assms by (simp add: decide_no_token Let_def)
  next
    case (Some tok)
    let ?c = "cache_get (rd q 1) (H tok) (cache g)"
    let ?t = "(if case fst ?c of None \<Rightarrow> False | Some e \<Rightarrow> allowed e then (False, g\<lparr>cache := snd ?c\<rparr>)
               else client_throttled (rd q 2) q (g\<lparr>cache := snd ?c\<rparr>))"
    have t: "cache (snd ?t) = snd ?c" "gate_lookups (snd ?t) = gate_lookups g"
      "audit_rows (snd ?t) = audit_rows g" by auto
    have ok: "cache_ok H cfg (gate_lookups (snd ?t)) (cache (snd ?t))"
      using cache_get_ok [OF assms] t by simp
    show ?thesis
      using ok t cache_miss_frame [OF ok, of q tok] settle_frame [where cfg = cfg and q = q and key = "H tok" and g = "snd ?t"]
      unfolding decide_token [OF Some] Let_def by (auto simp del: t split: option.splits)
  qed
  then show "cache_ok H cfg (gate_lookups (snd (decide H cfg q g))) (cache (snd (decide H cfg q g)))"
    and "rejected_rows (audit_rows g) (audit_rows (snd (decide H cfg q g)))" by auto
qed

section \<open>Who is admitted\<close>

text \<open>An admission's ground: live claims of the owner for a token with this token's digest.\<close>

definition grounded ::
  "(string \<Rightarrow> string) \<Rightarrow> gate_config \<Rightarrow> gate_call \<Rightarrow> lookup list \<Rightarrow> authorized_request \<Rightarrow> bool" where
  "grounded H cfg q looks req \<longleftrightarrow>
     req_subject req = owner_subject cfg \<and>
     (\<exists>tok l claims. parse_bearer (authorization q) = Some tok \<and> l \<in> set looks
        \<and> H (looked_up l) = H tok \<and> answer l = Inr claims \<and> proves_owner H cfg claims
        \<and> req_scopes req = scopes claims
        \<and> rd q 1 < looked_up_at l + min (cache_ttl cfg) (of_int (expires_in_seconds claims)))"

lemma cache_miss_admitted:
  assumes "fst (cache_miss H cfg q tok g) = Admitted a"
  obtains g' where "cache_miss H cfg q tok g = judge H cfg q tok g'"
  using assms by (auto simp: cache_miss_unfold Let_def split: if_splits)

lemma decide_grounded:
  assumes ok: "cache_ok H cfg (gate_lookups g) (cache g)" and adm: "fst (decide H cfg q g) = Admitted a"
    and ttl: "0 < cache_ttl cfg" and rd: "rd q 1 \<le> rd q 5"
  shows "grounded H cfg q (gate_lookups (snd (decide H cfg q g))) (request a)"
proof (cases "parse_bearer (authorization q)")
  case None
  then show ?thesis using adm by (simp add: decide_no_token Let_def split: if_splits)
next
  case (Some tok)
  let ?c = "cache_get (rd q 1) (H tok) (cache g)"
  let ?g1 = "g\<lparr>cache := snd ?c\<rparr>"
  let ?t = "(if case fst ?c of None \<Rightarrow> False | Some e \<Rightarrow> allowed e then (False, ?g1)
             else client_throttled (rd q 2) q ?g1)"
  have t: "gate_lookups (snd ?t) = gate_lookups g" by auto
  have thr: "\<not> fst ?t" using adm unfolding decide_token [OF Some] Let_def by (auto split: if_splits)
  show ?thesis
  proof (cases "fst ?c")
    case hit: (Some e)
    have dec: "decide H cfg q g = settle cfg q (H tok) e (snd ?t)"
      using thr hit unfolding decide_token [OF Some] Let_def by auto
    then have set: "allowed e" "entry_subject e = Some (req_subject (request a))"
        "entry_scopes e = req_scopes (request a)"
      using settle_admitted adm by auto
    have "entry_proved H cfg (gate_lookups g) (H tok) e"
      using ok cache_get_hit(1) [OF hit] set(1) by (auto simp: cache_ok_def)
    then obtain l claims where l: "l \<in> set (gate_lookups g)" "answer l = Inr claims"
        "H (looked_up l) = H tok" "proves_owner H cfg claims"
        "e = validate_claims H cfg (looked_up_at l) claims"
      by (auto simp: entry_proved_def)
    moreover have "l \<in> set (gate_lookups (snd (decide H cfg q g)))"
      using l(1) by (simp only: dec settle_frame t)
    moreover have "req_subject (request a) = owner_subject cfg" "req_scopes (request a) = scopes claims"
        "rd q 1 < looked_up_at l + min (cache_ttl cfg) (of_int (expires_in_seconds claims))"
      using set l(5) validate_claims_entry [OF l(4)] cache_get_hit(2) [OF hit] by auto
    ultimately show ?thesis
      unfolding grounded_def using Some by blast
  next
    case miss: None
    have dec: "decide H cfg q g = cache_miss H cfg q tok (snd ?t)"
      using thr miss unfolding decide_token [OF Some] Let_def by auto
    have "fst (cache_miss H cfg q tok (snd ?t)) = Admitted a" using adm by (simp only: dec)
    then obtain g2 where jud: "decide H cfg q g = judge H cfg q tok g2"
      using cache_miss_admitted dec by metis
    then obtain claims where c: "introspector q tok = Inr claims" "proves_owner H cfg claims"
        "req_subject (request a) = owner_subject cfg" "req_scopes (request a) = scopes claims"
      using judge_admitted adm unfolding jud by metis
    have "0 < expires_in_seconds claims" using c(2) by (simp add: proves_owner_def)
    then have "0 < min (cache_ttl cfg) (of_int (expires_in_seconds claims))" using ttl by simp
    then have "rd q 1 < rd q 5 + min (cache_ttl cfg) (of_int (expires_in_seconds claims))"
      using rd by linarith
    then show ?thesis
      unfolding grounded_def jud judge_lookups using c Some by fastforce
  qed
qed

lemma decide_io_decides:
  assumes "io_allowed q" shows "fst (decide H cfg q g) \<noteq> NeedsIO"
proof -
  have jud: "fst (judge H cfg q tok g') \<noteq> NeedsIO" for tok g'
    using settle_decides [OF assms] by (auto simp: judge_def Let_def split: sum.splits introspect_error.splits)
  have miss: "fst (cache_miss H cfg q tok g') \<noteq> NeedsIO" for tok g'
    using jud assms by (auto simp: cache_miss_unfold Let_def)
  show ?thesis
    using miss settle_decides [OF assms]
    by (cases "parse_bearer (authorization q)")
      (auto simp: decide_no_token decide_token Let_def split: option.splits)
qed

section \<open>Dispatch\<close>

lemma authorize_cases:
  obtains (refused) r where "fst (authorize H cfg q g) = Inl r"
  | (admitted) a where "fst (authorize H cfg q g) = Inr (request a)"
      and "fst (decide H cfg (q\<lparr>io_allowed := True\<rparr>) g) = Admitted a"
  by (cases "decide H cfg (q\<lparr>io_allowed := True\<rparr>) g"; cases "fst (decide H cfg (q\<lparr>io_allowed := True\<rparr>) g)")
    (auto simp: authorize_def)

lemma drop_receipt_sel [simp]:
  "cache (drop_receipt a g) = cache g" "subject_limiter (drop_receipt a g) = subject_limiter g"
  "failure_limiter (drop_receipt a g) = failure_limiter g" "audit_rows (drop_receipt a g) = audit_rows g"
  "gate_lookups (drop_receipt a g) = gate_lookups g"
  by (simp_all add: drop_receipt_def split: option.split)

lemma authorize_state:
  "cache (snd (authorize H cfg q g)) = cache (snd (decide H cfg (q\<lparr>io_allowed := True\<rparr>) g))"
  "audit_rows (snd (authorize H cfg q g)) = audit_rows (snd (decide H cfg (q\<lparr>io_allowed := True\<rparr>) g))"
  "gate_lookups (snd (authorize H cfg q g)) = gate_lookups (snd (decide H cfg (q\<lparr>io_allowed := True\<rparr>) g))"
  "subject_limiter (snd (authorize H cfg q g)) = subject_limiter (snd (decide H cfg (q\<lparr>io_allowed := True\<rparr>) g))"
  "failure_limiter (snd (authorize H cfg q g)) = failure_limiter (snd (decide H cfg (q\<lparr>io_allowed := True\<rparr>) g))"
  by (auto simp: authorize_def split: prod.splits verdict.splits)

lemma dispatch_unfold:
  "dispatch H cfg q handler g =
     (let a = authorize H cfg q g in
      case fst a of
        Inl r \<Rightarrow> ((Refused r, None), snd a)
      | Inr req \<Rightarrow>
          (case handler req of
             None \<Rightarrow> ((HandlerRaised, Some req),
                 snd (record_row (sink_ok q) (Some (req_subject req)) True (tool q) (params_digest q)
                        None (Some (latency_of (rd q 0) (rd q 10))) (Some ''INTERNAL'') (snd a)))
           | Some out \<Rightarrow>
               (let w = record_row (sink_ok q) (Some (req_subject req)) True (tool q) (params_digest q)
                          (out_count out) (Some (latency_of (rd q 0) (rd q 10))) (out_error out) (snd a)
                in ((case fst w of None \<Rightarrow> Served (payload out) | Some r \<Rightarrow> Refused r, Some req), snd w))))"
  by (simp add: dispatch_def audit_allowed_def Let_def split: prod.split sum.split option.split)

lemma dispatch_ran:
  assumes "snd (fst (dispatch H cfg q handler g)) = Some req"
  shows "fst (authorize H cfg q g) = Inr req"
    and "gate_lookups (snd (dispatch H cfg q handler g)) = gate_lookups (snd (authorize H cfg q g))"
  using assms by (auto simp: dispatch_unfold Let_def split: sum.splits option.splits)

lemma dispatch_grounded:
  assumes ok: "cache_ok H cfg (gate_lookups g) (cache g)"
    and ran: "snd (fst (dispatch H cfg q handler g)) = Some req"
    and ttl: "0 < cache_ttl cfg" and rd: "rd q 1 \<le> rd q 5"
  shows "grounded H cfg q (gate_lookups (snd (dispatch H cfg q handler g))) req"
proof -
  let ?q = "q\<lparr>io_allowed := True\<rparr>"
  obtain a where a: "req = request a" "fst (decide H cfg ?q g) = Admitted a"
    using dispatch_ran(1) [OF ran] by (cases rule: authorize_cases [of H cfg q g]) auto
  have "grounded H cfg ?q (gate_lookups (snd (decide H cfg ?q g))) (request a)"
    by (rule decide_grounded [OF ok a(2) ttl]) (use rd in simp)
  then show ?thesis
    using a(1) dispatch_ran(2) [OF ran] by (simp add: grounded_def authorize_state)
qed

section \<open>Runs of the gate\<close>

datatype 'p gate_op =
  Admit gate_call
  | Authorize gate_call
  | Dispatch gate_call "authorized_request \<Rightarrow> 'p tool_outcome option"
  | TurnAway clock "string option"

fun gate_step :: "(string \<Rightarrow> string) \<Rightarrow> gate_config \<Rightarrow> gate \<Rightarrow> 'p gate_op \<Rightarrow> gate" where
  "gate_step H cfg g (Admit q) = snd (admit H cfg q g)"
| "gate_step H cfg g (Authorize q) = snd (authorize H cfg q g)"
| "gate_step H cfg g (Dispatch q handler) = snd (dispatch H cfg q handler g)"
| "gate_step H cfg g (TurnAway now c) = count_unauthenticated_rejection now c g"

definition gate_run :: "(string \<Rightarrow> string) \<Rightarrow> gate_config \<Rightarrow> gate \<Rightarrow> 'p gate_op list \<Rightarrow> gate" where
  "gate_run H cfg g ops = foldl (gate_step H cfg) g ops"

definition gate_ok :: "(string \<Rightarrow> string) \<Rightarrow> gate_config \<Rightarrow> gate \<Rightarrow> bool" where
  "gate_ok H cfg g \<longleftrightarrow>
     cache_ok H cfg (gate_lookups g) (cache g)
     \<and> accepted_foreign_subjects (audit_rows g) (owner_subject cfg) = []"

lemma rejected_rows_foreign:
  "rejected_rows old new \<Longrightarrow>
   accepted_foreign_subjects old owner = [] \<Longrightarrow> accepted_foreign_subjects new owner = []"
  by (auto simp: rejected_rows_def accepted_foreign_subjects_def filter_empty_conv)

lemma decide_gate_ok: "gate_ok H cfg g \<Longrightarrow> gate_ok H cfg (snd (decide H cfg q g))"
  unfolding gate_ok_def using decide_ok rejected_rows_foreign by metis

lemma record_row_owner:
  assumes "gate_ok H cfg g" and "length (owner_subject cfg) \<le> MAX_SUBJECT_CHARS"
  shows "gate_ok H cfg (snd (record_row s (Some (owner_subject cfg)) ok t p n l e g))"
  using assms
  by (auto simp: gate_ok_def record_row_def accepted_foreign_subjects_def truncate_subject_def
      MAX_SUBJECT_CHARS_def)

lemma authorize_owner:
  assumes "gate_ok H cfg g" and "fst (authorize H cfg q g) = Inr req"
  shows "req_subject req = owner_subject cfg"
proof -
  let ?q = "q\<lparr>io_allowed := True\<rparr>"
  obtain a where a: "req = request a" "fst (decide H cfg ?q g) = Admitted a"
    using assms(2) by (cases rule: authorize_cases [of H cfg q g]) auto
  show ?thesis
  proof (cases "parse_bearer (authorization ?q)")
    case None
    then show ?thesis using a by (simp add: decide_no_token Let_def split: if_splits)
  next
    case (Some tok)
    let ?c = "cache_get (rd ?q 1) (H tok) (cache g)"
    show ?thesis
    proof (cases "fst ?c")
      case None
      then show ?thesis
        using a Some judge_admitted
        by (auto simp: decide_token Let_def cache_miss_unfold split: if_splits) metis+
    next
      case hit: (Some e)
      then have "allowed e" "entry_subject e = Some (req_subject (request a))"
        using a Some settle_admitted by (auto simp: decide_token Let_def split: if_splits)
      moreover have "(H tok, e) \<in> set (cache g)" using cache_get_hit(1) [OF hit] .
      ultimately show ?thesis
        using assms(1) a(1) entry_proved_owner by (fastforce simp: gate_ok_def cache_ok_def)
    qed
  qed
qed

lemma gate_step_ok:
  assumes "gate_ok H cfg g" and "length (owner_subject cfg) \<le> MAX_SUBJECT_CHARS"
  shows "gate_ok H cfg (gate_step H cfg g op)"
proof (cases op)
  case (Dispatch q handler)
  have au: "gate_ok H cfg (snd (authorize H cfg q g))"
    using decide_gate_ok [OF assms(1)] by (simp add: authorize_state gate_ok_def)
  show ?thesis
    using Dispatch au authorize_owner [OF assms(1)] record_row_owner [OF au assms(2)]
    by (auto simp: dispatch_unfold Let_def split: sum.splits option.splits)
qed (use assms(1) decide_gate_ok in \<open>auto simp: admit_def authorize_state gate_ok_def
       count_unauthenticated_rejection_def decide_ok\<close>)

lemma gate_run_ok:
  "gate_ok H cfg g \<Longrightarrow> length (owner_subject cfg) \<le> MAX_SUBJECT_CHARS \<Longrightarrow> gate_ok H cfg (gate_run H cfg g ops)"
  unfolding gate_run_def by (induction ops arbitrary: g) (auto intro: gate_step_ok)

lemma subject_match_length: "subject_match s \<Longrightarrow> length s \<le> MAX_SUBJECT_CHARS"
  by (auto simp: subject_match_def drop_final_newline_def MAX_SUBJECT_CHARS_def Let_def split: if_splits)

lemma new_gate_ok:
  assumes "new_gate gid cid owner ttl rate fb cb sc url wall receipts rows = Inr (cfg, g)"
    and "accepted_foreign_subjects rows owner = []"
  shows "gate_ok H cfg g" "owner_subject cfg = owner" "0 < cache_ttl cfg"
    "length (owner_subject cfg) \<le> MAX_SUBJECT_CHARS"
  using assms subject_match_length
  by (auto simp: new_gate_def gate_ok_def split: if_splits sum.splits)

section \<open>Paying for a request\<close>

definition try_charge :: "gate_config \<Rightarrow> gate_call \<Rightarrow> string \<Rightarrow> gate \<Rightarrow> bool \<times> rate_limit_charge list" where
  "try_charge cfg q key g =
     (case charge q of None \<Rightarrow> (False, charges g) | Some i \<Rightarrow> charge_spend (gate_id cfg) key i (charges g))"

lemma settle_unfold:
  "settle cfg q key e g =
     (let denied = (if \<not> io_allowed q then (NeedsIO, g)
                    else recorded q (unauthorized cfg) (entry_subject e) True g)
      in if \<not> allowed e then denied
         else (case entry_subject e of
             None \<Rightarrow> denied
           | Some subj \<Rightarrow>
               (let p = try_charge cfg q key g;
                    l = limiter_allow (rd q 8) subj (subject_limiter g);
                    g2 = g\<lparr>charges := snd p, subject_limiter := snd l\<rparr>;
                    adm = \<lparr>req_subject = subj, req_scopes = entry_scopes e\<rparr>
                in if fst p then (Admitted \<lparr>request = adm, adm_charge = None\<rparr>, g\<lparr>charges := snd p\<rparr>)
                   else if \<not> fst l then
                     (if \<not> io_allowed q then (NeedsIO, g2) else recorded q rate_limited (Some subj) False g2)
                   else (Admitted \<lparr>request = adm, adm_charge = Some (length (snd p))\<rparr>,
                         g2\<lparr>charges := snd p @ [\<lparr>charge_gate = gate_id cfg, charge_key = key, spent = False\<rparr>]\<rparr>))))"
  by (auto simp: settle_def try_charge_def Let_def split: option.split prod.split)

definition paid :: "verdict \<Rightarrow> bool" where
  "paid v = (case v of Admitted a \<Rightarrow> adm_charge a \<noteq> None | _ \<Rightarrow> False)"

lemma paid_simps [simp]:
  "paid (Admitted a) = (adm_charge a \<noteq> None)" "\<not> paid (Rejected r)" "\<not> paid NeedsIO"
  by (simp_all add: paid_def)

lemma recorded_not_paid [simp]: "\<not> paid (fst (recorded q r s f g))"
  using recorded_verdict [of q r s f g] by auto

text \<open>The subject's limiter is asked at most once, and an event it counted is one paid request.\<close>

definition limiter_asked :: "clock \<Rightarrow> string \<Rightarrow> limiter \<Rightarrow> verdict \<Rightarrow> limiter \<Rightarrow> bool" where
  "limiter_asked now subj l0 v l' \<longleftrightarrow>
     l' = l0 \<and> \<not> paid v
     \<or> l' = snd (limiter_allow now subj l0) \<and> paid v = fst (limiter_allow now subj l0)"

lemma settle_limiter:
  assumes "\<And>s. allowed e \<Longrightarrow> entry_subject e = Some s \<Longrightarrow> s = owner"
  shows "limiter_asked (rd q 8) owner (subject_limiter g) (fst (settle cfg q key e g))
           (subject_limiter (snd (settle cfg q key e g)))"
  using assms by (auto simp: settle_unfold Let_def limiter_asked_def split: option.splits)

text \<open>The receipts of this gate that can still pay.\<close>

definition unspent :: "gate_config \<Rightarrow> rate_limit_charge list \<Rightarrow> nat" where
  "unspent cfg store = length (filter (\<lambda>c. charge_gate c = gate_id cfg \<and> \<not> spent c) store)"

definition admits :: "verdict \<Rightarrow> bool" where
  "admits v = (case v of Admitted _ \<Rightarrow> True | _ \<Rightarrow> False)"

lemma admits_simps [simp]:
  "admits (Admitted a)" "\<not> admits (Rejected r)" "\<not> admits NeedsIO"
  by (simp_all add: admits_def)

lemma recorded_not_admits [simp]: "\<not> admits (fst (recorded q r s f g))"
  using recorded_verdict [of q r s f g] by auto

lemma unspent_append [simp]: "unspent cfg (xs @ ys) = unspent cfg xs + unspent cfg ys"
  by (simp add: unspent_def)

lemma charge_spend_unspent:
  assumes "fst (charge_spend (gate_id cfg) key i store)"
  shows "Suc (unspent cfg (snd (charge_spend (gate_id cfg) key i store))) = unspent cfg store"
proof -
  have i: "i < length store" "charge_gate (store ! i) = gate_id cfg" "\<not> spent (store ! i)"
    using assms by (auto simp: charge_spend_def Let_def split: if_splits)
  have s: "snd (charge_spend (gate_id cfg) key i store) = store[i := (store ! i)\<lparr>spent := True\<rparr>]"
    using assms by (auto simp: charge_spend_def Let_def split: if_splits)
  have upd: "store[i := x] = take i store @ [x] @ drop (Suc i) store" for x
    using i(1) by (simp add: upd_conv_take_nth_drop)
  have "store = take i store @ [store ! i] @ drop (Suc i) store"
    using i(1) by (simp add: id_take_nth_drop)
  then have "unspent cfg store = unspent cfg (take i store @ [store ! i] @ drop (Suc i) store)"
    by simp
  then show ?thesis using i by (simp add: s upd unspent_def del: append.simps)
qed

lemma charge_spend_refused: "\<not> fst (charge_spend gid key i store) \<Longrightarrow> snd (charge_spend gid key i store) = store"
  by (auto simp: charge_spend_def Let_def)

text \<open>The account of receipts: an admission that did not pay spent one, one that paid got one.\<close>

definition receipts_balance :: "gate_config \<Rightarrow> rate_limit_charge list \<Rightarrow> verdict \<Rightarrow> rate_limit_charge list \<Rightarrow> bool" where
  "receipts_balance cfg store v store' \<longleftrightarrow>
     unspent cfg store' + (if admits v then 1 else 0) = unspent cfg store + (if paid v then 2 else 0)
     \<and> (paid v \<longrightarrow> store' \<noteq> [] \<and> unspent cfg [last store'] = 1)"

lemma settle_receipts:
  "receipts_balance cfg (charges g) (fst (settle cfg q key e g)) (charges (snd (settle cfg q key e g)))"
proof -
  have t: "if fst (try_charge cfg q key g) then Suc (unspent cfg (snd (try_charge cfg q key g))) = unspent cfg (charges g)
           else snd (try_charge cfg q key g) = charges g"
    using charge_spend_unspent charge_spend_refused
    by (auto simp: try_charge_def split: option.splits)
  have one: "unspent cfg [\<lparr>charge_gate = gate_id cfg, charge_key = key, spent = False\<rparr>] = 1"
    by (simp add: unspent_def)
  show ?thesis
    using t one by (auto simp: settle_unfold Let_def receipts_balance_def split: option.splits if_splits)
qed

text \<open>Failed introspections are noted against the budget, only after it said yes.\<close>

definition failing_time :: "(string \<Rightarrow> string) \<Rightarrow> gate_config \<Rightarrow> gate_call \<Rightarrow> introspection \<Rightarrow> clock list" where
  "failing_time H cfg q result =
     (case result of
        Inl TokenInvalidError \<Rightarrow> [rd q 5]
      | Inl IntrospectionUnavailableError \<Rightarrow> []
      | Inr claims \<Rightarrow> if proves_owner H cfg claims then [] else [rd q 6])"

lemma judge_budget:
  "failure_limiter (snd (judge H cfg q tok g))
     = foldl (\<lambda>l t. limiter_note t FAILURE_KEY l) (failure_limiter g) (failing_time H cfg q (introspector q tok))"
  by (auto simp: judge_def Let_def settle_frame failing_time_def note_budget_def validate_claims_allowed deny_def
      split: sum.splits introspect_error.splits)

lemma judge_subject_limiter:
  "limiter_asked (rd q 8) (owner_subject cfg) (subject_limiter g) (fst (judge H cfg q tok g))
     (subject_limiter (snd (judge H cfg q tok g)))"
proof -
  have val: "s = owner_subject cfg"
    if "allowed (validate_claims H cfg t c)" "entry_subject (validate_claims H cfg t c) = Some s" for s t c
    using that by (simp add: validate_claims_allowed validate_claims_entry)
  have st: "limiter_asked (rd q 8) (owner_subject cfg) (subject_limiter g) (fst (settle cfg q key e (g'\<lparr>cache := d\<rparr>)))
     (subject_limiter (snd (settle cfg q key e (g'\<lparr>cache := d\<rparr>))))"
    if "\<And>s. allowed e \<Longrightarrow> entry_subject e = Some s \<Longrightarrow> s = owner_subject cfg"
      "subject_limiter g' = subject_limiter g" for key e g' d
    using settle_limiter [where q = q and e = e and g = "g'\<lparr>cache := d\<rparr>" and cfg = cfg and key = key, OF that(1)] that(2) by simp
  show ?thesis
    by (auto simp: judge_def Let_def limiter_asked_def [of _ _ _ "Rejected _"] deny_def
        intro!: st val split: sum.splits introspect_error.splits)
qed

lemma judge_receipts:
  "receipts_balance cfg (charges g) (fst (judge H cfg q tok g)) (charges (snd (judge H cfg q tok g)))"
proof -
  have st: "receipts_balance cfg (charges g) (fst (settle cfg q key e (g'\<lparr>cache := d\<rparr>)))
     (charges (snd (settle cfg q key e (g'\<lparr>cache := d\<rparr>))))" if "charges g' = charges g" for key e g' d
    using settle_receipts [of cfg "g'\<lparr>cache := d\<rparr>"] that by simp
  show ?thesis
    by (auto simp: judge_def Let_def receipts_balance_def [of _ _ "Rejected _"] intro!: st
        split: sum.splits introspect_error.splits)
qed

section \<open>The same for a whole check\<close>

text \<open>The state a check has when it looks at the cached verdict, and the case it is in.\<close>

definition after_throttle :: "(string \<Rightarrow> string) \<Rightarrow> gate_call \<Rightarrow> string \<Rightarrow> gate \<Rightarrow> bool \<times> gate" where
  "after_throttle H q tok g =
     (let c = cache_get (rd q 1) (H tok) (cache g);
          g1 = g\<lparr>cache := snd c\<rparr>
      in if case fst c of None \<Rightarrow> False | Some e \<Rightarrow> allowed e then (False, g1)
         else client_throttled (rd q 2) q g1)"

lemma after_throttle_sel [simp]:
  "subject_limiter (snd (after_throttle H q tok g)) = subject_limiter g"
  "failure_limiter (snd (after_throttle H q tok g)) = failure_limiter g"
  "charges (snd (after_throttle H q tok g)) = charges g"
  "audit_rows (snd (after_throttle H q tok g)) = audit_rows g"
  "gate_lookups (snd (after_throttle H q tok g)) = gate_lookups g"
  "unavailable_until (snd (after_throttle H q tok g)) = unavailable_until g"
  "gate_tally (snd (after_throttle H q tok g)) = gate_tally g"
  "cache (snd (after_throttle H q tok g)) = snd (cache_get (rd q 1) (H tok) (cache g))"
  by (auto simp: after_throttle_def Let_def)

lemma decide_after_throttle:
  assumes "parse_bearer (authorization q) = Some tok"
  shows "decide H cfg q g =
     (if fst (after_throttle H q tok g) then counted q rate_limited False (snd (after_throttle H q tok g))
      else (case fst (cache_get (rd q 1) (H tok) (cache g)) of
              Some e \<Rightarrow> settle cfg q (H tok) e (snd (after_throttle H q tok g))
            | None \<Rightarrow> cache_miss H cfg q tok (snd (after_throttle H q tok g))))"
  unfolding decide_token [OF assms] after_throttle_def Let_def by (rule refl)

lemma decide_cases:
  obtains (no_token) c where "decide H cfg q g = counted q rate_limited False c
      \<or> decide H cfg q g = counted q (unauthorized cfg) True c"
      and "c = snd (client_throttled (rd q 1) q g)"
  | (throttled) tok where "decide H cfg q g = counted q rate_limited False (snd (after_throttle H q tok g))"
  | (hit) tok e where "fst (cache_get (rd q 1) (H tok) (cache g)) = Some e"
      and "decide H cfg q g = settle cfg q (H tok) e (snd (after_throttle H q tok g))"
  | (miss) tok where "decide H cfg q g = cache_miss H cfg q tok (snd (after_throttle H q tok g))"
proof (cases "parse_bearer (authorization q)")
  case None
  then show ?thesis
    using no_token [OF _ refl] unfolding decide_no_token [OF None] Let_def by (auto split: if_splits)
next
  case (Some tok)
  note d = decide_after_throttle [OF Some, of H cfg g]
  show ?thesis
  proof (cases "fst (after_throttle H q tok g)")
    case True
    then show ?thesis using throttled d by simp
  next
    case False
    then show ?thesis
      using hit [of tok] miss [of tok] d by (cases "fst (cache_get (rd q 1) (H tok) (cache g))") simp_all
  qed
qed

lemma cache_miss_cases:
  obtains (counted) r where "cache_miss H cfg q tok g = counted q r False g"
  | (budget) l where "l = snd (limiter_would_allow (rd q 4) FAILURE_KEY (failure_limiter g))"
      and "cache_miss H cfg q tok g = counted q rate_limited False (g\<lparr>failure_limiter := l\<rparr>)
           \<or> cache_miss H cfg q tok g = (NeedsIO, g\<lparr>failure_limiter := l\<rparr>) \<and> \<not> io_allowed q"
  | (judged) l where "l = snd (limiter_would_allow (rd q 4) FAILURE_KEY (failure_limiter g))"
      and "fst (limiter_would_allow (rd q 4) FAILURE_KEY (failure_limiter g))" and "io_allowed q"
      and "cache_miss H cfg q tok g = judge H cfg q tok (g\<lparr>failure_limiter := l\<rparr>)"
  using cache_miss_unfold [of H cfg q tok g] unfolding Let_def
  by (cases "rd q 3 < unavailable_until g"; cases "io_allowed q";
      cases "fst (limiter_would_allow (rd q 4) FAILURE_KEY (failure_limiter g))") auto

lemma limiter_asked_rejected [simp]: "limiter_asked t s l (Rejected r) l" "limiter_asked t s l NeedsIO l"
  by (simp_all add: limiter_asked_def)

lemma receipts_balance_rejected [simp]:
  "receipts_balance cfg st (Rejected r) st" "receipts_balance cfg st NeedsIO st"
  by (simp_all add: receipts_balance_def)

lemma cache_miss_accounts:
  "limiter_asked (rd q 8) (owner_subject cfg) (subject_limiter g) (fst (cache_miss H cfg q tok g))
     (subject_limiter (snd (cache_miss H cfg q tok g)))"
  "receipts_balance cfg (charges g) (fst (cache_miss H cfg q tok g)) (charges (snd (cache_miss H cfg q tok g)))"
proof -
  have "limiter_asked (rd q 8) (owner_subject cfg) (subject_limiter g) (fst (cache_miss H cfg q tok g))
     (subject_limiter (snd (cache_miss H cfg q tok g)))
     \<and> receipts_balance cfg (charges g) (fst (cache_miss H cfg q tok g)) (charges (snd (cache_miss H cfg q tok g)))"
  proof (cases rule: cache_miss_cases [of H cfg q tok g])
    case (judged l)
    then show ?thesis
      using judge_subject_limiter [of q cfg "g\<lparr>failure_limiter := l\<rparr>" H tok]
        judge_receipts [of cfg "g\<lparr>failure_limiter := l\<rparr>" H q tok] by simp
  qed auto
  then show "limiter_asked (rd q 8) (owner_subject cfg) (subject_limiter g) (fst (cache_miss H cfg q tok g))
     (subject_limiter (snd (cache_miss H cfg q tok g)))"
  "receipts_balance cfg (charges g) (fst (cache_miss H cfg q tok g)) (charges (snd (cache_miss H cfg q tok g)))"
    by blast+
qed

lemma decide_limiter:
  assumes "cache_ok H cfg (gate_lookups g) (cache g)"
  shows "limiter_asked (rd q 8) (owner_subject cfg) (subject_limiter g) (fst (decide H cfg q g))
           (subject_limiter (snd (decide H cfg q g)))"
proof (cases rule: decide_cases [of H cfg q g])
  case (hit tok e)
  have "s = owner_subject cfg" if "allowed e" "entry_subject e = Some s" for s
    using assms cache_get_hit(1) [OF hit(1)] that entry_proved_owner
    by (fastforce simp: cache_ok_def)
  from settle_limiter [where e = e, OF this, of q "snd (after_throttle H q tok g)" cfg "H tok"]
  show ?thesis by (simp add: hit(2))
next
  case (miss tok)
  then show ?thesis
    using cache_miss_accounts(1) [of q cfg "snd (after_throttle H q tok g)" H tok] by simp
qed auto

lemma decide_receipts:
  "receipts_balance cfg (charges g) (fst (decide H cfg q g)) (charges (snd (decide H cfg q g)))"
proof (cases rule: decide_cases [of H cfg q g])
  case (hit tok e)
  then show ?thesis using settle_receipts [of cfg "snd (after_throttle H q tok g)" q "H tok" e] by simp
next
  case (miss tok)
  then show ?thesis
    using cache_miss_accounts(2) [of cfg "snd (after_throttle H q tok g)" H q tok] by simp
qed auto

text \<open>What the check does to the budget, with the introspections it made.\<close>

definition new_failures :: "(string \<Rightarrow> string) \<Rightarrow> gate_config \<Rightarrow> gate_call \<Rightarrow> gate \<Rightarrow> gate \<Rightarrow> clock list" where
  "new_failures H cfg q g g' =
     concat (map (\<lambda>l. failing_time H cfg q (answer l)) (drop (length (gate_lookups g)) (gate_lookups g')))"

definition budget_kept :: "gate_call \<Rightarrow> limiter \<Rightarrow> clock list \<Rightarrow> limiter \<Rightarrow> bool" where
  "budget_kept q l0 ts l' \<longleftrightarrow>
     (let w = limiter_would_allow (rd q 4) FAILURE_KEY l0
      in ts = [] \<and> (l' = l0 \<or> l' = snd w)
         \<or> fst w \<and> (\<exists>t. ts = [t] \<and> (t = rd q 5 \<or> t = rd q 6) \<and> l' = limiter_note t FAILURE_KEY (snd w)))"

lemma failing_time_cases:
  "failing_time H cfg q r = [] \<or> (\<exists>t. failing_time H cfg q r = [t] \<and> (t = rd q 5 \<or> t = rd q 6))"
  by (auto simp: failing_time_def split: sum.splits introspect_error.splits)

lemma cache_miss_budget:
  "budget_kept q (failure_limiter g) (new_failures H cfg q g (snd (cache_miss H cfg q tok g)))
     (failure_limiter (snd (cache_miss H cfg q tok g)))"
proof (cases rule: cache_miss_cases [of H cfg q tok g])
  case (judged l)
  have f: "new_failures H cfg q g (snd (cache_miss H cfg q tok g)) = failing_time H cfg q (introspector q tok)"
    by (simp add: judged(4) judge_lookups new_failures_def)
  have "failure_limiter (snd (cache_miss H cfg q tok g))
      = foldl (\<lambda>l t. limiter_note t FAILURE_KEY l) l (failing_time H cfg q (introspector q tok))"
    by (simp add: judged(4) judge_budget)
  then show ?thesis
    using failing_time_cases [of H cfg q "introspector q tok"] judged(1,2) f
    by (auto simp: budget_kept_def Let_def)
qed (auto simp: budget_kept_def new_failures_def Let_def)

lemma decide_budget:
  "budget_kept q (failure_limiter g) (new_failures H cfg q g (snd (decide H cfg q g)))
     (failure_limiter (snd (decide H cfg q g)))"
proof (cases rule: decide_cases [of H cfg q g])
  case (miss tok)
  then show ?thesis
    using cache_miss_budget [of q "snd (after_throttle H q tok g)" H cfg tok]
    by (simp add: new_failures_def)
qed (auto simp: budget_kept_def new_failures_def settle_frame)

lemma accounts_would_allow:
  assumes "sliding.accounts k now ts s" and "now \<le> t"
  shows "sliding.accounts k t ts (snd (limiter_would_allow t k s))"
  using accounts_step [of k now ts s t WouldAllow k] assms by simp

lemma accounts_note:
  assumes acc: "sliding.accounts k now ts s" and now: "now \<le> t" and t: "t \<le> t'"
    and ok: "fst (limiter_would_allow t k s)" and pos: "1 \<le> lim_limit s"
  shows "sliding.accounts k t' (ts @ [t']) (limiter_note t' k (snd (limiter_would_allow t k s)))"
proof -
  let ?s = "snd (limiter_would_allow t k s)"
  let ?w = "lim_window s"
  have same: "lim_window ?s = ?w" "lim_limit ?s = lim_limit s"
    by (auto simp: limiter_would_allow_def Let_def split: option.splits)
  have acc': "sliding.accounts k t ts ?s" by (rule accounts_would_allow [OF acc now])
  then have w: "0 < ?w" and tr: "tracks ?w t ts (lim_queue ?s k)" and b: "within_budget (lim_limit s) ?w ts"
    using same by (auto simp: sliding.accounts_def)
  have tr0: "tracks ?w now ts (lim_queue s k)" using acc by (simp add: sliding.accounts_def)
  note ex = tracks_expire [OF tr t]
  have "int (length (filter (\<lambda>x. t - ?w < x) ts)) < lim_limit s"
  proof (cases "lim_events s k")
    case None
    then have "filter (\<lambda>x. t - ?w < x) ts = []"
      using tracks_expire(1) [OF tr0 now] by (simp add: lim_queue_def expire_def)
    then show ?thesis using pos by simp
  next
    case (Some q)
    then show ?thesis
      using ok tracks_expire(1) [OF tr0 now] by (simp add: limiter_would_allow_def lim_queue_def Let_def)
  qed
  moreover have "length (filter (\<lambda>x. t' - ?w < x) ts) \<le> length (filter (\<lambda>x. t - ?w < x) ts)"
    by (rule length_filter_mono_on) (use t in auto)
  ultimately have "int (length (filter (\<lambda>x. t' - ?w < x) ts)) < lim_limit s" by linarith
  then have "within_budget (lim_limit s) ?w (ts @ [t'])"
    using within_budget_snoc [OF ex(2) [unfolded ex(1)] b] by simp
  then show ?thesis
    using tracks_snoc [OF ex(2) w] w same by (simp add: sliding.accounts_def limiter_note_def)
qed

text \<open>The readings of one request, after everything that came before \<open>now\<close>.\<close>

definition clock_after :: "clock \<Rightarrow> gate_call \<Rightarrow> bool" where
  "clock_after now q \<longleftrightarrow> now \<le> rd q 0 \<and> (\<forall>i < 11. rd q i \<le> rd q (Suc i))"

lemma clock_after_le: "clock_after now q \<Longrightarrow> i \<le> j \<Longrightarrow> j \<le> 11 \<Longrightarrow> rd q i \<le> rd q j"
proof (induction j)
  case (Suc j)
  then show ?case
    by (metis clock_after_def le_Suc_eq less_Suc_eq_le less_le_trans not_less_eq_eq order.trans order_refl Suc_leD Suc_le_lessD)
qed simp

lemma clock_after_start: "clock_after now q \<Longrightarrow> j \<le> 11 \<Longrightarrow> now \<le> rd q j"
  using clock_after_le [of now q 0 j] by (simp add: clock_after_def)

lemma budget_kept_accounts:
  assumes "budget_kept q l0 ts l'" and acc: "sliding.accounts FAILURE_KEY now old l0"
    and clk: "clock_after now q" and pos: "1 \<le> lim_limit l0"
  shows "sliding.accounts FAILURE_KEY (rd q 9) (old @ ts) l'"
    and "lim_limit l' = lim_limit l0" and "lim_window l' = lim_window l0"
proof -
  let ?w = "limiter_would_allow (rd q 4) FAILURE_KEY l0"
  have le: "now \<le> rd q 4" "rd q 4 \<le> rd q 5" "rd q 4 \<le> rd q 6" "rd q 4 \<le> rd q 9" "now \<le> rd q 9"
      "rd q 5 \<le> rd q 9" "rd q 6 \<le> rd q 9"
    using clock_after_start [OF clk] clock_after_le [OF clk] by auto
  have later: "sliding.accounts FAILURE_KEY t' xs s"
    if "sliding.accounts FAILURE_KEY t xs s" "t \<le> t'" for t t' xs and s :: limiter
    using that tracks_later [of _ t xs _ t'] by (auto simp: sliding.accounts_def)
  have w: "sliding.accounts FAILURE_KEY (rd q 4) old (snd ?w)" by (rule accounts_would_allow [OF acc le(1)])
  have n: "sliding.accounts FAILURE_KEY t (old @ [t]) (limiter_note t FAILURE_KEY (snd ?w))"
    if "fst ?w" "rd q 4 \<le> t" for t
    by (rule accounts_note [OF acc le(1) that(2,1) pos])
  show "sliding.accounts FAILURE_KEY (rd q 9) (old @ ts) l'"
    using assms(1) later [OF acc le(5)] later [OF w le(4)] later [OF n [OF _ le(2)] le(6)]
      later [OF n [OF _ le(3)] le(7)]
    unfolding budget_kept_def Let_def by auto
  show "lim_limit l' = lim_limit l0" "lim_window l' = lim_window l0"
    using assms(1) unfolding budget_kept_def Let_def
    by (auto simp: limiter_would_allow_def limiter_note_def Let_def split: option.splits)
qed

section \<open>The accounts of a run\<close>

text \<open>The call an operation makes of \<open>_decide\<close>.\<close>

fun effective :: "'p gate_op \<Rightarrow> gate_call option" where
  "effective (Admit q) = Some (q\<lparr>tool := None, params_digest := None, charge := None\<rparr>)"
| "effective (Authorize q) = Some (q\<lparr>io_allowed := True\<rparr>)"
| "effective (Dispatch q handler) = Some (q\<lparr>io_allowed := True\<rparr>)"
| "effective (TurnAway now c) = None"

lemma gate_step_effective:
  assumes "effective op = Some q"
  shows "cache (gate_step H cfg g op) = cache (snd (decide H cfg q g))"
    and "subject_limiter (gate_step H cfg g op) = subject_limiter (snd (decide H cfg q g))"
    and "failure_limiter (gate_step H cfg g op) = failure_limiter (snd (decide H cfg q g))"
    and "gate_lookups (gate_step H cfg g op) = gate_lookups (snd (decide H cfg q g))"
  using assms
  by (cases op; auto simp: admit_def authorize_state dispatch_unfold Let_def split: sum.splits option.splits)+

lemma gate_step_turn_away:
  assumes "effective op = None"
  shows "cache (gate_step H cfg g op) = cache g" "subject_limiter (gate_step H cfg g op) = subject_limiter g"
    "failure_limiter (gate_step H cfg g op) = failure_limiter g"
    "gate_lookups (gate_step H cfg g op) = gate_lookups g" "charges (gate_step H cfg g op) = charges g"
  using assms by (cases op; simp add: count_unauthenticated_rejection_def)+

lemma gate_step_cache_ok:
  "cache_ok H cfg (gate_lookups g) (cache g) \<Longrightarrow>
   cache_ok H cfg (gate_lookups (gate_step H cfg g op)) (cache (gate_step H cfg g op))"
  by (cases "effective op") (simp_all add: gate_step_effective gate_step_turn_away decide_ok)

fun run_clock :: "clock \<Rightarrow> 'p gate_op list \<Rightarrow> bool" where
  "run_clock now [] = True"
| "run_clock now (op # ops) =
     (case effective op of
        None \<Rightarrow> run_clock now ops
      | Some q \<Rightarrow> clock_after now q \<and> run_clock (rd q 11) ops)"

text \<open>When requests paid, when introspections failed, and how many calls were let through.\<close>

fun paid_times :: "(string \<Rightarrow> string) \<Rightarrow> gate_config \<Rightarrow> gate \<Rightarrow> 'p gate_op list \<Rightarrow> clock list" where
  "paid_times H cfg g [] = []"
| "paid_times H cfg g (op # ops) =
     (case effective op of None \<Rightarrow> [] | Some q \<Rightarrow> if paid (fst (decide H cfg q g)) then [rd q 8] else [])
     @ paid_times H cfg (gate_step H cfg g op) ops"

fun failed_times :: "(string \<Rightarrow> string) \<Rightarrow> gate_config \<Rightarrow> gate \<Rightarrow> 'p gate_op list \<Rightarrow> clock list" where
  "failed_times H cfg g [] = []"
| "failed_times H cfg g (op # ops) =
     (case effective op of None \<Rightarrow> [] | Some q \<Rightarrow> new_failures H cfg q g (snd (decide H cfg q g)))
     @ failed_times H cfg (gate_step H cfg g op) ops"

fun calls_served :: "(string \<Rightarrow> string) \<Rightarrow> gate_config \<Rightarrow> gate \<Rightarrow> 'p gate_op list \<Rightarrow> nat" where
  "calls_served H cfg g [] = 0"
| "calls_served H cfg g (op # ops) =
     (case op of
        Authorize q \<Rightarrow> (case fst (authorize H cfg q g) of Inl _ \<Rightarrow> 0 | Inr _ \<Rightarrow> 1)
      | Dispatch q handler \<Rightarrow> (case snd (fst (dispatch H cfg q handler g)) of None \<Rightarrow> 0 | Some _ \<Rightarrow> 1)
      | _ \<Rightarrow> 0)
     + calls_served H cfg (gate_step H cfg g op) ops"

lemma accounts_later:
  "sliding.accounts k now ts s \<Longrightarrow> now \<le> t \<Longrightarrow> sliding.accounts k t ts s"
  using tracks_later [of _ now ts _ t] by (auto simp: sliding.accounts_def)

lemma limiter_asked_accounts:
  assumes "limiter_asked (rd q 8) owner l0 v l'" and "sliding.accounts owner now ts l0"
    and "clock_after now q"
  shows "sliding.accounts owner (rd q 11) (ts @ (if paid v then [rd q 8] else [])) l'"
    and "lim_limit l' = lim_limit l0" and "lim_window l' = lim_window l0"
proof -
  have le: "now \<le> rd q 8" "now \<le> rd q 11" "rd q 8 \<le> rd q 11"
    using clock_after_start [OF assms(3)] clock_after_le [OF assms(3)] by auto
  show "sliding.accounts owner (rd q 11) (ts @ (if paid v then [rd q 8] else [])) l'"
    using assms(1) sliding.accounts_allow [OF assms(2) le(1), of owner] accounts_later [OF assms(2) le(2)]
      accounts_later [OF _ le(3)]
    by (auto simp: limiter_asked_def)
  show "lim_limit l' = lim_limit l0" "lim_window l' = lim_window l0"
    using assms(1) sliding.allow_settings by (auto simp: limiter_asked_def)
qed

lemma paid_times_budget:
  assumes "cache_ok H cfg (gate_lookups g) (cache g)" and "run_clock now ops"
    and "sliding.accounts (owner_subject cfg) now ts (subject_limiter g)"
  shows "within_budget (lim_limit (subject_limiter g)) (lim_window (subject_limiter g))
           (ts @ paid_times H cfg g ops)"
  using assms
proof (induction ops arbitrary: g now ts)
  case Nil
  then show ?case by (simp add: sliding.accounts_def)
next
  case (Cons op ops)
  note ok = gate_step_cache_ok [OF Cons.prems(1), of op]
  show ?case
  proof (cases "effective op")
    case None
    then show ?thesis
      using Cons.IH [OF ok, of now ts] Cons.prems(2,3) gate_step_turn_away [OF None] by simp
  next
    case (Some q)
    have clk: "clock_after now q" "run_clock (rd q 11) ops" using Cons.prems(2) Some by auto
    note asked = limiter_asked_accounts [OF decide_limiter [OF Cons.prems(1)] Cons.prems(3) clk(1)]
    note eff = gate_step_effective [OF Some, of H cfg g]
    have "within_budget (lim_limit (subject_limiter g)) (lim_window (subject_limiter g))
        ((ts @ (if paid (fst (decide H cfg q g)) then [rd q 8] else [])) @ paid_times H cfg (gate_step H cfg g op) ops)"
      using Cons.IH [OF ok clk(2)] asked(1) unfolding eff(2) asked(2,3) by blast
    then show ?thesis using Some by simp
  qed
qed

lemma failed_times_budget:
  assumes "run_clock now ops" and "sliding.accounts FAILURE_KEY now ts (failure_limiter g)"
    and "1 \<le> lim_limit (failure_limiter g)"
  shows "within_budget (lim_limit (failure_limiter g)) (lim_window (failure_limiter g))
           (ts @ failed_times H cfg g ops)"
  using assms
proof (induction ops arbitrary: g now ts)
  case Nil
  then show ?case by (simp add: sliding.accounts_def)
next
  case (Cons op ops)
  show ?case
  proof (cases "effective op")
    case None
    then show ?thesis
      using Cons.IH [of now ts "gate_step H cfg g op"] Cons.prems gate_step_turn_away [OF None, of H cfg g] by simp
  next
    case (Some q)
    have clk: "clock_after now q" "run_clock (rd q 11) ops" using Cons.prems(1) Some by auto
    note kept = budget_kept_accounts [OF decide_budget [of q g H cfg] Cons.prems(2) clk(1) Cons.prems(3)]
    have "rd q 9 \<le> rd q 11" using clock_after_le [OF clk(1)] by simp
    note acc = accounts_later [OF kept(1) this]
    show ?thesis
      using Cons.IH [OF clk(2), of "ts @ new_failures H cfg q g (snd (decide H cfg q g))" "gate_step H cfg g op"]
        acc kept(2,3) Cons.prems(3) Some gate_step_effective [OF Some, of H cfg g] by simp
  qed
qed

lemma authorize_receipts:
  "unspent cfg (charges (snd (authorize H cfg q g)))
     + (case fst (authorize H cfg q g) of Inl _ \<Rightarrow> 0 | Inr _ \<Rightarrow> 1)
   = unspent cfg (charges g) + (if paid (fst (decide H cfg (q\<lparr>io_allowed := True\<rparr>) g)) then 1 else 0)"
proof -
  let ?d = "decide H cfg (q\<lparr>io_allowed := True\<rparr>) g"
  have b: "receipts_balance cfg (charges g) (fst ?d) (charges (snd ?d))" by (rule decide_receipts)
  have last: "unspent cfg xs = unspent cfg (butlast xs) + unspent cfg [last xs]" if "xs \<noteq> []" for xs
    using that by (metis append_butlast_last_id unspent_append)
  show ?thesis
  proof (cases "fst ?d")
    case (Admitted a)
    then have au: "authorize H cfg q g = (Inr (request a), drop_receipt a (snd ?d))"
      by (cases ?d) (simp add: authorize_def)
    show ?thesis
      using b Admitted last [of "charges (snd ?d)"] unfolding au
      by (cases "adm_charge a") (auto simp: receipts_balance_def drop_receipt_def)
  next
    case (Rejected r)
    then show ?thesis using b by (auto simp: authorize_def receipts_balance_def split: prod.splits)
  next
    case NeedsIO
    then show ?thesis using decide_io_decides [of "q\<lparr>io_allowed := True\<rparr>"] by simp
  qed
qed

lemma dispatch_receipts:
  "charges (snd (dispatch H cfg q handler g)) = charges (snd (authorize H cfg q g))"
  "snd (fst (dispatch H cfg q handler g)) = (case fst (authorize H cfg q g) of Inl _ \<Rightarrow> None | Inr r \<Rightarrow> Some r)"
  by (auto simp: dispatch_unfold Let_def split: sum.splits option.splits)

text \<open>A request without a receipt pays when it is admitted.\<close>

lemma settle_pays: "charge q = None \<Longrightarrow> fst (settle cfg q key e g) = Admitted a \<Longrightarrow> adm_charge a \<noteq> None"
  by (auto simp: settle_unfold try_charge_def Let_def split: option.splits if_splits)

lemma decide_pays:
  assumes "charge q = None" and "fst (decide H cfg q g) = Admitted a"
  shows "adm_charge a \<noteq> None"
proof -
  have jud: "fst (judge H cfg q tok g') = Admitted a \<Longrightarrow> adm_charge a \<noteq> None" for tok g'
    using settle_pays [OF assms(1)]
    by (auto simp: judge_def Let_def split: sum.splits introspect_error.splits)
  show ?thesis
    using assms(2)
  proof (cases rule: decide_cases [of H cfg q g])
    case (hit tok e)
    then show ?thesis using settle_pays [OF assms(1)] assms(2) by metis
  next
    case (miss tok)
    then have "fst (cache_miss H cfg q tok (snd (after_throttle H q tok g))) = Admitted a"
      using assms(2) by metis
    then show ?thesis using jud assms(2) miss by (metis cache_miss_admitted)
  qed (metis counted_sel(1) verdict.distinct(1))+
qed

lemma served_paid:
  "unspent cfg (charges (gate_run H cfg g ops)) + calls_served H cfg g ops
     = unspent cfg (charges g) + length (paid_times H cfg g ops)"
  unfolding gate_run_def
proof (induction ops arbitrary: g)
  case (Cons op ops)
  note IH = Cons.IH [of "gate_step H cfg g op"]
  show ?case
  proof (cases op)
    case (Admit q)
    let ?q = "q\<lparr>tool := None, params_digest := None, charge := None\<rparr>"
    have b: "receipts_balance cfg (charges g) (fst (decide H cfg ?q g)) (charges (snd (decide H cfg ?q g)))"
      by (rule decide_receipts)
    have pays: "adm_charge a \<noteq> None" if "fst (decide H cfg ?q g) = Admitted a" for a
      using that decide_pays [of ?q] by simp
    have "unspent cfg (charges (snd (decide H cfg ?q g)))
        = unspent cfg (charges g) + (if paid (fst (decide H cfg ?q g)) then 1 else 0)"
      using b pays by (cases "fst (decide H cfg ?q g)") (auto simp: receipts_balance_def)
    then show ?thesis using IH Admit by (simp add: admit_def)
  next
    case (Authorize q)
    then show ?thesis using IH authorize_receipts [of cfg H q g] by (simp split: if_splits)
  next
    case (Dispatch q handler)
    then show ?thesis
      using IH authorize_receipts [of cfg H q g] dispatch_receipts [of H cfg q handler g]
      by (simp split: if_splits sum.splits)
  next
    case (TurnAway now c)
    then show ?thesis using IH by (simp add: count_unauthenticated_rejection_def)
  qed
qed simp

section \<open>Deciding from memory\<close>

text \<open>
  Without I/O the check either answers as it would with it, leaving the same state, or says
  that it needs I/O.
\<close>

definition same_or_needs_io :: "verdict \<times> gate \<Rightarrow> verdict \<times> gate \<Rightarrow> bool" where
  "same_or_needs_io fast slow \<longleftrightarrow> fst fast = NeedsIO \<or> fast = slow"

lemma counted_no_io: "counted (q\<lparr>io_allowed := b\<rparr>) r f g = counted q r f g"
  by (simp add: counted_def Let_def)

lemma recorded_no_io: "recorded (q\<lparr>io_allowed := b\<rparr>) r s f g = recorded q r s f g"
  by (simp add: recorded_def Let_def)

lemma client_throttled_no_io: "client_throttled t (q\<lparr>io_allowed := b\<rparr>) g = client_throttled t q g"
  by (simp add: client_throttled_def)

lemma after_throttle_no_io: "after_throttle H (q\<lparr>io_allowed := b\<rparr>) tok g = after_throttle H q tok g"
  by (simp add: after_throttle_def Let_def client_throttled_no_io)

lemma settle_agree:
  "same_or_needs_io (settle cfg (q\<lparr>io_allowed := False\<rparr>) key e g) (settle cfg (q\<lparr>io_allowed := True\<rparr>) key e g)"
  by (auto simp: same_or_needs_io_def settle_unfold try_charge_def Let_def split: option.splits)

lemma cache_miss_agree:
  "same_or_needs_io (cache_miss H cfg (q\<lparr>io_allowed := False\<rparr>) tok g) (cache_miss H cfg (q\<lparr>io_allowed := True\<rparr>) tok g)"
  by (simp add: same_or_needs_io_def cache_miss_unfold Let_def counted_no_io)

lemma decide_agree:
  "same_or_needs_io (decide H cfg (q\<lparr>io_allowed := False\<rparr>) g) (decide H cfg (q\<lparr>io_allowed := True\<rparr>) g)"
proof (cases "parse_bearer (authorization q)")
  case None
  then show ?thesis
    by (simp add: same_or_needs_io_def decide_no_token Let_def counted_no_io client_throttled_no_io)
next
  case (Some tok)
  let ?t = "after_throttle H q tok g"
  have dec: "decide H cfg (q\<lparr>io_allowed := b\<rparr>) g =
     (if fst ?t then counted q rate_limited False (snd ?t)
      else (case fst (cache_get (rd q 1) (H tok) (cache g)) of
              Some e \<Rightarrow> settle cfg (q\<lparr>io_allowed := b\<rparr>) (H tok) e (snd ?t)
            | None \<Rightarrow> cache_miss H cfg (q\<lparr>io_allowed := b\<rparr>) tok (snd ?t)))" for b
    using decide_after_throttle [of "q\<lparr>io_allowed := b\<rparr>" tok H cfg g] Some
    unfolding after_throttle_no_io counted_no_io by simp
  show ?thesis
    using settle_agree [of cfg q "H tok" _ "snd ?t"] cache_miss_agree [of H cfg q tok "snd ?t"]
    unfolding dec by (auto simp: same_or_needs_io_def split: option.splits)
qed

text \<open>What a check that may not wait leaves untouched.\<close>

definition io_untouched :: "gate \<Rightarrow> gate \<Rightarrow> bool" where
  "io_untouched g g' \<longleftrightarrow> audit_rows g' = audit_rows g \<and> gate_lookups g' = gate_lookups g
     \<and> unavailable_until g' = unavailable_until g"

definition no_effect :: "gate \<Rightarrow> gate \<Rightarrow> bool" where
  "no_effect g g' \<longleftrightarrow> gate_tally g' = gate_tally g \<and> charges g' = charges g
     \<and> (\<forall>k. set (lim_queue (subject_limiter g') k) \<subseteq> set (lim_queue (subject_limiter g) k))
     \<and> (\<forall>k. set (lim_queue (failure_limiter g') k) \<subseteq> set (lim_queue (failure_limiter g) k))"

lemma settle_no_io:
  assumes "\<not> io_allowed q"
  shows "io_untouched g (snd (settle cfg q key e g))"
    and "fst (settle cfg q key e g) = NeedsIO \<Longrightarrow> no_effect g (snd (settle cfg q key e g))"
proof -
  have sub: "set (lim_queue (snd (limiter_allow t s l)) k) \<subseteq> set (lim_queue l k)"
    if "\<not> fst (limiter_allow t s l)" for t s l k
    using that by (auto simp: limiter_allow_def Let_def expire_def dest: set_dropWhileD split: if_splits)
  have ref: "\<not> fst (try_charge cfg q key g) \<Longrightarrow> snd (try_charge cfg q key g) = charges g"
    using charge_spend_refused by (auto simp: try_charge_def split: option.splits)
  show "io_untouched g (snd (settle cfg q key e g))"
    using assms by (auto simp: settle_unfold Let_def io_untouched_def split: option.splits)
  show "fst (settle cfg q key e g) = NeedsIO \<Longrightarrow> no_effect g (snd (settle cfg q key e g))"
    using assms ref sub
    by (auto simp: settle_unfold Let_def no_effect_def split: option.splits if_splits)
qed

lemma would_allow_sub: "set (lim_queue (snd (limiter_would_allow t s l)) k) \<subseteq> set (lim_queue l k)"
  by (auto simp: limiter_would_allow_def lim_queue_def Let_def expire_def dest: set_dropWhileD
      split: option.splits if_splits)

lemma cache_miss_no_io:
  assumes "\<not> io_allowed q"
  shows "io_untouched g (snd (cache_miss H cfg q tok g))"
    and "fst (cache_miss H cfg q tok g) = NeedsIO \<Longrightarrow> no_effect g (snd (cache_miss H cfg q tok g))"
  using assms would_allow_sub
  by (auto simp: cache_miss_unfold Let_def io_untouched_def no_effect_def)

lemma decide_no_io:
  assumes io: "\<not> io_allowed q"
  shows "io_untouched g (snd (decide H cfg q g))"
    and "fst (decide H cfg q g) = NeedsIO \<Longrightarrow> no_effect g (snd (decide H cfg q g))"
proof -
  let ?P = "\<lambda>d. io_untouched g (snd d) \<and> (fst d = NeedsIO \<longrightarrow> no_effect g (snd d))"
  have P: "?P (decide H cfg q g)"
  proof (cases rule: decide_cases [of H cfg q g])
    case (hit tok e)
    then show ?thesis
      using settle_no_io [OF io, where g = "snd (after_throttle H q tok g)"]
      by (simp add: io_untouched_def no_effect_def)
  next
    case (miss tok)
    then show ?thesis
      using cache_miss_no_io [OF io, where g = "snd (after_throttle H q tok g)"]
      by (simp add: io_untouched_def no_effect_def)
  qed (auto simp: io_untouched_def)
  then show "io_untouched g (snd (decide H cfg q g))" by blast
  show "fst (decide H cfg q g) = NeedsIO \<Longrightarrow> no_effect g (snd (decide H cfg q g))" using P by blast
qed

section \<open>Rows of an admitted request\<close>

lemma settle_admitted_rows:
  "fst (settle cfg q key e g) = Admitted a \<Longrightarrow> audit_rows (snd (settle cfg q key e g)) = audit_rows g"
  by (auto simp: settle_unfold Let_def split: option.splits if_splits)

lemma judge_admitted_rows:
  assumes "fst (judge H cfg q tok g) = Admitted a"
  shows "audit_rows (snd (judge H cfg q tok g)) = audit_rows g"
proof -
  have "audit_rows (snd (settle cfg q key e (g'\<lparr>cache := d\<rparr>))) = audit_rows g"
    if "fst (settle cfg q key e (g'\<lparr>cache := d\<rparr>)) = Admitted a" "audit_rows g' = audit_rows g" for key e g' d
    using settle_admitted_rows [OF that(1)] that(2) by simp
  then show ?thesis
    using assms by (auto simp: judge_def Let_def split: sum.splits introspect_error.splits if_splits)
qed

lemma decide_admitted_rows:
  assumes adm: "fst (decide H cfg q g) = Admitted a"
  shows "audit_rows (snd (decide H cfg q g)) = audit_rows g"
proof (cases rule: decide_cases [of H cfg q g])
  case (hit tok e)
  then show ?thesis using settle_admitted_rows adm by (metis after_throttle_sel(4))
next
  case (miss tok)
  then show ?thesis
    using adm judge_admitted_rows [of H cfg q tok] cache_miss_unfold [of H cfg q tok "snd (after_throttle H q tok g)"]
    by (auto simp: Let_def split: if_splits)
qed (use adm in auto)

lemma gate_run_cache_ok:
  "cache_ok H cfg (gate_lookups g) (cache g) \<Longrightarrow>
   cache_ok H cfg (gate_lookups (gate_run H cfg g ops)) (cache (gate_run H cfg g ops))"
  unfolding gate_run_def by (induction ops arbitrary: g) (auto intro: gate_step_cache_ok)

lemma new_gate_settings:
  assumes "new_gate gid cid owner ttl rate fb cb sc url wall receipts rows = Inr (cfg, g)"
  shows "cache g = []" "owner_subject cfg = owner" "client_id cfg = cid" "required_scopes cfg = sc"
    "cache_ttl cfg = of_int ttl" "0 < cache_ttl cfg" "gate_id cfg = gid" "charges g = receipts"
    "audit_rows g = rows"
    "\<And>k. lim_queue (subject_limiter g) k = []" "lim_limit (subject_limiter g) = rate"
    "lim_window (subject_limiter g) = 60" "1 \<le> rate"
    "\<And>k. lim_queue (failure_limiter g) k = []" "lim_limit (failure_limiter g) = int fb"
    "lim_window (failure_limiter g) = 60" "1 \<le> int fb" "subject_match owner"
  using assms
  by (auto simp: new_gate_def new_limiter_def lim_queue_def split: if_splits sum.splits)

lemma new_accounts:
  "0 < lim_window s \<Longrightarrow> 0 \<le> lim_limit s \<Longrightarrow> lim_queue s k = [] \<Longrightarrow> sliding.accounts k now [] s"
  by (simp add: sliding.accounts_def tracks_Nil within_budget_def in_window_def)

section \<open>Properties\<close>

text \<open>
  C1: No tool handler runs for anyone but the owner, on live evidence: after any run of the gate,
  when \<open>dispatch\<close> calls its handler, the request carries the pinned subject and a token, and an
  introspection of a token with the same digest, not older than the cache lifetime nor than the
  token's own, returned claims that pass every test (expiry, audience, authorized party,
  scopes, a numeric subject, the owner's).
\<close>

theorem handler_only_for_owner:
  assumes "new_gate gid cid owner ttl rate fb cb sc url wall receipts rows = Inr (cfg, g0)"
    and "rd q 1 \<le> rd q 5"
    and "dispatch H cfg q handler (gate_run H cfg g0 ops) = ((result, Some req), g')"
  shows "req_subject req = owner \<and>
    (\<exists>tok l claims. parse_bearer (authorization q) = Some tok \<and> l \<in> set (gate_lookups g')
       \<and> H (looked_up l) = H tok \<and> answer l = Inr claims
       \<and> 0 < expires_in_seconds claims \<and> H (audience claims) = H cid
       \<and> (\<forall>azp. authorized_party claims = Some azp \<longrightarrow> H azp = H cid)
       \<and> sc \<subseteq> scopes claims \<and> subject_match (subject claims) \<and> H (subject claims) = H owner
       \<and> req_scopes req = scopes claims
       \<and> rd q 1 < looked_up_at l + min (of_int ttl) (of_int (expires_in_seconds claims)))"
proof -
  note new = new_gate_settings [OF assms(1)]
  have ok: "cache_ok H cfg (gate_lookups (gate_run H cfg g0 ops)) (cache (gate_run H cfg g0 ops))"
    by (rule gate_run_cache_ok) (simp add: new(1))
  have "grounded H cfg q (gate_lookups (snd (dispatch H cfg q handler (gate_run H cfg g0 ops)))) req"
    by (rule dispatch_grounded [OF ok _ new(6) assms(2)]) (simp add: assms(3))
  then show ?thesis
    unfolding grounded_def proves_owner_def ct_equal_def assms(3) snd_conv new(2,3,4,5) by blast
qed

definition sample_claims :: token_introspection where
  "sample_claims = \<lparr>subject = ''42'', audience = ''app'', authorized_party = None,
     scopes = {''openid''}, expires_in_seconds = 3000\<rparr>"

definition sample_call :: "clock \<Rightarrow> bool \<Rightarrow> nat option \<Rightarrow> gate_call" where
  "sample_call t io c =
     \<lparr>rd = (\<lambda>_. t), authorization = Some ''Bearer abc'', tool = Some ''search'', params_digest = None,
      client = Some ''1.2.3.4'', charge = c, io_allowed = io, introspector = (\<lambda>_. Inr sample_claims),
      sink_ok = True\<rparr>"

definition sample_handler :: "authorized_request \<Rightarrow> string tool_outcome option" where
  "sample_handler req = Some \<lparr>payload = ''result'', out_count = Some 3, out_error = None\<rparr>"

definition sample_gate :: "gate_config \<times> gate" where
  "sample_gate = (case new_gate 1 ''app'' ''42'' 60 2 5 3 {''openid''} None 0 [] [] of
                    Inr x \<Rightarrow> x | Inl _ \<Rightarrow> undefined)"

lemma sample_gate_new:
  "new_gate 1 ''app'' ''42'' 60 2 5 3 {''openid''} None 0 [] [] = Inr (fst sample_gate, snd sample_gate)"
proof -
  have "\<exists>x. new_gate 1 ''app'' ''42'' 60 2 5 3 {''openid''} None 0 [] [] = Inr x"
    by (simp add: new_gate_def new_limiter_def new_throttle_def py_strip_def strip_by_def py_space_def
        ord_def subject_match_def drop_final_newline_def is_digit_def DEFAULT_MAX_TRACKED_CLIENTS_def)
  then show ?thesis by (auto simp: sample_gate_def)
qed

theorem handler_only_for_owner_witness:
  "\<exists>tok l claims. parse_bearer (authorization (sample_call 7 True None)) = Some tok
     \<and> l \<in> set (gate_lookups (snd (dispatch id (fst sample_gate) (sample_call 7 True None) sample_handler
                                  (snd sample_gate))))
     \<and> answer l = Inr claims \<and> subject claims = ''42''"
proof -
  let ?d = "dispatch id (fst sample_gate) (sample_call 7 True None) sample_handler (snd sample_gate)"
  have ran: "fst ?d = (Served ''result'', Some \<lparr>req_subject = ''42'', req_scopes = {''openid''}\<rparr>)"
    by code_simp
  have "?d = ((Served ''result'', Some \<lparr>req_subject = ''42'', req_scopes = {''openid''}\<rparr>), snd ?d)"
    by (simp flip: ran)
  then have "dispatch id (fst sample_gate) (sample_call 7 True None) sample_handler
      (gate_run id (fst sample_gate) (snd sample_gate) ([] :: string gate_op list))
      = ((Served ''result'', Some \<lparr>req_subject = ''42'', req_scopes = {''openid''}\<rparr>), snd ?d)"
    by (simp add: gate_run_def)
  from handler_only_for_owner [OF sample_gate_new _ this]
  show ?thesis by (auto simp: sample_call_def)
qed

text \<open>
  C2: The standing check of the audit trail holds by construction: if no accepted public row named
  a foreign subject when the gate was built, none ever does, whatever requests it is sent and
  whatever the introspector and the audit sink do, and the SQL form counts 0.
\<close>

theorem no_foreign_accepted:
  assumes "new_gate gid cid owner ttl rate fb cb sc url wall receipts rows = Inr (cfg, g0)"
    and "accepted_foreign_subjects rows owner = []"
  shows "accepted_foreign_subjects (audit_rows (gate_run H cfg g0 ops)) owner = []
     \<and> count_accepted_foreign (audit_rows (gate_run H cfg g0 ops)) owner = 0"
proof -
  note new = new_gate_ok [OF assms]
  have "accepted_foreign_subjects (audit_rows (gate_run H cfg g0 ops)) owner = []"
    using gate_run_ok [OF new(1,4), where ops = ops] new(2) unfolding gate_ok_def by simp
  then show ?thesis
    using count_accepted_foreign_le [of "audit_rows (gate_run H cfg g0 ops)" owner] by simp
qed

theorem no_foreign_accepted_witness:
  "count_accepted_foreign (audit_rows (gate_run id (fst sample_gate) (snd sample_gate)
     [Dispatch (sample_call 7 True None) sample_handler, Admit (sample_call 8 False None)])) ''42'' = 0"
  by (rule conjunct2 [OF no_foreign_accepted [OF sample_gate_new]])
    (simp add: accepted_foreign_subjects_def)

text \<open>
  C3: No result leaves unaudited: when \<open>dispatch\<close> returns a payload, the handler computed it from the
  validated request, and exactly one row was added to the trail, an accepted one with that
  subject, this tool, this digest of the parameters and an error code of the closed set.
\<close>

theorem payload_is_audited:
  assumes "dispatch H cfg q handler g = ((Served p, given), g')"
  shows "\<exists>req out row. given = Some req \<and> handler req = Some out \<and> payload out = p
     \<and> audit_rows g' = audit_rows g @ [row] \<and> subject_ok row \<and> surface row = ''public''
     \<and> aud_subject row = truncate_subject (Some (req_subject req)) \<and> aud_tool row = tool q
     \<and> params_sha256 row = params_digest q \<and> result_count row = out_count out
     \<and> (\<forall>e. aud_error row = Some e \<longrightarrow> e \<in> set ALLOWED_ERROR_CODES)"
proof -
  obtain req where au: "fst (authorize H cfg q g) = Inr req"
    using assms by (auto simp: dispatch_unfold Let_def split: sum.splits)
  then obtain out where h: "handler req = Some out"
    using assms by (auto simp: dispatch_unfold Let_def split: option.splits)
  obtain a where "fst (decide H cfg (q\<lparr>io_allowed := True\<rparr>) g) = Admitted a"
    using au by (cases rule: authorize_cases [of H cfg q g]) auto
  then have rows: "audit_rows (snd (authorize H cfg q g)) = audit_rows g"
    using decide_admitted_rows by (simp add: authorize_state)
  let ?rec = "\<lparr>surface = ''public'', aud_subject = Some (req_subject req), subject_ok = True,
      aud_tool = tool q, params_sha256 = params_digest q, result_count = out_count out,
      latency_ms = Some (latency_of (rd q 0) (rd q 10)), aud_error = out_error out\<rparr>"
  have "audit_rows g' = audit_rows g @ [sanitized ?rec]" and "given = Some req" and "payload out = p"
    using assms au h rows by (auto simp: dispatch_unfold Let_def record_row_def split: if_splits)
  then show ?thesis
    using h sanitize_error_code_closed by (auto simp: sanitized_def)
qed

theorem payload_is_audited_witness:
  "\<exists>row. audit_rows (snd (dispatch id (fst sample_gate) (sample_call 7 True None) sample_handler (snd sample_gate)))
     = audit_rows (snd sample_gate) @ [row] \<and> aud_tool row = Some ''search'' \<and> result_count row = Some 3"
proof -
  let ?d = "dispatch id (fst sample_gate) (sample_call 7 True None) sample_handler (snd sample_gate)"
  have "fst (fst ?d) = Served ''result''" by code_simp
  then have "?d = ((Served ''result'', snd (fst ?d)), snd ?d)" by (metis prod.collapse)
  from payload_is_audited [OF this] show ?thesis
    by (auto simp: sample_call_def sample_handler_def)
qed

text \<open>
  The check the event loop makes without I/O agrees with the full one: it writes no row, calls no
  introspector and touches no breaker; it answers exactly what the full check answers, with the
  same state after it, or that it needs I/O; and then nothing was counted, charged or tallied.
\<close>

theorem memory_check_agrees:
  "(let fast = admit H cfg (q\<lparr>io_allowed := False\<rparr>) g; slow = admit H cfg (q\<lparr>io_allowed := True\<rparr>) g
    in (fst fast = NeedsIO \<and> no_effect g (snd fast) \<or> fast = slow)
       \<and> io_untouched g (snd fast) \<and> fst slow \<noteq> NeedsIO)"
proof -
  let ?q = "q\<lparr>tool := None, params_digest := None, charge := None\<rparr>"
  have "same_or_needs_io (admit H cfg (q\<lparr>io_allowed := False\<rparr>) g) (admit H cfg (q\<lparr>io_allowed := True\<rparr>) g)"
    using decide_agree [of H cfg ?q g] by (cases q) (simp add: admit_def)
  moreover have "io_untouched g (snd (admit H cfg (q\<lparr>io_allowed := False\<rparr>) g))"
    "fst (admit H cfg (q\<lparr>io_allowed := False\<rparr>) g) = NeedsIO \<Longrightarrow>
       no_effect g (snd (admit H cfg (q\<lparr>io_allowed := False\<rparr>) g))"
    unfolding admit_def by (rule decide_no_io; simp)+
  moreover have "fst (admit H cfg (q\<lparr>io_allowed := True\<rparr>) g) \<noteq> NeedsIO"
    unfolding admit_def by (rule decide_io_decides) simp
  ultimately show ?thesis unfolding Let_def same_or_needs_io_def by blast
qed

text \<open>
  One request, one event: after any run, the calls let through by \<open>authorize\<close> and \<open>dispatch\<close>
  together with the receipts still unspent are exactly the events charged to the owner's
  limit; so a receipt pays at most once and no call goes unpaid.
\<close>

theorem calls_are_paid_once:
  assumes "new_gate gid cid owner ttl rate fb cb sc url wall receipts rows = Inr (cfg, g0)"
    and "\<forall>c \<in> set receipts. charge_gate c \<noteq> gid"
  shows "calls_served H cfg g0 ops + unspent cfg (charges (gate_run H cfg g0 ops))
           = length (paid_times H cfg g0 ops)"
proof -
  note new = new_gate_settings [OF assms(1)]
  have "unspent cfg (charges g0) = 0"
    using assms(2) by (auto simp: new unspent_def filter_empty_conv)
  then show ?thesis using served_paid [of cfg H g0 ops] by simp
qed

theorem calls_are_paid_once_witness:
  "calls_served id (fst sample_gate) (snd sample_gate)
     [Admit (sample_call 7 True None), Dispatch (sample_call 8 True (Some 0)) sample_handler,
      Dispatch (sample_call 9 True (Some 0)) sample_handler] = 2
   \<and> length (paid_times id (fst sample_gate) (snd sample_gate)
     [Admit (sample_call 7 True None), Dispatch (sample_call 8 True (Some 0)) sample_handler,
      Dispatch (sample_call 9 True (Some 0)) sample_handler]) = 2"
proof -
  let ?ops = "[Admit (sample_call 7 True None), Dispatch (sample_call 8 True (Some 0)) sample_handler,
      Dispatch (sample_call 9 True (Some 0)) sample_handler]"
  have "calls_served id (fst sample_gate) (snd sample_gate) ?ops = 2"
    "unspent (fst sample_gate) (charges (gate_run id (fst sample_gate) (snd sample_gate) ?ops)) = 0"
    by code_simp+
  then show ?thesis
    using calls_are_paid_once [where H = id and ops = ?ops, OF sample_gate_new]
    by simp
qed

text \<open>
  C35: The owner's own rate: with a clock that never goes back, no minute holds more events charged to
  the owner than the configured limit, over all entry points together.
\<close>

theorem paid_within_rate:
  assumes "new_gate gid cid owner ttl rate fb cb sc url wall receipts rows = Inr (cfg, g0)"
    and "run_clock now ops"
  shows "int (length (in_window 60 t (paid_times H cfg g0 ops))) \<le> rate"
proof -
  note new = new_gate_settings [OF assms(1)]
  have "within_budget (lim_limit (subject_limiter g0)) (lim_window (subject_limiter g0)) ([] @ paid_times H cfg g0 ops)"
    by (rule paid_times_budget [OF _ assms(2)]) (use new in \<open>simp_all add: new_accounts\<close>)
  then show ?thesis using new by (simp add: within_budget_def)
qed

theorem paid_within_rate_witness:
  "int (length (in_window 60 9 (paid_times id (fst sample_gate) (snd sample_gate)
     [Admit (sample_call 7 True None), Admit (sample_call 8 False None), Admit (sample_call 9 True None)]))) \<le> 2"
  by (rule paid_within_rate [where now = 0, OF sample_gate_new])
    (simp add: sample_call_def clock_after_def)

text \<open>
  The amplification guard: no minute holds more failed introspections than the failure budget,
  whatever tokens are sent and from however many addresses, so rejected tokens cause at most
  that many outbound calls.
\<close>

theorem failed_lookups_within_budget:
  assumes "new_gate gid cid owner ttl rate fb cb sc url wall receipts rows = Inr (cfg, g0)"
    and "run_clock now ops"
  shows "length (in_window 60 t (failed_times H cfg g0 ops)) \<le> fb"
proof -
  note new = new_gate_settings [OF assms(1)]
  have "within_budget (lim_limit (failure_limiter g0)) (lim_window (failure_limiter g0)) ([] @ failed_times H cfg g0 ops)"
    by (rule failed_times_budget [OF assms(2)]) (use new in \<open>simp_all add: new_accounts\<close>)
  then have "int (length (in_window 60 t (failed_times H cfg g0 ops))) \<le> int fb"
    using new by (simp add: within_budget_def)
  then show ?thesis by simp
qed

theorem failed_lookups_within_budget_witness:
  "length (in_window 60 9 (failed_times id (fst sample_gate) (snd sample_gate)
     [Admit (sample_call 7 True None\<lparr>introspector := \<lambda>_. Inl TokenInvalidError\<rparr>),
      Admit (sample_call 8 True None)])) \<le> 5"
  by (rule failed_lookups_within_budget [where now = 0, OF sample_gate_new])
    (simp add: sample_call_def clock_after_def)

end
