(* ===== verification/Eligibility.thy ===== *)
theory Eligibility
  imports Prelude
begin

text \<open>
  The eligibility engine of the export gate and of the public surface's allowlist scope
  (\<open>src/imsg/export/eligibility.py\<close>, \<open>models.py\<close>, \<open>unclassified.py\<close>). The database is a record
  of tables, each the list of its rows; a nullable column is an option; the SQL the module
  issues is translated join by join. \<open>wf_db\<close> is what the schema's primary and foreign keys
  guarantee (\<open>migrations/0001_initial.sql\<close>).
\<close>

section \<open>Joins\<close>

definition inner_join :: "('a \<Rightarrow> 'b \<Rightarrow> bool) \<Rightarrow> 'a list \<Rightarrow> 'b list \<Rightarrow> ('a \<times> 'b) list" where
  "inner_join on xs ys = concat (map (\<lambda>x. map (\<lambda>y. (x, y)) (filter (on x) ys)) xs)"

definition left_join :: "('a \<Rightarrow> 'b \<Rightarrow> bool) \<Rightarrow> 'a list \<Rightarrow> 'b list \<Rightarrow> ('a \<times> 'b option) list" where
  "left_join on xs ys =
     concat (map (\<lambda>x. case filter (on x) ys of
                         [] \<Rightarrow> [(x, None)]
                       | matches \<Rightarrow> map (\<lambda>y. (x, Some y)) matches) xs)"

lemma set_inner_join: "(x, y) \<in> set (inner_join on xs ys) \<longleftrightarrow> x \<in> set xs \<and> y \<in> set ys \<and> on x y"
  by (auto simp: inner_join_def)

lemma set_left_join_Some:
  "(x, Some y) \<in> set (left_join on xs ys) \<longleftrightarrow> x \<in> set xs \<and> y \<in> set ys \<and> on x y"
proof -
  have "(x, Some y) \<in> set (case filter (on z) ys of [] \<Rightarrow> [(z, None)] | m \<Rightarrow> map (\<lambda>y. (z, Some y)) m)
      \<longleftrightarrow> x = z \<and> y \<in> set (filter (on z) ys)" for z
    by (cases "filter (on z) ys") auto
  then show ?thesis by (auto simp: left_join_def)
qed

lemma set_left_join_None:
  "(x, None) \<in> set (left_join on xs ys) \<longleftrightarrow> x \<in> set xs \<and> (\<forall>y \<in> set ys. \<not> on x y)"
proof -
  have "(x, None) \<in> set (case filter (on z) ys of [] \<Rightarrow> [(z, None)] | m \<Rightarrow> map (\<lambda>y. (z, Some y)) m)
      \<longleftrightarrow> x = z \<and> filter (on z) ys = []" for z
    by (cases "filter (on z) ys") auto
  then show ?thesis by (auto simp: left_join_def filter_empty_conv)
qed

lemmas join_sets = set_inner_join set_left_join_Some set_left_join_None

text \<open>\<open>coalesce(x, y)\<close>.\<close>

definition coalesce :: "'a option \<Rightarrow> 'a option \<Rightarrow> 'a option" where
  "coalesce x y = (case x of None \<Rightarrow> y | Some _ \<Rightarrow> x)"

section \<open>The tables\<close>

record person_row =
  person_id :: int
  is_owner :: bool

record chat_row =
  chat_key :: int
  unfiled_key :: "string option"

record participant_row =
  part_chat :: int
  part_person :: int

record source_participant_row =
  sp_chat :: int
  sp_source_handle :: int

record resolution_row =
  res_source_handle :: int
  res_handle :: int

record handle_row =
  handle_key :: int
  handle_person :: int

record allow_row =
  allow_person :: int
  text_allowed :: bool
  attachments_allowed :: bool

record message_row =
  message_key :: int
  msg_chat :: int
  sender_person :: "int option"
  from_me :: bool
  is_unsent :: bool
  deleted_at :: "instant option"
  row_sent_at :: instant

record tapback_row =
  target_message :: "int option"
  tap_sender :: "int option"
  tap_from_me :: bool

record db =
  persons :: "person_row list"
  chats :: "chat_row list"
  participants :: "participant_row list"
  source_participants :: "source_participant_row list"
  resolutions :: "resolution_row list"
  handles :: "handle_row list"
  allowlist :: "allow_row list"
  messages :: "message_row list"
  tapbacks :: "tapback_row list"
  segment_messages :: "(int \<times> int) list"
  message_attachments :: "(int \<times> int) list"
  classifications :: "(int \<times> string) list"

definition wf_db :: "db \<Rightarrow> bool" where
  "wf_db d \<longleftrightarrow>
     distinct (map allow_person (allowlist d)) \<and> distinct (map res_source_handle (resolutions d))
     \<and> distinct (map handle_key (handles d)) \<and> distinct (map chat_key (chats d))
     \<and> distinct (map message_key (messages d))
     \<and> (\<forall>p \<in> set (participants d). part_chat p \<in> chat_key ` set (chats d))
     \<and> (\<forall>r \<in> set (resolutions d). res_handle r \<in> handle_key ` set (handles d))"

section \<open>Evidence for denial\<close>

definition owner_person_id :: "db \<Rightarrow> int option" where
  "owner_person_id d = (case filter is_owner (persons d) of [] \<Rightarrow> None | p # _ \<Rightarrow> Some (person_id p))"

text \<open>\<open>coalesce(sender_person_id, CASE WHEN is_from_me THEN owner END)\<close>.\<close>

definition effective_sender :: "int option \<Rightarrow> int option \<Rightarrow> bool \<Rightarrow> int option" where
  "effective_sender owner sender me = coalesce sender (if me then owner else None)"

definition message_sender :: "int option \<Rightarrow> message_row \<Rightarrow> int option" where
  "message_sender owner m = effective_sender owner (sender_person m) (from_me m)"

definition tapback_sender :: "int option \<Rightarrow> tapback_row \<Rightarrow> int option" where
  "tapback_sender owner t = effective_sender owner (tap_sender t) (tap_from_me t)"

definition exportable_message :: "message_row \<Rightarrow> bool" where
  "exportable_message m \<longleftrightarrow> \<not> is_unsent m \<and> deleted_at m = None"

text \<open>\<open>NOT coalesce(al.text_allowed, false)\<close> on the row a left join found, if it found one.\<close>

definition not_text_allowed :: "allow_row option \<Rightarrow> bool" where
  "not_text_allowed al = (\<not> (case al of None \<Rightarrow> False | Some a \<Rightarrow> text_allowed a))"

record deny_rule =
  reason :: string
  reads_messages :: bool
  evidence :: "db \<Rightarrow> int option \<Rightarrow> int list"

definition on_person :: "int option \<Rightarrow> allow_row \<Rightarrow> bool" where
  "on_person p a \<longleftrightarrow> p = Some (allow_person a)"

definition holding_chats :: "db \<Rightarrow> int option \<Rightarrow> int list" where
  "holding_chats d owner = map chat_key (filter (\<lambda>c. unfiled_key c \<noteq> None) (chats d))"

definition participants_denied :: "db \<Rightarrow> int option \<Rightarrow> int list" where
  "participants_denied d owner =
     map (part_chat \<circ> fst)
       (filter (\<lambda>(cp, al). not_text_allowed al)
         (left_join (\<lambda>cp. on_person (Some (part_person cp))) (participants d) (allowlist d)))"

definition sources_unresolved :: "db \<Rightarrow> int option \<Rightarrow> int list" where
  "sources_unresolved d owner =
     map (sp_chat \<circ> fst)
       (filter (\<lambda>(cps, shr). shr = None)
         (left_join (\<lambda>cps shr. res_source_handle shr = sp_source_handle cps)
            (source_participants d) (resolutions d)))"

definition resolved_sources :: "db \<Rightarrow> (source_participant_row \<times> handle_row) list" where
  "resolved_sources d =
     map (\<lambda>((cps, shr), h). (cps, h))
       (inner_join (\<lambda>(cps, shr) h. handle_key h = res_handle shr)
         (inner_join (\<lambda>cps shr. res_source_handle shr = sp_source_handle cps)
            (source_participants d) (resolutions d))
         (handles d))"

definition source_persons_denied :: "db \<Rightarrow> int option \<Rightarrow> int list" where
  "source_persons_denied d owner =
     map (\<lambda>((cps, h), al). sp_chat cps)
       (filter (\<lambda>(_, al). not_text_allowed al)
         (left_join (\<lambda>(cps, h). on_person (Some (handle_person h))) (resolved_sources d) (allowlist d)))"

definition senders_unresolved :: "db \<Rightarrow> int option \<Rightarrow> int list" where
  "senders_unresolved d owner = map msg_chat (filter (\<lambda>m. message_sender owner m = None) (messages d))"

definition senders_denied :: "db \<Rightarrow> int option \<Rightarrow> int list" where
  "senders_denied d owner =
     map (msg_chat \<circ> fst)
       (filter (\<lambda>(m, al). message_sender owner m \<noteq> None \<and> not_text_allowed al)
         (left_join (\<lambda>m. on_person (message_sender owner m)) (messages d) (allowlist d)))"

definition tapback_targets :: "db \<Rightarrow> (tapback_row \<times> message_row) list" where
  "tapback_targets d =
     inner_join (\<lambda>t m. target_message t = Some (message_key m)) (tapbacks d) (messages d)"

definition tapbacks_denied :: "db \<Rightarrow> int option \<Rightarrow> int list" where
  "tapbacks_denied d owner =
     map (\<lambda>((t, m), al). msg_chat m)
       (filter (\<lambda>((t, m), al). tapback_sender owner t = None \<or> not_text_allowed al)
         (left_join (\<lambda>(t, m). on_person (tapback_sender owner t)) (tapback_targets d) (allowlist d)))"

definition DENY_RULES :: "deny_rule list" where
  "DENY_RULES =
     [\<lparr>reason = ''holding-chat'', reads_messages = False, evidence = holding_chats\<rparr>,
      \<lparr>reason = ''participant-not-allowlisted'', reads_messages = False, evidence = participants_denied\<rparr>,
      \<lparr>reason = ''unresolved-source-participant'', reads_messages = False, evidence = sources_unresolved\<rparr>,
      \<lparr>reason = ''resolved-source-person-not-allowlisted'', reads_messages = False,
       evidence = source_persons_denied\<rparr>,
      \<lparr>reason = ''unresolved-message-sender'', reads_messages = True, evidence = senders_unresolved\<rparr>,
      \<lparr>reason = ''sender-not-allowlisted'', reads_messages = True, evidence = senders_denied\<rparr>,
      \<lparr>reason = ''tapback-sender-unresolved-or-not-allowlisted'', reads_messages = True,
       evidence = tapbacks_denied\<rparr>]"

text \<open>\<open>_DenyRule.sql\<close>: distinct, restricted to \<open>among\<close> when there is one.\<close>

definition restricted :: "int list option \<Rightarrow> int list \<Rightarrow> int list" where
  "restricted among cs = (case among of None \<Rightarrow> cs | Some a \<Rightarrow> filter (\<lambda>c. c \<in> set a) cs)"

definition rule_chats :: "db \<Rightarrow> int option \<Rightarrow> int list option \<Rightarrow> deny_rule \<Rightarrow> int list" where
  "rule_chats d owner among r = remdups (restricted among (evidence r d owner))"

section \<open>Verdicts\<close>

record chat_eligibility =
  verdict_chat :: int
  participant_count :: nat
  deny_reasons :: "string list"

definition eligible :: "chat_eligibility \<Rightarrow> bool" where
  "eligible v \<longleftrightarrow> participant_count v > 0 \<and> deny_reasons v = []"

definition participant_counts :: "db \<Rightarrow> int list option \<Rightarrow> (int \<times> nat) list" where
  "participant_counts d among =
     map (\<lambda>c. (c, length (filter (\<lambda>p. part_chat p = c) (participants d))))
       (restricted among (map chat_key (chats d)))"

text \<open>The keys of \<open>reasons\<close>, in order, and the verdict made for each.\<close>

definition compute_chat_eligibility :: "db \<Rightarrow> int list option \<Rightarrow> chat_eligibility list" where
  "compute_chat_eligibility d among =
     (if among = Some [] then []
      else
        (let owner = owner_person_id d;
             counts = participant_counts d among;
             denied = concat (map (rule_chats d owner among) DENY_RULES);
             keys = remdups (map fst counts @ denied)
         in map (\<lambda>c. \<lparr>verdict_chat = c,
                      participant_count = (case map_of counts c of None \<Rightarrow> 0 | Some n \<Rightarrow> n),
                      deny_reasons = map reason (filter (\<lambda>r. c \<in> set (rule_chats d owner among r)) DENY_RULES)\<rparr>)
              keys))"

text \<open>\<open>a EXCEPT (b)\<close> removes duplicates too.\<close>

definition except_rows :: "int list \<Rightarrow> int list \<Rightarrow> int list" where
  "except_rows a b = remdups (filter (\<lambda>c. c \<notin> set b) a)"

definition first_pass :: "db \<Rightarrow> int option \<Rightarrow> int list option \<Rightarrow> int list" where
  "first_pass d owner among =
     foldl (\<lambda>cs r. except_rows cs (rule_chats d owner among r))
       (remdups (restricted among (map part_chat (participants d))))
       (filter (\<lambda>r. \<not> reads_messages r) DENY_RULES)"

definition second_pass :: "db \<Rightarrow> int option \<Rightarrow> int list \<Rightarrow> int list" where
  "second_pass d owner survivors =
     foldl (\<lambda>cs r. except_rows cs (rule_chats d owner (Some survivors) r)) survivors
       (filter reads_messages DENY_RULES)"

definition eligible_chat_ids :: "db \<Rightarrow> int list option \<Rightarrow> int list" where
  "eligible_chat_ids d among =
     (if among = Some [] then []
      else
        (let owner = owner_person_id d;
             survivors = sort (first_pass d owner among)
         in if survivors = [] then [] else second_pass d owner survivors))"

section \<open>The attachment gate\<close>

definition linked_attachments :: "db \<Rightarrow> int list \<Rightarrow> ((int \<times> int) \<times> message_row) list" where
  "linked_attachments d segment_ids =
     map (\<lambda>((sm, m), ma). ((fst sm, snd ma), m))
       (inner_join (\<lambda>(sm, m) ma. fst ma = message_key m)
         (inner_join (\<lambda>sm m. message_key m = snd sm)
           (filter (\<lambda>sm. fst sm \<in> set segment_ids) (segment_messages d))
           (filter exportable_message (messages d)))
         (message_attachments d))"

definition attachment_link_ok :: "db \<Rightarrow> int option \<Rightarrow> message_row \<Rightarrow> bool list" where
  "attachment_link_ok d owner m =
     map (\<lambda>(m, al). message_sender owner m \<noteq> None
                    \<and> (case al of None \<Rightarrow> False | Some a \<Rightarrow> attachments_allowed a))
       (left_join (\<lambda>m. on_person (message_sender owner m)) [m] (allowlist d))"

text \<open>\<open>bool_and\<close> over every link of the pair.\<close>

definition compute_attachment_eligibility :: "db \<Rightarrow> int list \<Rightarrow> ((int \<times> int) \<times> bool) list" where
  "compute_attachment_eligibility d segment_ids =
     (if segment_ids = [] then []
      else
        (let owner = owner_person_id d; links = linked_attachments d segment_ids
         in map (\<lambda>pair. (pair, list_all (\<lambda>(p, m). p = pair \<longrightarrow> list_all id (attachment_link_ok d owner m)) links))
              (remdups (map fst links))))"

section \<open>Unclassified threads\<close>

text \<open>\<open>_UNCLASSIFIED_SQL\<close>, without its display columns and order: the chats it reports.\<close>

definition recent_chats :: "db \<Rightarrow> instant \<Rightarrow> int list" where
  "recent_chats d cutoff = remdups (map msg_chat (filter (\<lambda>m. cutoff \<le> row_sent_at m) (messages d)))"

definition unlisted_chats :: "db \<Rightarrow> int list" where
  "unlisted_chats d =
     remdups (map (part_chat \<circ> fst)
        (filter (\<lambda>(cp, al). al = None)
          (left_join (\<lambda>cp. on_person (Some (part_person cp))) (participants d) (allowlist d)))
      @ sources_unresolved d None)"

definition unclassified_chats :: "db \<Rightarrow> instant \<Rightarrow> int list" where
  "unclassified_chats d cutoff =
     map chat_key
       (filter (\<lambda>c. chat_key c \<in> set (recent_chats d cutoff) \<and> chat_key c \<in> set (unlisted_chats d)
                  \<and> (case map_of (classifications d) (chat_key c) of
                       None \<Rightarrow> True | Some st \<Rightarrow> st = ''unreviewed'')
                  \<and> unfiled_key c = None) (chats d))"

section \<open>What each rule sees\<close>

definition text_ok :: "db \<Rightarrow> int option \<Rightarrow> bool" where
  "text_ok d p \<longleftrightarrow> (\<exists>a \<in> set (allowlist d). p = Some (allow_person a) \<and> text_allowed a)"

text \<open>The thread's contract: known members, allowed members, allowed senders.\<close>

definition thread_open :: "db \<Rightarrow> int \<Rightarrow> bool" where
  "thread_open d c \<longleftrightarrow>
     (\<exists>p \<in> set (participants d). part_chat p = c)
     \<and> (\<forall>ch \<in> set (chats d). chat_key ch = c \<longrightarrow> unfiled_key ch = None)
     \<and> (\<forall>p \<in> set (participants d). part_chat p = c \<longrightarrow> text_ok d (Some (part_person p)))
     \<and> (\<forall>sp \<in> set (source_participants d). sp_chat sp = c \<longrightarrow>
          (\<exists>r \<in> set (resolutions d). res_source_handle r = sp_source_handle sp
             \<and> (\<exists>h \<in> set (handles d). handle_key h = res_handle r \<and> text_ok d (Some (handle_person h)))))
     \<and> (\<forall>m \<in> set (messages d). msg_chat m = c \<longrightarrow> text_ok d (message_sender (owner_person_id d) m))
     \<and> (\<forall>t \<in> set (tapbacks d). \<forall>m \<in> set (messages d).
          target_message t = Some (message_key m) \<and> msg_chat m = c \<longrightarrow>
          text_ok d (tapback_sender (owner_person_id d) t))"

lemma text_ok_None [simp]: "\<not> text_ok d None"
  by (simp add: text_ok_def)

lemma distinct_key_eq:
  "distinct (map f xs) \<Longrightarrow> x \<in> set xs \<Longrightarrow> y \<in> set xs \<Longrightarrow> f x = f y \<Longrightarrow> x = y"
  by (meson distinct_map inj_on_def)

lemma left_join_denied:
  assumes "wf_db d"
  shows "(\<exists>al. (x, al) \<in> set (left_join (\<lambda>x. on_person (f x)) xs (allowlist d)) \<and> not_text_allowed al)
           \<longleftrightarrow> x \<in> set xs \<and> \<not> text_ok d (f x)"
proof -
  have uniq: "a = b" if "a \<in> set (allowlist d)" "b \<in> set (allowlist d)" "allow_person a = allow_person b" for a b
    using assms that distinct_key_eq by (fastforce simp: wf_db_def)
  show ?thesis
    unfolding split_option_ex join_sets
    by (auto simp: not_text_allowed_def text_ok_def on_person_def dest: uniq)
qed

text \<open>Every rule that asks the allowlist does it through one such join.\<close>

lemma denied_by_join:
  assumes "wf_db d"
  shows "c \<in> set (map (\<lambda>(x, al). k x) (filter (\<lambda>(x, al). not_text_allowed al)
             (left_join (\<lambda>x. on_person (f x)) xs (allowlist d))))
           \<longleftrightarrow> (\<exists>x \<in> set xs. k x = c \<and> \<not> text_ok d (f x))"
proof -
  have "c \<in> set (map (\<lambda>(x, al). k x) (filter (\<lambda>(x, al). not_text_allowed al)
             (left_join (\<lambda>x. on_person (f x)) xs (allowlist d))))
      \<longleftrightarrow> (\<exists>x al. k x = c \<and> (x, al) \<in> set (left_join (\<lambda>x. on_person (f x)) xs (allowlist d)) \<and> not_text_allowed al)"
    by force
  then show ?thesis using left_join_denied [OF assms, of _ f xs] by blast
qed

lemma in_holding_chats:
  "c \<in> set (holding_chats d owner) \<longleftrightarrow> (\<exists>ch \<in> set (chats d). chat_key ch = c \<and> unfiled_key ch \<noteq> None)"
  by (force simp: holding_chats_def)

lemma in_participants_denied:
  "wf_db d \<Longrightarrow> c \<in> set (participants_denied d owner) \<longleftrightarrow>
     (\<exists>p \<in> set (participants d). part_chat p = c \<and> \<not> text_ok d (Some (part_person p)))"
  using left_join_denied [of d _ "\<lambda>p. Some (part_person p)" "participants d"]
  by (fastforce simp: participants_denied_def image_iff)

lemma in_sources_unresolved:
  "c \<in> set (sources_unresolved d owner) \<longleftrightarrow>
     (\<exists>sp \<in> set (source_participants d). sp_chat sp = c
        \<and> (\<forall>r \<in> set (resolutions d). res_source_handle r \<noteq> sp_source_handle sp))"
  by (fastforce simp: sources_unresolved_def image_iff join_sets)

lemma in_resolved_sources:
  "(sp, h) \<in> set (resolved_sources d) \<longleftrightarrow>
     sp \<in> set (source_participants d) \<and> h \<in> set (handles d)
     \<and> (\<exists>r \<in> set (resolutions d). res_source_handle r = sp_source_handle sp \<and> handle_key h = res_handle r)"
proof -
  have "(sp, h) \<in> set (resolved_sources d) \<longleftrightarrow>
      (\<exists>r. ((sp, r), h) \<in> set (inner_join (\<lambda>(cps, shr) h. handle_key h = res_handle shr)
         (inner_join (\<lambda>cps shr. res_source_handle shr = sp_source_handle cps)
            (source_participants d) (resolutions d)) (handles d)))"
    by (force simp: resolved_sources_def image_iff)
  then show ?thesis by (auto simp: set_inner_join)
qed

lemma in_source_persons_denied:
  assumes "wf_db d"
  shows "c \<in> set (source_persons_denied d owner) \<longleftrightarrow>
     (\<exists>(sp, h) \<in> set (resolved_sources d). sp_chat sp = c \<and> \<not> text_ok d (Some (handle_person h)))"
proof -
  have on: "(\<lambda>(cps, h). on_person (Some (handle_person h))) = (\<lambda>x. on_person (Some (handle_person (snd x))))"
    by auto
  show ?thesis
    unfolding source_persons_denied_def on
    using left_join_denied [OF assms, of _ "\<lambda>x. Some (handle_person (snd x))" "resolved_sources d"]
    by (fastforce simp: image_iff)
qed

lemma in_senders_unresolved:
  "c \<in> set (senders_unresolved d owner) \<longleftrightarrow> (\<exists>m \<in> set (messages d). msg_chat m = c \<and> message_sender owner m = None)"
  by (auto simp: senders_unresolved_def)

lemma in_senders_denied:
  assumes "wf_db d"
  shows "c \<in> set (senders_denied d owner) \<longleftrightarrow>
     (\<exists>m \<in> set (messages d). msg_chat m = c \<and> message_sender owner m \<noteq> None
        \<and> \<not> text_ok d (message_sender owner m))"
  using left_join_denied [OF assms, of _ "message_sender owner" "messages d"]
  by (fastforce simp: senders_denied_def image_iff)

lemma in_tapbacks_denied:
  assumes "wf_db d"
  shows "c \<in> set (tapbacks_denied d owner) \<longleftrightarrow>
     (\<exists>t \<in> set (tapbacks d). \<exists>m \<in> set (messages d).
        target_message t = Some (message_key m) \<and> msg_chat m = c \<and> \<not> text_ok d (tapback_sender owner t))"
proof -
  have on: "(\<lambda>(t, m). on_person (tapback_sender owner t)) = (\<lambda>x. on_person (tapback_sender owner (fst x)))"
    for owner by auto
  have same: "filter (\<lambda>((t, m), al). tapback_sender owner t = None \<or> not_text_allowed al) xs
      = filter (\<lambda>(x, al). not_text_allowed al) xs"
    if "xs = left_join (\<lambda>x. on_person (tapback_sender owner (fst x))) ts ys" for ts ys xs
  proof (rule filter_cong [OF refl])
    fix z assume "z \<in> set xs"
    then show "(case z of (x, al) \<Rightarrow> (case x of (t, m) \<Rightarrow> \<lambda>al. tapback_sender owner t = None \<or> not_text_allowed al) al)
        = (case z of (x, al) \<Rightarrow> not_text_allowed al)"
      using that by (cases "snd z"; cases z) (auto simp: join_sets on_person_def not_text_allowed_def)
  qed
  have col: "(\<lambda>((t, m), al). msg_chat m) = (\<lambda>(x, al). msg_chat (snd x))" by auto
  show ?thesis
    unfolding tapbacks_denied_def on same [OF refl] col denied_by_join [OF assms]
      tapback_targets_def Bex_def split_paired_Ex set_inner_join fst_conv snd_conv by blast
qed

lemmas evidence_sets = in_holding_chats in_participants_denied in_sources_unresolved
  in_source_persons_denied in_senders_unresolved in_senders_denied in_tapbacks_denied

text \<open>A chat with members and without evidence is an open thread, and conversely.\<close>

definition no_evidence :: "db \<Rightarrow> int \<Rightarrow> bool" where
  "no_evidence d c \<longleftrightarrow> (\<forall>r \<in> set DENY_RULES. c \<notin> set (evidence r d (owner_person_id d)))"

lemma thread_open_iff:
  assumes "wf_db d"
  shows "thread_open d c \<longleftrightarrow> (\<exists>p \<in> set (participants d). part_chat p = c) \<and> no_evidence d c"
proof -
  have res: "(\<exists>r \<in> set (resolutions d). res_source_handle r = s
        \<and> (\<exists>h \<in> set (handles d). handle_key h = res_handle r \<and> text_ok d (Some (handle_person h))))
      \<longleftrightarrow> (\<exists>r \<in> set (resolutions d). res_source_handle r = s)
        \<and> (\<forall>r \<in> set (resolutions d). \<forall>h \<in> set (handles d). res_source_handle r = s \<and> handle_key h = res_handle r
             \<longrightarrow> text_ok d (Some (handle_person h)))" for s
  proof -
    have r1: "r = r'" if "r \<in> set (resolutions d)" "r' \<in> set (resolutions d)" "res_source_handle r = res_source_handle r'" for r r'
      using assms that distinct_key_eq by (fastforce simp: wf_db_def)
    have h1: "h = h'" if "h \<in> set (handles d)" "h' \<in> set (handles d)" "handle_key h = handle_key h'" for h h'
      using assms that distinct_key_eq by (fastforce simp: wf_db_def)
    have fk: "\<exists>h \<in> set (handles d). handle_key h = res_handle r" if "r \<in> set (resolutions d)" for r
      using assms that by (force simp: wf_db_def)
    show ?thesis (is "?l \<longleftrightarrow> ?r1 \<and> ?r2")
    proof
      assume ?l
      then obtain r h where rh: "r \<in> set (resolutions d)" "res_source_handle r = s" "h \<in> set (handles d)"
          "handle_key h = res_handle r" "text_ok d (Some (handle_person h))" by blast
      have ?r2
      proof (intro ballI impI)
        fix r' h' assume "r' \<in> set (resolutions d)" "h' \<in> set (handles d)"
          and k: "res_source_handle r' = s \<and> handle_key h' = res_handle r'"
        then have "r' = r" using r1 rh(1,2) by simp
        then have "h' = h" using h1 \<open>h' \<in> set (handles d)\<close> k rh(3,4) by simp
        then show "text_ok d (Some (handle_person h'))" using rh(5) by simp
      qed
      then show "?r1 \<and> ?r2" using rh(1,2) by auto
    next
      assume "?r1 \<and> ?r2"
      then show ?l using fk by blast
    qed
  qed
  let ?o = "owner_person_id d"
  have holding: "c \<notin> set (holding_chats d ?o) \<longleftrightarrow> (\<forall>ch \<in> set (chats d). chat_key ch = c \<longrightarrow> unfiled_key ch = None)"
    by (auto simp: in_holding_chats)
  have members: "c \<notin> set (participants_denied d ?o) \<longleftrightarrow>
      (\<forall>p \<in> set (participants d). part_chat p = c \<longrightarrow> text_ok d (Some (part_person p)))"
    using in_participants_denied [OF assms] by blast
  have persons: "c \<in> set (source_persons_denied d ?o) \<longleftrightarrow>
      (\<exists>sp \<in> set (source_participants d). sp_chat sp = c \<and> (\<exists>r \<in> set (resolutions d). \<exists>h \<in> set (handles d).
         res_source_handle r = sp_source_handle sp \<and> handle_key h = res_handle r
         \<and> \<not> text_ok d (Some (handle_person h))))"
    unfolding in_source_persons_denied [OF assms] Bex_def split_paired_Ex prod.case in_resolved_sources
    by blast
  have sources: "c \<notin> set (sources_unresolved d ?o) \<and> c \<notin> set (source_persons_denied d ?o) \<longleftrightarrow>
      (\<forall>sp \<in> set (source_participants d). sp_chat sp = c \<longrightarrow>
          (\<exists>r \<in> set (resolutions d). res_source_handle r = sp_source_handle sp
             \<and> (\<exists>h \<in> set (handles d). handle_key h = res_handle r \<and> text_ok d (Some (handle_person h)))))"
    unfolding res in_sources_unresolved persons by blast
  have senders: "c \<notin> set (senders_unresolved d ?o) \<and> c \<notin> set (senders_denied d ?o) \<longleftrightarrow>
      (\<forall>m \<in> set (messages d). msg_chat m = c \<longrightarrow> text_ok d (message_sender ?o m))"
    unfolding in_senders_unresolved in_senders_denied [OF assms] by (metis text_ok_None)
  have taps: "c \<notin> set (tapbacks_denied d ?o) \<longleftrightarrow> (\<forall>t \<in> set (tapbacks d). \<forall>m \<in> set (messages d).
          target_message t = Some (message_key m) \<and> msg_chat m = c \<longrightarrow> text_ok d (tapback_sender ?o t))"
    using in_tapbacks_denied [OF assms] by blast
  have "no_evidence d c \<longleftrightarrow>
      c \<notin> set (holding_chats d ?o) \<and> c \<notin> set (participants_denied d ?o)
      \<and> (c \<notin> set (sources_unresolved d ?o) \<and> c \<notin> set (source_persons_denied d ?o))
      \<and> (c \<notin> set (senders_unresolved d ?o) \<and> c \<notin> set (senders_denied d ?o))
      \<and> c \<notin> set (tapbacks_denied d ?o)"
    by (simp add: no_evidence_def DENY_RULES_def)
  then show ?thesis
    unfolding thread_open_def by (simp only: holding members sources senders taps)
qed

section \<open>The two evaluations\<close>

lemma set_restricted [simp]:
  "set (restricted among cs) = {c \<in> set cs. case among of None \<Rightarrow> True | Some a \<Rightarrow> c \<in> set a}"
  by (auto simp: restricted_def split: option.splits)

definition asked :: "int list option \<Rightarrow> int \<Rightarrow> bool" where
  "asked among c \<longleftrightarrow> (case among of None \<Rightarrow> True | Some a \<Rightarrow> c \<in> set a)"

lemma set_rule_chats: "set (rule_chats d owner among r) = {c \<in> set (evidence r d owner). asked among c}"
  by (simp add: rule_chats_def asked_def)

lemma set_except_fold:
  "set (foldl (\<lambda>cs r. except_rows cs (f r)) cs rules) = {c \<in> set cs. \<forall>r \<in> set rules. c \<notin> set (f r)}"
  by (induction rules arbitrary: cs) (auto simp: except_rows_def)

lemma set_first_pass:
  "set (first_pass d owner among) =
     {c. (\<exists>p \<in> set (participants d). part_chat p = c) \<and> asked among c
         \<and> (\<forall>r \<in> set DENY_RULES. \<not> reads_messages r \<longrightarrow> c \<notin> set (evidence r d owner))}"
  unfolding first_pass_def set_except_fold set_rule_chats by (auto simp: asked_def)

lemma set_eligible_chat_ids:
  "set (eligible_chat_ids d among) =
     {c. (\<exists>p \<in> set (participants d). part_chat p = c) \<and> asked among c \<and> no_evidence d c}"
proof (cases "among = Some []")
  case True
  then show ?thesis by (simp add: eligible_chat_ids_def asked_def)
next
  case False
  let ?o = "owner_person_id d"
  let ?s = "sort (first_pass d ?o among)"
  have "set (second_pass d ?o ?s) = {c. (\<exists>p \<in> set (participants d). part_chat p = c) \<and> asked among c \<and> no_evidence d c}"
    unfolding second_pass_def set_except_fold set_rule_chats
    by (auto simp: set_first_pass no_evidence_def asked_def)
  moreover have "?s = [] \<Longrightarrow> second_pass d ?o ?s = []"
  proof -
    assume "?s = []"
    then have "set (second_pass d ?o ?s) = {}"
      unfolding second_pass_def set_except_fold by simp
    then show ?thesis by simp
  qed
  ultimately show ?thesis using False by (auto simp: eligible_chat_ids_def Let_def)
qed

lemma verdict_lookup:
  "v \<in> set (compute_chat_eligibility d among) \<Longrightarrow>
   participant_count v = (case map_of (participant_counts d among) (verdict_chat v) of None \<Rightarrow> 0 | Some n \<Rightarrow> n)"
  unfolding compute_chat_eligibility_def Let_def by (auto split: if_splits)

lemma verdict_counts:
  assumes "v \<in> set (compute_chat_eligibility d among)" and "verdict_chat v \<in> chat_key ` set (chats d)"
    and "asked among (verdict_chat v)"
  shows "participant_count v = length (filter (\<lambda>p. part_chat p = verdict_chat v) (participants d))"
proof -
  let ?cs = "restricted among (map chat_key (chats d))"
  have "map_of (map (\<lambda>c. (c, f c)) cs) c = (if c \<in> set cs then Some (f c) else None)"
    for f :: "int \<Rightarrow> nat" and cs c
    by (induction cs) auto
  moreover have "verdict_chat v \<in> set ?cs" using assms(2,3) by (auto simp: asked_def)
  ultimately show ?thesis
    using verdict_lookup [OF assms(1)] by (simp add: participant_counts_def)
qed

lemma verdict_reasons:
  assumes "v \<in> set (compute_chat_eligibility d among)" and "asked among (verdict_chat v)"
  shows "deny_reasons v = [] \<longleftrightarrow> no_evidence d (verdict_chat v)"
  using assms
  by (auto simp: compute_chat_eligibility_def Let_def no_evidence_def filter_empty_conv set_rule_chats
      split: if_splits)

lemma verdict_asked:
  assumes "v \<in> set (compute_chat_eligibility d among)"
  shows "asked among (verdict_chat v)"
proof -
  have "verdict_chat v \<in> set (map fst (participant_counts d among)
      @ concat (map (rule_chats d (owner_person_id d) among) DENY_RULES))"
    using assms unfolding compute_chat_eligibility_def Let_def by (force split: if_splits)
  then show ?thesis by (auto simp: participant_counts_def set_rule_chats asked_def)
qed

lemma verdict_exists:
  assumes "c \<in> chat_key ` set (chats d)" and "asked among c"
  shows "\<exists>v \<in> set (compute_chat_eligibility d among). verdict_chat v = c"
proof -
  have "among \<noteq> Some []" using assms(2) by (auto simp: asked_def)
  moreover have "c \<in> set (restricted among (map chat_key (chats d)))" using assms by (auto simp: asked_def)
  ultimately show ?thesis
    by (force simp: compute_chat_eligibility_def Let_def participant_counts_def image_iff)
qed

lemma eligible_verdicts:
  assumes "wf_db d"
  shows "{verdict_chat v |v. v \<in> set (compute_chat_eligibility d among) \<and> eligible v}
     = {c. (\<exists>p \<in> set (participants d). part_chat p = c) \<and> asked among c \<and> no_evidence d c}"
proof -
  have fk: "part_chat p \<in> chat_key ` set (chats d)" if "p \<in> set (participants d)" for p
    using assms that by (simp add: wf_db_def)
  have zero: "participant_count v = 0" if "v \<in> set (compute_chat_eligibility d among)"
      "verdict_chat v \<notin> chat_key ` set (chats d)" for v
  proof -
    have "map_of (participant_counts d among) (verdict_chat v) = None"
      using that(2) by (auto simp: participant_counts_def map_of_eq_None_iff)
    then show ?thesis
      using that(1) by (auto simp: compute_chat_eligibility_def Let_def split: if_splits)
  qed
  show ?thesis
  proof (intro set_eqI iffI)
    fix c assume "c \<in> {verdict_chat v |v. v \<in> set (compute_chat_eligibility d among) \<and> eligible v}"
    then obtain v where v: "c = verdict_chat v" "v \<in> set (compute_chat_eligibility d among)" "eligible v" by blast
    have a: "asked among c" using verdict_asked v by simp
    have "verdict_chat v \<in> chat_key ` set (chats d)" by (metis eligible_def less_irrefl v(2,3) zero)
    then have "0 < length (filter (\<lambda>p. part_chat p = c) (participants d))"
      using verdict_counts [OF v(2)] v a by (simp add: eligible_def)
    then have "\<exists>p \<in> set (participants d). part_chat p = c" by (auto simp: filter_empty_conv)
    then show "c \<in> {c. (\<exists>p \<in> set (participants d). part_chat p = c) \<and> asked among c \<and> no_evidence d c}"
      using a verdict_reasons [OF v(2)] v by (simp add: eligible_def)
  next
    fix c assume "c \<in> {c. (\<exists>p \<in> set (participants d). part_chat p = c) \<and> asked among c \<and> no_evidence d c}"
    then have c: "\<exists>p \<in> set (participants d). part_chat p = c" "asked among c" "no_evidence d c" by auto
    then have k: "c \<in> chat_key ` set (chats d)" using fk by auto
    obtain v where v: "v \<in> set (compute_chat_eligibility d among)" "verdict_chat v = c"
      using verdict_exists [OF k c(2)] by blast
    have "filter (\<lambda>p. part_chat p = c) (participants d) \<noteq> []" using c(1) by (auto simp: filter_empty_conv)
    then have "eligible v"
      using verdict_counts [OF v(1)] verdict_reasons [OF v(1)] v(2) k c by (simp add: eligible_def)
    then show "c \<in> {verdict_chat v |v. v \<in> set (compute_chat_eligibility d among) \<and> eligible v}"
      using v by blast
  qed
qed

lemma eligible_is_open_thread_iff:
  "wf_db d \<Longrightarrow> c \<in> set (eligible_chat_ids d among) \<longleftrightarrow> asked among c \<and> thread_open d c"
  using set_eligible_chat_ids [of d among] thread_open_iff by auto

section \<open>Monotonicity\<close>

text \<open>More evidence: the same allowlist and people, and at least the rows of the other tables.\<close>

definition more_evidence :: "db \<Rightarrow> db \<Rightarrow> bool" where
  "more_evidence d d' \<longleftrightarrow>
     persons d' = persons d \<and> handles d' = handles d \<and> resolutions d' = resolutions d
     \<and> set (allowlist d') \<subseteq> set (allowlist d) \<and> set (chats d) \<subseteq> set (chats d')
     \<and> set (participants d) \<subseteq> set (participants d')
     \<and> set (source_participants d) \<subseteq> set (source_participants d')
     \<and> set (messages d) \<subseteq> set (messages d') \<and> set (tapbacks d) \<subseteq> set (tapbacks d')"

lemma text_ok_less: "set (allowlist d') \<subseteq> set (allowlist d) \<Longrightarrow> text_ok d' p \<Longrightarrow> text_ok d p"
  by (auto simp: text_ok_def)

lemma thread_open_less:
  assumes "more_evidence d d'" and "thread_open d' c" and "\<exists>p \<in> set (participants d). part_chat p = c"
  shows "thread_open d c"
proof -
  have "owner_person_id d' = owner_person_id d" using assms(1) by (simp add: more_evidence_def owner_person_id_def)
  moreover have "text_ok d' p \<Longrightarrow> text_ok d p" for p using assms(1) unfolding more_evidence_def by (blast intro: text_ok_less)
  ultimately show ?thesis
    using assms unfolding thread_open_def more_evidence_def by (simp add: subset_iff) metis
qed

section \<open>Properties\<close>

text \<open>
  C15: Default deny, in full: the chats served under the allowlist scope are exactly the threads whose
  every member, resolved source participant, message sender and tapback sender is known and
  text-allowed, with at least one member and no holding key, among the chats asked for.
\<close>

theorem eligible_is_open_thread:
  assumes "wf_db d"
  shows "c \<in> set (eligible_chat_ids d among) \<longleftrightarrow> asked among c \<and> thread_open d c"
  by (rule eligible_is_open_thread_iff [OF assms])

definition sample_db :: db where
  "sample_db =
     \<lparr>persons = [\<lparr>person_id = 1, is_owner = True\<rparr>, \<lparr>person_id = 2, is_owner = False\<rparr>],
      chats = [\<lparr>chat_key = 10, unfiled_key = None\<rparr>, \<lparr>chat_key = 11, unfiled_key = None\<rparr>],
      participants = [\<lparr>part_chat = 10, part_person = 2\<rparr>, \<lparr>part_chat = 11, part_person = 1\<rparr>],
      source_participants = [\<lparr>sp_chat = 10, sp_source_handle = 7\<rparr>, \<lparr>sp_chat = 11, sp_source_handle = 8\<rparr>],
      resolutions = [\<lparr>res_source_handle = 7, res_handle = 70\<rparr>],
      handles = [\<lparr>handle_key = 70, handle_person = 2\<rparr>],
      allowlist = [\<lparr>allow_person = 1, text_allowed = True, attachments_allowed = False\<rparr>,
                   \<lparr>allow_person = 2, text_allowed = True, attachments_allowed = True\<rparr>],
      messages = [\<lparr>message_key = 100, msg_chat = 10, sender_person = None, from_me = True,
                   is_unsent = False, deleted_at = None, row_sent_at = 0\<rparr>,
                  \<lparr>message_key = 101, msg_chat = 10, sender_person = Some 2, from_me = False,
                   is_unsent = False, deleted_at = None, row_sent_at = 5\<rparr>],
      tapbacks = [], segment_messages = [(1000, 100), (1000, 101)],
      message_attachments = [(100, 500), (101, 501)], classifications = []\<rparr>"

lemma sample_db_wf: "wf_db sample_db"
  by (simp add: wf_db_def sample_db_def)

theorem eligible_is_open_thread_witness:
  "eligible_chat_ids sample_db None = [10] \<and> thread_open sample_db 10 \<and> \<not> thread_open sample_db 11"
proof -
  have "eligible_chat_ids sample_db None = [10]" by code_simp
  then show ?thesis
    using eligible_is_open_thread [OF sample_db_wf, of 10 None]
      eligible_is_open_thread [OF sample_db_wf, of 11 None] by (simp add: asked_def)
qed

text \<open>
  C16: The two evaluations agree: the two-pass query of the public surface returns exactly the chats
  whose verdict in the full evaluation, the one with the reasons, is eligible, for every choice
  of \<open>among\<close>.
\<close>

theorem two_passes_agree:
  assumes "wf_db d"
  shows "set (eligible_chat_ids d among)
     = {verdict_chat v |v. v \<in> set (compute_chat_eligibility d among) \<and> eligible v}"
  using set_eligible_chat_ids [of d among] eligible_verdicts [OF assms, of among] by simp

theorem two_passes_agree_witness:
  "{verdict_chat v |v. v \<in> set (compute_chat_eligibility sample_db None) \<and> eligible v} = {10}"
proof -
  have "eligible_chat_ids sample_db None = [10]" by code_simp
  then show ?thesis using two_passes_agree [OF sample_db_wf, of None] by simp
qed

text \<open>
  Evidence only closes threads: with more members, messages, tapbacks or holding keys and no more
  allowlist entries, a chat that had members and is served was served before.
\<close>

theorem evidence_only_denies:
  assumes "wf_db d" and "wf_db d'" and "more_evidence d d'"
    and "c \<in> set (eligible_chat_ids d' among)" and "c \<in> part_chat ` set (participants d)"
  shows "c \<in> set (eligible_chat_ids d among)"
proof -
  have "asked among c \<and> thread_open d' c"
    using assms(4) unfolding eligible_is_open_thread_iff [OF assms(2)] .
  moreover have "\<exists>p \<in> set (participants d). part_chat p = c" using assms(5) by auto
  ultimately show ?thesis
    unfolding eligible_is_open_thread_iff [OF assms(1)] using thread_open_less [OF assms(3)] by blast
qed

theorem evidence_only_denies_witness:
  "10 \<in> set (eligible_chat_ids (sample_db\<lparr>messages := []\<rparr>) None)"
proof (rule evidence_only_denies [where d' = sample_db])
  show "wf_db (sample_db\<lparr>messages := []\<rparr>)" by (simp add: wf_db_def sample_db_def)
  show "wf_db sample_db" by (rule sample_db_wf)
  show "more_evidence (sample_db\<lparr>messages := []\<rparr>) sample_db" by (simp add: more_evidence_def)
  show "10 \<in> set (eligible_chat_ids sample_db None)" by code_simp
  show "10 \<in> part_chat ` set (participants (sample_db\<lparr>messages := []\<rparr>))" by (simp add: sample_db_def)
qed

definition attachment_ok :: "db \<Rightarrow> int option \<Rightarrow> bool" where
  "attachment_ok d p \<longleftrightarrow> (\<exists>a \<in> set (allowlist d). p = Some (allow_person a) \<and> attachments_allowed a)"

lemma attachment_link_ok_iff:
  assumes "wf_db d"
  shows "list_all id (attachment_link_ok d owner m) \<longleftrightarrow> attachment_ok d (message_sender owner m)"
proof -
  have uniq: "a = b" if "a \<in> set (allowlist d)" "b \<in> set (allowlist d)" "allow_person a = allow_person b" for a b
    using assms that distinct_key_eq by (fastforce simp: wf_db_def)
  let ?l = "left_join (\<lambda>m. on_person (message_sender owner m)) [m] (allowlist d)"
  have "list_all id (attachment_link_ok d owner m) \<longleftrightarrow>
      (\<forall>al. (m, al) \<in> set ?l \<longrightarrow> message_sender owner m \<noteq> None
         \<and> (case al of None \<Rightarrow> False | Some a \<Rightarrow> attachments_allowed a))"
  proof -
    have "x = m" if "(x, al) \<in> set ?l" for x al
      using that by (cases al) (auto simp: join_sets)
    then show ?thesis unfolding attachment_link_ok_def list_all_iff by force
  qed
  also have "\<dots> \<longleftrightarrow> attachment_ok d (message_sender owner m)"
    unfolding split_option_all join_sets
    by (auto simp: attachment_ok_def on_person_def dest: uniq)
  finally show ?thesis .
qed

lemma in_linked_attachments:
  "((s, a), m) \<in> set (linked_attachments d segs) \<longleftrightarrow>
     s \<in> set segs \<and> (s, message_key m) \<in> set (segment_messages d) \<and> m \<in> set (messages d)
     \<and> exportable_message m \<and> (message_key m, a) \<in> set (message_attachments d)"
proof -
  have "((s, a), m) \<in> set (linked_attachments d segs) \<longleftrightarrow>
      (\<exists>x y. (((s, x), m), (y, a)) \<in> set (inner_join (\<lambda>(sm, m) ma. fst ma = message_key m)
         (inner_join (\<lambda>sm m. message_key m = snd sm)
           (filter (\<lambda>sm. fst sm \<in> set segs) (segment_messages d))
           (filter exportable_message (messages d)))
         (message_attachments d)))"
    unfolding linked_attachments_def by force
  then show ?thesis by (auto simp: set_inner_join)
qed

lemma attachment_gate_iff:
  assumes "wf_db d"
  shows "((s, a), True) \<in> set (compute_attachment_eligibility d segs) \<longleftrightarrow>
     s \<in> set segs
     \<and> (\<exists>m \<in> set (messages d). exportable_message m \<and> (s, message_key m) \<in> set (segment_messages d)
          \<and> (message_key m, a) \<in> set (message_attachments d))
     \<and> (\<forall>m \<in> set (messages d). exportable_message m \<and> (s, message_key m) \<in> set (segment_messages d)
          \<and> (message_key m, a) \<in> set (message_attachments d)
          \<longrightarrow> attachment_ok d (message_sender (owner_person_id d) m))"
proof -
  let ?o = "owner_person_id d"
  let ?links = "linked_attachments d segs"
  have "((s, a), True) \<in> set (compute_attachment_eligibility d segs) \<longleftrightarrow>
      segs \<noteq> [] \<and> (s, a) \<in> fst ` set ?links
      \<and> list_all (\<lambda>(p, m). p = (s, a) \<longrightarrow> list_all id (attachment_link_ok d ?o m)) ?links"
    by (auto simp: compute_attachment_eligibility_def Let_def image_iff)
  also have "(s, a) \<in> fst ` set ?links \<longleftrightarrow> (\<exists>m. ((s, a), m) \<in> set ?links)" by force
  also have "list_all (\<lambda>(p, m). p = (s, a) \<longrightarrow> list_all id (attachment_link_ok d ?o m)) ?links
      \<longleftrightarrow> (\<forall>m. ((s, a), m) \<in> set ?links \<longrightarrow> attachment_ok d (message_sender ?o m))"
    unfolding list_all_iff [of _ ?links] by (auto simp: attachment_link_ok_iff [OF assms])
  finally show ?thesis unfolding in_linked_attachments by auto
qed

text \<open>
  The attachment gate is separate and per link: a pair of a segment and an attachment is allowed
  exactly when it is linked by an exportable message of the segment and the sender of every such
  message is known and attachments-allowed; a pair without such a link is not in the result.
\<close>

theorem attachment_gate:
  assumes "wf_db d"
  shows "((s, a), True) \<in> set (compute_attachment_eligibility d segs) \<longleftrightarrow>
     s \<in> set segs
     \<and> (\<exists>m \<in> set (messages d). exportable_message m \<and> (s, message_key m) \<in> set (segment_messages d)
          \<and> (message_key m, a) \<in> set (message_attachments d))
     \<and> (\<forall>m \<in> set (messages d). exportable_message m \<and> (s, message_key m) \<in> set (segment_messages d)
          \<and> (message_key m, a) \<in> set (message_attachments d)
          \<longrightarrow> attachment_ok d (message_sender (owner_person_id d) m))"
  using assms by (rule attachment_gate_iff)

theorem attachment_gate_witness:
  "compute_attachment_eligibility sample_db [1000] = [((1000, 500), False), ((1000, 501), True)]
   \<and> attachment_ok sample_db (Some 2) \<and> \<not> attachment_ok sample_db (Some 1)"
proof -
  have c: "compute_attachment_eligibility sample_db [1000] = [((1000, 500), False), ((1000, 501), True)]"
    by code_simp
  moreover have "attachment_ok sample_db (Some 2)"
    using attachment_gate [OF sample_db_wf, of 1000 501 "[1000]"] c
    by (simp add: sample_db_def attachment_ok_def)
  ultimately show ?thesis by (simp add: sample_db_def attachment_ok_def)
qed

text \<open>
  The weekly report lists denied threads only: a chat it reports is never served, whatever its
  classification says, so its names leave by no other way than the report.
\<close>

theorem unclassified_is_denied:
  assumes "wf_db d" and "c \<in> set (unclassified_chats d cutoff)"
  shows "c \<notin> set (eligible_chat_ids d among)"
proof
  assume "c \<in> set (eligible_chat_ids d among)"
  then have no: "no_evidence d c" by (simp add: set_eligible_chat_ids)
  have "c \<in> set (unlisted_chats d)" using assms(2) by (auto simp: unclassified_chats_def)
  moreover have "sources_unresolved d None = sources_unresolved d (owner_person_id d)"
    by (simp add: sources_unresolved_def)
  moreover have "c \<in> set (participants_denied d (owner_person_id d))"
    if "c \<in> set (map (part_chat \<circ> fst) (filter (\<lambda>(cp, al). al = None)
          (left_join (\<lambda>cp. on_person (Some (part_person cp))) (participants d) (allowlist d))))"
    using that by (force simp: participants_denied_def not_text_allowed_def)
  ultimately have "c \<in> set (participants_denied d (owner_person_id d))
      \<or> c \<in> set (sources_unresolved d (owner_person_id d))"
    by (auto simp: unlisted_chats_def simp del: set_map)
  then show False using no by (auto simp: no_evidence_def DENY_RULES_def)
qed

theorem unclassified_is_denied_witness:
  "unclassified_chats (sample_db\<lparr>allowlist := []\<rparr>) 0 = [10]
   \<and> 10 \<notin> set (eligible_chat_ids (sample_db\<lparr>allowlist := []\<rparr>) None)"
proof -
  have u: "unclassified_chats (sample_db\<lparr>allowlist := []\<rparr>) 0 = [10]" by code_simp
  have "wf_db (sample_db\<lparr>allowlist := []\<rparr>)" by (simp add: wf_db_def sample_db_def)
  from unclassified_is_denied [OF this, of 10 0 None] u show ?thesis by simp
qed

end
