(* ===== verification/Backup_Retention.thy ===== *)
theory Backup_Retention
  imports Unicode_Text "HOL-Library.List_Lexorder" "HOL-Library.Product_Lexorder" "HOL-Library.Char_ord"
begin

text \<open>
  Retention of the nightly backups (\<open>src/imsg/backup/retention.py\<close>): the classification of
  every entry of the backups directory, the plan that keeps the newest complete sets, and its
  execution with the second look at each candidate. The directory is the list of its entries
  with distinct names; \<open>json.loads\<close> of a manifest's text is a parameter.
\<close>

section \<open>The directory\<close>

text \<open>An entry; \<open>is_dir\<close> follows links; the manifest is the text read, if it could be.\<close>

record dir_entry =
  entry_name :: string
  is_symlink :: bool
  is_dir :: bool
  manifest_text :: "string option"
  tree_bytes :: nat

definition dir_wf :: "dir_entry list \<Rightarrow> bool" where
  "dir_wf d \<longleftrightarrow> distinct (map entry_name d)"

definition MANIFEST_FORMAT :: int where "MANIFEST_FORMAT = 1"
definition DEFAULT_KEEP :: int where "DEFAULT_KEEP = 14"
definition STAGING_PREFIX :: string where "STAGING_PREFIX = ''.incomplete-''"

text \<open>\<^verbatim>\<open>\d\<close>: the decimal digits of Unicode 15, in blocks of ten that begin with these zeros.\<close>

definition DECIMAL_ZEROS :: "nat list" where
  "DECIMAL_ZEROS =
     [48, 1632, 1776, 1984, 2406, 2534, 2662, 2790, 2918, 3046, 3174, 3302, 3430, 3558, 3664,
      3792, 3872, 4160, 4240, 6112, 6160, 6470, 6608, 6784, 6800, 6992, 7088, 7232, 7248, 42528,
      43216, 43264, 43472, 43504, 43600, 44016, 65296, 66720, 68912, 69734, 69872, 69942, 70096,
      70384, 70736, 70864, 71248, 71360, 71472, 71904, 72016, 72784, 73040, 73120, 73552, 92768,
      92864, 93008, 120782, 120792, 120802, 120812, 120822, 123200, 123632, 124144, 125264,
      130032]"

definition decimal_digit :: "nat \<Rightarrow> bool" where
  "decimal_digit c \<longleftrightarrow> list_ex (\<lambda>z. z \<le> c \<and> c < z + 10) DECIMAL_ZEROS"

definition lower_hex :: "nat \<Rightarrow> bool" where
  "lower_hex c \<longleftrightarrow> 48 \<le> c \<and> c \<le> 57 \<or> 97 \<le> c \<and> c \<le> 102"

text \<open>\<open>SET_NAME_RE\<close>; as in every such pattern, \<open>$\<close> also matches before a final newline.\<close>

definition set_name_match :: "string \<Rightarrow> bool" where
  "set_name_match name =
     (let cs = code_points name; s = (if cs \<noteq> [] \<and> last cs = 10 then butlast cs else cs)
      in length s = 30 \<and> take 7 s = map ord ''backup-'' \<and> list_all decimal_digit (take 8 (drop 7 s))
         \<and> s ! 15 = ord CHR ''T'' \<and> list_all decimal_digit (take 6 (drop 16 s))
         \<and> s ! 22 = ord CHR ''Z'' \<and> s ! 23 = ord CHR ''-'' \<and> list_all lower_hex (drop 24 s))"

lemma set_name_examples:
  "set_name_match ''backup-20260918T040000Z-a1b2c3''" "\<not> set_name_match ''.incomplete-20260918''"
  "\<not> set_name_match ''backup-20260918T040000Z-A1B2C3''"
  by code_simp+

section \<open>Manifests and the index\<close>

text \<open>\<open>None\<close> unless the manifest proves a finished set; \<open>created_at\<close> is all that is used of it.\<close>

definition read_manifest :: "(string \<Rightarrow> json option) \<Rightarrow> dir_entry \<Rightarrow> string option" where
  "read_manifest loads e =
     (case manifest_text e of
        None \<Rightarrow> None
      | Some raw \<Rightarrow>
          (case loads raw of
             Some (JObj obj) \<Rightarrow>
               (if (case map_of obj ''format'' of
                      None \<Rightarrow> False | Some j \<Rightarrow> json_eq_int j MANIFEST_FORMAT)
                   \<and> map_of obj ''complete'' = Some (JBool True)
                then (case map_of obj ''created_at'' of Some (JStr s) \<Rightarrow> Some s | _ \<Rightarrow> None)
                else None)
           | _ \<Rightarrow> None))"

record backup_set =
  set_path :: string
  created_at :: string
  byte_size :: nat

record backup_index =
  complete :: "backup_set list"
  partial :: "string list"
  foreign :: "string list"

datatype entry_class = Complete backup_set | Partial | Foreign

definition classify :: "(string \<Rightarrow> json option) \<Rightarrow> dir_entry \<Rightarrow> entry_class" where
  "classify loads e =
     (if is_symlink e \<or> \<not> is_dir e then Foreign
      else if take (length STAGING_PREFIX) (entry_name e) = STAGING_PREFIX then Partial
      else if \<not> set_name_match (entry_name e) then Foreign
      else (case read_manifest loads e of
              None \<Rightarrow> Partial
            | Some created \<Rightarrow>
                Complete \<lparr>set_path = entry_name e, created_at = created, byte_size = tree_bytes e\<rparr>))"

fun index_loop :: "(string \<Rightarrow> json option) \<Rightarrow> dir_entry list \<Rightarrow> backup_index \<Rightarrow> backup_index" where
  "index_loop loads [] ix = ix"
| "index_loop loads (e # es) ix =
     index_loop loads es
       (case classify loads e of
          Complete b \<Rightarrow> ix\<lparr>complete := complete ix @ [b]\<rparr>
        | Partial \<Rightarrow> ix\<lparr>partial := partial ix @ [entry_name e]\<rparr>
        | Foreign \<Rightarrow> ix\<lparr>foreign := foreign ix @ [entry_name e]\<rparr>)"

definition empty_index :: backup_index where
  "empty_index = \<lparr>complete = [], partial = [], foreign = []\<rparr>"

definition set_rank :: "backup_set \<Rightarrow> string \<times> string" where
  "set_rank s = (created_at s, set_path s)"

text \<open>\<open>None\<close> is a directory that cannot be listed.\<close>

definition index_backups :: "(string \<Rightarrow> json option) \<Rightarrow> dir_entry list option \<Rightarrow> backup_index" where
  "index_backups loads dir =
     (case dir of
        None \<Rightarrow> empty_index
      | Some entries \<Rightarrow>
          (let ix = index_loop loads (sort_key entry_name entries) empty_index
           in ix\<lparr>complete := sort_desc set_rank (complete ix)\<rparr>))"

section \<open>The plan and its execution\<close>

record retention_plan =
  plan_keep :: int
  plan_delete :: "string list"
  plan_retained :: "string list"
  plan_partial :: "string list"
  plan_foreign :: "string list"

definition plan_retention :: "backup_index \<Rightarrow> int \<Rightarrow> retention_plan" where
  "plan_retention ix keep =
     (let k = max 1 keep
      in \<lparr>plan_keep = k, plan_delete = map set_path (drop (nat k) (complete ix)),
          plan_retained = map set_path (take (nat k) (complete ix)),
          plan_partial = partial ix, plan_foreign = foreign ix\<rparr>)"

definition looks_complete :: "(string \<Rightarrow> json option) \<Rightarrow> dir_entry \<Rightarrow> bool" where
  "looks_complete loads e \<longleftrightarrow>
     \<not> is_symlink e \<and> is_dir e \<and> set_name_match (entry_name e) \<and> read_manifest loads e \<noteq> None"

text \<open>The loop of \<open>apply_retention\<close> over the directory as it is when it runs.\<close>

fun apply_loop ::
  "(string \<Rightarrow> json option) \<Rightarrow> string list \<Rightarrow> dir_entry list \<Rightarrow> string list \<Rightarrow> string list \<times> dir_entry list" where
  "apply_loop loads [] d deleted = (deleted, d)"
| "apply_loop loads (p # ps) d deleted =
     (case filter (\<lambda>e. entry_name e = p) d of
        [] \<Rightarrow> apply_loop loads ps d deleted
      | e # _ \<Rightarrow>
          if looks_complete loads e
          then apply_loop loads ps (filter (\<lambda>e. entry_name e \<noteq> p) d) (deleted @ [p])
          else apply_loop loads ps d deleted)"

definition apply_retention ::
  "(string \<Rightarrow> json option) \<Rightarrow> retention_plan \<Rightarrow> dir_entry list \<Rightarrow> string list \<times> dir_entry list" where
  "apply_retention loads plan d = apply_loop loads (plan_delete plan) d []"

section \<open>What a run removes\<close>

lemma index_loop_lists:
  "complete (index_loop loads es ix)
     = complete ix @ concat (map (\<lambda>e. case classify loads e of Complete b \<Rightarrow> [b] | _ \<Rightarrow> []) es)"
  "partial (index_loop loads es ix)
     = partial ix @ map entry_name (filter (\<lambda>e. classify loads e = Partial) es)"
  "foreign (index_loop loads es ix)
     = foreign ix @ map entry_name (filter (\<lambda>e. classify loads e = Foreign) es)"
  by (induction es arbitrary: ix) (auto split: entry_class.splits)

definition complete_sets :: "(string \<Rightarrow> json option) \<Rightarrow> dir_entry list \<Rightarrow> backup_set list" where
  "complete_sets loads es = concat (map (\<lambda>e. case classify loads e of Complete b \<Rightarrow> [b] | _ \<Rightarrow> []) es)"

lemma in_complete_sets: "b \<in> set (complete_sets loads es) \<longleftrightarrow> (\<exists>e \<in> set es. classify loads e = Complete b)"
  by (force simp: complete_sets_def split: entry_class.splits)

lemma index_backups_some:
  "complete (index_backups loads (Some d)) = sort_desc set_rank (complete_sets loads (sort_key entry_name d))"
  "partial (index_backups loads (Some d))
     = map entry_name (filter (\<lambda>e. classify loads e = Partial) (sort_key entry_name d))"
  "foreign (index_backups loads (Some d))
     = map entry_name (filter (\<lambda>e. classify loads e = Foreign) (sort_key entry_name d))"
  by (simp_all add: index_backups_def Let_def index_loop_lists empty_index_def complete_sets_def)

lemma classify_complete:
  "classify loads e = Complete b \<Longrightarrow> set_path b = entry_name e \<and> looks_complete loads e
     \<and> read_manifest loads e = Some (created_at b)"
  by (auto simp: classify_def looks_complete_def split: if_splits option.splits)

lemma looks_complete_classify:
  assumes "looks_complete loads e" shows "\<exists>b. classify loads e = Complete b"
proof -
  have "take (length STAGING_PREFIX) (entry_name e) \<noteq> STAGING_PREFIX"
  proof
    assume pre: "take (length STAGING_PREFIX) (entry_name e) = STAGING_PREFIX"
    let ?cs = "code_points (entry_name e)"
    have "take 7 ?cs = map ord ''backup-'' \<or> take 7 (butlast ?cs) = map ord ''backup-''"
      using assms by (auto simp: looks_complete_def set_name_match_def Let_def split: if_splits)
    then have "hd ?cs = ord CHR ''b''"
      by (cases ?cs; cases "tl ?cs") (auto simp: take_Suc_conv_app_nth numeral_eq_Suc)
    moreover obtain t where "entry_name e = CHR ''.'' # t"
      using pre by (cases "entry_name e") (auto simp: STAGING_PREFIX_def)
    then have "hd ?cs = 46" by (simp add: Let_def ord_def)
    moreover have "ord CHR ''b'' \<noteq> 46" by (simp add: ord_def)
    ultimately show False by simp
  qed
  then show ?thesis using assms by (auto simp: classify_def looks_complete_def)
qed

lemma dir_wf_filter: "dir_wf d \<Longrightarrow> dir_wf (filter P d)"
  by (simp add: dir_wf_def distinct_map_filter)

lemma dir_wf_hd:
  assumes "dir_wf d" and "filter (\<lambda>e. entry_name e = p) d = e # es" and "x \<in> set d" and "entry_name x = p"
  shows "x = e"
proof -
  have "e \<in> set (filter (\<lambda>e. entry_name e = p) d)" using assms(2) by simp
  then have "e \<in> set d" "entry_name e = p" by auto
  then show ?thesis using assms(1,3,4) by (auto simp: dir_wf_def distinct_map inj_on_def)
qed

lemma apply_loop_dir:
  "dir_wf d \<Longrightarrow>
   snd (apply_loop loads ps d deleted) = filter (\<lambda>e. \<not> (entry_name e \<in> set ps \<and> looks_complete loads e)) d"
proof (induction ps arbitrary: d deleted)
  case (Cons p ps)
  show ?case
  proof (cases "filter (\<lambda>e. entry_name e = p) d")
    case Nil
    then have "entry_name e \<noteq> p" if "e \<in> set d" for e using that by (auto simp: filter_empty_conv)
    then show ?thesis using Nil Cons by (auto intro!: filter_cong)
  next
    case first: (Cons e es)
    have only: "x = e" if "x \<in> set d" "entry_name x = p" for x
      using dir_wf_hd [OF Cons.prems first that] .
    show ?thesis
    proof (cases "looks_complete loads e")
      case True
      then show ?thesis
        using first Cons.IH [OF dir_wf_filter [OF Cons.prems]] only by (auto intro!: filter_cong)
    next
      case False
      then show ?thesis using first Cons only by (auto intro!: filter_cong)
    qed
  qed
qed simp

text \<open>One run of the retention on one directory.\<close>

definition retention_run :: "(string \<Rightarrow> json option) \<Rightarrow> int \<Rightarrow> dir_entry list \<Rightarrow> dir_entry list" where
  "retention_run loads keep d =
     snd (apply_retention loads (plan_retention (index_backups loads (Some d)) keep) d)"

lemma retention_run_filter:
  assumes "dir_wf d"
  shows "retention_run loads keep d
     = filter (\<lambda>e. entry_name e \<notin> set (map set_path (drop (nat (max 1 keep)) (complete (index_backups loads (Some d))))) ) d"
proof -
  let ?doomed = "drop (nat (max 1 keep)) (complete (index_backups loads (Some d)))"
  have "looks_complete loads e" if "e \<in> set d" "entry_name e \<in> set (map set_path ?doomed)" for e
  proof -
    note e = that
    obtain b where b: "b \<in> set ?doomed" "set_path b = entry_name e" using e(2) by auto
    then have "b \<in> set (complete_sets loads (sort_key entry_name d))"
      using set_drop_subset by (fastforce simp: index_backups_some)
    then obtain e' where "e' \<in> set d" "classify loads e' = Complete b"
      by (auto simp: in_complete_sets)
    then have "e' = e" "looks_complete loads e'"
      using classify_complete b(2) e(1) assms by (auto simp: dir_wf_def distinct_map inj_on_def)
    then show ?thesis by simp
  qed
  then show ?thesis
    using apply_loop_dir [OF assms, of loads "map set_path ?doomed" "[]"]
    by (auto simp: retention_run_def apply_retention_def plan_retention_def Let_def intro!: filter_cong)
qed

lemma complete_sets_filter:
  "complete_sets loads (filter P es) = filter (\<lambda>b. \<exists>e \<in> set es. classify loads e = Complete b \<and> P e) (complete_sets loads es)"
  if "dir_wf es"
  using that
proof (induction es)
  case (Cons e es)
  have IH: "complete_sets loads (filter P es) = filter (\<lambda>b. \<exists>e \<in> set es. classify loads e = Complete b \<and> P e) (complete_sets loads es)"
    using Cons by (auto simp: dir_wf_def)
  have other: "classify loads e \<noteq> Complete b" if "b \<in> set (complete_sets loads es)" for b
  proof
    assume e: "classify loads e = Complete b"
    have "\<exists>e' \<in> set es. classify loads e' = Complete b" using that by (simp add: in_complete_sets)
    then obtain e' where "e' \<in> set es" "classify loads e' = Complete b" by blast
    then have "entry_name e' = entry_name e" using e classify_complete by metis
    then have "entry_name e \<in> entry_name ` set es" using \<open>e' \<in> set es\<close> by (metis imageI)
    then show False using Cons.prems by (simp add: dir_wf_def)
  qed
  have rest: "filter (\<lambda>b. \<exists>x \<in> set (e # es). classify loads x = Complete b \<and> P x) (complete_sets loads es)
      = filter (\<lambda>b. \<exists>e \<in> set es. classify loads e = Complete b \<and> P e) (complete_sets loads es)"
    using other by (auto intro!: filter_cong)
  show ?case
  proof (cases "classify loads e")
    case (Complete b)
    have "(\<exists>x \<in> set (e # es). classify loads x = Complete b \<and> P x) \<longleftrightarrow> P e"
    proof -
      have "classify loads x \<noteq> Complete b" if "x \<in> set es" for x
      proof
        assume "classify loads x = Complete b"
        then have "entry_name x = entry_name e" using Complete classify_complete by metis
        then have "entry_name e \<in> entry_name ` set es" using that by (metis imageI)
        then show False using Cons.prems by (simp add: dir_wf_def)
      qed
      then show ?thesis using Complete by auto
    qed
    then show ?thesis using IH rest Complete by (auto simp: complete_sets_def)
  qed (use IH rest in \<open>auto simp: complete_sets_def\<close>)
qed (simp add: complete_sets_def)

lemma sort_desc_unique:
  assumes "mset xs = mset ys" and "inj_on k (set ys)" and "sorted_wrt (\<lambda>x y. k y \<le> k x) ys"
  shows "sort_desc k xs = ys"
proof -
  have "sort_key k (rev xs) = rev ys"
  proof (rule sort_key_inj_key_eq)
    show "mset (rev xs) = mset (rev ys)" using assms(1) by simp
    show "inj_on k (set (rev xs))" using assms(1,2) by (metis set_mset_mset set_rev)
    show "sorted (map k (rev ys))" using assms(3) by (simp add: sorted_map sorted_wrt_rev)
  qed
  then show ?thesis by (simp add: sort_desc_def)
qed

lemma dir_wf_sort: "dir_wf d \<Longrightarrow> dir_wf (sort_key entry_name d)"
  by (simp add: dir_wf_def distinct_map)

lemma complete_names_inj:
  assumes "dir_wf es" shows "inj_on set_path (set (complete_sets loads es))"
proof (rule inj_onI)
  fix b b' assume "b \<in> set (complete_sets loads es)" "b' \<in> set (complete_sets loads es)" and eq: "set_path b = set_path b'"
  then obtain e e' where e: "e \<in> set es" "classify loads e = Complete b" "e' \<in> set es" "classify loads e' = Complete b'"
    by (auto simp: in_complete_sets)
  then have "entry_name e = entry_name e'" using classify_complete eq by metis
  then have "e = e'" using e assms by (auto simp: dir_wf_def distinct_map inj_on_def)
  then show "b = b'" using e by simp
qed

lemma distinct_complete_sets: "dir_wf es \<Longrightarrow> distinct (complete_sets loads es)"
proof (induction es)
  case (Cons e es)
  have "b \<notin> set (complete_sets loads es)" if "classify loads e = Complete b" for b
  proof
    assume "b \<in> set (complete_sets loads es)"
    then obtain e' where "e' \<in> set es" "classify loads e' = Complete b" by (auto simp: in_complete_sets)
    then have "entry_name e \<in> entry_name ` set es" using that classify_complete by (metis imageI)
    then show False using Cons.prems by (simp add: dir_wf_def)
  qed
  then show ?case using Cons by (auto simp: dir_wf_def complete_sets_def split: entry_class.splits)
qed (simp add: complete_sets_def)

section \<open>Properties\<close>

text \<open>
  C17: The plan is carried out and nothing else: after a run, the index of the directory has exactly the
  newest \<open>max 1 keep\<close> of the complete sets it had, in the same order, and the same partial and
  foreign entries; so the newest complete set always survives and a second run removes nothing.
\<close>

theorem retention_keeps_newest:
  assumes "dir_wf d"
  shows "index_backups loads (Some (retention_run loads keep d))
     = (index_backups loads (Some d))
         \<lparr>complete := take (nat (max 1 keep)) (complete (index_backups loads (Some d)))\<rparr>"
proof -
  let ?k = "nat (max 1 keep)" and ?ix = "index_backups loads (Some d)" and ?d = "sort_key entry_name d"
  let ?P = "\<lambda>e. entry_name e \<notin> set (map set_path (drop ?k (complete ?ix)))"
  note run = retention_run_filter [OF assms, of loads keep]
  have wf: "dir_wf ?d" by (rule dir_wf_sort [OF assms])
  have comp: "complete ?ix = sort_desc set_rank (complete_sets loads ?d)" by (rule index_backups_some)
  have inj: "inj_on set_path (set (complete ?ix))" using complete_names_inj [OF wf] by (simp add: comp)
  have dist: "distinct (complete ?ix)" using distinct_complete_sets [OF wf] by (simp add: comp)
  have split: "set (complete ?ix) = set (take ?k (complete ?ix)) \<union> set (drop ?k (complete ?ix))"
    by (metis append_take_drop_id set_append)
  have disj: "set (take ?k (complete ?ix)) \<inter> set (drop ?k (complete ?ix)) = {}"
    using dist by (metis append_take_drop_id distinct_append)
  have sorted_d: "sort_key entry_name (filter ?P d) = filter ?P ?d"
    by (simp add: filter_sort)
  then have sorted_run: "sort_key entry_name (retention_run loads keep d) = filter ?P ?d" by (simp only: run)
  have kept: "(\<exists>e \<in> set ?d. classify loads e = Complete b \<and> ?P e) \<longleftrightarrow> b \<in> set (take ?k (complete ?ix))"
    if b: "b \<in> set (complete_sets loads ?d)" for b
  proof -
    obtain e where e: "e \<in> set ?d" "classify loads e = Complete b" using b by (auto simp: in_complete_sets)
    have bin: "b \<in> set (complete ?ix)" using b by (simp add: comp)
    have "(\<exists>e \<in> set ?d. classify loads e = Complete b \<and> ?P e) \<longleftrightarrow> set_path b \<notin> set_path ` set (drop ?k (complete ?ix))"
      using e classify_complete by (metis list.set_map)
    also have "\<dots> \<longleftrightarrow> b \<notin> set (drop ?k (complete ?ix))"
      using inj bin split by (auto simp: inj_on_def)
    also have "\<dots> \<longleftrightarrow> b \<in> set (take ?k (complete ?ix))" using bin split disj by blast
    finally show ?thesis .
  qed
  have "complete_sets loads (filter ?P ?d)
      = filter (\<lambda>b. b \<in> set (take ?k (complete ?ix))) (complete_sets loads ?d)"
    unfolding complete_sets_filter [OF wf] by (rule filter_cong [OF refl]) (rule kept)
  then have "mset (complete_sets loads (filter ?P ?d))
      = mset (filter (\<lambda>b. b \<in> set (take ?k (complete ?ix))) (complete ?ix))"
    by (simp add: comp)
  also have "filter (\<lambda>b. b \<in> set (take ?k (complete ?ix))) (complete ?ix) = take ?k (complete ?ix)"
    by (rule filter_in_take [OF dist])
  finally have ms: "mset (complete_sets loads (filter ?P ?d)) = mset (take ?k (complete ?ix))" .
  have "sort_desc set_rank (complete_sets loads (filter ?P ?d)) = take ?k (complete ?ix)"
  proof (rule sort_desc_unique [OF ms])
    show "inj_on set_rank (set (take ?k (complete ?ix)))"
      using inj split by (auto simp: inj_on_def set_rank_def)
    show "sorted_wrt (\<lambda>x y. set_rank y \<le> set_rank x) (take ?k (complete ?ix))"
      unfolding comp by (rule sorted_wrt_take [OF sort_desc_sorted])
  qed
  then have c: "complete (index_backups loads (Some (retention_run loads keep d))) = take ?k (complete ?ix)"
    using index_backups_some(1) [of loads "retention_run loads keep d"] unfolding sorted_run by (rule trans [rotated])
  have stay: "?P e" if "e \<in> set d" "classify loads e = Partial \<or> classify loads e = Foreign" for e
  proof
    assume "entry_name e \<in> set (map set_path (drop ?k (complete ?ix)))"
    then obtain b where b: "b \<in> set (drop ?k (complete ?ix))" "set_path b = entry_name e" by auto
    then have "b \<in> set (complete_sets loads ?d)" using in_set_dropD comp by (metis set_sort_desc)
    then obtain e' where e': "e' \<in> set d" "classify loads e' = Complete b" by (auto simp: in_complete_sets)
    then have "entry_name e' = entry_name e" using classify_complete b(2) by metis
    then have "e' = e" using e'(1) that(1) assms by (metis dir_wf_def distinct_map inj_onD)
    then show False using e'(2) that(2) by simp
  qed
  have rest: "filter (\<lambda>e. classify loads e = cl) (filter ?P ?d) = filter (\<lambda>e. classify loads e = cl) ?d"
    if "cl = Partial \<or> cl = Foreign" for cl
    unfolding filter_filter
  proof (rule filter_cong [OF refl])
    fix e assume "e \<in> set ?d"
    then show "(?P e \<and> classify loads e = cl) = (classify loads e = cl)"
      using stay [of e] that by (metis set_sort)
  qed
  have "partial (index_backups loads (Some (retention_run loads keep d))) = partial ?ix"
    "foreign (index_backups loads (Some (retention_run loads keep d))) = foreign ?ix"
    using index_backups_some(2,3) [of loads "retention_run loads keep d"] index_backups_some(2,3) [of loads d] rest
    unfolding sorted_run by auto
  then show ?thesis using c by (intro backup_index.equality) simp_all
qed

text \<open>A directory with three complete sets, a leftover staging directory and a file.\<close>

definition sample_loads :: "string \<Rightarrow> json option" where
  "sample_loads raw = Some (JObj [(''format'', JInt 1), (''complete'', JBool True), (''created_at'', JStr raw)])"

definition sample_dir :: "dir_entry list" where
  "sample_dir =
     map (\<lambda>(n, dir, m). \<lparr>entry_name = n, is_symlink = False, is_dir = dir, manifest_text = m, tree_bytes = 1\<rparr>)
       [(''backup-20260918T040000Z-a1b2c3'', True, Some ''3''),
        (''backup-20260916T040000Z-a1b2c3'', True, Some ''1''),
        (''notes.txt'', False, None), (''.incomplete-20260918'', True, None),
        (''backup-20260917T040000Z-a1b2c3'', True, Some ''2'')]"

theorem retention_keeps_newest_witness:
  "map created_at (complete (index_backups sample_loads (Some (retention_run sample_loads 0 sample_dir)))) = [''3'']
   \<and> partial (index_backups sample_loads (Some (retention_run sample_loads 0 sample_dir))) = [''.incomplete-20260918'']"
proof -
  have wf: "dir_wf sample_dir" by (simp add: dir_wf_def sample_dir_def)
  have "map created_at (complete (index_backups sample_loads (Some sample_dir))) = [''3'', ''2'', ''1'']"
    "partial (index_backups sample_loads (Some sample_dir)) = [''.incomplete-20260918'']"
    by code_simp+
  then show ?thesis
    using retention_keeps_newest [OF wf, of sample_loads 0] by (simp flip: take_map)
qed

text \<open>
  Nothing but a superseded finished set is ever removed, even when the directory changed between the
  plan and its execution: an entry that is gone is a real directory with a set's name and a manifest
  that proves it finished, the plan named it, and every other entry is left as it was.
\<close>

theorem retention_deletes_only_proven:
  assumes "dir_wf d"
  shows "snd (apply_retention loads (plan_retention ix keep) d)
     = filter (\<lambda>e. \<not> (entry_name e \<in> set_path ` set (drop (nat (max 1 keep)) (complete ix))
                  \<and> \<not> is_symlink e \<and> is_dir e \<and> set_name_match (entry_name e)
                  \<and> read_manifest loads e \<noteq> None)) d"
  using apply_loop_dir [OF assms]
  by (simp add: apply_retention_def plan_retention_def looks_complete_def Let_def)

theorem retention_deletes_only_proven_witness:
  "map entry_name (snd (apply_retention sample_loads
       (plan_retention (index_backups sample_loads (Some sample_dir)) 1)
       (map (\<lambda>e. if entry_name e = ''backup-20260917T040000Z-a1b2c3'' then e\<lparr>is_symlink := True\<rparr> else e) sample_dir)))
   = [''backup-20260918T040000Z-a1b2c3'', ''notes.txt'', ''.incomplete-20260918'', ''backup-20260917T040000Z-a1b2c3'']"
proof -
  let ?d = "map (\<lambda>e. if entry_name e = ''backup-20260917T040000Z-a1b2c3'' then e\<lparr>is_symlink := True\<rparr> else e) sample_dir"
  have "dir_wf ?d" by (simp add: dir_wf_def sample_dir_def)
  note r = retention_deletes_only_proven [OF this, of sample_loads "index_backups sample_loads (Some sample_dir)" 1]
  show ?thesis unfolding r by code_simp
qed

end
