(* ===== verification/Enrich_Queue.thy ===== *)
theory Enrich_Queue
  imports Unicode_Text
begin

text \<open>
  The enrichment queue (\<open>src/imsg/enrich/queue.py\<close>), the routing table that fills it
  (\<open>router.py\<close>) and the planner (\<open>planner.py\<close>). The table is the list of its rows, keyed by
  attachment and kind; each operation is one transaction, and its \<open>now\<close> is that
  transaction's \<open>now()\<close>, in microseconds. Rows that another transaction has locked, which
  \<open>SKIP LOCKED\<close> passes over, are an argument of the claim.
\<close>

section \<open>Routing\<close>

definition PDF_MIME :: string where "PDF_MIME = ''application/pdf''"

definition ENRICHMENT_KINDS :: "string list" where
  "ENRICHMENT_KINDS = [''doc_text'', ''pdf_text'', ''ocr'', ''transcript'', ''frame_ocr'', ''caption'']"

definition DEFAULT_CLAIM_ORDER :: "string list" where "DEFAULT_CLAIM_ORDER = ENRICHMENT_KINDS"

definition DOCUMENT_FORMATS :: "(string \<times> string) list" where
  "DOCUMENT_FORMATS =
     [(''text/vcard'', ''vcard''), (''text/x-vcard'', ''vcard''), (''text/directory'', ''vcard''),
      (''text/x-vlocation'', ''vcard''), (''text/html'', ''html''),
      (''application/xhtml+xml'', ''html''), (''image/svg+xml'', ''html''), (''text/rtf'', ''rtf''),
      (''application/rtf'', ''rtf''), (''application/msword'', ''doc''),
      (''application/vnd.openxmlformats-officedocument.wordprocessingml.document'', ''docx''),
      (''application/vnd.oasis.opendocument.text'', ''odt''),
      (''application/vnd.openxmlformats-officedocument.spreadsheetml.sheet'', ''xlsx''),
      (''application/vnd.openxmlformats-officedocument.presentationml.presentation'', ''pptx''),
      (''application/json'', ''plain''), (''application/xml'', ''plain'')]"

definition NOT_RASTER_IMAGES :: "string list" where
  "NOT_RASTER_IMAGES = [''image/vnd.dwg'', ''image/vnd.dxf'']"

definition starts_with :: "string \<Rightarrow> string \<Rightarrow> bool" where
  "starts_with pre s \<longleftrightarrow> take (length pre) s = pre"

definition document_format_for_mime :: "string \<Rightarrow> string option" where
  "document_format_for_mime mime =
     (case map_of DOCUMENT_FORMATS mime of
        Some fmt \<Rightarrow> Some fmt
      | None \<Rightarrow> if starts_with ''text/'' mime then Some ''plain'' else None)"

definition route_for_mime :: "string \<Rightarrow> string list" where
  "route_for_mime mime =
     (if mime = PDF_MIME then [''pdf_text'']
      else if document_format_for_mime mime \<noteq> None then [''doc_text'']
      else if starts_with ''image/'' mime \<and> mime \<notin> set NOT_RASTER_IMAGES then [''ocr'', ''caption'']
      else if starts_with ''audio/'' mime then [''transcript'']
      else if starts_with ''video/'' mime then [''frame_ocr'', ''caption'', ''transcript'']
      else [])"

datatype enrich_error = UntrustedAttachmentError | ConfigError

definition kinds_for_mime :: "string \<Rightarrow> enrich_error + string list" where
  "kinds_for_mime mime =
     (let kinds = route_for_mime mime in if kinds = [] then Inl UntrustedAttachmentError else Inr kinds)"

text \<open>\<open>value.split(',')\<close>.\<close>

fun split_comma :: "string \<Rightarrow> string \<Rightarrow> string list" where
  "split_comma part [] = [rev part]"
| "split_comma part (ch # s) =
     (if ch = CHR '','' then rev part # split_comma [] s else split_comma (ch # part) s)"

text \<open>\<open>dict.fromkeys\<close> keeps the first of each.\<close>

definition first_occurrences :: "'a list \<Rightarrow> 'a list" where
  "first_occurrences xs = rev (remdups (rev xs))"

definition parse_kinds :: "string \<Rightarrow> enrich_error + string list" where
  "parse_kinds value =
     (let items = filter (\<lambda>p. p \<noteq> []) (map py_strip (split_comma [] value))
      in if items = [] then Inl ConfigError
         else if list_ex (\<lambda>k. k \<notin> set ENRICHMENT_KINDS) items then Inl ConfigError
         else Inr (first_occurrences items))"

lemma route_kinds: "set (route_for_mime mime) \<subseteq> set ENRICHMENT_KINDS"
  by (auto simp: route_for_mime_def ENRICHMENT_KINDS_def)

lemma parse_kinds_valid:
  "parse_kinds v = Inr ks \<Longrightarrow> ks \<noteq> [] \<and> distinct ks \<and> set ks \<subseteq> set ENRICHMENT_KINDS"
  by (auto simp: parse_kinds_def first_occurrences_def Let_def list_ex_iff split: if_splits)

section \<open>The queue\<close>

datatype task_state = Pending | Running | Done | Failed | Skipped

record task_row =
  attachment :: int
  kind :: string
  state :: task_state
  attempts :: nat
  next_attempt_at :: instant
  locked_at :: "instant option"
  locked_by :: "string option"
  last_error :: "string option"
  result_text :: "string option"

type_synonym queue = "task_row list"

definition task_key :: "task_row \<Rightarrow> int \<times> string" where "task_key r = (attachment r, kind r)"

definition queue_wf :: "queue \<Rightarrow> bool" where "queue_wf q \<longleftrightarrow> distinct (map task_key q)"

record enrichment_task =
  task_attachment :: int
  task_kind :: string
  task_attempts :: nat

definition DEFAULT_LEASE_SECONDS :: int where "DEFAULT_LEASE_SECONDS = 1800"
definition BACKOFF_BASE_SECONDS :: int where "BACKOFF_BASE_SECONDS = 60"
definition ENQUEUE_BATCH :: nat where "ENQUEUE_BATCH = 5000"
definition SECOND :: int where "SECOND = 1000000"

text \<open>A row as \<open>INSERT\<close> makes it, from the column defaults.\<close>

definition new_row :: "instant \<Rightarrow> int \<Rightarrow> string \<Rightarrow> task_row" where
  "new_row now a k =
     \<lparr>attachment = a, kind = k, state = Pending, attempts = 0, next_attempt_at = now,
      locked_at = None, locked_by = None, last_error = None, result_text = None\<rparr>"

text \<open>One row of \<open>INSERT ... ON CONFLICT DO NOTHING\<close>: the table, and the rows returned.\<close>

fun insert_rows :: "instant \<Rightarrow> (int \<times> string) list \<Rightarrow> queue \<Rightarrow> queue \<times> string list" where
  "insert_rows now [] q = (q, [])"
| "insert_rows now ((a, k) # pairs) q =
     (if (a, k) \<in> task_key ` set q then insert_rows now pairs q
      else (let (q', ks) = insert_rows now pairs (q @ [new_row now a k]) in (q', k # ks)))"

definition enqueue :: "instant \<Rightarrow> int \<Rightarrow> string list \<Rightarrow> queue \<Rightarrow> queue" where
  "enqueue now a kinds q = (if kinds = [] then q else fst (insert_rows now (map (\<lambda>k. (a, k)) kinds) q))"

text \<open>The batches of \<open>enqueue_pairs_by_kind\<close>, and its counts per kind.\<close>

function insert_batches :: "instant \<Rightarrow> (int \<times> string) list \<Rightarrow> queue \<Rightarrow> queue \<times> string list" where
  "insert_batches now rows q =
     (if rows = [] then (q, [])
      else (let (q1, ks) = insert_rows now (take ENQUEUE_BATCH rows) q;
                (q2, ks') = insert_batches now (drop ENQUEUE_BATCH rows) q1
            in (q2, ks @ ks')))"
  by pat_completeness auto
termination by (relation "measure (\<lambda>(now, rows, q). length rows)") (auto simp: ENQUEUE_BATCH_def)

declare insert_batches.simps [simp del]

definition count_kinds :: "string list \<Rightarrow> (string \<times> nat) list" where
  "count_kinds ks = map (\<lambda>k. (k, count_list ks k)) (first_occurrences ks)"

definition enqueue_pairs_by_kind ::
  "instant \<Rightarrow> (int \<times> string) list \<Rightarrow> queue \<Rightarrow> (string \<times> nat) list \<times> queue" where
  "enqueue_pairs_by_kind now rows q = (let (q', ks) = insert_batches now rows q in (count_kinds ks, q'))"

definition enqueue_pairs :: "instant \<Rightarrow> (int \<times> string) list \<Rightarrow> queue \<Rightarrow> nat \<times> queue" where
  "enqueue_pairs now rows q =
     (let (counts, q') = enqueue_pairs_by_kind now rows q in (sum_list (map snd counts), q'))"

text \<open>The condition of the claim's and the preview's \<open>WHERE\<close> (a null \<open>locked_at\<close> is not expired).\<close>

definition lease_expired :: "instant \<Rightarrow> int \<Rightarrow> task_row \<Rightarrow> bool" where
  "lease_expired now lease r =
     (case locked_at r of None \<Rightarrow> False | Some t \<Rightarrow> t < now - lease * SECOND)"

definition claimable :: "instant \<Rightarrow> int \<Rightarrow> task_row \<Rightarrow> bool" where
  "claimable now lease r \<longleftrightarrow>
     (state r = Pending \<or> state r = Running) \<and> next_attempt_at r \<le> now
     \<and> (state r = Pending \<or> lease_expired now lease r)"

definition claim_row :: "instant \<Rightarrow> string \<Rightarrow> task_row \<Rightarrow> task_row" where
  "claim_row now worker r = r\<lparr>state := Running, locked_at := Some now, locked_by := Some worker\<rparr>"

definition update_key :: "int \<times> string \<Rightarrow> (task_row \<Rightarrow> task_row) \<Rightarrow> queue \<Rightarrow> queue" where
  "update_key key f q = map (\<lambda>r. if task_key r = key then f r else r) q"

definition candidates ::
  "instant \<Rightarrow> int \<Rightarrow> (int \<times> string) set \<Rightarrow> nat \<Rightarrow> string \<Rightarrow> queue \<Rightarrow> task_row list" where
  "candidates now lease busy limit k q =
     take limit (sort_desc attachment
       (filter (\<lambda>r. kind r = k \<and> claimable now lease r \<and> task_key r \<notin> busy) q))"

definition task_of :: "task_row \<Rightarrow> enrichment_task" where
  "task_of r = \<lparr>task_attachment = attachment r, task_kind = kind r, task_attempts = attempts r\<rparr>"

definition claim_one_kind ::
  "instant \<Rightarrow> string \<Rightarrow> nat \<Rightarrow> int \<Rightarrow> (int \<times> string) set \<Rightarrow> string \<Rightarrow> queue \<Rightarrow> enrichment_task list \<times> queue" where
  "claim_one_kind now worker limit lease busy k q =
     (let picked = candidates now lease busy limit k q
      in (map task_of (sort_key (\<lambda>r. - attachment r) picked),
          map (\<lambda>r. if task_key r \<in> task_key ` set picked then claim_row now worker r else r) q))"

fun claim_loop ::
  "instant \<Rightarrow> string \<Rightarrow> int \<Rightarrow> int \<Rightarrow> (int \<times> string) set \<Rightarrow> string list \<Rightarrow> enrichment_task list \<Rightarrow> queue
    \<Rightarrow> enrichment_task list \<times> queue" where
  "claim_loop now worker limit lease busy [] claimed q = (claimed, q)"
| "claim_loop now worker limit lease busy (k # order) claimed q =
     (let remaining = limit - int (length claimed)
      in if remaining \<le> 0 then (claimed, q)
         else (let (ts, q') = claim_one_kind now worker (nat remaining) lease busy k q
               in claim_loop now worker limit lease busy order (claimed @ ts) q'))"

definition claim_tasks ::
  "instant \<Rightarrow> string \<Rightarrow> int \<Rightarrow> int \<Rightarrow> (int \<times> string) set \<Rightarrow> string list option \<Rightarrow> queue
    \<Rightarrow> enrichment_task list \<times> queue" where
  "claim_tasks now worker limit lease busy kinds q =
     claim_loop now worker limit lease busy (case kinds of None \<Rightarrow> DEFAULT_CLAIM_ORDER | Some ks \<Rightarrow> ks) [] q"

text \<open>The counts per kind in claim order, and their total.\<close>

definition preview_claimable_tasks ::
  "instant \<Rightarrow> int \<Rightarrow> string list option \<Rightarrow> queue \<Rightarrow> nat \<times> (string \<times> nat) list" where
  "preview_claimable_tasks now lease kinds q =
     (let order = (case kinds of None \<Rightarrow> DEFAULT_CLAIM_ORDER | Some ks \<Rightarrow> ks);
          n = (\<lambda>k. length (filter (\<lambda>r. kind r = k \<and> claimable now lease r) q));
          by_kind = map (\<lambda>k. (k, n k)) (filter (\<lambda>k. n k > 0) (first_occurrences order))
      in (sum_list (map snd by_kind), by_kind))"

section \<open>Outcomes\<close>

definition unlocked :: "task_row \<Rightarrow> task_row" where
  "unlocked r = r\<lparr>locked_at := None, locked_by := None\<rparr>"

definition complete_task :: "int \<Rightarrow> string \<Rightarrow> string option \<Rightarrow> queue \<Rightarrow> queue" where
  "complete_task a k text q =
     update_key (a, k) (\<lambda>r. unlocked (r\<lparr>state := Done, result_text := text, last_error := None\<rparr>)) q"

definition attempts_of :: "int \<Rightarrow> string \<Rightarrow> queue \<Rightarrow> nat" where
  "attempts_of a k q = (case filter (\<lambda>r. task_key r = (a, k)) q of [] \<Rightarrow> 0 | r # _ \<Rightarrow> attempts r)"

definition backoff :: "nat \<Rightarrow> int" where
  "backoff n = BACKOFF_BASE_SECONDS * 2 ^ (n - 1) * SECOND"

text \<open>\<open>error[:2000]\<close>, counted in characters.\<close>

definition stored_error :: "string \<Rightarrow> string" where
  "stored_error e = utf8 (take 2000 (code_points e))"

definition fail_task :: "instant \<Rightarrow> int \<Rightarrow> string \<Rightarrow> string \<Rightarrow> int \<Rightarrow> queue \<Rightarrow> bool \<times> queue" where
  "fail_task now a k error max_attempts q =
     (let n = attempts_of a k q + 1;
          permanent = (int n \<ge> max_attempts);
          err = Some (stored_error error)
      in (permanent,
          if permanent
          then update_key (a, k) (\<lambda>r. unlocked (r\<lparr>state := Failed, attempts := n, last_error := err\<rparr>)) q
          else update_key (a, k)
                 (\<lambda>r. unlocked (r\<lparr>state := Pending, attempts := n, next_attempt_at := now + backoff n,
                                 last_error := err\<rparr>)) q))"

definition fail_task_permanently :: "int \<Rightarrow> string \<Rightarrow> string \<Rightarrow> queue \<Rightarrow> queue" where
  "fail_task_permanently a k error q =
     update_key (a, k)
       (\<lambda>r. unlocked (r\<lparr>state := Failed, attempts := attempts_of a k q + 1, last_error := Some (stored_error error)\<rparr>)) q"

definition skip_task :: "int \<Rightarrow> string \<Rightarrow> string \<Rightarrow> queue \<Rightarrow> queue" where
  "skip_task a k reason q =
     update_key (a, k) (\<lambda>r. unlocked (r\<lparr>state := Skipped, last_error := Some (stored_error reason)\<rparr>)) q"

definition held_by :: "string \<Rightarrow> task_row \<Rightarrow> bool" where
  "held_by worker r \<longleftrightarrow> state r = Running \<and> locked_by r = Some worker"

definition release_task :: "int \<Rightarrow> string \<Rightarrow> string \<Rightarrow> queue \<Rightarrow> bool \<times> queue" where
  "release_task a k worker q =
     (length (filter (\<lambda>r. task_key r = (a, k) \<and> held_by worker r) q) = 1,
      map (\<lambda>r. if task_key r = (a, k) \<and> held_by worker r then unlocked (r\<lparr>state := Pending\<rparr>) else r) q)"

definition reset_failed_tasks :: "instant \<Rightarrow> string list option \<Rightarrow> queue \<Rightarrow> nat \<times> queue" where
  "reset_failed_tasks now kinds q =
     (let order = (case kinds of None \<Rightarrow> DEFAULT_CLAIM_ORDER | Some ks \<Rightarrow> ks);
          hit = (\<lambda>r. state r = Failed \<and> kind r \<in> set order)
      in (length (filter hit q),
          map (\<lambda>r. if hit r then r\<lparr>state := Pending, attempts := 0, next_attempt_at := now, last_error := None\<rparr>
                   else r) q))"

section \<open>What a claim takes\<close>

lemma first_occurrences_set [simp]: "set (first_occurrences xs) = set xs"
  by (simp add: first_occurrences_def)

lemma first_occurrences_distinct [simp]: "distinct (first_occurrences xs)"
  by (simp add: first_occurrences_def)

lemma first_occurrences_id: "distinct xs \<Longrightarrow> first_occurrences xs = xs"
  by (simp add: first_occurrences_def distinct_remdups_id)

lemma sort_key_desc: "distinct (map f xs) \<Longrightarrow> sort_key (\<lambda>x. - (f x)) (sort_desc f xs) = sort_desc f xs"
  for f :: "'a \<Rightarrow> int"
proof -
  have "sorted (map (\<lambda>x. - f x) (sort_desc f xs))"
    using sort_desc_sorted [of f xs] by (simp add: sorted_map)
  then show ?thesis by (rule sort_key_id_if_sorted)
qed

lemma sort_key_id_sorted: "sorted (map f xs) \<Longrightarrow> sort_key f xs = xs"
  by (rule sort_key_id_if_sorted)

definition ready :: "instant \<Rightarrow> int \<Rightarrow> (int \<times> string) set \<Rightarrow> string \<Rightarrow> queue \<Rightarrow> task_row list" where
  "ready now lease busy k q =
     sort_desc attachment (filter (\<lambda>r. kind r = k \<and> claimable now lease r \<and> task_key r \<notin> busy) q)"

lemma candidates_ready: "candidates now lease busy n k q = take n (ready now lease busy k q)"
  by (simp add: candidates_def ready_def)

lemma ready_sorted: "sorted (map (\<lambda>r. - attachment r) (ready now lease busy k q))"
  using sort_desc_sorted [of attachment] by (simp add: ready_def sorted_map)

lemma claim_one_tasks:
  "fst (claim_one_kind now w n lease busy k q) = map task_of (take n (ready now lease busy k q))"
proof -
  have "sorted (map (\<lambda>r. - attachment r) (take n (ready now lease busy k q)))"
    using ready_sorted [of now lease busy k q] by (simp add: take_map [symmetric] sorted_wrt_take)
  then show ?thesis
    by (simp add: claim_one_kind_def candidates_ready Let_def sort_key_id_sorted)
qed

lemma task_key_claim [simp]: "task_key (claim_row now w r) = task_key r" "kind (claim_row now w r) = kind r"
  by (simp_all add: task_key_def claim_row_def)

definition mark :: "instant \<Rightarrow> string \<Rightarrow> (int \<times> string) set \<Rightarrow> queue \<Rightarrow> queue" where
  "mark now w keys q = map (\<lambda>r. if task_key r \<in> keys then claim_row now w r else r) q"

lemma claim_one_queue:
  "snd (claim_one_kind now w n lease busy k q) = mark now w (task_key ` set (take n (ready now lease busy k q))) q"
  by (simp add: claim_one_kind_def candidates_ready Let_def mark_def)

lemma mark_mark: "mark now w A (mark now w B q) = mark now w (A \<union> B) q"
  by (auto simp: mark_def claim_row_def task_key_def)

lemma task_key_mark [simp]: "task_key ` set (mark now w keys q) = task_key ` set q"
proof -
  have "map task_key (mark now w keys q) = map task_key q" by (simp add: mark_def comp_def)
  then show ?thesis by (metis list.set_map)
qed

lemma ready_mark:
  assumes "\<forall>key \<in> keys. snd key \<noteq> k"
  shows "ready now lease busy k (mark now' w keys q) = ready now lease busy k q"
proof -
  have "filter (\<lambda>r. kind r = k \<and> P r) (mark now' w keys q) = filter (\<lambda>r. kind r = k \<and> P r) q" for P
    using assms by (induction q) (auto simp: mark_def task_key_def claim_row_def)
  then show ?thesis by (simp add: ready_def)
qed

lemma ready_kind: "r \<in> set (ready now lease busy k q) \<Longrightarrow> kind r = k"
  by (simp add: ready_def)

text \<open>All claimable rows in claim order.\<close>

definition claim_list :: "instant \<Rightarrow> int \<Rightarrow> (int \<times> string) set \<Rightarrow> string list \<Rightarrow> queue \<Rightarrow> task_row list" where
  "claim_list now lease busy order q = concat (map (\<lambda>k. ready now lease busy k q) order)"

lemma claim_list_mark:
  "\<forall>key \<in> keys. snd key \<notin> set order \<Longrightarrow>
   claim_list now lease busy order (mark now' w keys q) = claim_list now lease busy order q"
  unfolding claim_list_def by (rule arg_cong [where f = concat], rule map_cong) (auto intro: ready_mark)

lemma claim_loop_spec:
  assumes "distinct order"
  shows "claim_loop now w limit lease busy order claimed q =
     (let picked = take (nat (limit - int (length claimed))) (claim_list now lease busy order q)
      in (claimed @ map task_of picked, mark now w (task_key ` set picked) q))"
  using assms
proof (induction order arbitrary: claimed q)
  case Nil
  then show ?case by (auto simp: claim_list_def mark_def intro: map_idI[symmetric])
next
  case (Cons k order)
  let ?n = "nat (limit - int (length claimed))"
  let ?r = "ready now lease busy k q"
  show ?case
  proof (cases "limit - int (length claimed) \<le> 0")
    case True
    then show ?thesis by (simp add: mark_def)
  next
    case False
    let ?p = "take ?n ?r"
    have key: "\<forall>key \<in> task_key ` set ?p. snd key \<notin> set order"
      using Cons.prems ready_kind in_set_takeD by (fastforce simp: task_key_def)
    have n: "nat (limit - int (length (claimed @ map task_of ?p))) = ?n - length ?r"
      using False by simp
    have "claim_loop now w limit lease busy (k # order) claimed q
        = claim_loop now w limit lease busy order (claimed @ map task_of ?p) (mark now w (task_key ` set ?p) q)"
      using False claim_one_tasks [of now w ?n lease busy k q] claim_one_queue [of now w ?n lease busy k q]
      by (cases "claim_one_kind now w ?n lease busy k q") (simp add: Let_def)
    also have "\<dots> = (let picked = take (?n - length ?r) (claim_list now lease busy order q)
      in (claimed @ map task_of ?p @ map task_of picked, mark now w (task_key ` set (?p @ picked)) q))"
      using Cons.prems n by (simp add: Cons.IH claim_list_mark [OF key] Let_def mark_mark image_Un Un_commute)
    finally show ?thesis by (simp add: claim_list_def Let_def)
  qed
qed

definition claim_order :: "string list option \<Rightarrow> string list" where
  "claim_order kinds = (case kinds of None \<Rightarrow> DEFAULT_CLAIM_ORDER | Some ks \<Rightarrow> ks)"

lemma claim_tasks_spec:
  "distinct (claim_order kinds) \<Longrightarrow>
   claim_tasks now w limit lease busy kinds q =
     (let picked = take (nat limit) (claim_list now lease busy (claim_order kinds) q)
      in (map task_of picked, mark now w (task_key ` set picked) q))"
  by (simp add: claim_tasks_def claim_order_def claim_loop_spec Let_def split: option.split)

lemma claim_list_set:
  "set (claim_list now lease busy order q)
     = {r \<in> set q. kind r \<in> set order \<and> claimable now lease r \<and> task_key r \<notin> busy}"
  by (auto simp: claim_list_def ready_def)

lemma length_claim_list:
  "distinct order \<Longrightarrow>
   length (claim_list now lease {} order q)
     = sum_list (map (\<lambda>k. length (filter (\<lambda>r. kind r = k \<and> claimable now lease r) q)) order)"
  by (simp add: claim_list_def ready_def length_concat comp_def)

lemma preview_total:
  assumes "distinct (claim_order kinds)"
  shows "fst (preview_claimable_tasks now lease kinds q) = length (claim_list now lease {} (claim_order kinds) q)"
proof -
  have drop0: "sum_list (map f (filter (\<lambda>k. 0 < f k) xs)) = sum_list (map f xs)" for f :: "string \<Rightarrow> nat" and xs
    by (induction xs) auto
  show ?thesis
    unfolding length_claim_list [OF assms]
    using drop0 [of "\<lambda>k. length (filter (\<lambda>r. kind r = k \<and> claimable now lease r) q)" "claim_order kinds"]
      first_occurrences_id [OF assms]
    by (simp add: preview_claimable_tasks_def claim_order_def Let_def comp_def del: length_greater_0_conv
        split: option.splits)
qed

section \<open>Leases over time\<close>

text \<open>The operations of several workers, each one transaction.\<close>

datatype queue_op =
  Claim instant string int int "(int \<times> string) set" "string list option"
  | Complete int string "string option"
  | Fail instant int string string int
  | FailPermanently int string string
  | Skip int string string
  | Release int string string
  | ResetFailed instant "string list option"
  | Enqueue instant "(int \<times> string) list"

fun queue_step :: "queue \<Rightarrow> queue_op \<Rightarrow> queue" where
  "queue_step q (Claim now w limit lease busy kinds) = snd (claim_tasks now w limit lease busy kinds q)"
| "queue_step q (Complete a k text) = complete_task a k text q"
| "queue_step q (Fail now a k e m) = snd (fail_task now a k e m q)"
| "queue_step q (FailPermanently a k e) = fail_task_permanently a k e q"
| "queue_step q (Skip a k e) = skip_task a k e q"
| "queue_step q (Release a k w) = snd (release_task a k w q)"
| "queue_step q (ResetFailed now kinds) = snd (reset_failed_tasks now kinds q)"
| "queue_step q (Enqueue now pairs) = snd (enqueue_pairs now pairs q)"

text \<open>An operation that may end the lease of one task before its time.\<close>

fun ends_lease :: "int \<times> string \<Rightarrow> queue_op \<Rightarrow> bool" where
  "ends_lease key (Complete a k text) = ((a, k) = key)"
| "ends_lease key (Fail now a k e m) = ((a, k) = key)"
| "ends_lease key (FailPermanently a k e) = ((a, k) = key)"
| "ends_lease key (Skip a k e) = ((a, k) = key)"
| "ends_lease key (Release a k w) = ((a, k) = key)"
| "ends_lease key _ = False"

text \<open>A claim made inside a lease of \<open>lease\<close> seconds that began at \<open>t0\<close>, of distinct kinds.\<close>

fun within_lease :: "instant \<Rightarrow> int \<Rightarrow> queue_op \<Rightarrow> bool" where
  "within_lease t0 lease (Claim now w limit l busy kinds) =
     (l = lease \<and> now \<le> t0 + lease * SECOND \<and> distinct (claim_order kinds))"
| "within_lease t0 lease _ = True"

definition leased :: "int \<times> string \<Rightarrow> instant \<Rightarrow> queue \<Rightarrow> bool" where
  "leased key t0 q \<longleftrightarrow> (\<forall>r \<in> set q. task_key r = key \<longrightarrow> state r = Running \<and> locked_at r = Some t0)"

lemma insert_rows_set:
  "set (fst (insert_rows now pairs q)) = set q \<union> (\<lambda>(a, k). new_row now a k) ` (set pairs - task_key ` set q)"
proof (induction now pairs q rule: insert_rows.induct)
  case (2 now a k pairs q)
  have key: "task_key (new_row now a k) = (a, k)" by (simp add: task_key_def new_row_def)
  show ?case
  proof (cases "(a, k) \<in> task_key ` set q")
    case False
    obtain q' ks where q': "insert_rows now pairs (q @ [new_row now a k]) = (q', ks)" by fastforce
    have keys: "task_key ` set (q @ [new_row now a k]) = insert (a, k) (task_key ` set q)"
      using key by auto
    have "set q' = set q \<union> {new_row now a k} \<union> (\<lambda>(a, k). new_row now a k) ` (set pairs - insert (a, k) (task_key ` set q))"
      using 2(2) [OF False] unfolding q' fst_conv keys by simp
    also have "\<dots> = set q \<union> (\<lambda>(a, k). new_row now a k) ` (set ((a, k) # pairs) - task_key ` set q)"
      using False by auto
    finally show ?thesis using False q' by simp
  qed (use 2(1) in auto)
qed simp

lemma insert_rows_keys: "task_key ` set (fst (insert_rows now pairs q)) = task_key ` set q \<union> set pairs"
  unfolding insert_rows_set image_Un image_image
  by (auto simp: task_key_def new_row_def split_beta)

lemma insert_batches_set:
  "set (fst (insert_batches now rows q)) = set q \<union> (\<lambda>(a, k). new_row now a k) ` (set rows - task_key ` set q)"
proof (induction now rows q rule: insert_batches.induct)
  case (1 now rows q)
  show ?case
  proof (cases "rows = []")
    case False
    obtain q1 ks where q1: "insert_rows now (take ENQUEUE_BATCH rows) q = (q1, ks)" by fastforce
    obtain q2 ks' where q2: "insert_batches now (drop ENQUEUE_BATCH rows) q1 = (q2, ks')" by fastforce
    have s1: "set q1 = set q \<union> (\<lambda>(a, k). new_row now a k) ` (set (take ENQUEUE_BATCH rows) - task_key ` set q)"
      using insert_rows_set [of now "take ENQUEUE_BATCH rows" q] q1 by simp
    have k1: "task_key ` set q1 = task_key ` set q \<union> set (take ENQUEUE_BATCH rows)"
      using insert_rows_keys [of now "take ENQUEUE_BATCH rows" q] q1 by simp
    have rows: "set rows = set (take ENQUEUE_BATCH rows) \<union> set (drop ENQUEUE_BATCH rows)"
      by (metis append_take_drop_id set_append)
    have "set q2 = set q1 \<union> (\<lambda>(a, k). new_row now a k) ` (set (drop ENQUEUE_BATCH rows) - task_key ` set q1)"
      using 1 [OF False q1 [symmetric] refl] q2 by simp
    moreover have "set rows - task_key ` set q = (set (take ENQUEUE_BATCH rows) - task_key ` set q)
        \<union> (set (drop ENQUEUE_BATCH rows) - task_key ` set q1)"
      unfolding k1 using rows by blast
    ultimately have "set q2 = set q \<union> (\<lambda>(a, k). new_row now a k) ` (set rows - task_key ` set q)"
      by (simp only: s1 image_Un Un_assoc)
    then show ?thesis using False q1 q2 by (simp add: insert_batches.simps)
  qed (simp add: insert_batches.simps)
qed

lemma enqueue_pairs_rows:
  "set (snd (enqueue_pairs now pairs q)) = set q \<union> (\<lambda>(a, k). new_row now a k) ` (set pairs - task_key ` set q)"
  using insert_batches_set [of now pairs q]
  by (cases "insert_batches now pairs q") (simp add: enqueue_pairs_def enqueue_pairs_by_kind_def)

lemma leased_update:
  "leased key t0 q \<Longrightarrow> key' \<noteq> key \<Longrightarrow> (\<And>r. task_key (f r) = task_key r) \<Longrightarrow> leased key t0 (update_key key' f q)"
  by (auto simp: leased_def update_key_def)

lemma leased_claim:
  assumes "leased key t0 q" and "now \<le> t0 + lease * SECOND" and "distinct (claim_order kinds)"
  shows "key \<notin> task_key ` set (take (nat limit) (claim_list now lease busy (claim_order kinds) q))"
    and "leased key t0 (snd (claim_tasks now w limit lease busy kinds q))"
proof -
  have not: "\<not> claimable now lease r" if "r \<in> set q" "task_key r = key" for r
    using assms(1,2) that by (auto simp: leased_def claimable_def lease_expired_def)
  show k: "key \<notin> task_key ` set (take (nat limit) (claim_list now lease busy (claim_order kinds) q))"
  proof
    assume "key \<in> task_key ` set (take (nat limit) (claim_list now lease busy (claim_order kinds) q))"
    then obtain r where "r \<in> set (claim_list now lease busy (claim_order kinds) q)" "task_key r = key"
      using in_set_takeD by fastforce
    then show False using not by (auto simp: claim_list_set)
  qed
  show "leased key t0 (snd (claim_tasks now w limit lease busy kinds q))"
    using assms(1) k by (auto simp: claim_tasks_spec [OF assms(3)] Let_def mark_def leased_def)
qed

lemma key_unlocked [simp]: "task_key (unlocked r) = task_key r"
  by (simp add: unlocked_def task_key_def)

lemma leased_step:
  assumes "leased key t0 q" and "\<not> ends_lease key op" and "within_lease t0 lease op"
    and "key \<in> task_key ` set q"
  shows "leased key t0 (queue_step q op) \<and> key \<in> task_key ` set (queue_step q op)"
proof (cases op)
  case (Claim now w limit l busy kinds)
  have "task_key ` set (snd (claim_tasks now w limit lease busy kinds q)) = task_key ` set q"
    using Claim assms(3) by (simp add: claim_tasks_spec Let_def)
  then show ?thesis
    using Claim assms leased_claim(2) [OF assms(1), of now lease kinds w limit busy] by auto
next
  case (Complete a k body)
  then show ?thesis
    using assms by (auto simp: complete_task_def task_key_def update_key_def leased_def unlocked_def image_iff)
next
  case (Fail now a k e m)
  then show ?thesis
    using assms by (auto simp: fail_task_def Let_def task_key_def update_key_def leased_def unlocked_def image_iff)
next
  case (FailPermanently a k e)
  then show ?thesis
    using assms by (auto simp: fail_task_permanently_def task_key_def update_key_def leased_def unlocked_def image_iff)
next
  case (Skip a k e)
  then show ?thesis
    using assms by (auto simp: skip_task_def task_key_def update_key_def leased_def unlocked_def image_iff)
next
  case (Release a k w)
  then show ?thesis
    using assms by (auto simp: release_task_def task_key_def leased_def unlocked_def image_iff)
next
  case (ResetFailed now kinds)
  then show ?thesis
    using assms by (force simp: reset_failed_tasks_def Let_def task_key_def leased_def image_iff)
next
  case (Enqueue now pairs)
  then show ?thesis
    using assms by (auto simp: enqueue_pairs_rows leased_def task_key_def new_row_def image_iff)
qed

lemma leased_run:
  assumes "leased key t0 q" and "key \<in> task_key ` set q"
    and "\<forall>op \<in> set ops. \<not> ends_lease key op \<and> within_lease t0 lease op"
  shows "leased key t0 (foldl queue_step q ops) \<and> key \<in> task_key ` set (foldl queue_step q ops)"
  using assms
proof (induction ops arbitrary: q)
  case (Cons op ops)
  then show ?case using leased_step [OF Cons.prems(1), of op lease] by auto
qed simp

section \<open>Filling the queue\<close>

text \<open>
  What the planner learns of a materialized attachment: its path was refused, \<open>file\<close> could not
  sniff it, or its MIME type. The attachments come in the order of their ids.
\<close>

datatype sniffed = Refused | Sniff_Failed | Mime string

record plan_report =
  attachments :: nat
  refused :: nat
  sniff_failed :: nat
  enqueued :: "(string \<times> nat) list"
  already_queued :: "(string \<times> nat) list"
  not_selected :: "(string \<times> nat) list"
  unroutable :: "(string \<times> nat) list"
  dry_run :: bool

definition queued_kinds :: "int \<Rightarrow> queue \<Rightarrow> string set" where
  "queued_kinds a q = kind ` set (filter (\<lambda>r. attachment r = a) q)"

text \<open>The routed tasks of the attachments that could be sniffed, in the order of the loop.\<close>

definition routed_pairs :: "(int \<Rightarrow> sniffed) \<Rightarrow> int list \<Rightarrow> (int \<times> string) list" where
  "routed_pairs sniff rows =
     concat (map (\<lambda>a. case sniff a of Mime m \<Rightarrow> map (\<lambda>k. (a, k)) (route_for_mime m) | _ \<Rightarrow> []) rows)"

definition plan_enrichment ::
  "instant \<Rightarrow> string list option \<Rightarrow> bool \<Rightarrow> (int \<Rightarrow> sniffed) \<Rightarrow> int list \<Rightarrow> queue \<Rightarrow> plan_report \<times> queue" where
  "plan_enrichment now kinds dry sniff rows q =
     (let selected = (case kinds of None \<Rightarrow> set ENRICHMENT_KINDS | Some ks \<Rightarrow> set ks);
          routed = routed_pairs sniff rows;
          present = filter (\<lambda>(a, k). k \<in> queued_kinds a q) routed;
          absent = filter (\<lambda>(a, k). k \<notin> queued_kinds a q) routed;
          pairs = filter (\<lambda>(a, k). k \<in> selected) absent;
          (inserted, q') = (if dry then (count_kinds (map snd pairs), q) else enqueue_pairs_by_kind now pairs q)
      in (\<lparr>attachments = length rows,
           refused = length (filter (\<lambda>a. sniff a = Refused) rows),
           sniff_failed = length (filter (\<lambda>a. sniff a = Sniff_Failed) rows),
           enqueued = inserted,
           already_queued = count_kinds (map snd present),
           not_selected = count_kinds (map snd (filter (\<lambda>(a, k). k \<notin> selected) absent)),
           unroutable = count_kinds (concat (map (\<lambda>a. case sniff a of
                          Mime m \<Rightarrow> if route_for_mime m = [] then [m] else [] | _ \<Rightarrow> []) rows)),
           dry_run = dry\<rparr>, q'))"

lemma in_queued_kinds: "k \<in> queued_kinds a q \<longleftrightarrow> (a, k) \<in> task_key ` set q"
  by (auto simp: queued_kinds_def task_key_def image_iff)

lemma insert_rows_fresh:
  "distinct pairs \<Longrightarrow> set pairs \<inter> task_key ` set q = {} \<Longrightarrow>
   insert_rows now pairs q = (q @ map (\<lambda>(a, k). new_row now a k) pairs, map snd pairs)"
proof (induction now pairs q rule: insert_rows.induct)
  case (2 now a k pairs q)
  have key: "task_key (new_row now a k) = (a, k)" by (simp add: task_key_def new_row_def)
  have "(a, k) \<notin> task_key ` set q" using "2.prems"(2) by auto
  moreover from this have "insert_rows now pairs (q @ [new_row now a k])
      = ((q @ [new_row now a k]) @ map (\<lambda>(a, k). new_row now a k) pairs, map snd pairs)"
    using "2.prems" key by (intro "2.IH"(2)) auto
  ultimately show ?case by simp
qed simp

lemma insert_batches_fresh:
  "distinct rows \<Longrightarrow> set rows \<inter> task_key ` set q = {} \<Longrightarrow>
   insert_batches now rows q = (q @ map (\<lambda>(a, k). new_row now a k) rows, map snd rows)"
proof (induction now rows q rule: insert_batches.induct)
  case (1 now rows q)
  show ?case
  proof (cases "rows = []")
    case False
    let ?t = "take ENQUEUE_BATCH rows" and ?d = "drop ENQUEUE_BATCH rows"
    let ?new = "\<lambda>(a, k). new_row now a k"
    have td: "rows = ?t @ ?d" by simp
    have dist: "distinct ?t" "distinct ?d" "set ?t \<inter> set ?d = {}"
      using "1.prems"(1) by (auto intro: distinct_take distinct_drop simp: set_take_disj_set_drop_if_distinct)
    have key: "task_key ` set (map ?new xs) = set xs" for xs
      by (force simp: task_key_def new_row_def image_iff)
    have sub: "set ?t \<inter> task_key ` set q = {}" "set ?d \<inter> task_key ` set q = {}"
      using "1.prems"(2) set_take_subset [of ENQUEUE_BATCH rows] set_drop_subset [of ENQUEUE_BATCH rows]
      by blast+
    have t: "insert_rows now ?t q = (q @ map ?new ?t, map snd ?t)"
      by (rule insert_rows_fresh [OF dist(1) sub(1)])
    have "insert_batches now ?d (q @ map ?new ?t) = ((q @ map ?new ?t) @ map ?new ?d, map snd ?d)"
    proof (rule "1.IH" [OF False t [symmetric] refl dist(2)])
      show "set ?d \<inter> task_key ` set (q @ map ?new ?t) = {}"
        unfolding set_append image_Un key using sub(2) dist(3) by blast
    qed
    then have "insert_batches now rows q = (q @ map ?new (?t @ ?d), map snd (?t @ ?d))"
      using False t by (simp add: insert_batches.simps del: append_take_drop_id)
    then show ?thesis by (simp only: td [symmetric])
  qed (simp add: insert_batches.simps)
qed

lemma routed_distinct: "distinct rows \<Longrightarrow> distinct (routed_pairs sniff rows)"
proof (induction rows)
  case (Cons a rows)
  have fst: "x \<in> set rows" if "(x, k) \<in> set (routed_pairs sniff rows)" for x k
    using that by (auto simp: routed_pairs_def split: sniffed.splits)
  have "distinct (route_for_mime m)" for m by (simp add: route_for_mime_def)
  then have "distinct (map (\<lambda>k. (a, k)) (route_for_mime m))" for m by (simp add: distinct_map inj_on_def)
  moreover have "set (map (\<lambda>k. (a, k)) (route_for_mime m)) \<inter> set (routed_pairs sniff rows) = {}" for m
    using fst Cons.prems by fastforce
  moreover have "distinct (routed_pairs sniff rows)" using Cons by simp
  moreover have "routed_pairs sniff (a # rows)
      = (case sniff a of Mime m \<Rightarrow> map (\<lambda>k. (a, k)) (route_for_mime m) | _ \<Rightarrow> []) @ routed_pairs sniff rows"
    by (simp add: routed_pairs_def)
  ultimately show ?case by (cases "sniff a") (simp_all del: set_map)
qed (simp add: routed_pairs_def)

section \<open>Properties\<close>

text \<open>
  A claim takes exactly the first \<open>limit\<close> runnable tasks in claim order: every kind before the next
  one, the newest attachment first within a kind, skipping rows another transaction has locked;
  it marks exactly those rows as running under this worker's lease and changes no other row.
\<close>

theorem claim_takes_first:
  assumes "distinct (claim_order kinds)"
  shows "claim_tasks now w limit lease busy kinds q =
     (let order = concat (map (\<lambda>k. sort_desc attachment
                  (filter (\<lambda>r. kind r = k \<and> claimable now lease r \<and> task_key r \<notin> busy) q)) (claim_order kinds));
          picked = take (nat limit) order
      in (map task_of picked,
          map (\<lambda>r. if task_key r \<in> task_key ` set picked
                   then r\<lparr>state := Running, locked_at := Some now, locked_by := Some w\<rparr> else r) q))"
  using claim_tasks_spec [OF assms] by (simp add: claim_list_def ready_def mark_def claim_row_def Let_def)

definition sample_queue :: queue where
  "sample_queue = snd (enqueue_pairs 0 [(1, ''ocr''), (2, ''caption''), (3, ''ocr''), (3, ''ocr'')] [])"

theorem claim_takes_first_witness:
  "fst (claim_tasks 5 ''w'' 2 1800 {} None sample_queue)
     = [\<lparr>task_attachment = 3, task_kind = ''ocr'', task_attempts = 0\<rparr>,
        \<lparr>task_attachment = 1, task_kind = ''ocr'', task_attempts = 0\<rparr>]"
proof -
  have "distinct (claim_order None)" by (simp add: claim_order_def DEFAULT_CLAIM_ORDER_def ENRICHMENT_KINDS_def)
  note c = claim_takes_first [OF this, of 5 "''w''" 2 1800 "{}" sample_queue]
  show ?thesis unfolding c by code_simp
qed

text \<open>
  C18: No task has two workers inside one lease: after a worker claimed a task, whatever transactions
  run until the lease has passed, other workers' claims included, no claim returns the task again
  unless its result was recorded, it failed, was skipped or was released.
\<close>

theorem lease_is_exclusive:
  assumes "claim_tasks t0 w limit lease busy kinds q = (ts, q1)" and "t \<in> set ts"
    and "distinct (claim_order kinds)"
    and "\<forall>op \<in> set ops. \<not> ends_lease (task_attachment t, task_kind t) op \<and> within_lease t0 lease op"
    and "distinct (claim_order kinds')" and "t1 \<le> t0 + lease * SECOND"
  shows "\<forall>t' \<in> set (fst (claim_tasks t1 w' limit' lease busy' kinds' (foldl queue_step q1 ops))).
           (task_attachment t', task_kind t') \<noteq> (task_attachment t, task_kind t)"
proof -
  let ?key = "(task_attachment t, task_kind t)"
  let ?picked = "take (nat limit) (claim_list t0 lease busy (claim_order kinds) q)"
  have q1: "ts = map task_of ?picked" "q1 = mark t0 w (task_key ` set ?picked) q"
    using assms(1) by (simp_all add: claim_tasks_spec [OF assms(3)] Let_def)
  obtain r where r: "r \<in> set ?picked" "t = task_of r" using assms(2) q1(1) by auto
  then have k: "?key = task_key r" by (simp add: task_of_def task_key_def)
  have "r \<in> set q" using r(1) in_set_takeD claim_list_set by fastforce
  then have in_q: "?key \<in> task_key ` set q1" by (simp add: q1(2) k)
  have "task_key r \<in> task_key ` set ?picked" using r(1) by (rule imageI)
  then have l: "leased ?key t0 q1"
    by (auto simp: q1(2) k leased_def mark_def claim_row_def task_key_def)
  have later: "leased ?key t0 (foldl queue_step q1 ops)"
    using leased_run [OF l in_q assms(4)] by blast
  have key: "(task_attachment (task_of x), task_kind (task_of x)) = task_key x" for x
    by (simp add: task_of_def task_key_def)
  show ?thesis
    using leased_claim(1) [OF later assms(6,5), of limit' busy']
    by (auto simp: claim_tasks_spec [OF assms(5)] Let_def key image_iff) (metis key prod.inject)
qed

theorem lease_is_exclusive_witness:
  "(3, ''ocr'') \<notin> set (map (\<lambda>t'. (task_attachment t', task_kind t'))
     (fst (claim_tasks 1800000000 ''b'' 5 1800 {} (Some [''ocr'', ''caption''])
       (snd (claim_tasks 0 ''a'' 1 1800 {} None sample_queue)))))"
proof -
  have t: "1800000000 \<le> (0 :: instant) + 1800 * SECOND" by (simp add: SECOND_def)
  let ?t = "\<lparr>task_attachment = 3, task_kind = ''ocr'', task_attempts = 0\<rparr>"
  have c: "fst (claim_tasks 0 ''a'' 1 1800 {} None sample_queue) = [?t]" by code_simp
  have "\<forall>t' \<in> set (fst (claim_tasks 1800000000 ''b'' 5 1800 {} (Some [''ocr'', ''caption''])
       (foldl queue_step (snd (claim_tasks 0 ''a'' 1 1800 {} None sample_queue)) []))).
     (task_attachment t', task_kind t') \<noteq> (task_attachment ?t, task_kind ?t)"
    by (rule lease_is_exclusive [where ts = "[?t]" and kinds = None, OF _ _ _ _ _ t])
      (use c in \<open>simp_all add: prod_eq_iff claim_order_def DEFAULT_CLAIM_ORDER_def ENRICHMENT_KINDS_def\<close>)
  then show ?thesis by auto
qed

text \<open>
  The dry run is honest: the number of tasks it reports is the number a claim made at that moment
  would take, up to the claim's limit, when no other transaction holds a row.
\<close>

theorem preview_counts_claim:
  assumes "distinct (claim_order kinds)"
  shows "length (fst (claim_tasks now w limit lease {} kinds q))
     = min (nat limit) (fst (preview_claimable_tasks now lease kinds q))"
  using preview_total [OF assms] by (simp add: claim_tasks_spec [OF assms] Let_def)

theorem preview_counts_claim_witness:
  "fst (preview_claimable_tasks 0 1800 (Some [''ocr'']) sample_queue) = 2"
proof -
  have "length (fst (claim_tasks 0 ''w'' 9 1800 {} (Some [''ocr'']) sample_queue)) = 2" by code_simp
  moreover have "distinct (claim_order (Some [''ocr'']))" by (simp add: claim_order_def)
  ultimately show ?thesis using preview_counts_claim [of "Some [''ocr'']" 0 "''w''" 9 1800 sample_queue] by simp
qed

lemma update_key_in: "x \<in> set q \<Longrightarrow> task_key x = key \<Longrightarrow> f x \<in> set (update_key key f q)"
  unfolding update_key_def set_map by (rule image_eqI [where x = x]) simp_all

lemma update_key_keys: "(\<And>x. task_key (f x) = task_key x) \<Longrightarrow> map task_key (update_key key f q) = map task_key q"
  by (simp add: update_key_def)

lemma attempts_of_row:
  assumes "queue_wf q" and "x \<in> set q" and "task_key x = (a, k)"
  shows "attempts_of a k q = attempts x"
proof -
  have "y = x" if "y \<in> set q" "task_key y = (a, k)" for y
    using assms that inj_onD [of task_key "set q" y x] by (simp add: queue_wf_def distinct_map)
  moreover have "x \<in> set (filter (\<lambda>r. task_key r = (a, k)) q)" using assms by simp
  then obtain y ys where y: "filter (\<lambda>r. task_key r = (a, k)) q = y # ys"
    by (cases "filter (\<lambda>r. task_key r = (a, k)) q") auto
  then have "y \<in> set (filter (\<lambda>r. task_key r = (a, k)) q)" by simp
  ultimately have "y = x" by simp
  then show ?thesis by (simp add: attempts_of_def y)
qed

lemma claim_marks:
  assumes "distinct (claim_order kinds)" and "queue_wf q" and "r \<in> set q"
    and "\<lparr>task_attachment = attachment r, task_kind = kind r, task_attempts = attempts r\<rparr>
      \<in> set (fst (claim_tasks now w limit lease busy kinds q))"
  shows "claim_row now w r \<in> set (snd (claim_tasks now w limit lease busy kinds q))"
proof -
  let ?picked = "take (nat limit) (claim_list now lease busy (claim_order kinds) q)"
  obtain r' where "r' \<in> set ?picked" "task_key r' = task_key r"
    using assms(4) by (auto simp: claim_tasks_spec [OF assms(1)] Let_def task_of_def task_key_def)
  then have "task_key r \<in> task_key ` set ?picked" by (intro image_eqI [of _ task_key r']) simp_all
  then show ?thesis
    using image_eqI [OF _ assms(3), of "claim_row now w r" "\<lambda>r. if task_key r \<in> task_key ` set ?picked then claim_row now w r else r"]
    by (simp add: claim_tasks_spec [OF assms(1)] Let_def mark_def)
qed

text \<open>
  C36: An outcome is written whoever holds the task. Whatever the queue holds: when a worker's lease has run
  out, a second worker has claimed the task and completed it, and attempts are left, the first worker's
  failure report puts the finished row back to pending, still with its result, and from the end of the
  back-off the row is claimable again.
\<close>

theorem stale_failure_reopens_done:
  assumes "queue_wf q" and "r \<in> set q" and "state r = Running" and "locked_by r = Some w1" and "lease_expired now lease r"
    and "distinct (claim_order kinds)"
    and "\<lparr>task_attachment = attachment r, task_kind = kind r, task_attempts = attempts r\<rparr>
      \<in> set (fst (claim_tasks now w2 limit lease busy kinds q))"
    and "int (attempts r) + 1 < max_attempts"
    and "finished = complete_task (attachment r) (kind r) result (snd (claim_tasks now w2 limit lease busy kinds q))"
    and "later = snd (fail_task now' (attachment r) (kind r) error max_attempts finished)"
  shows "(\<exists>d \<in> set finished. task_key d = task_key r \<and> state d = Done)
    \<and> (\<exists>d \<in> set later. task_key d = task_key r \<and> state d = Pending \<and> result_text d = result
         \<and> (\<forall>t \<ge> now' + backoff (attempts r + 1). claimable t lease d))"
proof -
  let ?q1 = "snd (claim_tasks now w2 limit lease busy kinds q)" and ?key = "(attachment r, kind r)"
  let ?d = "unlocked (claim_row now w2 r\<lparr>state := Done, result_text := result, last_error := None\<rparr>)"
  have key: "task_key ?d = ?key" by (simp add: task_key_def unlocked_def claim_row_def)
  have "claim_row now w2 r \<in> set ?q1" by (rule claim_marks [OF assms(6,1,2,7)])
  then have done_row: "?d \<in> set finished"
    unfolding assms(9) complete_task_def by (rule update_key_in) (simp add: task_key_def claim_row_def)
  have "map task_key finished = map task_key q"
    unfolding assms(9) complete_task_def
    by (subst update_key_keys)
      (simp_all add: claim_tasks_spec [OF assms(6)] Let_def mark_def unlocked_def task_key_def claim_row_def)
  then have n: "attempts_of (attachment r) (kind r) finished = attempts r"
    using attempts_of_row [OF _ done_row key] assms(1) by (simp add: queue_wf_def unlocked_def claim_row_def)
  have later: "later = update_key ?key
      (\<lambda>x. unlocked (x\<lparr>state := Pending, attempts := attempts r + 1, next_attempt_at := now' + backoff (attempts r + 1),
                     last_error := Some (stored_error error)\<rparr>)) finished"
    using assms(8,10) by (simp add: fail_task_def Let_def n)
  let ?p = "unlocked (?d\<lparr>state := Pending, attempts := attempts r + 1, next_attempt_at := now' + backoff (attempts r + 1),
                     last_error := Some (stored_error error)\<rparr>)"
  have "?p \<in> set later" unfolding later by (rule update_key_in [OF done_row key])
  moreover have "task_key ?p = task_key r \<and> state ?p = Pending \<and> result_text ?p = result
      \<and> (\<forall>t \<ge> now' + backoff (attempts r + 1). claimable t lease ?p)"
    by (simp add: task_key_def unlocked_def claim_row_def claimable_def)
  moreover have "task_key ?d = task_key r \<and> state ?d = Done" by (simp add: task_key_def unlocked_def claim_row_def)
  ultimately show ?thesis using done_row by blast
qed

theorem stale_failure_reopens_done_witness:
  "state (hd (snd (fail_task 1800000002 1 ''ocr'' ''timeout'' 5 (complete_task 1 ''ocr'' (Some ''text'')
     (snd (claim_tasks 1800000001 ''b'' 1 1800 {} None
       [(new_row 0 1 ''ocr'')\<lparr>state := Running, locked_at := Some 0, locked_by := Some ''a''\<rparr>])))))) = Pending"
proof -
  let ?r = "(new_row 0 1 ''ocr'')\<lparr>state := Running, locked_at := Some 0, locked_by := Some ''a''\<rparr>"
  let ?finished = "complete_task 1 ''ocr'' (Some ''text'') (snd (claim_tasks 1800000001 ''b'' 1 1800 {} None [?r]))"
  let ?later = "snd (fail_task 1800000002 1 ''ocr'' ''timeout'' 5 ?finished)"
  have claimed: "\<lparr>task_attachment = attachment ?r, task_kind = kind ?r, task_attempts = attempts ?r\<rparr>
      \<in> set (fst (claim_tasks 1800000001 ''b'' 1 1800 {} None [?r]))" by code_simp
  have "length ?later = 1" by code_simp
  then obtain x where x: "?later = [x]" by (auto simp: length_Suc_conv)
  have "\<exists>d \<in> set ?later. task_key d = task_key ?r \<and> state d = Pending \<and> result_text d = Some ''text''"
    using stale_failure_reopens_done [of "[?r]" ?r "''a''" 1800000001 1800 None "''b''" 1 "{}" 5 ?finished "Some ''text''" ?later 1800000002 "''timeout''"]
      claimed
    by (auto simp: queue_wf_def new_row_def lease_expired_def SECOND_def claim_order_def DEFAULT_CLAIM_ORDER_def ENRICHMENT_KINDS_def)
  then show ?thesis by (simp add: x)
qed

text \<open>
  The planner fills the queue and touches nothing else: a real run appends one fresh row for each
  selected kind an attachment routes to and lacks, leaving every row that was there; a dry run
  writes nothing and reports the same counts; and running again finds nothing to add.
\<close>

theorem planner_fills_queue:
  assumes "distinct rows" and "plan_enrichment now kinds False sniff rows q = (done_report, q')"
  shows "(\<exists>new. q' = q @ new \<and> (\<forall>r \<in> set new. r = new_row now (attachment r) (kind r) \<and> task_key r \<notin> task_key ` set q))
     \<and> (\<forall>(a, k) \<in> set (routed_pairs sniff rows).
          k \<in> (case kinds of None \<Rightarrow> set ENRICHMENT_KINDS | Some ks \<Rightarrow> set ks) \<longrightarrow> (a, k) \<in> task_key ` set q')
     \<and> plan_enrichment now kinds True sniff rows q = (done_report\<lparr>dry_run := True\<rparr>, q)
     \<and> snd (plan_enrichment now' kinds False sniff rows q') = q'"
proof -
  let ?sel = "case kinds of None \<Rightarrow> set ENRICHMENT_KINDS | Some ks \<Rightarrow> set ks"
  let ?pairs = "\<lambda>q. filter (\<lambda>(a, k). k \<in> ?sel) (filter (\<lambda>(a, k). k \<notin> queued_kinds a q) (routed_pairs sniff rows))"
  let ?new = "map (\<lambda>(a, k). new_row now a k) (?pairs q)"
  have ins: "insert_batches t (?pairs p) p = (p @ map (\<lambda>(a, k). new_row t a k) (?pairs p), map snd (?pairs p))"
    for t p
    by (rule insert_batches_fresh) (auto simp: routed_distinct [OF assms(1)] in_queued_kinds)
  have q': "q' = q @ ?new"
    using assms(2) ins [of now q] by (simp add: plan_enrichment_def enqueue_pairs_by_kind_def Let_def)
  have key: "task_key ` set (map (\<lambda>(a, k). new_row now a k) xs) = set xs" for xs
    by (force simp: task_key_def new_row_def image_iff)
  have fresh: "\<forall>r \<in> set ?new. r = new_row now (attachment r) (kind r) \<and> task_key r \<notin> task_key ` set q"
    by (auto simp: in_queued_kinds new_row_def task_key_def)
  have all: "(a, k) \<in> task_key ` set q'" if "(a, k) \<in> set (routed_pairs sniff rows)" "k \<in> ?sel" for a k
    unfolding q' set_append image_Un key using that by (auto simp: in_queued_kinds)
  then have none: "?pairs q' = []"
    by (auto simp: filter_empty_conv in_queued_kinds)
  have dry: "plan_enrichment now kinds True sniff rows q = (done_report\<lparr>dry_run := True\<rparr>, q)"
    using assms(2) ins [of now q] by (auto simp: plan_enrichment_def enqueue_pairs_by_kind_def Let_def)
  have again: "snd (plan_enrichment now' kinds False sniff rows q') = q'"
    unfolding plan_enrichment_def Let_def enqueue_pairs_by_kind_def none by (simp add: insert_batches.simps)
  show ?thesis using q' fresh all dry again by blast
qed

definition sample_sniff :: "int \<Rightarrow> sniffed" where
  "sample_sniff a = (if a = 1 then Mime ''image/png'' else if a = 2 then Mime ''application/zip'' else Sniff_Failed)"

theorem planner_fills_queue_witness:
  "(1, ''caption'') \<in> task_key ` set (snd (plan_enrichment 9 None False sample_sniff [1, 2, 3] sample_queue))"
proof -
  have "plan_enrichment 9 None False sample_sniff [1, 2, 3] sample_queue
      = (fst (plan_enrichment 9 None False sample_sniff [1, 2, 3] sample_queue),
         snd (plan_enrichment 9 None False sample_sniff [1, 2, 3] sample_queue))" by simp
  from planner_fills_queue [OF _ this] have
    "\<forall>(a, k) \<in> set (routed_pairs sample_sniff [1, 2, 3]). k \<in> set ENRICHMENT_KINDS \<longrightarrow>
       (a, k) \<in> task_key ` set (snd (plan_enrichment 9 None False sample_sniff [1, 2, 3] sample_queue))"
    by simp
  moreover have "(1, ''caption'') \<in> set (routed_pairs sample_sniff [1, 2, 3])" by code_simp
  ultimately show ?thesis by (auto simp: ENRICHMENT_KINDS_def)
qed

end
