(* ===== verification/Memory_Admission.thy ===== *)
theory Memory_Admission
  imports Py_Strings "HOL-Library.AList" "HOL-Library.List_Lexorder" "HOL-Library.Char_ord"
begin

text \<open>
  Admission of model sets to a host's memory (\<open>src/imsg/memory_admission.py\<close>, with the values
  of \<open>src/imsg/host_memory.py\<close> and the notices of \<open>src/imsg/live_server_notice.py\<close>): roles and
  footprints, the reservations directory, the decision, the check of one process, and a live
  server's notice. The directory is an association list from file names to the value
  \<open>json.loads\<close> gives of each file, \<open>None\<close> for one that cannot be read or parsed. What the host
  answers (its memory, which processes run, their footprints, the notices posted) is an
  argument of each check; reasons and log lines are left out of the decisions.
\<close>

section \<open>The host's memory\<close>

datatype pressure_level = NORMAL | WARN | CRITICAL

fun severity :: "pressure_level \<Rightarrow> nat" where
  "severity NORMAL = 0" | "severity WARN = 1" | "severity CRITICAL = 2"

definition at_least :: "pressure_level \<Rightarrow> pressure_level \<Rightarrow> bool" where
  "at_least l other \<longleftrightarrow> severity other \<le> severity l"

text \<open>\<open>KERNEL_PRESSURE_LEVELS\<close> and \<open>kernel_pressure_level\<close>; \<open>None\<close> raises.\<close>

definition kernel_pressure_level :: "int \<Rightarrow> pressure_level option" where
  "kernel_pressure_level raw =
     map_of [(1, NORMAL), (2, WARN), (4, CRITICAL)] raw"

record host_memory =
  total_bytes :: int
  free_bytes :: int
  inactive_bytes :: int
  speculative_bytes :: int
  pressure :: pressure_level

definition available_bytes :: "host_memory \<Rightarrow> int" where
  "available_bytes m = free_bytes m + inactive_bytes m + speculative_bytes m"

section \<open>Roles and footprints\<close>

datatype model_role = PUBLIC_SERVER | LOCAL_SERVER | EMBED | ENRICH | SEGMENT

fun role_value :: "model_role \<Rightarrow> string" where
  "role_value PUBLIC_SERVER = ''public_server''"
| "role_value LOCAL_SERVER = ''local_server''"
| "role_value EMBED = ''embed''"
| "role_value ENRICH = ''enrich''"
| "role_value SEGMENT = ''segment''"

definition LIVE_ROLES :: "model_role list" where "LIVE_ROLES = [PUBLIC_SERVER, LOCAL_SERVER]"

definition role_live :: "model_role \<Rightarrow> bool" where "role_live r \<longleftrightarrow> r \<in> set LIVE_ROLES"

record role_bytes =
  public_server_bytes :: int
  local_server_bytes :: int
  embed_bytes :: int
  enrich_bytes :: int
  segment_bytes :: int

record model_footprints = role_bytes +
  enrich_without_captions_bytes :: int

fun footprint_bytes :: "model_footprints \<Rightarrow> model_role \<Rightarrow> int" where
  "footprint_bytes f PUBLIC_SERVER = public_server_bytes f"
| "footprint_bytes f LOCAL_SERVER = local_server_bytes f"
| "footprint_bytes f EMBED = embed_bytes f"
| "footprint_bytes f ENRICH = enrich_bytes f"
| "footprint_bytes f SEGMENT = segment_bytes f"

definition CAPTION_KIND :: string where "CAPTION_KIND = ''caption''"

definition enrich_footprint_bytes :: "model_footprints \<Rightarrow> string list \<Rightarrow> int" where
  "enrich_footprint_bytes f kinds =
     (if CAPTION_KIND \<in> set kinds then enrich_bytes f else enrich_without_captions_bytes f)"

fun mlx_memory_limit_bytes :: "role_bytes \<Rightarrow> model_role \<Rightarrow> int" where
  "mlx_memory_limit_bytes l PUBLIC_SERVER = public_server_bytes l"
| "mlx_memory_limit_bytes l LOCAL_SERVER = local_server_bytes l"
| "mlx_memory_limit_bytes l EMBED = embed_bytes l"
| "mlx_memory_limit_bytes l ENRICH = enrich_bytes l"
| "mlx_memory_limit_bytes l SEGMENT = segment_bytes l"

text \<open>The limit handed to MLX, if it is called at all, and what is returned.\<close>

definition configure_mlx_memory_limit ::
  "string \<Rightarrow> role_bytes \<Rightarrow> model_role \<Rightarrow> int option option \<times> int option" where
  "configure_mlx_memory_limit backend limits role =
     (if backend \<noteq> ''real'' then (None, None)
      else
        (let l = mlx_memory_limit_bytes limits role; l' = (if l = 0 then None else Some l)
         in (Some l', l')))"

section \<open>Reservations\<close>

text \<open>What \<open>os.kill(pid, 0)\<close> can do, for the process identifiers the system uses.\<close>

datatype kill_outcome = Delivered | ProcessLookupError | PermissionError | OtherOSError

definition pid_is_running :: "(int \<Rightarrow> kill_outcome) \<Rightarrow> int \<Rightarrow> bool" where
  "pid_is_running kill pid =
     (if pid \<le> 0 then False
      else case kill pid of
             Delivered \<Rightarrow> True | ProcessLookupError \<Rightarrow> False
           | PermissionError \<Rightarrow> True | OtherOSError \<Rightarrow> False)"

record reservation =
  res_pid :: int
  res_role :: string
  reserved_bytes :: int
  admitted_at :: string
  res_command :: string
  res_live :: "bool option"

definition is_live :: "reservation \<Rightarrow> bool" where
  "is_live r = (case res_live r of Some b \<Rightarrow> b | None \<Rightarrow> res_role r \<in> set (map role_value LIVE_ROLES))"

record other_reservation =
  reservation_of :: reservation
  held_bytes :: "int option"

definition promised_bytes :: "other_reservation \<Rightarrow> int" where
  "promised_bytes ot =
     max 0 (reserved_bytes (reservation_of ot) - (case held_bytes ot of None \<Rightarrow> 0 | Some h \<Rightarrow> h))"

text \<open>\<open>isinstance(x, int)\<close> holds of a boolean too.\<close>

definition json_int :: "json option \<Rightarrow> int option" where
  "json_int j = (case j of Some (JInt i) \<Rightarrow> Some i | Some (JBool b) \<Rightarrow> Some (of_bool b) | _ \<Rightarrow> None)"

definition json_str :: "json option \<Rightarrow> string option" where
  "json_str j = (case j of Some (JStr s) \<Rightarrow> Some s | _ \<Rightarrow> None)"

definition json_opt_bool :: "json option \<Rightarrow> bool option option" where
  "json_opt_bool j =
     (case j of None \<Rightarrow> Some None | Some JNull \<Rightarrow> Some None | Some (JBool b) \<Rightarrow> Some (Some b)
      | _ \<Rightarrow> None)"

definition read_reservation :: "json option \<Rightarrow> reservation option" where
  "read_reservation document =
     (case document of
        Some (JObj obj) \<Rightarrow>
          (case (json_int (map_of obj ''pid''), json_str (map_of obj ''role''),
                 json_int (map_of obj ''reserved_bytes''), json_str (map_of obj ''admitted_at''),
                 json_str (map_of obj ''command''), json_opt_bool (map_of obj ''live'')) of
             (Some p, Some role, Some n, Some ts, Some cmd, Some lv) \<Rightarrow>
               Some \<lparr>res_pid = p, res_role = role, reserved_bytes = n, admitted_at = ts,
                     res_command = cmd, res_live = lv\<rparr>
           | _ \<Rightarrow> None)
      | _ \<Rightarrow> None)"

type_synonym book = "(string \<times> json option) list"

definition file_name :: "int \<Rightarrow> string" where "file_name p = py_str_int p @ ''.json''"

definition is_json_file :: "string \<Rightarrow> bool" where
  "is_json_file n \<longleftrightarrow> drop (length n - 5) n = ''.json'' \<and> 5 \<le> length n"

definition listed :: "book \<Rightarrow> book" where
  "listed b = sort_key fst (filter (\<lambda>(n, _). is_json_file n) b)"

definition reservations :: "book \<Rightarrow> reservation list" where
  "reservations b = List.map_filter (\<lambda>(_, doc). read_reservation doc) (listed b)"

definition running_reservations :: "(int \<Rightarrow> bool) \<Rightarrow> book \<Rightarrow> reservation list" where
  "running_reservations running b = filter (\<lambda>r. running (res_pid r)) (reservations b)"

text \<open>The loop of \<open>others\<close> sweeps what is unreadable or dead as it goes.\<close>

fun others_loop ::
  "(int \<Rightarrow> bool) \<Rightarrow> (int \<Rightarrow> int option) \<Rightarrow> int \<Rightarrow> book \<Rightarrow> book \<Rightarrow> other_reservation list \<times> book" where
  "others_loop running footprint own [] b = ([], b)"
| "others_loop running footprint own ((n, doc) # fs) b =
     (case read_reservation doc of
        None \<Rightarrow> others_loop running footprint own fs (AList.delete n b)
      | Some r \<Rightarrow>
          if res_pid r = own then others_loop running footprint own fs b
          else if \<not> running (res_pid r) then others_loop running footprint own fs (AList.delete n b)
          else (let (os, b') = others_loop running footprint own fs b
                in (\<lparr>reservation_of = r, held_bytes = footprint (res_pid r)\<rparr> # os, b')))"

definition others ::
  "(int \<Rightarrow> bool) \<Rightarrow> (int \<Rightarrow> int option) \<Rightarrow> int \<Rightarrow> book \<Rightarrow> other_reservation list \<times> book" where
  "others running footprint own b = others_loop running footprint own (listed b) b"

definition promised_to_others ::
  "(int \<Rightarrow> bool) \<Rightarrow> (int \<Rightarrow> int option) \<Rightarrow> int \<Rightarrow> book \<Rightarrow> int" where
  "promised_to_others running footprint own b =
     sum_list (map promised_bytes (fst (others running footprint own b)))"

definition reservation_document :: "reservation \<Rightarrow> json" where
  "reservation_document r =
     JObj [(''pid'', JInt (res_pid r)), (''role'', JStr (res_role r)),
           (''reserved_bytes'', JInt (reserved_bytes r)), (''admitted_at'', JStr (admitted_at r)),
           (''command'', JStr (res_command r)), (''live'', JBool (is_live r))]"

definition write_reservation :: "reservation \<Rightarrow> book \<Rightarrow> book" where
  "write_reservation r b = AList.update (file_name (res_pid r)) (Some (reservation_document r)) b"

definition remove_reservation :: "int \<Rightarrow> book \<Rightarrow> book" where
  "remove_reservation p b = AList.delete (file_name p) b"

section \<open>The decision\<close>

datatype refusal_cause = PRESSURE | MEMORY | LIVE_SERVER_WAITING | UNMEASURED

record waiting_live_server =
  w_pid :: int
  w_role :: string
  w_command :: string
  w_since :: string

record admission_decision =
  admitted :: bool
  d_required :: int
  d_reserve :: int
  d_promised :: int
  d_memory :: "host_memory option"
  d_cause :: "refusal_cause option"
  d_counted :: "other_reservation list"
  d_set_aside :: "other_reservation list"
  d_waiting :: "waiting_live_server list"

definition decide_load ::
  "host_memory \<Rightarrow> int \<Rightarrow> int \<Rightarrow> pressure_level \<Rightarrow> int \<Rightarrow> other_reservation list \<Rightarrow> other_reservation list
    \<Rightarrow> waiting_live_server list \<Rightarrow> admission_decision" where
  "decide_load m required reserve max_pressure promised counted set_aside waiting =
     (let outcome = (\<lambda>yes why. \<lparr>admitted = yes, d_required = required, d_reserve = reserve,
                         d_promised = promised, d_memory = Some m, d_cause = why,
                         d_counted = counted, d_set_aside = set_aside, d_waiting = waiting\<rparr>)
      in if severity (pressure m) > severity max_pressure \<or> pressure m = CRITICAL
         then outcome False (Some PRESSURE)
         else if waiting \<noteq> [] then outcome False (Some LIVE_SERVER_WAITING)
         else if available_bytes m - promised < required + reserve then outcome False (Some MEMORY)
         else outcome True None)"

definition refused :: "int \<Rightarrow> int \<Rightarrow> admission_decision" where
  "refused required reserve =
     \<lparr>admitted = False, d_required = required, d_reserve = reserve, d_promised = 0, d_memory = None,
      d_cause = Some UNMEASURED, d_counted = [], d_set_aside = [], d_waiting = []\<rparr>"

definition background_promises_set_aside_bytes :: "admission_decision \<Rightarrow> int" where
  "background_promises_set_aside_bytes d = sum_list (map promised_bytes (d_set_aside d))"

text \<open>What changes when what a load waits on changes.\<close>

definition waiting_key ::
  "admission_decision \<Rightarrow> bool \<times> refusal_cause option \<times> int list \<times> int list \<times> int list" where
  "waiting_key d =
     (admitted d, d_cause d,
      sort (map (res_pid \<circ> reservation_of) (filter (\<lambda>ot. promised_bytes ot > 0) (d_counted d))),
      sort (map (res_pid \<circ> reservation_of) (d_set_aside d)),
      sort (map w_pid (d_waiting d)))"

section \<open>The check of one process\<close>

record admission =
  adm_role :: model_role
  adm_required :: int
  adm_reserve :: int
  adm_max_pressure :: pressure_level
  adm_command :: string
  adm_live :: bool

text \<open>\<open>MemoryAdmission.for_role\<close>; the arguments \<open>live\<close> and \<open>footprint\<close> are optional.\<close>

definition for_role ::
  "model_footprints \<Rightarrow> int \<Rightarrow> pressure_level \<Rightarrow> model_role \<Rightarrow> string \<Rightarrow> int \<Rightarrow> bool option \<Rightarrow> int option
    \<Rightarrow> admission" where
  "for_role fp reserve max_pressure role command copies live footprint =
     \<lparr>adm_role = role,
      adm_required = (case footprint of Some f \<Rightarrow> f | None \<Rightarrow> footprint_bytes fp role) * max 1 copies,
      adm_reserve = reserve, adm_max_pressure = max_pressure, adm_command = command,
      adm_live = (case live of None \<Rightarrow> role_live role | Some l \<Rightarrow> l)\<rparr>"

text \<open>
  What the host answers during one check: the lock taken or not, the measurement, which
  processes run, their footprints, the notices posted (\<open>None\<close> for a read that raises),
  whether the reservation could be written, and the time as text.
\<close>

record check_env =
  own_pid :: int
  lock_taken :: bool
  probe_read :: "host_memory option"
  env_running :: "int \<Rightarrow> bool"
  env_footprint :: "int \<Rightarrow> int option"
  notices_read :: "waiting_live_server list option"
  write_ok :: bool
  now_text :: string

definition own_reservation :: "admission \<Rightarrow> check_env \<Rightarrow> reservation" where
  "own_reservation a e =
     \<lparr>res_pid = own_pid e, res_role = role_value (adm_role a), reserved_bytes = adm_required a,
      admitted_at = now_text e, res_command = adm_command a, res_live = Some (adm_live a)\<rparr>"

definition counts_for_live :: "bool \<Rightarrow> other_reservation \<Rightarrow> bool" where
  "counts_for_live count_background ot \<longleftrightarrow>
     count_background \<or> is_live (reservation_of ot) \<or> promised_bytes ot = 0"

text \<open>
  \<open>MemoryAdmission.check\<close>: the decision, the directory after it, and the state \<open>while_locked\<close>
  acts on. Every exception ends in \<open>refused\<close>, the files swept until then staying gone.
\<close>

definition memory_check ::
  "admission \<Rightarrow> check_env \<Rightarrow> bool \<Rightarrow> (admission_decision \<Rightarrow> 's \<Rightarrow> 's) \<Rightarrow> book \<Rightarrow> 's
    \<Rightarrow> admission_decision \<times> book \<times> 's" where
  "memory_check a e count_background while_locked b s =
     (let failed = refused (adm_required a) (adm_reserve a)
      in if \<not> lock_taken e then (failed, b, s)
         else (case probe_read e of
           None \<Rightarrow> (failed, b, s)
         | Some m \<Rightarrow>
             (let (os, b1) = others (env_running e) (env_footprint e) (own_pid e) b;
                  counted = (if adm_live a then filter (counts_for_live count_background) os else os);
                  set_aside = (if adm_live a then filter (\<lambda>ot. ot \<notin> set counted) os else [])
              in case (if adm_live a then Some [] else notices_read e) of
                   None \<Rightarrow> (failed, b1, s)
                 | Some waiting \<Rightarrow>
                     (let d = decide_load m (adm_required a) (adm_reserve a) (adm_max_pressure a)
                                (sum_list (map promised_bytes counted)) counted set_aside waiting
                      in if admitted d \<and> \<not> write_ok e then (failed, b1, s)
                         else (d, if admitted d then write_reservation (own_reservation a e) b1 else b1,
                               while_locked d s)))))"

definition admission_release :: "int \<Rightarrow> book \<Rightarrow> book" where
  "admission_release own b = remove_reservation own b"

section \<open>A live server\<close>

definition NOTICE_LAPSE_SECONDS :: clock where "NOTICE_LAPSE_SECONDS = 120"

datatype notice_cause = WAITING | PAST_BACKGROUND | RELOAD_PENDING

text \<open>\<open>posted_at\<close> is set exactly while the notice's file is held (\<open>LiveServerNotice\<close>).\<close>

record live_server =
  ls_cause :: "notice_cause option"
  last_refusal_at :: "clock option"
  posted_at :: "clock option"

record live_config =
  yield_seconds :: clock
  lapse_seconds :: clock

definition new_live_server :: live_server where
  "new_live_server = \<lparr>ls_cause = None, last_refusal_at = None, posted_at = None\<rparr>"

definition posted :: "live_server \<Rightarrow> bool" where "posted s \<longleftrightarrow> posted_at s \<noteq> None"

definition posted_for :: "clock \<Rightarrow> live_server \<Rightarrow> clock option" where
  "posted_for now s = map_option (\<lambda>t. max 0 (now - t)) (posted_at s)"

text \<open>\<open>_post\<close>: an error of the file system leaves the cause set and nothing posted.\<close>

definition post_notice :: "notice_cause \<Rightarrow> bool \<Rightarrow> clock \<Rightarrow> live_server \<Rightarrow> live_server" where
  "post_notice c post_ok now s =
     (let s1 = s\<lparr>ls_cause := Some c\<rparr>
      in if posted s1 \<or> \<not> post_ok then s1 else s1\<lparr>posted_at := Some now\<rparr>)"

definition withdraw :: "live_server \<Rightarrow> live_server" where
  "withdraw s = s\<lparr>ls_cause := None, last_refusal_at := None, posted_at := None\<rparr>"

definition background_promises_count :: "live_config \<Rightarrow> clock \<Rightarrow> live_server \<Rightarrow> bool" where
  "background_promises_count cfg now s =
     (if yield_seconds cfg \<le> 0 then False
      else case posted_for now s of None \<Rightarrow> True | Some w \<Rightarrow> w < yield_seconds cfg)"

text \<open>\<open>settle\<close>, run under the admission lock; \<open>t1\<close> and \<open>t2\<close> are its readings of the clock.\<close>

definition settle_notice ::
  "bool \<Rightarrow> clock \<Rightarrow> clock \<Rightarrow> admission_decision \<Rightarrow> live_server \<Rightarrow> live_server" where
  "settle_notice post_ok t1 t2 d s =
     (if admitted d \<and> d_set_aside d \<noteq> [] then post_notice PAST_BACKGROUND post_ok t2 s
      else if admitted d then withdraw s
      else post_notice WAITING post_ok t2 (s\<lparr>last_refusal_at := Some t1\<rparr>))"

definition live_check ::
  "live_config \<Rightarrow> admission \<Rightarrow> check_env \<Rightarrow> bool \<Rightarrow> clock \<Rightarrow> clock \<Rightarrow> clock \<Rightarrow> book \<Rightarrow> live_server
    \<Rightarrow> admission_decision \<times> book \<times> live_server" where
  "live_check cfg a e post_ok t0 t1 t2 b s =
     memory_check a e (background_promises_count cfg t0 s) (settle_notice post_ok t1 t2) b s"

definition live_release :: "int \<Rightarrow> book \<Rightarrow> live_server \<Rightarrow> book \<times> live_server" where
  "live_release own b s = (admission_release own b, withdraw s)"

definition release_for_reload :: "int \<Rightarrow> bool \<Rightarrow> clock \<Rightarrow> book \<Rightarrow> live_server \<Rightarrow> book \<times> live_server" where
  "release_for_reload own post_ok now b s =
     (admission_release own b, post_notice RELOAD_PENDING post_ok now s)"

text \<open>\<open>None\<close> is a directory that cannot be read.\<close>

definition background_jobs_running :: "int \<Rightarrow> (int \<Rightarrow> bool) \<Rightarrow> book option \<Rightarrow> bool" where
  "background_jobs_running own running b =
     (case b of
        None \<Rightarrow> True
      | Some b' \<Rightarrow> list_ex (\<lambda>r. res_pid r \<noteq> own \<and> \<not> is_live r) (running_reservations running b'))"

definition tick ::
  "live_config \<Rightarrow> int \<Rightarrow> (int \<Rightarrow> bool) \<Rightarrow> book option \<Rightarrow> clock \<Rightarrow> live_server \<Rightarrow> live_server" where
  "tick cfg own running b now s =
     (case ls_cause s of
        Some WAITING \<Rightarrow>
          (case last_refusal_at s of
             Some t \<Rightarrow> if lapse_seconds cfg \<le> now - t then withdraw s else s
           | None \<Rightarrow> s)
      | Some PAST_BACKGROUND \<Rightarrow> if \<not> background_jobs_running own running b then withdraw s else s
      | _ \<Rightarrow> s)"

section \<open>The reservations directory as a map from processes\<close>

definition entry :: "book \<Rightarrow> int \<Rightarrow> reservation option" where
  "entry b p = Option.bind (map_of b (file_name p)) read_reservation"

text \<open>Every process writes its own file: distinct names, each readable one named by its process.\<close>

definition book_wf :: "book \<Rightarrow> bool" where
  "book_wf b \<longleftrightarrow> distinct (map fst b)
     \<and> (\<forall>(n, doc) \<in> set b. \<forall>r. read_reservation doc = Some r \<longrightarrow> n = file_name (res_pid r))"

lemma file_name_inj [simp]: "file_name p = file_name q \<longleftrightarrow> p = q"
  by (simp add: file_name_def py_str_int_inj)

lemma file_name_is_json [simp]: "is_json_file (file_name p)"
  by (simp add: file_name_def is_json_file_def)

text \<open>The document a process writes is read back as the reservation, \<open>live\<close> filled in.\<close>

lemma read_reservation_document [simp]:
  "read_reservation (Some (reservation_document r)) = Some (r\<lparr>res_live := Some (is_live r)\<rparr>)"
  by (simp add: read_reservation_def reservation_document_def json_int_def json_str_def json_opt_bool_def)

lemma is_live_filled [simp]: "is_live (r\<lparr>res_live := Some x\<rparr>) = x"
  by (simp add: is_live_def)

lemma delete_filter: "AList.delete n b = filter (\<lambda>p. fst p \<noteq> n) b"
  by (rule filter_cong [OF refl, of b "\<lambda>(k, _). n \<noteq> k" "\<lambda>p. fst p \<noteq> n", folded AList.delete_eq]) auto

lemma book_wf_empty [simp]: "book_wf []"
  by (simp add: book_wf_def)

lemma book_wf_filter: "book_wf b \<Longrightarrow> book_wf (filter P b)"
  by (auto simp: book_wf_def distinct_map_filter)

lemma in_update: "x \<in> set (AList.update k v b) \<Longrightarrow> x = (k, v) \<or> x \<in> set b"
  by (induction b) (auto split: if_splits)

lemma book_wf_write:
  assumes "book_wf b" shows "book_wf (write_reservation r b)"
  using assms unfolding book_wf_def write_reservation_def
  by (auto simp: distinct_update dest!: in_update)

lemma entry_write:
  "entry (write_reservation r b) p = (if p = res_pid r then Some (r\<lparr>res_live := Some (is_live r)\<rparr>) else entry b p)"
  by (simp add: entry_def write_reservation_def update_conv)

lemma book_wf_remove: "book_wf b \<Longrightarrow> book_wf (remove_reservation q b)"
  by (simp add: remove_reservation_def delete_filter book_wf_filter)

lemma entry_remove: "entry (remove_reservation q b) p = (if p = q then None else entry b p)"
  by (simp add: entry_def remove_reservation_def delete_conv)

lemma entry_in: "book_wf b \<Longrightarrow> entry b p = Some r \<longleftrightarrow> (\<exists>doc. (file_name p, doc) \<in> set b \<and> read_reservation doc = Some r)"
  by (auto simp: entry_def book_wf_def bind_eq_Some_conv dest: map_of_SomeD intro: map_of_is_SomeI)

lemma entry_pid: "book_wf b \<Longrightarrow> entry b p = Some r \<Longrightarrow> res_pid r = p"
  by (fastforce simp: entry_in book_wf_def)

lemma finite_entries: "finite (dom (entry b))"
proof (rule finite_subset)
  show "dom (entry b) \<subseteq> file_name -` (dom (map_of b))"
    by (auto simp: entry_def bind_eq_Some_conv)
  show "finite (file_name -` (dom (map_of b)))"
    by (rule finite_vimageI) (simp_all add: finite_dom_map_of inj_on_def)
qed

definition as_seen :: "(int \<Rightarrow> int option) \<Rightarrow> reservation \<Rightarrow> other_reservation" where
  "as_seen footprint r = \<lparr>reservation_of = r, held_bytes = footprint (res_pid r)\<rparr>"

definition doomed :: "(int \<Rightarrow> bool) \<Rightarrow> int \<Rightarrow> json option \<Rightarrow> bool" where
  "doomed running own doc =
     (case read_reservation doc of None \<Rightarrow> True | Some r \<Rightarrow> res_pid r \<noteq> own \<and> \<not> running (res_pid r))"

lemma as_seen_sel [simp]: "reservation_of (as_seen fp r) = r" "held_bytes (as_seen fp r) = fp (res_pid r)"
  by (simp_all add: as_seen_def)

lemma others_loop_eq:
  "others_loop running fp own fs b =
     (map (as_seen fp) (filter (\<lambda>r. res_pid r \<noteq> own \<and> running (res_pid r))
        (List.map_filter (\<lambda>(_, doc). read_reservation doc) fs)),
      filter (\<lambda>x. \<not> (\<exists>f \<in> set fs. fst f = fst x \<and> doomed running own (snd f))) b)"
proof (induction fs arbitrary: b)
  case Nil
  then show ?case by (simp add: map_filter_simps)
next
  case (Cons f fs)
  obtain n doc where f: "f = (n, doc)" by (cases f)
  show ?case
  proof (cases "read_reservation doc")
    case None
    then show ?thesis using Cons f
      by (auto simp: map_filter_simps doomed_def delete_filter intro!: filter_cong)
  next
    case (Some r)
    then show ?thesis using Cons f
      by (auto simp: map_filter_simps doomed_def delete_filter as_seen_def intro!: filter_cong)
  qed
qed

lemma set_listed [simp]: "set (listed b) = {x \<in> set b. is_json_file (fst x)}"
  by (auto simp: listed_def)

lemma in_reservations:
  "r \<in> set (reservations b) \<longleftrightarrow> (\<exists>n doc. (n, doc) \<in> set b \<and> is_json_file n \<and> read_reservation doc = Some r)"
  by (auto simp: reservations_def set_map_filter)

lemma reservations_entries:
  assumes "book_wf b" shows "r \<in> set (reservations b) \<longleftrightarrow> entry b (res_pid r) = Some r"
proof -
  have "n = file_name (res_pid r)" if "(n, doc) \<in> set b" "read_reservation doc = Some r" for n doc
    using assms that by (auto simp: book_wf_def)
  then show ?thesis unfolding in_reservations entry_in [OF assms] by (metis file_name_is_json)
qed

lemma distinct_readable:
  assumes "distinct (map fst fs)"
    and "\<forall>(n, doc) \<in> set fs. \<forall>r. read_reservation doc = Some r \<longrightarrow> n = file_name (res_pid r)"
  shows "distinct (map res_pid (List.map_filter (\<lambda>(_, doc). read_reservation doc) fs))"
  using assms
proof (induction fs)
  case Nil
  then show ?case by (simp add: map_filter_simps)
next
  case (Cons f fs)
  obtain n doc where f: "f = (n, doc)" by (cases f)
  show ?case
  proof (cases "read_reservation doc")
    case None
    then show ?thesis using Cons f by (simp add: map_filter_simps)
  next
    case (Some r)
    have "res_pid r \<notin> res_pid ` set (List.map_filter (\<lambda>(_, doc). read_reservation doc) fs)"
    proof
      assume "res_pid r \<in> res_pid ` set (List.map_filter (\<lambda>(_, doc). read_reservation doc) fs)"
      then obtain n' doc' r' where r': "(n', doc') \<in> set fs" "read_reservation doc' = Some r'"
        "res_pid r' = res_pid r"
        by (auto simp: set_map_filter)
      then have "n' = file_name (res_pid r')" "n' \<in> fst ` set fs" using Cons.prems(2) by force+
      then show False using Cons.prems r'(3) Some f by auto
    qed
    then show ?thesis using Cons f Some by (simp add: map_filter_simps)
  qed
qed

lemma distinct_reservations: "book_wf b \<Longrightarrow> distinct (map res_pid (reservations b))"
  unfolding reservations_def
  by (rule distinct_readable) (auto simp: listed_def book_wf_def distinct_map inj_on_def)

lemma others_listing:
  "fst (others running fp own b)
     = map (as_seen fp) (filter (\<lambda>r. res_pid r \<noteq> own \<and> running (res_pid r)) (reservations b))"
  by (simp add: others_def others_loop_eq reservations_def)

lemma others_book:
  "snd (others running fp own b)
     = filter (\<lambda>x. \<not> (\<exists>f \<in> set (listed b). fst f = fst x \<and> doomed running own (snd f))) b"
  by (simp add: others_def others_loop_eq)

lemma book_wf_others: "book_wf b \<Longrightarrow> book_wf (snd (others running fp own b))"
  by (simp add: others_book book_wf_filter)

lemma kept_by_others:
  assumes "book_wf b"
  shows "x \<in> set (snd (others running fp own b)) \<longleftrightarrow>
           x \<in> set b \<and> \<not> (is_json_file (fst x) \<and> doomed running own (snd x))"
proof -
  have "snd f = snd x" if "f \<in> set b" "x \<in> set b" "fst f = fst x" for f
    using assms that by (cases f; cases x) (auto simp: book_wf_def dest: eq_key_imp_eq_value)
  then show ?thesis unfolding others_book by auto
qed

lemma entry_others:
  assumes "book_wf b"
  shows "entry (snd (others running fp own b)) p = (if p = own \<or> running p then entry b p else None)"
proof -
  have pid: "res_pid r = p" if "(file_name p, d) \<in> set b" "read_reservation d = Some r" for d r
    using assms that by (fastforce simp: book_wf_def)
  have fate: "doomed running own d \<longleftrightarrow> p \<noteq> own \<and> \<not> running p"
    if "(file_name p, d) \<in> set b" "read_reservation d = Some r" for d r
    using that pid [OF that] by (simp add: doomed_def)
  have "entry (snd (others running fp own b)) p = Some r
    \<longleftrightarrow> entry b p = Some r \<and> (p = own \<or> running p)" for r
    unfolding entry_in [OF book_wf_others [OF assms]] entry_in [OF assms] kept_by_others [OF assms]
    using fate by (simp; blast)
  then show ?thesis by (metis not_Some_eq)
qed

section \<open>What a ledger of reservations promises\<close>

text \<open>
  The memory a set of processes was promised and has not taken up, given what each holds.
\<close>

definition owed :: "(int \<Rightarrow> reservation option) \<Rightarrow> (int \<Rightarrow> int) \<Rightarrow> int set \<Rightarrow> int" where
  "owed E held S = (\<Sum>p \<in> dom E \<inter> S. max 0 (reserved_bytes (the (E p)) - held p))"

locale reservation_ledger =
  fixes lookup :: "'b \<Rightarrow> int \<Rightarrow> reservation option" and wf :: "'b \<Rightarrow> bool"
    and put :: "reservation \<Rightarrow> 'b \<Rightarrow> 'b" and strike :: "int \<Rightarrow> 'b \<Rightarrow> 'b"
    and survey :: "(int \<Rightarrow> bool) \<Rightarrow> (int \<Rightarrow> int option) \<Rightarrow> int \<Rightarrow> 'b \<Rightarrow> other_reservation list \<times> 'b"
  assumes wf_put: "wf b \<Longrightarrow> wf (put r b)" and wf_strike: "wf b \<Longrightarrow> wf (strike p b)"
    and wf_survey: "wf b \<Longrightarrow> wf (snd (survey run fp own b))"
    and lookup_put: "wf b \<Longrightarrow> lookup (put r b) p
           = (if p = res_pid r then Some (r\<lparr>res_live := Some (is_live r)\<rparr>) else lookup b p)"
    and lookup_strike: "wf b \<Longrightarrow> lookup (strike q b) p = (if p = q then None else lookup b p)"
    and lookup_survey: "wf b \<Longrightarrow> lookup (snd (survey run fp own b)) p
           = (if p = own \<or> run p then lookup b p else None)"
    and survey_complete: "wf b \<Longrightarrow> lookup b p = Some r \<Longrightarrow> p \<noteq> own \<Longrightarrow> run p \<Longrightarrow>
           as_seen fp r \<in> set (fst (survey run fp own b))"
    and survey_seen: "ot \<in> set (fst (survey run fp own b)) \<Longrightarrow>
           held_bytes ot = fp (res_pid (reservation_of ot))"
    and lookup_pid: "wf b \<Longrightarrow> lookup b p = Some r \<Longrightarrow> res_pid r = p"
    and lookup_finite: "finite (dom (lookup b))"

lemma promised_bytes_nonneg [simp]: "0 \<le> promised_bytes ot"
  by (simp add: promised_bytes_def)

context reservation_ledger
begin

text \<open>
  What the counted part of a survey adds up to covers what the surveyed processes are owed,
  whatever footprints could not be read.
\<close>

lemma owed_le_counted:
  assumes "wf b" and "\<And>p. 0 \<le> held p" and "\<And>p. fp p = None \<or> fp p = Some (held p)"
    and "\<And>p. p \<in> S \<Longrightarrow> p \<noteq> own \<and> run p"
    and "\<And>p r. p \<in> S \<Longrightarrow> lookup b p = Some r \<Longrightarrow> P (as_seen fp r)"
  shows "owed (lookup b) held S \<le> sum_list (map promised_bytes (filter P (fst (survey run fp own b))))"
proof -
  let ?D = "dom (lookup b) \<inter> S" and ?seen = "\<lambda>p. as_seen fp (the (lookup b p))"
  let ?os = "filter P (fst (survey run fp own b))"
  have pid: "res_pid (the (lookup b p)) = p" if "p \<in> ?D" for p
    using that assms(1) lookup_pid by auto
  have "owed (lookup b) held S \<le> (\<Sum>p \<in> ?D. promised_bytes (?seen p))"
    unfolding owed_def
  proof (rule sum_mono)
    fix p assume "p \<in> ?D"
    then show "max 0 (reserved_bytes (the (lookup b p)) - held p) \<le> promised_bytes (?seen p)"
      using assms(2,3) [of p] pid by (auto simp: promised_bytes_def)
  qed
  also have "\<dots> = (\<Sum>ot \<in> ?seen ` ?D. promised_bytes ot)"
  proof (rule sum.reindex [symmetric, unfolded o_def])
    show "inj_on ?seen ?D" using pid by (metis (mono_tags, lifting) as_seen_sel(1) inj_onI)
  qed
  also have "\<dots> \<le> (\<Sum>ot \<in> set ?os. promised_bytes ot)"
  proof (rule sum_mono2)
    show "?seen ` ?D \<subseteq> set ?os"
      using assms(1,4,5) survey_complete by (auto 0 3)
  qed simp_all
  also have "\<dots> \<le> sum_list (map promised_bytes ?os)" by (rule sum_set_le_sum_list) simp
  finally show ?thesis .
qed

text \<open>One more reservation owes at most what it reserves.\<close>

lemma owed_after_put:
  assumes "wf b" and "0 \<le> reserved_bytes r" and "0 \<le> held (res_pid r)"
    and "S' - {res_pid r} \<subseteq> {p. run p}" and "own = res_pid r"
  shows "owed (lookup (put r (snd (survey run fp own b)))) held S'
       \<le> reserved_bytes r + owed (lookup b) held (S' - {res_pid r})"
proof -
  let ?b = "snd (survey run fp own b)"
  let ?f = "\<lambda>E p. max 0 (reserved_bytes (the (E p)) - held p)"
  have E: "lookup (put r ?b) p = (if p = res_pid r then Some (r\<lparr>res_live := Some (is_live r)\<rparr>)
      else if run p then lookup b p else None)" for p
    using lookup_put [OF wf_survey [OF assms(1)]] lookup_survey [OF assms(1)] assms(5) by simp
  have rest: "dom (lookup (put r ?b)) \<inter> S' - {res_pid r} = dom (lookup b) \<inter> (S' - {res_pid r})"
    using assms(4) E by (auto split: if_splits)
  have fin: "finite (dom (lookup (put r ?b)) \<inter> S')" using lookup_finite by blast
  have "owed (lookup (put r ?b)) held S'
      \<le> ?f (lookup (put r ?b)) (res_pid r)
        + (\<Sum>p \<in> dom (lookup (put r ?b)) \<inter> S' - {res_pid r}. ?f (lookup (put r ?b)) p)"
    unfolding owed_def
    by (cases "res_pid r \<in> dom (lookup (put r ?b)) \<inter> S'") (simp_all add: sum.remove [OF fin])
  also have "(\<Sum>p \<in> dom (lookup (put r ?b)) \<inter> S' - {res_pid r}. ?f (lookup (put r ?b)) p)
      = owed (lookup b) held (S' - {res_pid r})"
    unfolding owed_def rest using assms(4) E by (intro sum.cong) auto
  also have "?f (lookup (put r ?b)) (res_pid r) \<le> reserved_bytes r"
    using assms(2,3) E by simp
  finally show ?thesis by simp
qed

lemma owed_mono:
  assumes "\<And>p r. p \<in> S \<Longrightarrow> lookup b' p = Some r \<Longrightarrow> p \<in> S' \<and> lookup b p = Some r"
  shows "owed (lookup b') held S \<le> owed (lookup b) held S'"
proof -
  have "owed (lookup b') held S = owed (lookup b) held (dom (lookup b') \<inter> S)"
    unfolding owed_def using assms by (intro sum.cong) (force, fastforce)
  also have "\<dots> \<le> owed (lookup b) held S'"
    unfolding owed_def using assms lookup_finite [of b] by (intro sum_mono2) auto
  finally show ?thesis .
qed

end

interpretation res_book: reservation_ledger entry book_wf write_reservation remove_reservation others
proof
  show "as_seen fp r \<in> set (fst (others run fp own b))"
    if "book_wf b" "entry b p = Some r" "p \<noteq> own" "run p" for b p r own run fp
    using that entry_pid [OF that(1,2)] reservations_entries [OF that(1)] by (auto simp: others_listing)
qed (auto simp: book_wf_write book_wf_others book_wf_remove entry_write entry_remove entry_others
       entry_pid finite_entries others_listing)

section \<open>Cases of one check\<close>

lemma memory_check_admitted:
  assumes "memory_check a e cb f b s = (d, b', s')" and "admitted d"
  obtains m waiting where "probe_read e = Some m" "write_ok e"
    "waiting = (if adm_live a then [] else the (notices_read e))" "waiting = []"
    "adm_live a \<or> notices_read e = Some []"
    "d_counted d = (if adm_live a
        then filter (counts_for_live cb) (fst (others (env_running e) (env_footprint e) (own_pid e) b))
        else fst (others (env_running e) (env_footprint e) (own_pid e) b))"
    "d_set_aside d = (if adm_live a
        then filter (\<lambda>ot. ot \<notin> set (d_counted d)) (fst (others (env_running e) (env_footprint e) (own_pid e) b))
        else [])"
    "adm_required a + adm_reserve a \<le> available_bytes m - sum_list (map promised_bytes (d_counted d))"
    "severity (pressure m) \<le> severity (adm_max_pressure a)" "pressure m \<noteq> CRITICAL"
    "b' = write_reservation (own_reservation a e) (snd (others (env_running e) (env_footprint e) (own_pid e) b))"
    "s' = f d s"
  using assms
  by (auto simp: memory_check_def decide_load_def refused_def Let_def split: if_splits option.splits prod.splits)

lemma memory_check_refused:
  assumes "memory_check a e cb f b s = (d, b', s')" and "\<not> admitted d"
  shows "b' = b \<or> b' = snd (others (env_running e) (env_footprint e) (own_pid e) b)"
    and "s' = (if d_cause d = Some UNMEASURED then s else f d s)"
  using assms
  by (auto simp: memory_check_def decide_load_def refused_def Let_def split: if_splits option.splits prod.splits)

section \<open>The host: every process, the rest of the system, and the measurements\<close>

text \<open>
  The processes alive, what each holds, the directory, the live servers' notices and the memory
  available. Two parts are not state of the program: \<open>drawn\<close> is what everything else on the
  host has taken since it last held least, with what processes took outside a promise that counts, and \<open>waived\<close> the processes whose promise does not
  count: background jobs a live server was admitted past, until they stop or are admitted anew,
  and a process that has just started and may find the reservation of a dead one with its number.
\<close>

record host =
  avail :: int
  drawn :: int
  held :: "int \<Rightarrow> int"
  alive :: "int set"
  book_dir :: book
  servers :: "int \<Rightarrow> live_server"
  waived :: "int set"

text \<open>Each check sees the host as it is, or fails to; a footprint can be unreadable.\<close>

definition sees_host :: "check_env \<Rightarrow> host \<Rightarrow> bool" where
  "sees_host e h \<longleftrightarrow>
     own_pid e \<in> alive h \<and> env_running e = (\<lambda>p. p \<in> alive h)
     \<and> (\<forall>p. env_footprint e p = None \<or> env_footprint e p = Some (held h p))
     \<and> (\<forall>m. probe_read e = Some m \<longrightarrow> available_bytes m = avail h)
     \<and> (\<forall>ws. notices_read e = Some ws \<longrightarrow> set (map w_pid ws) = {p \<in> alive h. posted (servers h p)})"

datatype event =
  BackgroundAdmitted int | LiveAdmitted int | Refusal int | Took int | GaveBack int | Released int
  | Ticked int | Exited int | Started int | RestOfHost

fun actor :: "event \<Rightarrow> int option" where
  "actor (BackgroundAdmitted p) = Some p" | "actor (LiveAdmitted p) = Some p"
| "actor (Refusal p) = Some p" | "actor (Took p) = Some p" | "actor (GaveBack p) = Some p"
| "actor (Released p) = Some p" | "actor (Ticked p) = Some p" | "actor (Exited p) = Some p"
| "actor (Started p) = Some p" | "actor RestOfHost = None"

text \<open>
  The steps, for a host configured with the reserve \<open>R\<close>. A process takes memory under a reservation
  that counts, up to what it reserves, or outside one: without a reservation, beyond it, or on a promise
  a live server was admitted past. It may give memory back at any time.
\<close>

inductive host_step :: "int \<Rightarrow> event \<Rightarrow> host \<Rightarrow> host \<Rightarrow> bool" for R :: int where
  background: "sees_host e h \<Longrightarrow> \<not> adm_live a \<Longrightarrow> adm_reserve a = R \<Longrightarrow> 0 \<le> adm_required a \<Longrightarrow>
    memory_check a e cb (\<lambda>_ u. u) (book_dir h) () = (d, b, u) \<Longrightarrow>
    host_step R (if admitted d then BackgroundAdmitted (own_pid e) else Refusal (own_pid e)) h
      (h\<lparr>book_dir := b, waived := (if admitted d then waived h - {own_pid e} else waived h)\<rparr>)"
| live: "sees_host e h \<Longrightarrow> adm_live a \<Longrightarrow> adm_reserve a = R \<Longrightarrow> 0 \<le> adm_required a \<Longrightarrow>
    live_check cfg a e post_ok t0 t1 t2 (book_dir h) (servers h (own_pid e)) = (d, b, s) \<Longrightarrow>
    host_step R (if admitted d then LiveAdmitted (own_pid e) else Refusal (own_pid e)) h
      (h\<lparr>book_dir := b, servers := (servers h)(own_pid e := s),
         waived := (if admitted d
           then waived h \<union> set (map (res_pid \<circ> reservation_of) (d_set_aside d)) - {own_pid e}
           else waived h)\<rparr>)"
| take: "p \<in> alive h \<Longrightarrow> p \<notin> waived h \<Longrightarrow> entry (book_dir h) p = Some r \<Longrightarrow> 0 \<le> n \<Longrightarrow>
    held h p + n \<le> reserved_bytes r \<Longrightarrow>
    host_step R (Took p) h (h\<lparr>held := (held h)(p := held h p + n), avail := avail h - n\<rparr>)"
| overrun: "p \<in> alive h \<Longrightarrow> 0 \<le> n \<Longrightarrow>
    host_step R (Took p) h
      (h\<lparr>held := (held h)(p := held h p + n), avail := avail h - n, drawn := drawn h + n\<rparr>)"
| give_back: "0 \<le> n \<Longrightarrow> n \<le> held h p \<Longrightarrow>
    host_step R (GaveBack p) h (h\<lparr>held := (held h)(p := held h p - n), avail := avail h + n\<rparr>)"
| rest: "host_step R RestOfHost h (h\<lparr>avail := avail h - n, drawn := max 0 (drawn h + n)\<rparr>)"
| release: "host_step R (Released p) h (h\<lparr>book_dir := admission_release p (book_dir h)\<rparr>)"
| server_release: "live_release p (book_dir h) (servers h p) = (b, s) \<Longrightarrow>
    host_step R (Released p) h (h\<lparr>book_dir := b, servers := (servers h)(p := s)\<rparr>)"
| reload: "release_for_reload p post_ok t (book_dir h) (servers h p) = (b, s) \<Longrightarrow>
    host_step R (Released p) h (h\<lparr>book_dir := b, servers := (servers h)(p := s)\<rparr>)"
| tick: "b = None \<or> b = Some (book_dir h) \<Longrightarrow>
    host_step R (Ticked p) h
      (h\<lparr>servers := (servers h)(p := tick cfg p (\<lambda>q. q \<in> alive h) b t (servers h p))\<rparr>)"
| exit: "host_step R (Exited p) h
    (h\<lparr>alive := alive h - {p}, avail := avail h + held h p, held := (held h)(p := 0),
       servers := (servers h)(p := new_live_server)\<rparr>)"
| start: "p \<notin> alive h \<Longrightarrow> held h p = 0 \<Longrightarrow>
    host_step R (Started p) h
      (h\<lparr>alive := insert p (alive h), servers := (servers h)(p := new_live_server),
         waived := insert p (waived h)\<rparr>)"

inductive host_run :: "int \<Rightarrow> event list \<Rightarrow> host \<Rightarrow> host \<Rightarrow> bool" for R :: int where
  stop: "host_run R [] h h"
| more: "host_step R ev h h1 \<Longrightarrow> host_run R evs h1 h2 \<Longrightarrow> host_run R (ev # evs) h h2"

inductive_cases host_runE: "host_run R (ev # evs) h h2"
inductive_simps host_run_Nil [simp]: "host_run R [] h h'"

text \<open>The processes whose promise counts, and the state in which nothing is overcommitted.\<close>

definition counted_processes :: "host \<Rightarrow> int set" where
  "counted_processes h = alive h - waived h"

definition host_wf :: "host \<Rightarrow> bool" where
  "host_wf h \<longleftrightarrow> book_wf (book_dir h) \<and> (\<forall>p. 0 \<le> held h p) \<and> 0 \<le> drawn h"

definition fits :: "int \<Rightarrow> host \<Rightarrow> bool" where
  "fits R h \<longleftrightarrow>
     (dom (entry (book_dir h)) \<inter> counted_processes h \<noteq> {} \<longrightarrow>
        R + owed (entry (book_dir h)) (held h) (counted_processes h) \<le> avail h + drawn h)"

lemma host_wf_step: "host_step R ev h h' \<Longrightarrow> host_wf h \<Longrightarrow> host_wf h'"
proof (induction rule: host_step.induct)
  case (background e h a cb d b u)
  then show ?case
    by (cases "admitted d")
      (auto simp: host_wf_def book_wf_write book_wf_others
        elim: memory_check_admitted dest: memory_check_refused(1))
next
  case (live e h a cfg post_ok t0 t1 t2 d b s)
  then show ?case unfolding live_check_def
    by (cases "admitted d")
      (auto simp: host_wf_def book_wf_write book_wf_others
        elim: memory_check_admitted dest: memory_check_refused(1))
qed (auto simp: host_wf_def admission_release_def live_release_def release_for_reload_def book_wf_remove)

text \<open>A smaller set of honoured promises, on the same host, still fits.\<close>

lemma fits_fewer:
  assumes "fits R h" and "avail h' + drawn h' = avail h + drawn h" and "held h' = held h"
    and "\<And>p r. p \<in> counted_processes h' \<Longrightarrow> entry (book_dir h') p = Some r \<Longrightarrow>
           p \<in> counted_processes h \<and> entry (book_dir h) p = Some r"
  shows "fits R h'"
proof -
  have "owed (entry (book_dir h')) (held h) (counted_processes h')
      \<le> owed (entry (book_dir h)) (held h) (counted_processes h)"
    using assms(4) by (rule res_book.owed_mono)
  then show ?thesis using assms unfolding fits_def by fastforce
qed

text \<open>The arithmetic of an admission.\<close>

lemma fits_admitted:
  assumes "host_wf h" and "sees_host e h" and "0 \<le> adm_required a" and "adm_reserve a = R"
    and "memory_check a e cb f (book_dir h) s = (d, b, s')" and "admitted d"
    and "book_dir h' = b" and "avail h' = avail h" "drawn h' = drawn h" "held h' = held h"
    and "counted_processes h' \<subseteq> alive h"
    and "\<And>ot. ot \<in> set (d_set_aside d) \<Longrightarrow> res_pid (reservation_of ot) \<notin> counted_processes h' - {own_pid e}"
  shows "fits R h'"
proof -
  let ?r = "own_reservation a e" and ?S = "counted_processes h'"
  let ?os = "fst (others (env_running e) (env_footprint e) (own_pid e) (book_dir h))"
  have wf: "book_wf (book_dir h)" and held: "\<And>p. 0 \<le> held h p" "0 \<le> drawn h"
    using assms(1) by (auto simp: host_wf_def)
  have run: "env_running e = (\<lambda>p. p \<in> alive h)"
    and fp: "\<And>p. env_footprint e p = None \<or> env_footprint e p = Some (held h p)"
    using assms(2) by (auto simp: sees_host_def)
  obtain m where m: "available_bytes m = avail h"
    and room: "adm_required a + R \<le> available_bytes m - sum_list (map promised_bytes (d_counted d))"
    and b: "b = write_reservation ?r (snd (others (env_running e) (env_footprint e) (own_pid e) (book_dir h)))"
    and counted: "d_counted d = (if adm_live a then filter (counts_for_live cb) ?os else ?os)"
    and aside: "d_set_aside d = (if adm_live a then filter (\<lambda>ot. ot \<notin> set (d_counted d)) ?os else [])"
    using assms(2,4-6) by (elim memory_check_admitted) (auto simp: sees_host_def)
  obtain P where P: "d_counted d = filter P ?os" "\<And>ot. ot \<in> set ?os \<Longrightarrow> P ot \<or> ot \<in> set (d_set_aside d)"
  proof (cases "adm_live a")
    case True
    then show ?thesis using counted aside by (intro that [of "counts_for_live cb"]) auto
  next
    case False
    then show ?thesis using counted by (intro that [of "\<lambda>_. True"]) auto
  qed
  have own: "res_pid ?r = own_pid e" "reserved_bytes ?r = adm_required a"
    by (simp_all add: own_reservation_def)
  have "owed (entry (book_dir h)) (held h) (?S - {own_pid e}) \<le> sum_list (map promised_bytes (filter P ?os))"
  proof (rule res_book.owed_le_counted [OF wf held(1) fp])
    show "p \<noteq> own_pid e \<and> env_running e p" if "p \<in> ?S - {own_pid e}" for p
      using that assms(11) by (auto simp: run)
    fix p r assume p: "p \<in> ?S - {own_pid e}" "entry (book_dir h) p = Some r"
    then have "as_seen (env_footprint e) r \<in> set ?os" "res_pid r = p"
      using res_book.survey_complete [OF wf p(2)] entry_pid [OF wf p(2)] assms(11) by (auto simp: run)
    then show "P (as_seen (env_footprint e) r)"
      using P(2) assms(12) p(1) by fastforce
  qed
  moreover have "owed (entry b) (held h) ?S
      \<le> adm_required a + owed (entry (book_dir h)) (held h) (?S - {own_pid e})"
  proof -
    have "?S - {res_pid ?r} \<subseteq> {p. env_running e p}" using assms(11) by (auto simp: run)
    with res_book.owed_after_put [OF wf _ held(1) this own(1) [symmetric]] assms(3)
    show ?thesis unfolding b own by simp
  qed
  ultimately have "R + owed (entry b) (held h) ?S \<le> avail h + drawn h"
    using room held(2) unfolding m P(1) by linarith
  then show ?thesis unfolding fits_def assms(7-10) by blast
qed

lemma owed_take:
  assumes "E p = Some r" and "p \<in> S" and "finite (dom E)" and "0 \<le> n" and "used p + n \<le> reserved_bytes r"
  shows "owed E (used(p := used p + n)) S = owed E used S - n"
proof -
  have D: "finite (dom E \<inter> S)" "p \<in> dom E \<inter> S" using assms by auto
  show ?thesis unfolding owed_def
    by (subst (1 2) sum.remove [OF D]) (use assms in \<open>simp add: max_def\<close>)
qed

lemma owed_give_back:
  assumes "finite (dom E)" and "0 \<le> n"
  shows "owed E (used(p := used p - n)) S \<le> owed E used S + n"
proof (cases "p \<in> dom E \<inter> S")
  case True
  then show ?thesis unfolding owed_def
    by (subst (1 2) sum.remove [where x = p]) (use assms in \<open>auto simp: max_def\<close>)
next
  case False
  then have "owed E (used(p := used p - n)) S = owed E used S"
    unfolding owed_def by (intro sum.cong) auto
  then show ?thesis using assms by simp
qed

lemma refusal_keeps_entries:
  assumes "book_wf (book_dir h)" and "memory_check a e cb f (book_dir h) s = (d, b, s')" and "\<not> admitted d"
    and "entry b p = Some r"
  shows "entry (book_dir h) p = Some r"
  using memory_check_refused(1) [OF assms(2,3)] assms(4) entry_others [OF assms(1)]
  by (auto split: if_splits)

lemma fits_step: "host_step R ev h h' \<Longrightarrow> host_wf h \<Longrightarrow> fits R h \<Longrightarrow> fits R h'"
proof (induction rule: host_step.induct)
  case (background e h a cb d b u)
  then have wf: "book_wf (book_dir h)" by (simp add: host_wf_def)
  show ?case
  proof (cases "admitted d")
    case True
    have "d_set_aside d = []"
      using background.hyps(2,5) True by (elim memory_check_admitted) auto
    then show ?thesis using background True
      by (intro fits_admitted [OF background.prems(1) background.hyps(1,4,3,5) True])
        (auto simp: counted_processes_def sees_host_def)
  next
    case False
    then show ?thesis using refusal_keeps_entries [OF wf background.hyps(5) False]
      by (intro fits_fewer [OF background.prems(2)]) (auto simp: counted_processes_def)
  qed
next
  case (live e h a cfg post_ok t0 t1 t2 d b s)
  then have wf: "book_wf (book_dir h)" by (simp add: host_wf_def)
  note check = live.hyps(5) [unfolded live_check_def]
  show ?case
  proof (cases "admitted d")
    case True
    then show ?thesis using live
      by (intro fits_admitted [OF live.prems(1) live.hyps(1,4,3) check True])
        (auto simp: counted_processes_def sees_host_def image_iff)
  next
    case False
    then show ?thesis using refusal_keeps_entries [OF wf check False]
      by (intro fits_fewer [OF live.prems(2)]) (auto simp: counted_processes_def)
  qed
next
  case (take p h r n)
  have "owed (entry (book_dir h)) ((held h)(p := held h p + n)) (counted_processes h)
      = owed (entry (book_dir h)) (held h) (counted_processes h) - n"
    using take by (intro owed_take finite_entries) (auto simp: counted_processes_def)
  moreover have "dom (entry (book_dir h)) \<inter> counted_processes h \<noteq> {}"
    using take by (auto simp: counted_processes_def)
  ultimately show ?case using take.prems(2) by (simp add: fits_def counted_processes_def)
next
  case (overrun p h n)
  have "owed (entry (book_dir h)) ((held h)(p := held h p + n)) (counted_processes h)
      \<le> owed (entry (book_dir h)) (held h) (counted_processes h)"
    unfolding owed_def using overrun(2) by (intro sum_mono) auto
  then show ?case using overrun.prems(2) by (auto simp: fits_def counted_processes_def)
next
  case (give_back n h p)
  have "owed (entry (book_dir h)) ((held h)(p := held h p - n)) (counted_processes h)
      \<le> owed (entry (book_dir h)) (held h) (counted_processes h) + n"
    using give_back by (intro owed_give_back finite_entries)
  then show ?case using give_back.prems(2) by (auto simp: fits_def counted_processes_def)
next
  case (rest h n)
  then show ?case by (auto simp: fits_def counted_processes_def)
next
  case (release h p)
  then show ?case
    by (intro fits_fewer [OF release.prems(2)])
      (auto simp: admission_release_def entry_remove counted_processes_def split: if_splits)
next
  case (server_release p h b s)
  then show ?case
    by (intro fits_fewer [OF server_release.prems(2)])
      (auto simp: live_release_def admission_release_def entry_remove counted_processes_def split: if_splits)
next
  case (reload p post_ok t h b s)
  then show ?case
    by (intro fits_fewer [OF reload.prems(2)])
      (auto simp: release_for_reload_def admission_release_def entry_remove counted_processes_def split: if_splits)
next
  case (tick b h p cfg t)
  then show ?case by (simp add: fits_def counted_processes_def)
next
  case (exit p h)
  let ?S = "alive h - {p} - waived h"
  have "owed (entry (book_dir h)) ((held h)(p := 0)) ?S = owed (entry (book_dir h)) (held h) ?S"
    unfolding owed_def by (intro sum.cong) auto
  also have "\<dots> \<le> owed (entry (book_dir h)) (held h) (alive h - waived h)"
    by (rule res_book.owed_mono) auto
  finally have le: "owed (entry (book_dir h)) ((held h)(p := 0)) ?S
      \<le> owed (entry (book_dir h)) (held h) (alive h - waived h)" .
  have "0 \<le> held h p" using exit.prems(1) by (simp add: host_wf_def)
  moreover have "R + owed (entry (book_dir h)) (held h) (alive h - waived h) \<le> avail h + drawn h"
    if "dom (entry (book_dir h)) \<inter> ?S \<noteq> {}"
    using exit.prems(2) that by (auto simp: fits_def counted_processes_def)
  ultimately have "R + owed (entry (book_dir h)) ((held h)(p := 0)) ?S \<le> avail h + held h p + drawn h"
    if "dom (entry (book_dir h)) \<inter> ?S \<noteq> {}" using le that by fastforce
  then show ?case by (simp add: fits_def counted_processes_def)
next
  case (start p h)
  have "insert p (alive h) - insert p (waived h) = alive h - waived h" using start by auto
  then show ?case using start.prems(2) by (simp add: fits_def counted_processes_def)
qed

lemma fits_run: "host_run R evs h h' \<Longrightarrow> host_wf h \<Longrightarrow> fits R h \<Longrightarrow> host_wf h' \<and> fits R h'"
  by (induction rule: host_run.induct) (auto dest: host_wf_step fits_step)

section \<open>Properties\<close>

text \<open>
  C19: The host is not overcommitted by promises that count: from a state in which nothing is promised yet,
  after any sequence of checks, loads, unloads, releases, exits, crashes and starts, what the admitted
  processes were promised and have not taken up fits in the memory available with the reserve to spare,
  less what the rest of the host took since and what processes took outside such a promise. Not counted
  are the promises of background jobs a live server was admitted past, and those of processes that
  started under the number of a dead one and were not admitted since.
\<close>

theorem no_overcommit:
  assumes "host_run R evs h0 h1" and "book_wf (book_dir h0)" and "\<forall>p. 0 \<le> held h0 p" and "0 \<le> drawn h0"
    and "\<forall>p \<in> alive h0 - waived h0. entry (book_dir h0) p = None"
    and "q \<in> alive h1 - waived h1" and "entry (book_dir h1) q = Some r"
  shows "R + (\<Sum>p \<in> {p \<in> alive h1 - waived h1. entry (book_dir h1) p \<noteq> None}.
             max 0 (reserved_bytes (the (entry (book_dir h1) p)) - held h1 p)) \<le> avail h1 + drawn h1"
proof -
  have "host_wf h0" "fits R h0"
    using assms(2-5) by (auto simp: host_wf_def fits_def counted_processes_def)
  then have "fits R h1" using fits_run assms(1) by blast
  moreover have "dom (entry (book_dir h1)) \<inter> (alive h1 - waived h1)
      = {p \<in> alive h1 - waived h1. entry (book_dir h1) p \<noteq> None}" by auto
  moreover have "q \<in> dom (entry (book_dir h1)) \<inter> (alive h1 - waived h1)" using assms(6,7) by auto
  ultimately show ?thesis by (auto simp: fits_def owed_def counted_processes_def)
qed

text \<open>An idle host with 40 units and two processes; the first is a background job.\<close>

definition sample_host :: host where
  "sample_host = \<lparr>avail = 40, drawn = 0, held = (\<lambda>_. 0), alive = {7, 9}, book_dir = [],
     servers = (\<lambda>_. new_live_server), waived = {}\<rparr>"

definition sample_env :: "int \<Rightarrow> check_env" where
  "sample_env p = \<lparr>own_pid = p, lock_taken = True,
     probe_read = Some \<lparr>total_bytes = 64, free_bytes = 30, inactive_bytes = 6, speculative_bytes = 4,
                        pressure = NORMAL\<rparr>,
     env_running = (\<lambda>q. q \<in> {7, 9}), env_footprint = (\<lambda>_. Some 0), notices_read = Some [],
     write_ok = True, now_text = ''now''\<rparr>"

definition sample_job :: admission where
  "sample_job = \<lparr>adm_role = SEGMENT, adm_required = 21, adm_reserve = 8, adm_max_pressure = NORMAL,
     adm_command = ''imsg segment'', adm_live = False\<rparr>"

definition sample_server :: admission where
  "sample_server = \<lparr>adm_role = PUBLIC_SERVER, adm_required = 17, adm_reserve = 8,
     adm_max_pressure = NORMAL, adm_command = ''imsg mcp public'', adm_live = True\<rparr>"

lemma sample_admission:
  "admitted (fst (memory_check sample_job (sample_env 7) True (\<lambda>_ u. u) [] ()))"
  "entry (fst (snd (memory_check sample_job (sample_env 7) True (\<lambda>_ u. u) [] ()))) 7
     = Some \<lparr>res_pid = 7, res_role = ''segment'', reserved_bytes = 21, admitted_at = ''now'',
             res_command = ''imsg segment'', res_live = Some False\<rparr>"
  by code_simp+

theorem no_overcommit_witness:
  "\<exists>evs h1. host_run 8 evs sample_host h1 \<and> evs = [BackgroundAdmitted 7]
     \<and> 8 + (\<Sum>p \<in> {p \<in> alive h1 - waived h1. entry (book_dir h1) p \<noteq> None}.
             max 0 (reserved_bytes (the (entry (book_dir h1) p)) - held h1 p)) \<le> 40"
proof -
  obtain d b u where check: "memory_check sample_job (sample_env 7) True (\<lambda>_ u. u) [] () = (d, b, u)"
    by (cases "memory_check sample_job (sample_env 7) True (\<lambda>_ u. u) [] ()")
  let ?h1 = "sample_host\<lparr>book_dir := b, waived := {}\<rparr>"
  have d: "admitted d" and b: "entry b 7 \<noteq> None" using sample_admission check by auto
  have "sees_host (sample_env 7) sample_host"
    by (simp add: sees_host_def sample_env_def sample_host_def new_live_server_def posted_def
        available_bytes_def)
  then have "host_step 8 (if admitted d then BackgroundAdmitted (own_pid (sample_env 7))
        else Refusal (own_pid (sample_env 7))) sample_host
      (sample_host\<lparr>book_dir := b, waived := (if admitted d then waived sample_host - {own_pid (sample_env 7)}
         else waived sample_host)\<rparr>)"
    by (rule host_step.background [where a = sample_job and cb = True and u = u])
      (use check in \<open>simp_all add: sample_job_def sample_host_def\<close>)
  then have run: "host_run 8 [BackgroundAdmitted 7] sample_host ?h1"
    using d by (auto simp: sample_env_def sample_host_def intro: host_run.intros)
  from b obtain r where "entry b 7 = Some r" by auto
  then have "8 + (\<Sum>p \<in> {p \<in> alive ?h1 - waived ?h1. entry (book_dir ?h1) p \<noteq> None}.
             max 0 (reserved_bytes (the (entry (book_dir ?h1) p)) - held ?h1 p)) \<le> avail ?h1 + drawn ?h1"
    by (intro no_overcommit [OF run, of 7]) (simp_all add: sample_host_def entry_def)
  then show ?thesis using run by (auto simp: sample_host_def)
qed

lemma posted_withdraw [simp]: "\<not> posted (withdraw s)"
  by (simp add: posted_def withdraw_def)

lemma posted_post_notice [simp]: "posted (post_notice c ok now s) \<longleftrightarrow> posted s \<or> ok"
  by (auto simp: posted_def post_notice_def Let_def)

text \<open>No step of another process takes a server's notice down, and none is admitted past it.\<close>

lemma notice_step:
  assumes "host_step R ev h h'" and "s \<in> alive h" and "posted (servers h s)" and "actor ev \<noteq> Some s"
  shows "s \<in> alive h' \<and> posted (servers h' s) \<and> ev \<noteq> BackgroundAdmitted p"
  using assms
proof (induction rule: host_step.induct)
  case (background e h a cb d b u)
  have "\<not> admitted d"
  proof
    assume "admitted d"
    then have "notices_read e = Some []"
      using background.hyps(2,5) by (elim memory_check_admitted) auto
    then show False using background.hyps(1) background.prems by (auto simp: sees_host_def)
  qed
  then show ?case using background by auto
next
  case (live e h a cfg post_ok t0 t1 t2 d b s)
  then show ?case by (auto split: if_splits)
qed (auto simp: live_release_def release_for_reload_def)

text \<open>
  Background work gives way: while a live server's notice is up no background load is
  admitted on the host, whatever the other processes and servers do, until that server itself
  loads, is released, lets its notice lapse or exits.
\<close>

theorem background_gives_way:
  assumes "host_run R evs h0 h1" and "s \<in> alive h0" and "posted (servers h0 s)"
    and "Some s \<notin> actor ` set evs"
  shows "BackgroundAdmitted p \<notin> set evs"
  using assms
proof (induction rule: host_run.induct)
  case (more ev h h1 evs h2)
  have "actor ev \<noteq> Some s" using more.prems(3) by auto
  from notice_step [OF more.hyps(1) more.prems(1,2) this]
  have "s \<in> alive h1" "posted (servers h1 s)" "ev \<noteq> BackgroundAdmitted p" by blast+
  then show ?case using more.IH more.prems(3) by auto
qed simp

theorem background_gives_way_witness:
  "BackgroundAdmitted 7 \<notin> set [Ticked 7, RestOfHost]"
proof -
  let ?h = "sample_host\<lparr>servers := (\<lambda>p. if p = 9 then post_notice WAITING True 0 new_live_server
      else new_live_server)\<rparr>"
  obtain h1 where "host_run 8 [Ticked 7, RestOfHost] ?h h1"
    using host_run.more [OF host_step.tick [OF disjI1 [OF refl]]
        host_run.more [OF host_step.rest host_run.stop]] by blast
  then show ?thesis
    by (rule background_gives_way [of _ _ _ _ 9]) (simp_all add: sample_host_def)
qed

text \<open>
  C25: A live server gets through: once its notice has been up for \<open>background_yield_seconds\<close>, its next
  check, when the lock is taken, the host is measured and the reservation can be written, admits it as soon
  as the pressure is not critical and within the server's limit and the memory available, less what other
  live servers were promised, covers its models and the reserve, whatever background jobs were promised; and
  its reservation is then in the directory.
\<close>

theorem live_server_gets_through:
  assumes "sees_host e h" and "adm_live a" and "lock_taken e" and "write_ok e"
    and "probe_read e = Some m" and "pressure m \<noteq> CRITICAL"
    and "severity (pressure m) \<le> severity (adm_max_pressure a)"
    and "posted_at (servers h (own_pid e)) = Some t" and "t + yield_seconds cfg \<le> t0"
    and "adm_required a + adm_reserve a \<le> avail h
           - sum_list (map promised_bytes (filter (is_live \<circ> reservation_of)
               (fst (others (env_running e) (env_footprint e) (own_pid e) (book_dir h)))))"
    and "live_check cfg a e post_ok t0 t1 t2 (book_dir h) (servers h (own_pid e)) = (d, b, s')"
  shows "admitted d \<and> entry b (own_pid e) = Some (own_reservation a e)
         \<and> (s' = withdraw (servers h (own_pid e))
             \<or> ls_cause s' = Some PAST_BACKGROUND \<and> posted s')"
proof -
  let ?os = "fst (others (env_running e) (env_footprint e) (own_pid e) (book_dir h))"
  have no_count: "\<not> background_promises_count cfg t0 (servers h (own_pid e))"
    using assms(8,9) by (auto simp: background_promises_count_def posted_for_def)
  have zero: "sum_list (map promised_bytes (filter (counts_for_live False) xs))
      = sum_list (map promised_bytes (filter (is_live \<circ> reservation_of) xs))" for xs
    by (induction xs) (auto simp: counts_for_live_def)
  have m: "available_bytes m = avail h" using assms(1,5) by (simp add: sees_host_def)
  have room: "\<not> available_bytes m - sum_list (map promised_bytes (filter (counts_for_live False) ?os))
      < adm_required a + adm_reserve a"
    using assms(10) unfolding zero m by linarith
  have res: "own_reservation a e\<lparr>res_live := Some (is_live (own_reservation a e))\<rparr> = own_reservation a e"
    "res_pid (own_reservation a e) = own_pid e"
    by (simp_all add: own_reservation_def is_live_def)
  obtain os b1 where o: "others (env_running e) (env_footprint e) (own_pid e) (book_dir h) = (os, b1)"
    by (cases "others (env_running e) (env_footprint e) (own_pid e) (book_dir h)")
  show ?thesis
    using assms(2-7,11) no_count room o
    by (auto simp: live_check_def memory_check_def decide_load_def Let_def entry_write res settle_notice_def
        assms(8) posted_def post_notice_def)
qed

text \<open>The job was promised 21 and holds 11; 25 are available and 10 of them promised.\<close>

theorem live_server_gets_through_witness:
  "admitted (fst (live_check \<lparr>yield_seconds = 60, lapse_seconds = 120\<rparr> sample_server
      (sample_env 9\<lparr>env_footprint := (\<lambda>p. Some (if p = 7 then 11 else 0)), notices_read := None\<rparr>) True 60 60 60
      (write_reservation (own_reservation sample_job (sample_env 7)) [])
      (new_live_server\<lparr>posted_at := Some 0\<rparr>)))"
proof -
  let ?b = "write_reservation (own_reservation sample_job (sample_env 7)) []"
  let ?e = "sample_env 9\<lparr>env_footprint := (\<lambda>p. Some (if p = 7 then 11 else 0)), notices_read := None\<rparr>"
  let ?h = "sample_host\<lparr>book_dir := ?b, held := (\<lambda>p. if p = 7 then 11 else 0),
      servers := (\<lambda>p. if p = 9 then new_live_server\<lparr>posted_at := Some 0\<rparr> else new_live_server)\<rparr>"
  let ?m = "\<lparr>total_bytes = 64, free_bytes = 30, inactive_bytes = 6, speculative_bytes = 4, pressure = NORMAL\<rparr>"
  obtain d b s where check: "live_check \<lparr>yield_seconds = 60, lapse_seconds = 120\<rparr> sample_server ?e True 60 60 60
      (book_dir ?h) (servers ?h (own_pid ?e)) = (d, b, s)" by (rule prod_cases3)
  have "filter (is_live \<circ> reservation_of) (fst (others (env_running ?e) (env_footprint ?e) 9 ?b)) = []"
    by code_simp
  moreover have pid: "own_pid ?e = 9" by (simp add: sample_env_def)
  moreover have "sees_host ?e ?h"
    by (simp add: sees_host_def sample_env_def sample_host_def available_bytes_def)
  ultimately have "admitted d"
    using live_server_gets_through [OF _ _ _ _ _ _ _ _ _ _ check, of ?m 0]
    by (simp add: sample_server_def sample_host_def) (simp add: sample_env_def)
  then show ?thesis using check pid by (simp add: sample_host_def)
qed

text \<open>
  The check fails closed: a load is admitted only under the admission lock, on a
  measurement of the host whose pressure is admissible and never critical, whose available
  memory covers the footprint, the reserve and every counted promise, with the reservation
  written; a background load also only when the notices were read and none is posted.
\<close>

theorem check_fails_closed:
  assumes "memory_check a e cb f b s = (d, b', s')" and "admitted d"
  shows "lock_taken e \<and> write_ok e \<and> (adm_live a \<or> notices_read e = Some [])
    \<and> (\<exists>m. probe_read e = Some m \<and> severity (pressure m) \<le> severity (adm_max_pressure a)
          \<and> pressure m \<noteq> CRITICAL
          \<and> adm_required a + adm_reserve a
              \<le> available_bytes m - sum_list (map promised_bytes (d_counted d)))
    \<and> entry b' (own_pid e) = Some (own_reservation a e)"
proof -
  have "lock_taken e" using assms by (auto simp: memory_check_def refused_def Let_def split: if_splits)
  moreover have "own_reservation a e\<lparr>res_live := Some (is_live (own_reservation a e))\<rparr> = own_reservation a e"
    by (simp add: own_reservation_def is_live_def)
  ultimately show ?thesis using assms
    by (elim memory_check_admitted) (auto simp: entry_write own_reservation_def)
qed

theorem check_fails_closed_witness:
  "entry (fst (snd (memory_check sample_job (sample_env 7) True (\<lambda>_ u. u) [] ()))) 7
     = Some (own_reservation sample_job (sample_env 7))"
proof -
  obtain d b u where c: "memory_check sample_job (sample_env 7) True (\<lambda>_ u. u) [] () = (d, b, u)"
    by (rule prod_cases3)
  with sample_admission(1) have "admitted d" by simp
  from check_fails_closed [OF c this] c show ?thesis by (simp add: sample_env_def)
qed

text \<open>
  A refused live server is heard: after a refused check its notice is up, and its next
  checks and ticks keep it so, except that a check that could not measure the host leaves the
  notice as it was.
\<close>

theorem refusal_posts_notice:
  assumes "live_check cfg a e True t0 t1 t2 b s = (d, b', s')" and "\<not> admitted d"
  shows "if d_cause d = Some UNMEASURED then s' = s
         else posted s' \<and> ls_cause s' = Some WAITING \<and> last_refusal_at s' = Some t1
              \<and> (\<forall>now running dir. now < t1 + lapse_seconds cfg \<longrightarrow> tick cfg (own_pid e) running dir now s' = s')"
proof -
  have "s' = (if d_cause d = Some UNMEASURED then s else settle_notice True t1 t2 d s)"
    by (rule memory_check_refused(2) [OF assms [unfolded live_check_def]])
  then show ?thesis using assms(2)
    by (auto simp: settle_notice_def tick_def) (auto simp: post_notice_def Let_def)
qed

theorem refusal_posts_notice_witness:
  "posted (snd (snd (live_check \<lparr>yield_seconds = 60, lapse_seconds = 120\<rparr> sample_server
      (sample_env 9\<lparr>env_footprint := (\<lambda>_. Some 0)\<rparr>) True 5 5 5
      (write_reservation (own_reservation sample_job (sample_env 7)) []) new_live_server)))"
proof -
  let ?e = "sample_env 9\<lparr>env_footprint := (\<lambda>_. Some 0)\<rparr>"
  let ?b = "write_reservation (own_reservation sample_job (sample_env 7)) []"
  let ?c = "live_check \<lparr>yield_seconds = 60, lapse_seconds = 120\<rparr> sample_server ?e True 5 5 5 ?b new_live_server"
  obtain d b s where c: "?c = (d, b, s)" by (rule prod_cases3)
  have "\<not> admitted (fst ?c)" "d_cause (fst ?c) = Some MEMORY" by code_simp+
  then have "\<not> admitted d" "d_cause d = Some MEMORY" using c by simp_all
  with refusal_posts_notice [OF c] c show ?thesis by simp
qed

text \<open>
  A server that goes on trying loses its notice when its checks cannot measure the host: a
  refusal for want of a measurement renews nothing, so the watchdog takes the notice down
  \<open>lapse_seconds\<close> after the last measured refusal, however often a load has been tried since.
\<close>

theorem unmeasured_retries_lapse:
  assumes "ls_cause s = Some WAITING" and "last_refusal_at s = Some t" and "t + lapse_seconds cfg \<le> now"
    and "\<forall>(a, e, ok, t0, t1, t2) \<in> set tries. probe_read e = None"
  shows "\<not> posted (tick cfg own running dir now
           (foldl (\<lambda>u (a, e, ok, t0, t1, t2). snd (snd (live_check cfg a e ok t0 t1 t2 b u))) s tries))"
proof -
  have same: "snd (snd (live_check cfg a e ok t0 t1 t2 b u)) = u" if "probe_read e = None" for a e ok t0 t1 t2 u
    using that by (simp add: live_check_def memory_check_def Let_def)
  have "foldl (\<lambda>u (a, e, ok, t0, t1, t2). snd (snd (live_check cfg a e ok t0 t1 t2 b u))) s tries = s"
    using assms(4) by (induction tries) (auto simp: same)
  then show ?thesis using assms(1-3) by (simp add: tick_def)
qed

theorem unmeasured_retries_lapse_witness:
  "\<not> posted (tick \<lparr>yield_seconds = 60, lapse_seconds = 120\<rparr> 9 (\<lambda>_. True) (Some []) 121
      (snd (snd (live_check \<lparr>yield_seconds = 60, lapse_seconds = 120\<rparr> sample_server
         (sample_env 9\<lparr>probe_read := None\<rparr>) True 120 120 120 []
         \<lparr>ls_cause = Some WAITING, last_refusal_at = Some 1, posted_at = Some 1\<rparr>))))"
  using unmeasured_retries_lapse [of "\<lparr>ls_cause = Some WAITING, last_refusal_at = Some 1, posted_at = Some 1\<rparr>" 1
      "\<lparr>yield_seconds = 60, lapse_seconds = 120\<rparr>" 121
      "[(sample_server, sample_env 9\<lparr>probe_read := None\<rparr>, True, 120, 120, 120)]" 9 "\<lambda>_. True" "Some []" "[]"]
  by simp

text \<open>
  A reservation survives its file: what a process writes is read back, by it and by every
  other process, as the same reservation with \<open>live\<close> filled in by the role, and a process that
  runs is then seen by every other's survey.
\<close>

theorem reservation_roundtrip:
  assumes "book_wf b"
  shows "entry (write_reservation r b) (res_pid r) = Some (r\<lparr>res_live := Some (is_live r)\<rparr>)
    \<and> (res_pid r \<noteq> own \<and> run (res_pid r) \<longrightarrow>
         as_seen fp (r\<lparr>res_live := Some (is_live r)\<rparr>) \<in> set (fst (others run fp own (write_reservation r b))))"
  using res_book.survey_complete [OF book_wf_write [OF assms], of r "res_pid r"] by (simp add: entry_write)

theorem reservation_roundtrip_witness:
  "entry (write_reservation (own_reservation sample_job (sample_env 7)) []) 7
     = Some (own_reservation sample_job (sample_env 7))"
  using reservation_roundtrip [OF book_wf_empty, of "own_reservation sample_job (sample_env 7)"]
  by (simp add: own_reservation_def sample_env_def is_live_def)

end
