(* ===== verification/Background_Gate.thy ===== *)
theory Background_Gate
  imports Memory_Admission
begin

text \<open>
  What a heavy background command asks before and during its work: whether background work is
  paused (\<open>src/imsg/background_pause.py\<close>), whether its models may load, and between units
  whether it has to stop (\<open>src/imsg/background_gate.py\<close>). Reasons, log lines and the text shown
  to an operator are left out; \<open>datetime.fromisoformat\<close> with the host's time zone is a parameter.
\<close>

section \<open>The pause files\<close>

text \<open>What \<open>Path.read_text\<close> does: an \<open>OSError\<close> of three kinds, or a decoding error.\<close>

datatype read_outcome = Missing | Is_Directory | Os_Error | Undecodable | File_Text string

datatype pause_source = Imsg_Command | Host_File

record pause_request =
  pr_source :: pause_source
  pr_until :: "instant option"
  pr_pid :: "int option"

record pause_state =
  active :: "pause_request list"
  lapsed :: "pause_request list"

definition paused :: "pause_state \<Rightarrow> bool" where "paused st \<longleftrightarrow> active st \<noteq> []"

definition bare_request :: "pause_source \<Rightarrow> pause_request" where
  "bare_request src = \<lparr>pr_source = src, pr_until = None, pr_pid = None\<rparr>"

definition parse_time :: "(string \<Rightarrow> instant option) \<Rightarrow> string \<Rightarrow> instant option" where
  "parse_time fromiso s = (if py_strip s = [] then None else fromiso (py_strip s))"

text \<open>
  \<open>_read_imsg_pause\<close>: \<open>loads\<close> is \<open>json.loads\<close>. The decoding error is a \<open>ValueError\<close>, which the
  function does not catch where it reads the file.
\<close>

definition read_imsg_pause ::
  "(string \<Rightarrow> json option) \<Rightarrow> (string \<Rightarrow> instant option) \<Rightarrow> read_outcome \<Rightarrow> value_error + pause_request option" where
  "read_imsg_pause loads fromiso f =
     (case f of
        Missing \<Rightarrow> Inr None
      | Is_Directory \<Rightarrow> Inr (Some (bare_request Imsg_Command))
      | Os_Error \<Rightarrow> Inr (Some (bare_request Imsg_Command))
      | Undecodable \<Rightarrow> Inl (ValueError ''invalid utf-8'')
      | File_Text raw \<Rightarrow>
          Inr (Some (case loads raw of
             Some (JObj obj) \<Rightarrow>
               (bare_request Imsg_Command)\<lparr>pr_until :=
                  (case map_of obj ''until'' of Some (JStr s) \<Rightarrow> parse_time fromiso s | _ \<Rightarrow> None)\<rparr>
           | _ \<Rightarrow> bare_request Imsg_Command)))"

text \<open>\<open>str.splitlines\<close>, after the newline translation of text mode; \<open>str.lower\<close>; \<open>str.isdigit\<close>.\<close>

definition line_end :: "char \<Rightarrow> bool" where
  "line_end ch \<longleftrightarrow> ord ch \<in> {10, 11, 12, 13, 28, 29, 30, 133}"

fun split_lines :: "string \<Rightarrow> string \<Rightarrow> string list" where
  "split_lines line [] = (if line = [] then [] else [rev line])"
| "split_lines line (ch # s) =
     (if line_end ch then rev line # split_lines [] s else split_lines (ch # line) s)"

definition lower_char :: "char \<Rightarrow> char" where
  "lower_char ch =
     (if 65 \<le> ord ch \<and> ord ch \<le> 90 \<or> 192 \<le> ord ch \<and> ord ch \<le> 222 \<and> ord ch \<noteq> 215
      then char_of (ord ch + 32) else ch)"

definition py_isdigit :: "string \<Rightarrow> bool" where
  "py_isdigit s \<longleftrightarrow> s \<noteq> [] \<and> list_all (\<lambda>ch. is_digit ch \<or> ord ch \<in> {178, 179, 185}) s"

definition partition_eq :: "string \<Rightarrow> string \<times> bool \<times> string" where
  "partition_eq line =
     (let key = takeWhile (\<lambda>ch. ch \<noteq> CHR ''='') line
      in (key, key \<noteq> line, drop (Suc (length key)) line))"

text \<open>The fields of the host file; of two lines with one key the later counts.\<close>

fun pause_fields :: "string list \<Rightarrow> (string \<rightharpoonup> string) \<Rightarrow> (string \<rightharpoonup> string)" where
  "pause_fields [] fs = fs"
| "pause_fields (line # ls) fs =
     (let (key, sep, val) = partition_eq line; k = map lower_char (py_strip key)
      in pause_fields ls
           (if sep \<and> k \<in> {''reason'', ''until'', ''pid''} then fs(k \<mapsto> py_strip val) else fs))"

definition read_host_pause ::
  "(string \<Rightarrow> instant option) \<Rightarrow> read_outcome \<Rightarrow> value_error + pause_request option" where
  "read_host_pause fromiso f =
     (case f of
        Missing \<Rightarrow> Inr None
      | Is_Directory \<Rightarrow> Inr (Some (bare_request Host_File))
      | Os_Error \<Rightarrow> Inr (Some (bare_request Host_File))
      | Undecodable \<Rightarrow> Inr (Some (bare_request Host_File))
      | File_Text raw \<Rightarrow>
          (let fs = pause_fields (split_lines [] (take 4096 raw)) Map.empty;
               pid_text = (case fs ''pid'' of None \<Rightarrow> [] | Some s \<Rightarrow> s);
               until = Option.bind (fs ''until'') (parse_time fromiso)
           in if \<not> py_isdigit pid_text
              then Inr (Some \<lparr>pr_source = Host_File, pr_until = until, pr_pid = None\<rparr>)
              else (case py_int pid_text of
                      None \<Rightarrow> Inl (ValueError ''invalid literal for int()'')
                    | Some p \<Rightarrow> Inr (Some \<lparr>pr_source = Host_File, pr_until = until, pr_pid = Some p\<rparr>))))"

definition lapsed_request :: "instant \<Rightarrow> (int \<Rightarrow> bool) \<Rightarrow> pause_request \<Rightarrow> bool" where
  "lapsed_request now running r \<longleftrightarrow>
     (case pr_until r of Some t \<Rightarrow> t \<le> now | None \<Rightarrow> False)
     \<or> (case pr_pid r of Some p \<Rightarrow> \<not> running p | None \<Rightarrow> False)"

text \<open>
  \<open>read_pause_state\<close>: the command's own file (\<open>None\<close>: its path leaves \<open>data_root\<close>, which counts
  as a pause) and the host's, if one is configured.
\<close>

definition read_pause_state ::
  "(string \<Rightarrow> json option) \<Rightarrow> (string \<Rightarrow> instant option) \<Rightarrow> (int \<Rightarrow> bool) \<Rightarrow> instant
    \<Rightarrow> read_outcome option \<Rightarrow> read_outcome option \<Rightarrow> value_error + pause_state" where
  "read_pause_state loads fromiso running now own host_file =
     (case (case own of None \<Rightarrow> Inr (Some (bare_request Imsg_Command))
                      | Some f \<Rightarrow> read_imsg_pause loads fromiso f) of
        Inl e \<Rightarrow> Inl e
      | Inr own_request \<Rightarrow>
          (case (case host_file of None \<Rightarrow> Inr None | Some f \<Rightarrow> read_host_pause fromiso f) of
             Inl e \<Rightarrow> Inl e
           | Inr host_request \<Rightarrow>
               (let requests = (case own_request of None \<Rightarrow> [] | Some r \<Rightarrow> [r])
                               @ (case host_request of None \<Rightarrow> [] | Some r \<Rightarrow> [r])
                in Inr \<lparr>active = filter (\<lambda>r. \<not> lapsed_request now running r) requests,
                        lapsed = filter (lapsed_request now running) requests\<rparr>)))"

section \<open>The gate\<close>

datatype deferral_kind = PAUSED | MEMORY

definition EXIT_DEFERRED_MEMORY :: int where "EXIT_DEFERRED_MEMORY = 75"
definition EXIT_DEFERRED_PAUSED :: int where "EXIT_DEFERRED_PAUSED = 76"

definition exit_code :: "deferral_kind \<Rightarrow> int" where
  "exit_code k = (if k = PAUSED then EXIT_DEFERRED_PAUSED else EXIT_DEFERRED_MEMORY)"

definition pause_reason :: "pause_state \<Rightarrow> deferral_kind option" where
  "pause_reason st = (if \<not> paused st then None else Some PAUSED)"

record memory_config =
  admission_wait_seconds :: clock
  admission_poll_seconds :: clock
  background_stop_at :: pressure_level
  warn_confirm_seconds :: clock

text \<open>
  Check 2, \<open>BackgroundGate.admit\<close>. \<open>pz n\<close> is what the \<open>n\<close>-th look at the pause switch finds,
  \<open>dc n\<close> the \<open>n\<close>-th decision and \<open>ck n\<close> the \<open>n\<close>-th reading of the clock, the first one the
  start. \<open>None\<close> is a wait without end.
\<close>

partial_function (option) admit_loop ::
  "memory_config \<Rightarrow> (nat \<Rightarrow> value_error + pause_state) \<Rightarrow> (nat \<Rightarrow> admission_decision) \<Rightarrow> (nat \<Rightarrow> clock) \<Rightarrow> nat
    \<Rightarrow> (value_error + deferral_kind option) option" where
  "admit_loop cfg pz dc ck n =
     (if admitted (dc n) then Some (Inr None)
      else if admission_wait_seconds cfg \<le> ck (Suc n) - ck 0 then Some (Inr (Some MEMORY))
      else (case pz (Suc n) of
              Inl e \<Rightarrow> Some (Inl e)
            | Inr st \<Rightarrow> (case pause_reason st of
                            Some k \<Rightarrow> Some (Inr (Some k))
                          | None \<Rightarrow> admit_loop cfg pz dc ck (Suc n))))"

definition gate_admit ::
  "memory_config \<Rightarrow> (nat \<Rightarrow> value_error + pause_state) \<Rightarrow> (nat \<Rightarrow> admission_decision) \<Rightarrow> (nat \<Rightarrow> clock)
    \<Rightarrow> (value_error + deferral_kind option) option" where
  "gate_admit cfg pz dc ck =
     (case pz 0 of
        Inl e \<Rightarrow> Some (Inl e)
      | Inr st \<Rightarrow> (case pause_reason st of Some k \<Rightarrow> Some (Inr (Some k)) | None \<Rightarrow> admit_loop cfg pz dc ck 0))"

definition models_admitted_after ::
  "bool \<Rightarrow> (value_error + deferral_kind option) option \<Rightarrow> bool" where
  "models_admitted_after before result \<longleftrightarrow> before \<or> result = Some (Inr None)"

text \<open>The sleep between two checks.\<close>

definition admission_sleep :: "memory_config \<Rightarrow> clock \<Rightarrow> clock" where
  "admission_sleep cfg waited =
     min (admission_poll_seconds cfg) (admission_wait_seconds cfg - waited)"

definition live_server_waiting :: "waiting_live_server list option \<Rightarrow> deferral_kind option" where
  "live_server_waiting notices =
     (case notices of None \<Rightarrow> Some MEMORY | Some ws \<Rightarrow> if ws = [] then None else Some MEMORY)"

definition stop_at_once ::
  "bool \<Rightarrow> pause_state \<Rightarrow> waiting_live_server list option \<Rightarrow> deferral_kind option" where
  "stop_at_once models_admitted st notices =
     (case pause_reason st of
        Some k \<Rightarrow> Some k
      | None \<Rightarrow> if models_admitted then live_server_waiting notices else None)"

text \<open>Check 3; a reading of the pressure that raises is \<open>None\<close>, the second is made after the sleep.\<close>

definition between_units ::
  "memory_config \<Rightarrow> bool \<Rightarrow> pause_state \<Rightarrow> waiting_live_server list option \<Rightarrow> pressure_level option
    \<Rightarrow> pressure_level option \<Rightarrow> deferral_kind option" where
  "between_units cfg models_admitted st notices level again =
     (case stop_at_once models_admitted st notices of
        Some k \<Rightarrow> Some k
      | None \<Rightarrow>
          (case level of
             None \<Rightarrow> Some MEMORY
           | Some l \<Rightarrow>
               if \<not> at_least l (background_stop_at cfg) then None
               else if l = CRITICAL \<or> warn_confirm_seconds cfg \<le> 0 then Some MEMORY
               else (case again of
                       None \<Rightarrow> Some MEMORY
                     | Some l' \<Rightarrow> if at_least l' (background_stop_at cfg) then Some MEMORY else None)))"

section \<open>Properties\<close>

text \<open>
  A pause that is set is honoured: the state read says paused exactly when one of the two
  files holds a request whose time has not passed and whose process, if it names one, still
  runs; and the command's own file always does when it cannot be read, leaves the data root or
  is no JSON object.
\<close>

theorem pause_is_honoured:
  assumes "read_pause_state loads fromiso running now own host_file = Inr st"
  shows "(paused st \<longleftrightarrow>
     (\<exists>r. (own = None \<and> r = bare_request Imsg_Command
           \<or> (\<exists>f. own = Some f \<and> read_imsg_pause loads fromiso f = Inr (Some r))
           \<or> (\<exists>f. host_file = Some f \<and> read_host_pause fromiso f = Inr (Some r)))
          \<and> (\<forall>t. pr_until r = Some t \<longrightarrow> now < t) \<and> (\<forall>p. pr_pid r = Some p \<longrightarrow> running p)))
     \<and> (own = None \<or> own \<in> {Some Is_Directory, Some Os_Error}
         \<or> (\<exists>raw. own = Some (File_Text raw) \<and> (\<forall>obj. loads raw \<noteq> Some (JObj obj))) \<longrightarrow> paused st)"
proof -
  obtain own_r host_r where
    o: "(case own of None \<Rightarrow> Inr (Some (bare_request Imsg_Command)) | Some f \<Rightarrow> read_imsg_pause loads fromiso f)
          = Inr own_r"
    and h: "(case host_file of None \<Rightarrow> Inr None | Some f \<Rightarrow> read_host_pause fromiso f) = Inr host_r"
    and st: "active st = filter (\<lambda>r. \<not> lapsed_request now running r)
        ((case own_r of None \<Rightarrow> [] | Some r \<Rightarrow> [r]) @ (case host_r of None \<Rightarrow> [] | Some r \<Rightarrow> [r]))"
    using assms by (auto simp: read_pause_state_def Let_def split: sum.splits)
  have in_force: "\<not> lapsed_request now running r \<longleftrightarrow>
      (\<forall>t. pr_until r = Some t \<longrightarrow> now < t) \<and> (\<forall>p. pr_pid r = Some p \<longrightarrow> running p)" for r
    by (auto simp: lapsed_request_def not_le split: option.splits)
  have "paused st \<longleftrightarrow> (\<exists>r. (own_r = Some r \<or> host_r = Some r) \<and> \<not> lapsed_request now running r)"
    by (auto simp: paused_def st filter_empty_conv split: option.splits)
  moreover have "own_r = Some r \<longleftrightarrow> own = None \<and> r = bare_request Imsg_Command
      \<or> (\<exists>f. own = Some f \<and> read_imsg_pause loads fromiso f = Inr (Some r))" for r
    using o by (auto split: option.splits)
  moreover have "host_r = Some r \<longleftrightarrow> (\<exists>f. host_file = Some f \<and> read_host_pause fromiso f = Inr (Some r))" for r
    using h by (auto split: option.splits)
  moreover have "own_r = Some (bare_request Imsg_Command)"
    if "own = None \<or> own \<in> {Some Is_Directory, Some Os_Error}
        \<or> (\<exists>raw. own = Some (File_Text raw) \<and> (\<forall>obj. loads raw \<noteq> Some (JObj obj)))"
    using that o by (auto simp: read_imsg_pause_def split: option.splits json.splits)
  ultimately show ?thesis by (auto simp: in_force bare_request_def)
qed

theorem pause_is_honoured_witness:
  "\<exists>st. read_pause_state (\<lambda>_. None) (\<lambda>_. None) (\<lambda>_. True) 0 (Some (File_Text ''{'')) None = Inr st \<and> paused st"
proof -
  obtain st where st: "read_pause_state (\<lambda>_. None) (\<lambda>_. None) (\<lambda>_. True) 0 (Some (File_Text ''{'')) None = Inr st"
    by (auto simp: read_pause_state_def read_imsg_pause_def Let_def)
  from pause_is_honoured [OF st] st show ?thesis by auto
qed

text \<open>
  Not every pause that cannot be read is honoured: a command's own file whose bytes are no
  UTF-8, and a host file whose pid is a superscript digit, raise out of the check instead of
  counting as a pause.
\<close>

theorem garbled_pause_raises:
  "read_pause_state loads fromiso running now (Some Undecodable) host_file = Inl (ValueError ''invalid utf-8'')
   \<and> read_pause_state loads fromiso running now (Some Missing)
       (Some (File_Text (''pid='' @ [char_of (178 :: nat)]))) = Inl (ValueError ''invalid literal for int()'')"
proof -
  let ?ls = "split_lines [] (take 4096 (''pid='' @ [char_of (178 :: nat)]))"
  have "?ls = [''pid='' @ [char_of (178 :: nat)]]" by code_simp
  moreover have "partition_eq (''pid='' @ [char_of (178 :: nat)]) = (''pid'', True, [char_of (178 :: nat)])"
    "map lower_char (py_strip ''pid'') = ''pid''" "py_strip [char_of (178 :: nat)] = [char_of (178 :: nat)]"
    "py_isdigit [char_of (178 :: nat)]" "py_int [char_of (178 :: nat)] = None"
    by code_simp+
  ultimately show ?thesis
    by (simp add: read_pause_state_def read_imsg_pause_def read_host_pause_def Let_def)
qed

text \<open>How many polls are left, and that each round of the loop uses one up.\<close>

definition polls_left :: "memory_config \<Rightarrow> (nat \<Rightarrow> clock) \<Rightarrow> nat \<Rightarrow> nat" where
  "polls_left cfg ck n =
     nat \<lceil>(admission_wait_seconds cfg - (ck (Suc n) - ck 0)) / admission_poll_seconds cfg\<rceil>"

lemma polls_left_decreases:
  assumes "0 < admission_poll_seconds cfg" and "ck (Suc n) - ck 0 < admission_wait_seconds cfg"
    and "ck (Suc n) + admission_sleep cfg (ck (Suc n) - ck 0) \<le> ck (Suc (Suc n))"
  shows "polls_left cfg ck (Suc n) < polls_left cfg ck n"
proof -
  let ?p = "admission_poll_seconds cfg" and ?w = "admission_wait_seconds cfg"
  let ?x = "(?w - (ck (Suc n) - ck 0)) / ?p" and ?y = "(?w - (ck (Suc (Suc n)) - ck 0)) / ?p"
  have pos: "0 < ?x" using assms(1,2) by simp
  have "?y \<le> ?x - 1 \<or> ?y \<le> 0"
  proof (cases "?p \<le> ?w - (ck (Suc n) - ck 0)")
    case True
    then have "?w - (ck (Suc (Suc n)) - ck 0) \<le> (?w - (ck (Suc n) - ck 0)) - ?p"
      using assms(3) by (simp add: admission_sleep_def min_def)
    then have "?y \<le> (?w - (ck (Suc n) - ck 0) - ?p) / ?p"
      by (rule divide_right_mono) (use assms(1) in simp)
    also have "\<dots> = ?x - 1" using assms(1) by (simp add: diff_divide_distrib [of _ ?p])
    finally show ?thesis by blast
  next
    case False
    then have "?w - (ck (Suc (Suc n)) - ck 0) \<le> 0"
      using assms(3) by (simp add: admission_sleep_def min_def)
    then show ?thesis using assms(1) by (simp add: divide_nonpos_pos)
  qed
  then have "\<lceil>?y\<rceil> \<le> \<lceil>?x\<rceil> - 1 \<or> \<lceil>?y\<rceil> \<le> 0"
    by (metis ceiling_diff_one ceiling_mono ceiling_le_zero)
  moreover have "0 < \<lceil>?x\<rceil>" using pos by simp
  ultimately show ?thesis unfolding polls_left_def by linarith
qed

text \<open>The \<open>k\<close>-th look is made when the earlier looks found no pause and the earlier checks refused inside the wait.\<close>

definition clear_look :: "value_error + pause_state \<Rightarrow> bool" where
  "clear_look l \<longleftrightarrow> (case l of Inl e \<Rightarrow> False | Inr st \<Rightarrow> \<not> paused st)"

definition looks_again ::
  "memory_config \<Rightarrow> (nat \<Rightarrow> value_error + pause_state) \<Rightarrow> (nat \<Rightarrow> admission_decision) \<Rightarrow> (nat \<Rightarrow> clock) \<Rightarrow> nat \<Rightarrow> bool" where
  "looks_again cfg pz dc ck k \<longleftrightarrow>
     (\<forall>j < k. clear_look (pz j) \<and> \<not> admitted (dc j) \<and> ck (Suc j) - ck 0 < admission_wait_seconds cfg)"

text \<open>What each outcome of the wait says of the looks and checks made.\<close>

definition admit_outcome ::
  "memory_config \<Rightarrow> (nat \<Rightarrow> value_error + pause_state) \<Rightarrow> (nat \<Rightarrow> admission_decision) \<Rightarrow> (nat \<Rightarrow> clock)
    \<Rightarrow> value_error + deferral_kind option \<Rightarrow> bool" where
  "admit_outcome cfg pz dc ck r \<longleftrightarrow>
     (\<exists>k. looks_again cfg pz dc ck k \<and>
       (case r of
          Inl e \<Rightarrow> pz k = Inl e
        | Inr None \<Rightarrow> clear_look (pz k) \<and> admitted (dc k)
        | Inr (Some PAUSED) \<Rightarrow> (\<exists>st. pz k = Inr st \<and> paused st)
        | Inr (Some MEMORY) \<Rightarrow>
            clear_look (pz k) \<and> \<not> admitted (dc k) \<and> admission_wait_seconds cfg \<le> ck (Suc k) - ck 0))"

lemma admit_loop_ends:
  assumes "0 < admission_poll_seconds cfg"
    and "\<And>n. ck (Suc n) + admission_sleep cfg (ck (Suc n) - ck 0) \<le> ck (Suc (Suc n))"
    and "looks_again cfg pz dc ck n" and "clear_look (pz n)"
  shows "\<exists>r. admit_loop cfg pz dc ck n = Some r \<and> admit_outcome cfg pz dc ck r"
  using assms(3,4)
proof (induction "polls_left cfg ck n" arbitrary: n rule: less_induct)
  case less
  show ?case
  proof (cases "admitted (dc n) \<or> admission_wait_seconds cfg \<le> ck (Suc n) - ck 0")
    case True
    then show ?thesis
      using less.prems by (auto simp: admit_loop.simps [of cfg pz dc ck n] admit_outcome_def intro!: exI [of _ n])
  next
    case False
    then have next_look: "looks_again cfg pz dc ck (Suc n)"
      using less.prems by (auto simp: looks_again_def less_Suc_eq not_le)
    show ?thesis
    proof (cases "clear_look (pz (Suc n))")
      case True
      have "polls_left cfg ck (Suc n) < polls_left cfg ck n"
        using False by (intro polls_left_decreases assms(1,2)) auto
      then obtain r where "admit_loop cfg pz dc ck (Suc n) = Some r" "admit_outcome cfg pz dc ck r"
        using less.hyps next_look True by blast
      then show ?thesis using False True
        by (auto simp: admit_loop.simps [of cfg pz dc ck n] pause_reason_def clear_look_def split: sum.splits)
    next
      case not_clear: False
      then show ?thesis using False next_look
        by (auto simp: admit_loop.simps [of cfg pz dc ck n] admit_outcome_def pause_reason_def clear_look_def
            split: sum.splits intro!: exI [of _ "Suc n"])
    qed
  qed
qed

text \<open>
  C28: The wait for memory ends, when every sleep lasts at least as long as it asked and the poll interval
  is positive, whatever the host answers. The gate lets the command load on an admitted check, defers it for
  a pause it looked at, defers it for memory once the configured wait is over, or lets the error of an
  unreadable pause file through; in each case every look before found no pause and every check before was
  refused with wait left.
\<close>

theorem gate_admit_ends:
  assumes "0 < admission_poll_seconds cfg"
    and "\<And>n. ck (Suc n) + admission_sleep cfg (ck (Suc n) - ck 0) \<le> ck (Suc (Suc n))"
  shows "\<exists>r. gate_admit cfg pz dc ck = Some r \<and> admit_outcome cfg pz dc ck r"
proof (cases "clear_look (pz 0)")
  case True
  have "looks_again cfg pz dc ck 0" by (simp add: looks_again_def)
  then have "\<exists>r. admit_loop cfg pz dc ck 0 = Some r \<and> admit_outcome cfg pz dc ck r"
    using True by (intro admit_loop_ends assms)
  then show ?thesis using True by (auto simp: gate_admit_def pause_reason_def clear_look_def split: sum.splits)
next
  case False
  then show ?thesis
    by (auto simp: gate_admit_def admit_outcome_def pause_reason_def clear_look_def looks_again_def
        split: sum.splits intro!: exI [of _ 0])
qed

definition sample_memory_config :: memory_config where
  "sample_memory_config = \<lparr>admission_wait_seconds = 600, admission_poll_seconds = 30,
     background_stop_at = WARN, warn_confirm_seconds = 10\<rparr>"

theorem gate_admit_ends_witness:
  "\<exists>r. gate_admit sample_memory_config (\<lambda>_. Inr \<lparr>active = [], lapsed = []\<rparr>) (\<lambda>_. refused 21 8)
         (\<lambda>n. 30 * of_nat n) = Some r
       \<and> admit_outcome sample_memory_config (\<lambda>_. Inr \<lparr>active = [], lapsed = []\<rparr>) (\<lambda>_. refused 21 8)
           (\<lambda>n. 30 * of_nat n) r"
  by (rule gate_admit_ends) (auto simp: sample_memory_config_def admission_sleep_def)

text \<open>
  A command carries on to its next unit of work exactly when background work is not paused,
  no live server waits (or the command holds no models) and the pressure could be read and is
  below the configured level, at once or, short of critical, at the second reading.
\<close>

theorem between_units_carries_on:
  "between_units cfg holds_models st notices level again = None \<longleftrightarrow>
     \<not> paused st \<and> (holds_models \<longrightarrow> notices = Some [])
     \<and> (\<exists>l. level = Some l
          \<and> (severity l < severity (background_stop_at cfg)
             \<or> l \<noteq> CRITICAL \<and> 0 < warn_confirm_seconds cfg
               \<and> (\<exists>l'. again = Some l' \<and> severity l' < severity (background_stop_at cfg))))"
proof -
  have once: "stop_at_once holds_models st notices = None \<longleftrightarrow> \<not> paused st \<and> (holds_models \<longrightarrow> notices = Some [])"
    by (auto simp: stop_at_once_def pause_reason_def live_server_waiting_def split: option.splits)
  show ?thesis
  proof (cases "stop_at_once holds_models st notices")
    case None
    with once show ?thesis
      by (auto simp: between_units_def at_least_def not_le split: option.splits)
  next
    case (Some k)
    with once show ?thesis by (auto simp: between_units_def)
  qed
qed

theorem between_units_carries_on_witness:
  "between_units sample_memory_config True \<lparr>active = [], lapsed = []\<rparr> (Some []) (Some WARN) (Some NORMAL) = None"
  by (simp add: between_units_carries_on sample_memory_config_def paused_def)

end
