(* ===== verification/Model_Serving.thy ===== *)
theory Model_Serving
  imports Memory_Admission
begin

text \<open>
  The life of an MCP server's models: the background warm-up
  (\<open>src/imsg/retrieval/background_warm_up.py\<close>), the unloader that drops them when idle, under
  memory pressure or for a hold (\<open>src/imsg/retrieval/idle_unload.py\<close>), and the one thread both
  run their model work on (\<open>src/imsg/retrieval/model_thread.py\<close>). The state also carries what the
  thread has done outside the program's own variables: which models are in memory, and
  whether the admission's reservation is held. A locked region, with the look at the hold or
  the pressure before it, is one step; steps of the tool calls, the watchdog and the model thread interleave in any order. Log lines are left out.
\<close>

section \<open>The warm-up\<close>

datatype phase = NOT_STARTED | WARMING | READY | FAILED | UNLOADED | MEMORY_BUSY

definition STARTABLE :: "phase list" where "STARTABLE = [NOT_STARTED, UNLOADED, MEMORY_BUSY]"
definition PENDING :: "phase list" where "PENDING = [NOT_STARTED, UNLOADED, WARMING]"

record warm_step =
  step_name :: string
  estimated_seconds :: clock

record warm_up =
  wphase :: phase
  started_at :: "clock option"
  finished_at :: "clock option"
  step_index :: nat
  step_started_at :: "clock option"
  failure :: "string option"
  refusal :: "admission_decision option"
  refused_at :: "clock option"
  ever_ready :: bool

definition new_warm_up :: warm_up where
  "new_warm_up = \<lparr>wphase = NOT_STARTED, started_at = None, finished_at = None, step_index = 0,
     step_started_at = None, failure = None, refusal = None, refused_at = None, ever_ready = False\<rparr>"

definition RUNNING_STEP_FLOOR_SECONDS :: clock where "RUNNING_STEP_FLOOR_SECONDS = 5"

definition retry_wait_left :: "clock \<Rightarrow> clock \<Rightarrow> warm_up \<Rightarrow> clock" where
  "retry_wait_left retry now w =
     (case refused_at w of None \<Rightarrow> 0 | Some t \<Rightarrow> max 0 (retry - (now - t)))"

text \<open>The part of \<open>start\<close> under the condition; the flag says whether a pass has to be queued.\<close>

definition begin_warm_up :: "clock \<Rightarrow> clock \<Rightarrow> clock \<Rightarrow> warm_up \<Rightarrow> bool \<times> warm_up" where
  "begin_warm_up retry t1 t2 w =
     (if wphase w \<notin> set STARTABLE then (False, w)
      else if wphase w = MEMORY_BUSY \<and> retry_wait_left retry t1 w > 0 then (False, w)
      else (True, w\<lparr>wphase := WARMING, started_at := Some t2, finished_at := None,
                    step_index := 0, step_started_at := None\<rparr>))"

definition mark_unloaded :: "warm_up \<Rightarrow> bool \<times> warm_up" where
  "mark_unloaded w =
     (if wphase w \<noteq> READY then (False, w)
      else (True, w\<lparr>wphase := UNLOADED, started_at := None, finished_at := None,
                    step_index := 0, step_started_at := None\<rparr>))"

definition fail_warm_up :: "string \<Rightarrow> clock \<Rightarrow> warm_up \<Rightarrow> warm_up" where
  "fail_warm_up cause now w =
     (if wphase w \<noteq> WARMING then w
      else w\<lparr>wphase := FAILED, failure := Some cause, finished_at := Some now\<rparr>)"

text \<open>\<open>_admitted\<close>: \<open>None\<close> is a check that raises.\<close>

definition take_decision :: "admission_decision option \<Rightarrow> clock \<Rightarrow> warm_up \<Rightarrow> bool \<times> warm_up" where
  "take_decision answer now w =
     (let d = (case answer of Some d \<Rightarrow> d | None \<Rightarrow> refused 0 0)
      in if admitted d then (True, w\<lparr>refusal := None, refused_at := None\<rparr>)
         else (False, w\<lparr>wphase := MEMORY_BUSY, refusal := Some d, refused_at := Some now,
                        started_at := None, finished_at := None, step_index := 0,
                        step_started_at := None\<rparr>))"

definition finish_warm_up :: "nat \<Rightarrow> clock \<Rightarrow> warm_up \<Rightarrow> warm_up" where
  "finish_warm_up n now w =
     w\<lparr>wphase := READY, finished_at := Some now, step_index := n, ever_ready := True\<rparr>"

section \<open>What a caller sees of it\<close>

record warm_up_status =
  st_phase :: phase
  st_loading :: "string option"
  steps_done :: nat
  steps_total :: nat
  elapsed_seconds :: clock
  seconds_remaining :: clock
  st_failure :: "string option"
  st_admission :: "admission_decision option"

definition plain_status ::
  "phase \<Rightarrow> string option \<Rightarrow> nat \<Rightarrow> nat \<Rightarrow> clock \<Rightarrow> clock \<Rightarrow> string option \<Rightarrow> warm_up_status" where
  "plain_status p l d t e r f =
     \<lparr>st_phase = p, st_loading = l, steps_done = d, steps_total = t, elapsed_seconds = e,
      seconds_remaining = r, st_failure = f, st_admission = None\<rparr>"

definition estimates :: "warm_step list \<Rightarrow> clock" where
  "estimates ws = sum_list (map estimated_seconds ws)"

definition warm_status :: "warm_step list \<Rightarrow> clock \<Rightarrow> clock \<Rightarrow> warm_up \<Rightarrow> warm_up_status" where
  "warm_status steps retry now w =
     (let n = length steps;
          elapsed = (case started_at w of
                       None \<Rightarrow> 0
                     | Some t \<Rightarrow> max ((case finished_at w of Some e \<Rightarrow> e | None \<Rightarrow> now) - t) 0)
      in if wphase w = READY then plain_status READY None n n elapsed 0 None
         else if wphase w = FAILED then plain_status FAILED None (step_index w) n elapsed 0 (failure w)
         else if wphase w = MEMORY_BUSY
              then (plain_status MEMORY_BUSY None 0 n 0 (retry_wait_left retry now w) None)
                     \<lparr>st_admission := refusal w\<rparr>
         else if wphase w \<in> set STARTABLE then plain_status (wphase w) None 0 n 0 (estimates steps) None
         else if n \<le> step_index w then plain_status (wphase w) None n n elapsed 0 None
         else
           (let current = steps ! step_index w;
                in_step = (case step_started_at w of Some t \<Rightarrow> now - t | None \<Rightarrow> 0)
            in plain_status (wphase w) (Some (step_name current)) (step_index w) n elapsed
                 (max (estimated_seconds current - in_step) RUNNING_STEP_FLOOR_SECONDS
                    + estimates (drop (Suc (step_index w)) steps)) None))"

definition settled :: "warm_up_status \<Rightarrow> bool" where
  "settled st \<longleftrightarrow> st_phase st \<in> {READY, FAILED, MEMORY_BUSY}"

datatype call_error =
  WarmUpFailedError "string option" | HostMemoryBusyError clock | WarmingUpError int "string option"

definition raise_unless_ready :: "clock \<Rightarrow> warm_up_status \<Rightarrow> call_error option" where
  "raise_unless_ready retry st =
     (case st_phase st of
        READY \<Rightarrow> None
      | FAILED \<Rightarrow> Some (WarmUpFailedError (st_failure st))
      | MEMORY_BUSY \<Rightarrow> Some (HostMemoryBusyError retry)
      | _ \<Rightarrow> Some (WarmingUpError (max 1 \<lceil>seconds_remaining st\<rceil>) (st_loading st)))"

section \<open>The server's models\<close>

record pressure_release =
  release_at :: "pressure_level option"
  check_seconds :: clock
  rewarm :: bool
  rewarm_cooldown_seconds :: clock

record serving_config =
  steps :: "warm_step list"
  retry_seconds :: clock
  idle_seconds :: clock
  pressure_release_of :: "pressure_release option"
  has_hold :: bool
  has_admission :: bool
  has_watchdog_pass :: bool

text \<open>Work on the model thread: queued, and the one job it is on.\<close>

datatype job = Warm_Pass | Unload_Job

datatype running_job = Asking | Stepping nat | Unloading

text \<open>
  \<open>loaded\<close> counts the steps whose models are in memory, \<open>reserved\<close> says whether the admission
  holds a reservation, and \<open>unload_failed\<close> whether an unload has ever raised.
\<close>

record server =
  warm :: warm_up
  in_flight :: int
  last_activity :: clock
  ready_seen :: bool
  unload_count :: nat
  pressure_releases :: nat
  released_for_pressure_at :: "clock option"
  hold_seen :: bool
  unloaded_for_hold :: bool
  queued :: "job list"
  current :: "running_job option"
  closed :: bool
  loaded :: nat
  reserved :: bool
  unload_failed :: bool

definition new_server :: "clock \<Rightarrow> server" where
  "new_server now = \<lparr>warm = new_warm_up, in_flight = 0, last_activity = now, ready_seen = False,
     unload_count = 0, pressure_releases = 0, released_for_pressure_at = None, hold_seen = False,
     unloaded_for_hold = False, queued = [], current = None, closed = False, loaded = 0,
     reserved = False, unload_failed = False\<rparr>"

text \<open>\<open>BackgroundWarmUp.start\<close>: a pass that cannot be queued ends failed.\<close>

definition start_warm_up :: "serving_config \<Rightarrow> clock \<Rightarrow> clock \<Rightarrow> server \<Rightarrow> server" where
  "start_warm_up cfg t1 t2 s =
     (let (go, w) = begin_warm_up (retry_seconds cfg) t1 t2 (warm s)
      in if \<not> go then s
         else if closed s then s\<lparr>warm := fail_warm_up ''RuntimeError: the model thread is closed'' t2 w\<rparr>
         else s\<lparr>warm := w, queued := queued s @ [Warm_Pass]\<rparr>)"

text \<open>
  \<open>_active_hold\<close>: \<open>look\<close> is what the reader does, \<open>None\<close> for raising. The result says whether a
  hold is active.
\<close>

definition active_hold :: "serving_config \<Rightarrow> bool option \<Rightarrow> server \<Rightarrow> bool \<times> server" where
  "active_hold cfg look s =
     (if \<not> has_hold cfg then (False, s)
      else (let h = (look = Some True) in (h, s\<lparr>hold_seen := h\<rparr>)))"

definition enter_call :: "serving_config \<Rightarrow> bool option \<Rightarrow> clock \<Rightarrow> server \<Rightarrow> server" where
  "enter_call cfg look now s =
     (let (held_now, s0) = active_hold cfg look s;
          s1 = s0\<lparr>in_flight := in_flight s0 + 1, last_activity := now\<rparr>
      in if \<not> held_now \<and> wphase (warm s1) \<in> {UNLOADED, MEMORY_BUSY}
         then start_warm_up cfg now now (s1\<lparr>unloaded_for_hold := False\<rparr>)
         else s1)"

definition exit_call :: "clock \<Rightarrow> server \<Rightarrow> server" where
  "exit_call now s = s\<lparr>in_flight := in_flight s - 1, last_activity := now\<rparr>"

text \<open>
  The hook after an unload is the admission's release. After an unload for pressure it is
  \<open>release_for_reload\<close>, which drops the reservation too and posts a notice besides; the notice is part of
  \<open>Memory_Admission\<close>.
\<close>

definition run_after_unload :: "serving_config \<Rightarrow> server \<Rightarrow> server" where
  "run_after_unload cfg s = (if has_admission cfg then s\<lparr>reserved := False\<rparr> else s)"

definition queue_unload :: "server \<Rightarrow> server" where
  "queue_unload s = (if closed s then s else s\<lparr>queued := queued s @ [Unload_Job]\<rparr>)"

definition unload_if_held :: "serving_config \<Rightarrow> bool option \<Rightarrow> server \<Rightarrow> bool \<times> server" where
  "unload_if_held cfg look s =
     (let (h, s0) = active_hold cfg look s
      in if \<not> h then (False, s0)
         else if wphase (warm s0) = MEMORY_BUSY \<and> \<not> unloaded_for_hold s0
              then (False, run_after_unload cfg (s0\<lparr>unloaded_for_hold := True\<rparr>))
         else if wphase (warm s0) \<noteq> READY then (False, s0)
         else if 0 < in_flight s0 then (False, s0)
         else (let (ok, w) = mark_unloaded (warm s0)
               in if \<not> ok then (False, s0)
                  else (True, queue_unload (s0\<lparr>warm := w, ready_seen := False,
                                unload_count := unload_count s0 + 1,
                                released_for_pressure_at := None, unloaded_for_hold := True\<rparr>))))"

definition reload_after_hold :: "serving_config \<Rightarrow> bool option \<Rightarrow> clock \<Rightarrow> server \<Rightarrow> bool \<times> server" where
  "reload_after_hold cfg look now s =
     (if \<not> has_hold cfg \<or> \<not> unloaded_for_hold s then (False, s)
      else
        (let (h, s0) = active_hold cfg look s
         in if h then (False, s0)
            else
              (let s1 = s0\<lparr>unloaded_for_hold := False\<rparr>
               in if wphase (warm s1) \<notin> {UNLOADED, MEMORY_BUSY} then (False, s1)
                  else (True, start_warm_up cfg now now s1))))"

definition unload_if_idle :: "serving_config \<Rightarrow> clock \<Rightarrow> server \<Rightarrow> bool \<times> server" where
  "unload_if_idle cfg now s =
     (if idle_seconds cfg \<le> 0 then (False, s)
      else if wphase (warm s) \<noteq> READY then (False, s\<lparr>ready_seen := False\<rparr>)
      else if \<not> ready_seen s
           then (False, s\<lparr>ready_seen := True, last_activity := max (last_activity s) now\<rparr>)
      else if 0 < in_flight s then (False, s)
      else if now - last_activity s < idle_seconds cfg then (False, s)
      else (let (ok, w) = mark_unloaded (warm s)
            in if \<not> ok then (False, s)
               else (True, queue_unload (s\<lparr>warm := w, ready_seen := False,
                             unload_count := unload_count s + 1, released_for_pressure_at := None\<rparr>))))"

text \<open>The reading of the pressure is \<open>None\<close> when it raises.\<close>

definition release_if_under_pressure ::
  "serving_config \<Rightarrow> pressure_level option \<Rightarrow> clock \<Rightarrow> server \<Rightarrow> bool \<times> server" where
  "release_if_under_pressure cfg level now s =
     (case Option.bind (pressure_release_of cfg) release_at of
        None \<Rightarrow> (False, s)
      | Some limit \<Rightarrow>
          (case level of
             None \<Rightarrow> (False, s)
           | Some l \<Rightarrow>
               if \<not> at_least l limit then (False, s)
               else if wphase (warm s) \<noteq> READY then (False, s)
               else if 0 < in_flight s then (False, s)
               else (let (ok, w) = mark_unloaded (warm s)
                     in if \<not> ok then (False, s)
                        else (True, queue_unload (s\<lparr>warm := w, ready_seen := False,
                                      unload_count := unload_count s + 1,
                                      pressure_releases := pressure_releases s + 1,
                                      released_for_pressure_at := Some now\<rparr>)))))"

definition rewarm_if_due :: "serving_config \<Rightarrow> clock \<Rightarrow> server \<Rightarrow> bool \<times> server" where
  "rewarm_if_due cfg now s =
     (case pressure_release_of cfg of
        None \<Rightarrow> (False, s)
      | Some rel \<Rightarrow>
          if \<not> rewarm rel then (False, s)
          else if has_hold cfg \<and> (hold_seen s \<or> unloaded_for_hold s) then (False, s)
          else if wphase (warm s) = READY then (False, s\<lparr>released_for_pressure_at := None\<rparr>)
          else if wphase (warm s) = UNLOADED then
            (case released_for_pressure_at s of
               None \<Rightarrow> (False, s)
             | Some t \<Rightarrow> if now - t < rewarm_cooldown_seconds rel then (False, s)
                         else (True, start_warm_up cfg now now s))
          else if wphase (warm s) = MEMORY_BUSY then (True, start_warm_up cfg now now s)
          else (False, s))"

text \<open>\<open>check_once\<close>, with what each check finds; \<open>on_watchdog_pass\<close> acts outside this state.\<close>

definition check_once ::
  "serving_config \<Rightarrow> bool option \<Rightarrow> bool option \<Rightarrow> pressure_level option \<Rightarrow> clock \<Rightarrow> server \<Rightarrow> server" where
  "check_once cfg look1 look2 level now s =
     snd (rewarm_if_due cfg now (snd (unload_if_idle cfg now
       (snd (release_if_under_pressure cfg level now (snd (reload_after_hold cfg look2 now
         (snd (unload_if_held cfg look1 s)))))))))"

section \<open>The model thread\<close>

definition begin_step :: "nat \<Rightarrow> nat \<Rightarrow> clock \<Rightarrow> warm_up \<Rightarrow> warm_up" where
  "begin_step n i now w = (if i < n then w\<lparr>step_index := i, step_started_at := Some now\<rparr> else w)"

text \<open>\<open>_serve\<close> takes the next job, in submission order.\<close>

definition next_job :: "server \<Rightarrow> server" where
  "next_job s =
     (if current s \<noteq> None then s
      else case queued s of
             [] \<Rightarrow> s
           | Warm_Pass # js \<Rightarrow> s\<lparr>current := Some Asking, queued := js\<rparr>
           | Unload_Job # js \<Rightarrow> s\<lparr>current := Some Unloading, queued := js\<rparr>)"

text \<open>\<open>_run\<close> up to its first step: the admission's answer.\<close>

definition answer_admission ::
  "serving_config \<Rightarrow> admission_decision option \<Rightarrow> clock \<Rightarrow> server \<Rightarrow> server" where
  "answer_admission cfg answer now s =
     (if current s \<noteq> Some Asking then s
      else
        (let (go, w) = (if has_admission cfg then take_decision answer now (warm s) else (True, warm s))
         in if go
            then s\<lparr>warm := begin_step (length (steps cfg)) 0 now w, current := Some (Stepping 0),
                   reserved := (reserved s \<or> has_admission cfg)\<rparr>
            else s\<lparr>warm := w, current := None\<rparr>))"

text \<open>One step of the loop of \<open>_run\<close>, or its end when every step is done.\<close>

definition run_step :: "serving_config \<Rightarrow> bool \<Rightarrow> string \<Rightarrow> clock \<Rightarrow> server \<Rightarrow> server" where
  "run_step cfg ok cause now s =
     (case current s of
        Some (Stepping i) \<Rightarrow>
          (let n = length (steps cfg)
           in if n \<le> i then s\<lparr>warm := finish_warm_up n now (warm s), current := None\<rparr>
              else if \<not> ok
                   then s\<lparr>warm := fail_warm_up (step_name (steps cfg ! i) @ '': '' @ cause) now (warm s),
                          current := None\<rparr>
              else s\<lparr>warm := begin_step n (Suc i) now (warm s), current := Some (Stepping (Suc i)),
                     loaded := max (loaded s) (Suc i)\<rparr>)
      | _ \<Rightarrow> s)"

definition run_unload :: "serving_config \<Rightarrow> bool \<Rightarrow> server \<Rightarrow> server" where
  "run_unload cfg ok s =
     (if current s \<noteq> Some Unloading then s
      else (let s1 = (if ok then s\<lparr>loaded := 0\<rparr> else s\<lparr>unload_failed := True\<rparr>)
            in run_after_unload cfg (s1\<lparr>current := None\<rparr>)))"

section \<open>When the watchdog looks again\<close>

definition MAX_CHECK_INTERVAL_SECONDS :: clock where "MAX_CHECK_INTERVAL_SECONDS = 15"
definition MIN_WAKE_SECONDS :: clock where "MIN_WAKE_SECONDS = 5 / 100"

definition watching :: "serving_config \<Rightarrow> bool" where
  "watching cfg \<longleftrightarrow> idle_seconds cfg > 0 \<or> pressure_release_of cfg \<noteq> None \<or> has_watchdog_pass cfg \<or> has_hold cfg"

definition check_interval_seconds :: "serving_config \<Rightarrow> clock" where
  "check_interval_seconds cfg =
     (let intervals =
        (if idle_seconds cfg > 0
         then [max 1 (min (idle_seconds cfg / 10) MAX_CHECK_INTERVAL_SECONDS)] else [])
        @ (case pressure_release_of cfg of None \<Rightarrow> [] | Some rel \<Rightarrow> [check_seconds rel])
        @ (if has_hold cfg then [MAX_CHECK_INTERVAL_SECONDS] else [])
      in if intervals = [] then MAX_CHECK_INTERVAL_SECONDS else fold min (tl intervals) (hd intervals))"

definition next_check_in :: "serving_config \<Rightarrow> clock \<Rightarrow> server \<Rightarrow> clock" where
  "next_check_in cfg now s =
     (let interval = check_interval_seconds cfg
      in case pressure_release_of cfg of
           None \<Rightarrow> interval
         | Some rel \<Rightarrow>
             if \<not> rewarm rel then interval
             else
               (let due =
                  (if wphase (warm s) = MEMORY_BUSY
                   then Some (seconds_remaining (warm_status (steps cfg) (retry_seconds cfg) now (warm s)))
                   else if wphase (warm s) = UNLOADED \<and> released_for_pressure_at s \<noteq> None
                   then Some (rewarm_cooldown_seconds rel - (now - the (released_for_pressure_at s)))
                   else if wphase (warm s) \<in> {NOT_STARTED, WARMING} then Some (retry_seconds cfg)
                   else None)
                in case due of None \<Rightarrow> interval | Some d \<Rightarrow> max MIN_WAKE_SECONDS (min interval d)))"

section \<open>Runs\<close>

datatype serving_op =
  Start clock | Enter "bool option" clock | Leave clock
| Hold_Check "bool option" | Reload_Check "bool option" clock | Pressure_Check "pressure_level option" clock
| Idle_Check clock | Rewarm_Check clock
| Next_Job | Answer "admission_decision option" clock | Run_Step bool string clock | Run_Unload bool | Close

fun serving_step :: "serving_config \<Rightarrow> server \<Rightarrow> serving_op \<Rightarrow> server" where
  "serving_step cfg s (Start now) = start_warm_up cfg now now s"
| "serving_step cfg s (Enter look now) = enter_call cfg look now s"
| "serving_step cfg s (Leave now) = exit_call now s"
| "serving_step cfg s (Hold_Check look) = snd (unload_if_held cfg look s)"
| "serving_step cfg s (Reload_Check look now) = snd (reload_after_hold cfg look now s)"
| "serving_step cfg s (Pressure_Check level now) = snd (release_if_under_pressure cfg level now s)"
| "serving_step cfg s (Idle_Check now) = snd (unload_if_idle cfg now s)"
| "serving_step cfg s (Rewarm_Check now) = snd (rewarm_if_due cfg now s)"
| "serving_step cfg s Next_Job = next_job s"
| "serving_step cfg s (Answer d now) = answer_admission cfg d now s"
| "serving_step cfg s (Run_Step ok cause now) = run_step cfg ok cause now s"
| "serving_step cfg s (Run_Unload ok) = run_unload cfg ok s"
| "serving_step cfg s Close = s\<lparr>closed := True\<rparr>"

definition serving_run :: "serving_config \<Rightarrow> server \<Rightarrow> serving_op list \<Rightarrow> server" where
  "serving_run cfg s ops = foldl (serving_step cfg) s ops"

lemma serving_run_simps [simp]:
  "serving_run cfg s [] = s" "serving_run cfg s (op # ops) = serving_run cfg (serving_step cfg s op) ops"
  "serving_run cfg s (ops @ ops') = serving_run cfg (serving_run cfg s ops) ops'"
  by (simp_all add: serving_run_def)

text \<open>A watchdog pass is its five checks, one after the other.\<close>

lemma check_once_run:
  "check_once cfg look1 look2 level now s
     = serving_run cfg s [Hold_Check look1, Reload_Check look2 now, Pressure_Check level now,
                          Idle_Check now, Rewarm_Check now]"
  by (simp add: check_once_def)

section \<open>The invariant of phases, queue and models\<close>

fun phase_fits :: "nat \<Rightarrow> phase \<Rightarrow> job list \<Rightarrow> running_job option \<Rightarrow> nat \<Rightarrow> bool" where
  "phase_fits n READY q c l \<longleftrightarrow> l = n \<and> q = [] \<and> c = None"
| "phase_fits n WARMING q c l \<longleftrightarrow>
     (q = [] \<and> (c = Some Asking \<or> (\<exists>i. c = Some (Stepping i) \<and> i \<le> l \<and> i \<le> n)))
     \<or> (q = [Warm_Pass] \<and> c \<in> {None, Some Unloading})
     \<or> (q = [Unload_Job, Warm_Pass] \<and> c = None)"
| "phase_fits n NOT_STARTED q c l \<longleftrightarrow> q = [] \<and> c = None"
| "phase_fits n MEMORY_BUSY q c l \<longleftrightarrow> q = [] \<and> c = None"
| "phase_fits n UNLOADED q c l \<longleftrightarrow> (q = [] \<and> c \<in> {None, Some Unloading}) \<or> (q = [Unload_Job] \<and> c = None)"
| "phase_fits n FAILED q c l \<longleftrightarrow> (q = [] \<and> c \<in> {None, Some Unloading}) \<or> (q = [Unload_Job] \<and> c = None)"

definition work_fits :: "serving_config \<Rightarrow> server \<Rightarrow> bool" where
  "work_fits cfg s \<longleftrightarrow>
     loaded s \<le> length (steps cfg)
     \<and> phase_fits (length (steps cfg)) (wphase (warm s)) (queued s) (current s) (loaded s)"

text \<open>Models in memory are covered by a reservation, unless an unload has failed.\<close>

definition at_rest :: "server \<Rightarrow> bool" where
  "at_rest s \<longleftrightarrow> wphase (warm s) \<in> {NOT_STARTED, MEMORY_BUSY} \<or> current s = Some Asking
     \<or> wphase (warm s) = WARMING \<and> queued s = [Warm_Pass] \<and> current s = None
     \<or> wphase (warm s) = UNLOADED \<and> queued s = [] \<and> current s = None \<and> \<not> closed s"

definition models_covered :: "server \<Rightarrow> bool" where
  "models_covered s \<longleftrightarrow> unload_failed s
     \<or> ((0 < loaded s \<or> (\<exists>i. current s = Some (Stepping i)) \<longrightarrow> reserved s) \<and> (at_rest s \<longrightarrow> loaded s = 0))"

lemmas serving_defs = work_fits_def models_covered_def at_rest_def begin_warm_up_def STARTABLE_def
  mark_unloaded_def fail_warm_up_def take_decision_def finish_warm_up_def begin_step_def
  run_after_unload_def queue_unload_def active_hold_def

lemma start_keeps:
  assumes "work_fits cfg s" shows "work_fits cfg (start_warm_up cfg t1 t2 s)"
    and "models_covered s \<Longrightarrow> models_covered (start_warm_up cfg t1 t2 s)"
proof -
  have "wphase (warm s) \<in> set STARTABLE \<or> start_warm_up cfg t1 t2 s = s"
    by (simp add: start_warm_up_def begin_warm_up_def)
  then show "work_fits cfg (start_warm_up cfg t1 t2 s)"
    using assms by (cases "wphase (warm s)")
      (auto simp: start_warm_up_def begin_warm_up_def fail_warm_up_def STARTABLE_def work_fits_def)
  show "models_covered (start_warm_up cfg t1 t2 s)" if "models_covered s"
    using assms that by (cases "wphase (warm s)")
      (auto simp: start_warm_up_def begin_warm_up_def fail_warm_up_def STARTABLE_def work_fits_def
        models_covered_def at_rest_def)
qed

lemma start_unaffected [simp]:
  "in_flight (start_warm_up cfg t1 t2 s) = in_flight s"
  "last_activity (start_warm_up cfg t1 t2 s) = last_activity s"
  "hold_seen (start_warm_up cfg t1 t2 s) = hold_seen s"
  "unload_failed (start_warm_up cfg t1 t2 s) = unload_failed s"
  "loaded (start_warm_up cfg t1 t2 s) = loaded s"
  by (simp_all add: start_warm_up_def split: prod.splits)

lemma fits_cong:
  assumes "work_fits cfg s" and "warm s' = warm s" "queued s' = queued s" "current s' = current s"
    "loaded s' = loaded s"
  shows "work_fits cfg s'"
  using assms(1) unfolding work_fits_def assms(2-5) .

lemma covered_cong:
  assumes "models_covered s" and "warm s' = warm s" "queued s' = queued s" "current s' = current s"
    "loaded s' = loaded s" "closed s' = closed s" "reserved s' = reserved s" "unload_failed s' = unload_failed s"
  shows "models_covered s'"
  using assms by (simp add: models_covered_def at_rest_def)

text \<open>Each kind of step, the ones that only change counters and flags first.\<close>

lemma active_hold_keeps:
  assumes "active_hold cfg look s = (h, s')"
  shows "s' = s \<or> (\<exists>b. s' = s\<lparr>hold_seen := b\<rparr>)"
  using assms by (auto simp: active_hold_def Let_def split: if_splits)

lemma hold_seen_keeps [simp]:
  "work_fits cfg (s\<lparr>hold_seen := b\<rparr>) = work_fits cfg s" "models_covered (s\<lparr>hold_seen := b\<rparr>) = models_covered s"
  by (simp_all add: serving_defs)

lemma enter_keeps:
  assumes "work_fits cfg s" shows "work_fits cfg (enter_call cfg look now s)"
    and "models_covered s \<Longrightarrow> models_covered (enter_call cfg look now s)"
proof -
  obtain h s0 where a: "active_hold cfg look s = (h, s0)" by (cases "active_hold cfg look s")
  let ?s1 = "s0\<lparr>in_flight := in_flight s0 + 1, last_activity := now\<rparr>"
  have f: "work_fits cfg ?s1" "work_fits cfg (?s1\<lparr>unloaded_for_hold := False\<rparr>)"
    using active_hold_keeps [OF a] assms by (auto intro: fits_cong)
  then show "work_fits cfg (enter_call cfg look now s)"
    by (simp add: enter_call_def a Let_def start_keeps)
  show "models_covered (enter_call cfg look now s)" if c: "models_covered s"
  proof -
    have "models_covered ?s1" "models_covered (?s1\<lparr>unloaded_for_hold := False\<rparr>)"
      using active_hold_keeps [OF a] c by (auto intro: covered_cong)
    with f show ?thesis by (simp add: enter_call_def a Let_def start_keeps)
  qed
qed

lemma unload_keeps:
  assumes "work_fits cfg s" and "wphase (warm s) = READY"
  shows "work_fits cfg (queue_unload (s\<lparr>warm := snd (mark_unloaded (warm s)), ready_seen := rs,
           unload_count := uc, pressure_releases := pr, released_for_pressure_at := rp,
           unloaded_for_hold := uh\<rparr>))"
    and "models_covered s \<Longrightarrow> models_covered (queue_unload (s\<lparr>warm := snd (mark_unloaded (warm s)),
           ready_seen := rs, unload_count := uc, pressure_releases := pr,
           released_for_pressure_at := rp, unloaded_for_hold := uh\<rparr>))"
  using assms by (auto simp: serving_defs)

lemma hold_check_keeps:
  assumes "work_fits cfg s" shows "work_fits cfg (snd (unload_if_held cfg look s))"
    and "models_covered s \<Longrightarrow> models_covered (snd (unload_if_held cfg look s))"
proof -
  obtain h s0 where a: "active_hold cfg look s = (h, s0)" by (cases "active_hold cfg look s")
  have f: "work_fits cfg s0" using active_hold_keeps [OF a] assms by auto
  have hook: "work_fits cfg (run_after_unload cfg (s0\<lparr>unloaded_for_hold := True\<rparr>))"
    using f by (auto simp: run_after_unload_def intro: fits_cong)
  have mu: "mark_unloaded (warm s0) = (True, snd (mark_unloaded (warm s0)))" if "wphase (warm s0) = READY"
    using that by (simp add: mark_unloaded_def)
  show "work_fits cfg (snd (unload_if_held cfg look s))"
    using f hook unload_keeps(1) [OF f, where rs = False and pr = "pressure_releases s0" and rp = None and uh = True]
    by (auto simp: unload_if_held_def a Let_def mark_unloaded_def)
  assume c: "models_covered s"
  then have c0: "models_covered s0" using active_hold_keeps [OF a] by auto
  have "models_covered (run_after_unload cfg (s0\<lparr>unloaded_for_hold := True\<rparr>))"
    if "wphase (warm s0) = MEMORY_BUSY"
    using that c0 f by (auto simp: serving_defs)
  then show "models_covered (snd (unload_if_held cfg look s))"
    using f c0 unload_keeps(2) [OF f _ c0, where rs = False and pr = "pressure_releases s0" and rp = None and uh = True]
    by (auto simp: unload_if_held_def a Let_def mark_unloaded_def)
qed

lemma reload_keeps:
  assumes "work_fits cfg s" shows "work_fits cfg (snd (reload_after_hold cfg look now s))"
    and "models_covered s \<Longrightarrow> models_covered (snd (reload_after_hold cfg look now s))"
proof -
  obtain h s0 where a: "active_hold cfg look s = (h, s0)" by (cases "active_hold cfg look s")
  have f: "work_fits cfg s0" "work_fits cfg (s0\<lparr>unloaded_for_hold := False\<rparr>)"
    using active_hold_keeps [OF a] assms by (auto intro: fits_cong)
  show "work_fits cfg (snd (reload_after_hold cfg look now s))"
    using assms f by (auto simp: reload_after_hold_def a Let_def intro: start_keeps(1))
  assume c: "models_covered s"
  then have "models_covered s0" "models_covered (s0\<lparr>unloaded_for_hold := False\<rparr>)"
    using active_hold_keeps [OF a] by (auto intro: covered_cong)
  then show "models_covered (snd (reload_after_hold cfg look now s))"
    using c f by (auto simp: reload_after_hold_def a Let_def intro: start_keeps(2))
qed

lemma pressure_keeps:
  assumes "work_fits cfg s" shows "work_fits cfg (snd (release_if_under_pressure cfg level now s))"
    and "models_covered s \<Longrightarrow> models_covered (snd (release_if_under_pressure cfg level now s))"
  using assms unload_keeps [OF assms, where rs = False and pr = "pressure_releases s + 1"
      and uc = "unload_count s + 1" and rp = "Some now" and uh = "unloaded_for_hold s"]
  by (auto simp: release_if_under_pressure_def Let_def mark_unloaded_def split: option.splits)

lemma idle_keeps:
  assumes "work_fits cfg s" shows "work_fits cfg (snd (unload_if_idle cfg now s))"
    and "models_covered s \<Longrightarrow> models_covered (snd (unload_if_idle cfg now s))"
  using assms unload_keeps [OF assms, where rs = False and pr = "pressure_releases s"
      and uc = "unload_count s + 1" and rp = None and uh = "unloaded_for_hold s"]
  by (auto simp: unload_if_idle_def Let_def mark_unloaded_def intro: fits_cong covered_cong)

lemma rewarm_keeps:
  assumes "work_fits cfg s" shows "work_fits cfg (snd (rewarm_if_due cfg now s))"
    and "models_covered s \<Longrightarrow> models_covered (snd (rewarm_if_due cfg now s))"
  using assms start_keeps [OF assms]
  by (auto simp: rewarm_if_due_def intro: fits_cong covered_cong split: option.splits)

lemma next_job_keeps:
  assumes "work_fits cfg s" shows "work_fits cfg (next_job s)"
    and "models_covered s \<Longrightarrow> models_covered (next_job s)"
  using assms
  by (cases "wphase (warm s)"; auto simp: next_job_def work_fits_def models_covered_def at_rest_def)+

lemma asking_is_warming: "work_fits cfg s \<Longrightarrow> current s = Some Asking \<Longrightarrow> wphase (warm s) = WARMING \<and> queued s = []"
  by (cases "wphase (warm s)") (auto simp: work_fits_def)

lemma stepping_is_warming:
  "work_fits cfg s \<Longrightarrow> current s = Some (Stepping i) \<Longrightarrow>
   wphase (warm s) = WARMING \<and> queued s = [] \<and> i \<le> loaded s \<and> loaded s \<le> length (steps cfg)"
  by (cases "wphase (warm s)") (auto simp: work_fits_def)

lemma answer_keeps:
  assumes "work_fits cfg s" shows "work_fits cfg (answer_admission cfg d now s)"
    and "has_admission cfg \<Longrightarrow> models_covered s \<Longrightarrow> models_covered (answer_admission cfg d now s)"
proof -
  define dec where "dec = (case d of Some d \<Rightarrow> d | None \<Rightarrow> refused 0 0)"
  have "work_fits cfg (answer_admission cfg d now s)
      \<and> (has_admission cfg \<longrightarrow> models_covered s \<longrightarrow> models_covered (answer_admission cfg d now s))"
    if c: "current s = Some Asking"
  proof -
    note w = asking_is_warming [OF assms c]
    have l: "loaded s \<le> length (steps cfg)" using assms by (simp add: work_fits_def)
    show ?thesis
    proof (cases "has_admission cfg")
      case True
      then show ?thesis using w l c
        by (cases "admitted dec") (simp_all add: answer_admission_def take_decision_def begin_step_def
            work_fits_def models_covered_def at_rest_def flip: dec_def)
    next
      case False
      then show ?thesis using w l c by (simp add: answer_admission_def begin_step_def work_fits_def)
    qed
  qed
  moreover have "answer_admission cfg d now s = s" if "current s \<noteq> Some Asking"
    using that by (simp add: answer_admission_def)
  ultimately show "work_fits cfg (answer_admission cfg d now s)"
    "has_admission cfg \<Longrightarrow> models_covered s \<Longrightarrow> models_covered (answer_admission cfg d now s)"
    using assms by (metis, metis)
qed

lemma run_step_keeps:
  assumes "work_fits cfg s" shows "work_fits cfg (run_step cfg ok cause now s)"
    and "models_covered s \<Longrightarrow> models_covered (run_step cfg ok cause now s)"
proof -
  have idle: "run_step cfg ok cause now s = s" if "\<nexists>i. current s = Some (Stepping i)"
    using that by (auto simp: run_step_def split: option.splits running_job.splits)
  have "work_fits cfg (run_step cfg ok cause now s)
      \<and> (models_covered s \<longrightarrow> models_covered (run_step cfg ok cause now s))"
    if "current s = Some (Stepping i)" for i
    using that stepping_is_warming [OF assms that]
    by (cases "length (steps cfg) \<le> i"; cases ok)
      (auto simp: run_step_def fail_warm_up_def begin_step_def finish_warm_up_def work_fits_def
        models_covered_def at_rest_def)
  then show "work_fits cfg (run_step cfg ok cause now s)"
    "models_covered s \<Longrightarrow> models_covered (run_step cfg ok cause now s)"
    using idle assms by (metis, metis)
qed

lemma unloading_shape:
  "work_fits cfg s \<Longrightarrow> current s = Some Unloading \<Longrightarrow>
     wphase (warm s) = WARMING \<and> queued s = [Warm_Pass] \<or> wphase (warm s) \<in> {UNLOADED, FAILED} \<and> queued s = []"
  by (cases "wphase (warm s)") (auto simp: work_fits_def)

lemma run_unload_eq:
  "run_unload cfg ok s =
     (if current s \<noteq> Some Unloading then s
      else s\<lparr>current := None, loaded := (if ok then 0 else loaded s),
             unload_failed := (unload_failed s \<or> \<not> ok), reserved := (reserved s \<and> \<not> has_admission cfg)\<rparr>)"
  by (cases s) (auto simp: run_unload_def run_after_unload_def Let_def)

lemma run_unload_keeps:
  assumes "work_fits cfg s" shows "work_fits cfg (run_unload cfg ok s)"
    and "models_covered s \<Longrightarrow> models_covered (run_unload cfg ok s)"
proof -
  have l: "loaded s \<le> length (steps cfg)" using assms by (simp add: work_fits_def)
  have "work_fits cfg (run_unload cfg ok s) \<and> (models_covered s \<longrightarrow> models_covered (run_unload cfg ok s))"
    if c: "current s = Some Unloading"
  proof -
    consider "wphase (warm s) = WARMING" "queued s = [Warm_Pass]" | "wphase (warm s) = UNLOADED" "queued s = []"
      | "wphase (warm s) = FAILED" "queued s = []"
      using unloading_shape [OF assms c] by blast
    then show ?thesis using c l
      by cases (simp_all add: run_unload_eq work_fits_def models_covered_def at_rest_def)
  qed
  moreover have "run_unload cfg ok s = s" if "current s \<noteq> Some Unloading"
    using that by (simp add: run_unload_def)
  ultimately show "work_fits cfg (run_unload cfg ok s)"
    "models_covered s \<Longrightarrow> models_covered (run_unload cfg ok s)"
    using assms by (metis, metis)
qed

lemma leave_close_keeps:
  "work_fits cfg s \<Longrightarrow> work_fits cfg (exit_call now s)" "work_fits cfg s \<Longrightarrow> work_fits cfg (s\<lparr>closed := True\<rparr>)"
  "models_covered s \<Longrightarrow> models_covered (exit_call now s)" "models_covered s \<Longrightarrow> models_covered (s\<lparr>closed := True\<rparr>)"
  by (auto simp: exit_call_def work_fits_def models_covered_def at_rest_def)

lemmas step_keeps = start_keeps enter_keeps hold_check_keeps reload_keeps pressure_keeps
  idle_keeps rewarm_keeps next_job_keeps answer_keeps run_step_keeps run_unload_keeps leave_close_keeps

lemma serving_step_fits: "work_fits cfg s \<Longrightarrow> work_fits cfg (serving_step cfg s op)"
  by (cases op) (simp_all add: step_keeps)

lemma serving_step_covered:
  "work_fits cfg s \<Longrightarrow> has_admission cfg \<Longrightarrow> models_covered s \<Longrightarrow> models_covered (serving_step cfg s op)"
  by (cases op) (simp_all add: step_keeps)

lemma serving_run_fits: "work_fits cfg s \<Longrightarrow> work_fits cfg (serving_run cfg s ops)"
  by (induction ops arbitrary: s) (simp_all add: serving_step_fits)

lemma new_server_fits [simp]: "work_fits cfg (new_server now)" "models_covered (new_server now)"
  by (simp_all add: new_server_def new_warm_up_def work_fits_def models_covered_def)

lemma serving_run_covered:
  "work_fits cfg s \<Longrightarrow> has_admission cfg \<Longrightarrow> models_covered s \<Longrightarrow> models_covered (serving_run cfg s ops)"
  by (induction ops arbitrary: s) (simp_all add: serving_step_fits serving_step_covered)

lemma ready_loaded:
  "work_fits cfg s \<Longrightarrow> wphase (warm s) = READY \<Longrightarrow>
     loaded s = length (steps cfg) \<and> queued s = [] \<and> current s = None"
  by (simp add: work_fits_def)

lemma raise_unless_ready_None [simp]:
  "raise_unless_ready retry (warm_status ws r now w) = None \<longleftrightarrow> wphase w = READY"
  by (cases "wphase w") (auto simp: raise_unless_ready_def warm_status_def plain_status_def STARTABLE_def Let_def)

text \<open>While a call is in flight nothing takes a ready server out of its phase.\<close>

fun ends_call :: "serving_op \<Rightarrow> bool" where
  "ends_call (Leave _) \<longleftrightarrow> True"
| "ends_call _ \<longleftrightarrow> False"

lemma step_in_flight:
  "in_flight (serving_step cfg s op) =
     in_flight s + (case op of Enter _ _ \<Rightarrow> 1 | Leave _ \<Rightarrow> - 1 | _ \<Rightarrow> 0)"
  by (cases op)
    (auto simp: enter_call_def exit_call_def unload_if_held_def reload_after_hold_def active_hold_def
      release_if_under_pressure_def unload_if_idle_def rewarm_if_due_def next_job_def answer_admission_def
      run_step_def run_unload_eq run_after_unload_def queue_unload_def Let_def
      split: option.splits prod.splits list.splits job.splits running_job.splits)

lemma ready_in_flight_step:
  assumes "work_fits cfg s" and "wphase (warm s) = READY" and "0 < in_flight s"
  shows "wphase (warm (serving_step cfg s op)) = READY"
  using assms ready_loaded [OF assms(1,2)]
  by (cases op)
    (auto simp: start_warm_up_def begin_warm_up_def STARTABLE_def enter_call_def exit_call_def
      unload_if_held_def reload_after_hold_def active_hold_def release_if_under_pressure_def
      unload_if_idle_def rewarm_if_due_def next_job_def answer_admission_def run_step_def run_unload_eq
      run_after_unload_def Let_def split: option.splits)

lemma ready_in_flight_run:
  "work_fits cfg s \<Longrightarrow> wphase (warm s) = READY \<Longrightarrow> int (length (filter ends_call ops)) < in_flight s \<Longrightarrow>
     wphase (warm (serving_run cfg s ops)) = READY"
proof (induction ops arbitrary: s)
  case (Cons op ops)
  have "0 < in_flight s" using Cons.prems(3) by simp
  then have "wphase (warm (serving_step cfg s op)) = READY"
    using Cons.prems(1,2) by (rule ready_in_flight_step [rotated 2])
  moreover have "int (length (filter ends_call ops)) < in_flight (serving_step cfg s op)"
    unfolding step_in_flight using Cons.prems(3) by (cases op) simp_all
  ultimately show ?case using Cons.IH serving_step_fits [OF Cons.prems(1)] by simp
qed simp

section \<open>Properties\<close>

text \<open>
  C26: A call that is answered keeps its models: in every reachable state in which a call's wait
  finds the server ready, every model is in memory and no unload is queued or running; and it
  stays so, whatever calls, holds, pressure, idle checks and retries come, until as many calls
  have left as were in flight.
\<close>

theorem answered_call_keeps_models:
  assumes "s = serving_run cfg (new_server t0) ops"
    and "raise_unless_ready (retry_seconds cfg) (warm_status (steps cfg) (retry_seconds cfg) now (warm s)) = None"
    and "int (length (filter ends_call later)) < in_flight s"
  shows "let s' = serving_run cfg s later
         in loaded s' = length (steps cfg) \<and> Unload_Job \<notin> set (queued s') \<and> current s' \<noteq> Some Unloading
            \<and> raise_unless_ready (retry_seconds cfg) (warm_status (steps cfg) (retry_seconds cfg) now' (warm s')) = None"
proof -
  have f: "work_fits cfg s" using assms(1) serving_run_fits by simp
  have r: "wphase (warm s) = READY" using assms(2) by simp
  from ready_in_flight_run [OF f r assms(3)] ready_loaded [OF serving_run_fits [OF f]]
  show ?thesis by (simp add: Let_def)
qed

definition sample_serving :: serving_config where
  "sample_serving = \<lparr>steps = [\<lparr>step_name = ''embedder'', estimated_seconds = 20\<rparr>,
       \<lparr>step_name = ''reranker'', estimated_seconds = 30\<rparr>],
     retry_seconds = 15, idle_seconds = 600,
     pressure_release_of = Some \<lparr>release_at = Some CRITICAL, check_seconds = 5, rewarm = True,
       rewarm_cooldown_seconds = 300\<rparr>,
     has_hold = True, has_admission = True, has_watchdog_pass = True\<rparr>"

definition sample_yes :: admission_decision where
  "sample_yes = (refused 17 8)\<lparr>admitted := True, d_cause := None\<rparr>"

definition sample_warmed :: "serving_op list" where
  "sample_warmed = [Start 0, Next_Job, Answer (Some sample_yes) 1, Run_Step True [] 21, Run_Step True [] 50,
     Run_Step True [] 51, Enter None 60]"

theorem answered_call_keeps_models_witness:
  "loaded (serving_run sample_serving (serving_run sample_serving (new_server 0) sample_warmed)
      [Hold_Check (Some True), Pressure_Check (Some CRITICAL) 70, Idle_Check 700]) = 2"
proof -
  let ?s = "serving_run sample_serving (new_server 0) sample_warmed"
  have "wphase (warm ?s) = READY" "in_flight ?s = 1" by code_simp+
  then have "let s' = serving_run sample_serving ?s [Hold_Check (Some True), Pressure_Check (Some CRITICAL) 70, Idle_Check 700]
         in loaded s' = length (steps sample_serving) \<and> Unload_Job \<notin> set (queued s') \<and> current s' \<noteq> Some Unloading
            \<and> raise_unless_ready (retry_seconds sample_serving)
                (warm_status (steps sample_serving) (retry_seconds sample_serving) 0 (warm s')) = None"
    by (intro answered_call_keeps_models [where now = 0, OF refl]) simp_all
  then show ?thesis by (simp add: Let_def sample_serving_def)
qed

lemma unload_failed_step:
  "unload_failed (serving_step cfg s op) \<Longrightarrow> op \<noteq> Run_Unload False \<Longrightarrow> unload_failed s"
  by (cases op)
    (auto simp: enter_call_def exit_call_def unload_if_held_def reload_after_hold_def active_hold_def
      release_if_under_pressure_def unload_if_idle_def rewarm_if_due_def next_job_def answer_admission_def
      run_step_def run_unload_eq run_after_unload_def queue_unload_def Let_def
      split: option.splits prod.splits list.splits job.splits running_job.splits if_splits)

lemma unload_failed_run:
  "unload_failed (serving_run cfg s ops) \<Longrightarrow> Run_Unload False \<notin> set ops \<Longrightarrow> unload_failed s"
  by (induction ops arbitrary: s) (auto dest: unload_failed_step)

text \<open>
  Models in memory are reserved for: a server with an admission check never has a model in
  memory, nor starts to load one, without holding its reservation, as long as its unloads
  succeed.
\<close>

theorem loaded_models_are_reserved:
  assumes "has_admission cfg" and "Run_Unload False \<notin> set ops"
    and "s = serving_run cfg (new_server t0) ops" and "0 < loaded s \<or> current s = Some (Stepping i)"
  shows "reserved s"
proof -
  have "\<not> unload_failed s"
    using unload_failed_run [of cfg "new_server t0" ops] assms(2,3) by (auto simp: new_server_def)
  moreover have "models_covered s" by (simp add: assms(1,3) serving_run_covered)
  ultimately show ?thesis using assms(4) by (auto simp: models_covered_def)
qed

theorem loaded_models_are_reserved_witness:
  "reserved (serving_run sample_serving (new_server 0) sample_warmed)"
proof -
  have "loaded (serving_run sample_serving (new_server 0) sample_warmed) = 2" by code_simp
  then show ?thesis
    by (intro loaded_models_are_reserved [OF _ _ refl])
      (simp_all add: sample_serving_def sample_warmed_def)
qed

fun op_times :: "serving_op \<Rightarrow> clock list" where
  "op_times (Start t) = [t]" | "op_times (Enter _ t) = [t]" | "op_times (Leave t) = [t]"
| "op_times (Reload_Check _ t) = [t]" | "op_times (Pressure_Check _ t) = [t]"
| "op_times (Idle_Check t) = [t]" | "op_times (Rewarm_Check t) = [t]"
| "op_times (Answer _ t) = [t]" | "op_times (Run_Step _ _ t) = [t]"
| "op_times _ = []"

fun call_times :: "serving_op \<Rightarrow> clock list" where
  "call_times (Enter _ t) = [t]" | "call_times (Leave t) = [t]" | "call_times _ = []"

lemma activity_step:
  "last_activity (serving_step cfg s op) = last_activity s
   \<or> last_activity (serving_step cfg s op) \<in> set (op_times op)"
  by (cases op)
    (auto simp: enter_call_def exit_call_def unload_if_held_def reload_after_hold_def active_hold_def
      release_if_under_pressure_def unload_if_idle_def rewarm_if_due_def next_job_def answer_admission_def
      run_step_def run_unload_eq run_after_unload_def queue_unload_def Let_def max_def
      split: option.splits prod.splits list.splits job.splits running_job.splits)

lemma call_is_activity: "t \<in> set (call_times op) \<Longrightarrow> last_activity (serving_step cfg s op) = t \<and> op_times op = [t]"
  by (cases op) (auto simp: enter_call_def exit_call_def Let_def split: prod.splits)

lemma activity_run:
  assumes "sorted (t0 # concat (map op_times ops))"
  shows "last_activity (serving_run cfg (new_server t0) ops) \<in> set (t0 # concat (map op_times ops))
    \<and> t0 \<le> last_activity (serving_run cfg (new_server t0) ops)
    \<and> (\<forall>op \<in> set ops. \<forall>t \<in> set (call_times op). t \<le> last_activity (serving_run cfg (new_server t0) ops))"
  using assms
proof (induction ops rule: rev_induct)
  case Nil
  then show ?case by (simp add: new_server_def)
next
  case (snoc op ops)
  let ?s = "serving_run cfg (new_server t0) ops"
  have IH: "last_activity ?s \<in> set (t0 # concat (map op_times ops))" "t0 \<le> last_activity ?s"
    "\<forall>op \<in> set ops. \<forall>t \<in> set (call_times op). t \<le> last_activity ?s"
    using snoc by (auto simp: sorted_append)
  have later: "last_activity ?s \<le> t" if "t \<in> set (op_times op)" for t
    using snoc.prems IH(1) that by (auto simp: sorted_append)
  from activity_step [of cfg ?s op] have grows: "last_activity ?s \<le> last_activity (serving_step cfg ?s op)"
    using later by auto
  have now: "t \<le> last_activity (serving_step cfg ?s op)" if "t \<in> set (call_times op)" for t
    using call_is_activity [OF that] by simp
  have "\<forall>op' \<in> set (ops @ [op]). \<forall>t \<in> set (call_times op'). t \<le> last_activity (serving_step cfg ?s op)"
    using IH(3) grows now by fastforce
  moreover have "last_activity (serving_step cfg ?s op) \<in> set (t0 # concat (map op_times (ops @ [op])))"
    using activity_step [of cfg ?s op] IH(1) by auto
  ultimately show ?case using IH(2) grows by simp
qed

text \<open>
  Idle unloading waits for quiet: with a clock that does not go back, when the idle check
  unloads the models no call is in flight and none began or ended in the last \<open>idle_seconds\<close>.
\<close>

theorem idle_unload_waits_for_quiet:
  assumes "s = serving_run cfg (new_server t0) ops" and "sorted (t0 # concat (map op_times ops) @ [now])"
    and "fst (unload_if_idle cfg now s)"
  shows "0 < idle_seconds cfg \<and> in_flight s \<le> 0 \<and> wphase (warm s) = READY \<and> t0 + idle_seconds cfg \<le> now
     \<and> (\<forall>op \<in> set ops. \<forall>t \<in> set (call_times op). t + idle_seconds cfg \<le> now)"
proof -
  have "sorted (t0 # concat (map op_times ops))" using assms(2) by (simp add: sorted_append)
  note run = activity_run [OF this, of cfg, folded assms(1)]
  have q: "0 < idle_seconds cfg" "in_flight s \<le> 0" "wphase (warm s) = READY"
    "idle_seconds cfg \<le> now - last_activity s"
    using assms(3) by (auto simp: unload_if_idle_def split: if_splits)
  then show ?thesis using run by fastforce
qed

theorem idle_unload_waits_for_quiet_witness:
  "in_flight (serving_run sample_serving (new_server 0) (butlast sample_warmed @ [Idle_Check 51])) \<le> 0"
proof -
  let ?ops = "butlast sample_warmed @ [Idle_Check 51]"
  let ?s = "serving_run sample_serving (new_server 0) ?ops"
  have "fst (unload_if_idle sample_serving 651 ?s)" "sorted (0 # concat (map op_times ?ops) @ [651])"
    by code_simp+
  from idle_unload_waits_for_quiet [OF refl this(2,1)] show ?thesis by blast
qed

fun finds_hold :: "serving_op \<Rightarrow> bool" where
  "finds_hold (Start _) \<longleftrightarrow> False"
| "finds_hold (Enter look _) \<longleftrightarrow> look = Some True"
| "finds_hold (Hold_Check look) \<longleftrightarrow> look = Some True"
| "finds_hold (Reload_Check look _) \<longleftrightarrow> look = Some True"
| "finds_hold _ \<longleftrightarrow> True"

lemma held_step:
  assumes "has_hold cfg" and "work_fits cfg s" and "hold_seen s" and "wphase (warm s) \<in> {UNLOADED, MEMORY_BUSY}"
    and "finds_hold op"
  shows "hold_seen (serving_step cfg s op) \<and> warm (serving_step cfg s op) = warm s"
proof -
  have idle: "current s \<noteq> Some Asking" "current s \<noteq> Some (Stepping i)" for i
    using assms(2,4) by (auto simp: work_fits_def)
  show ?thesis
  proof (cases op)
    case (Run_Step ok cause now)
    then show ?thesis using idle assms(3)
      by (auto simp: run_step_def split: option.splits running_job.splits)
  qed (use assms idle in \<open>auto simp: enter_call_def exit_call_def unload_if_held_def reload_after_hold_def
      active_hold_def release_if_under_pressure_def unload_if_idle_def rewarm_if_due_def next_job_def
      answer_admission_def run_unload_eq run_after_unload_def Let_def
      split: option.splits list.splits job.splits\<close>)
qed

text \<open>
  A hold keeps the models out: once a look has found it and the models are not loaded, no
  tool call, refused load, cooldown or watchdog pass starts a load while every look still finds
  the hold.
\<close>

theorem hold_keeps_models_out:
  assumes "has_hold cfg" and "s = serving_run cfg (new_server t0) before" and "hold_seen s"
    and "wphase (warm s) \<in> {UNLOADED, MEMORY_BUSY}" and "\<forall>op \<in> set ops. finds_hold op"
  shows "wphase (warm (serving_run cfg s ops)) = wphase (warm s)
     \<and> Warm_Pass \<notin> set (queued (serving_run cfg s ops))
     \<and> current (serving_run cfg s ops) \<in> {None, Some Unloading}"
proof -
  have f: "work_fits cfg s" using assms(2) serving_run_fits by simp
  have "hold_seen (serving_run cfg s ops) \<and> warm (serving_run cfg s ops) = warm s"
    using f assms(3-5)
  proof (induction ops arbitrary: s)
    case (Cons op ops)
    from held_step [OF assms(1) Cons.prems(1,2,3), of op] Cons.prems(4)
    have "hold_seen (serving_step cfg s op)" "warm (serving_step cfg s op) = warm s" by auto
    then show ?case using Cons.IH [OF serving_step_fits [OF Cons.prems(1)]] Cons.prems(3,4) by simp
  qed simp
  moreover have "work_fits cfg (serving_run cfg s ops)" using f by (rule serving_run_fits)
  ultimately show ?thesis using assms(4) by (auto simp: work_fits_def)
qed

definition sample_held :: "serving_op list" where
  "sample_held = butlast sample_warmed @ [Hold_Check (Some True), Next_Job, Run_Unload True]"

theorem hold_keeps_models_out_witness:
  "wphase (warm (serving_run sample_serving (serving_run sample_serving (new_server 0) sample_held)
     [Enter (Some True) 70, Leave 71, Reload_Check (Some True) 72, Rewarm_Check 1000])) = UNLOADED"
proof -
  let ?s = "serving_run sample_serving (new_server 0) sample_held"
  have w: "wphase (warm ?s) = UNLOADED" and h: "hold_seen ?s" by code_simp+
  show ?thesis
    using hold_keeps_models_out [OF _ refl h, of "[Enter (Some True) 70, Leave 71, Reload_Check (Some True) 72,
      Rewarm_Check 1000]"] w by (simp add: sample_serving_def)
qed

definition drain :: "serving_config \<Rightarrow> admission_decision \<Rightarrow> clock \<Rightarrow> serving_op list" where
  "drain cfg d now =
     [Run_Unload True, Next_Job, Run_Unload True, Next_Job, Answer (Some d) now]
     @ replicate (Suc (length (steps cfg))) (Run_Step True [] now)"

lemma run_steps_done:
  "current s = None \<Longrightarrow> wphase (warm s) = READY \<Longrightarrow>
     serving_run cfg s (replicate k (Run_Step True c now)) = s"
  by (induction k) (simp_all add: run_step_def)

lemma run_steps_finish:
  assumes "current s = Some (Stepping i)" and "i \<le> length (steps cfg)" and "length (steps cfg) - i < k"
  shows "wphase (warm (serving_run cfg s (replicate k (Run_Step True c now)))) = READY"
  using assms
proof (induction k arbitrary: s i)
  case (Suc k)
  let ?s = "run_step cfg True c now s"
  show ?case
  proof (cases "length (steps cfg) \<le> i")
    case True
    then have "current ?s = None" "wphase (warm ?s) = READY"
      using Suc.prems(1) by (simp_all add: run_step_def finish_warm_up_def)
    then show ?thesis using run_steps_done by simp
  next
    case False
    then have "current ?s = Some (Stepping (Suc i))" using Suc.prems(1) by (simp add: run_step_def)
    then show ?thesis using False Suc.IH [of ?s "Suc i"] Suc.prems(3) by simp
  qed
qed simp

text \<open>
  C27: A warm-up that is under way can end ready: from any reachable warming state the model thread,
  whatever it still has queued, reaches ready with every model in memory by working through its jobs,
  when the admission says yes and no step and no unload fails. (A refusal ends it waiting for memory, a
  failing step failed.)
\<close>

theorem warm_up_ends_ready:
  assumes "s = serving_run cfg (new_server t0) ops" and "wphase (warm s) = WARMING" and "admitted d"
  shows "wphase (warm (serving_run cfg s (drain cfg d now))) = READY
     \<and> loaded (serving_run cfg s (drain cfg d now)) = length (steps cfg)"
proof -
  let ?n = "length (steps cfg)"
  let ?s5 = "serving_run cfg s [Run_Unload True, Next_Job, Run_Unload True, Next_Job, Answer (Some d) now]"
  have f: "work_fits cfg s" using assms(1) serving_run_fits by simp
  have answered: "current (answer_admission cfg (Some d) now u) = Some (Stepping 0)"
    if "current u = Some Asking" for u
    using that assms(3) by (simp add: answer_admission_def take_decision_def split: prod.splits)
  have "\<exists>i. current ?s5 = Some (Stepping i) \<and> i \<le> ?n"
  proof -
    consider "queued s = []" "current s = Some Asking"
      | i where "queued s = []" "current s = Some (Stepping i)" "i \<le> ?n"
      | "queued s = [Warm_Pass]" "current s = None" | "queued s = [Warm_Pass]" "current s = Some Unloading"
      | "queued s = [Unload_Job, Warm_Pass]" "current s = None"
      using f assms(2) by (auto simp: work_fits_def)
    then show ?thesis
      by cases (auto simp: run_unload_eq next_job_def answered, simp add: answer_admission_def)
  qed
  then obtain i where "current ?s5 = Some (Stepping i)" "i \<le> ?n" by blast
  then have "wphase (warm (serving_run cfg s (drain cfg d now))) = READY"
    unfolding drain_def serving_run_simps(3) by (rule run_steps_finish) simp
  then show ?thesis using ready_loaded [OF serving_run_fits [OF f]] by blast
qed

theorem warm_up_ends_ready_witness:
  "wphase (warm (serving_run sample_serving (serving_run sample_serving (new_server 0)
     (sample_held @ [Hold_Check (Some False), Reload_Check (Some False) 80])) (drain sample_serving sample_yes 90))) = READY"
proof -
  have "wphase (warm (serving_run sample_serving (new_server 0)
      (sample_held @ [Hold_Check (Some False), Reload_Check (Some False) 80]))) = WARMING" by code_simp
  moreover have "admitted sample_yes" by (simp add: sample_yes_def)
  ultimately show ?thesis using warm_up_ends_ready [OF refl] by blast
qed

end
