(* ===== verification/Canonical_Json.thy ===== *)
theory Canonical_Json
  imports Py_Strings "HOL-Library.AList" "HOL-Library.List_Lexorder" "HOL-Library.Char_ord"
begin

text \<open>
  The canonical JSON encoding every hash pin of the export goes through
  (\<open>src/imsg/export/documents.py\<close>, \<open>canonical_json\<close>), and the reading of it back
  (\<open>json.loads\<close> in \<open>planner.py\<close>). Both are functions of the standard library, written out: keys
  sorted, no white space, ASCII only. The spelling of a float is a parameter; characters are code
  points below 256, and the library's limits on nesting and on the digits of an integer are left
  out.
\<close>

section \<open>Writing\<close>

abbreviation quote :: char where "quote \<equiv> CHR 0x22"
abbreviation backslash :: char where "backslash \<equiv> CHR 0x5C"

definition hex_digit :: "nat \<Rightarrow> char" where
  "hex_digit n = (if n < 10 then char_of (48 + n) else char_of (87 + n))"

text \<open>\<open>ensure_ascii\<close>: everything outside the printable range is escaped.\<close>

definition escape_char :: "char \<Rightarrow> string" where
  "escape_char ch =
     (if ch = quote \<or> ch = backslash then [backslash, ch]
      else if ord ch = 8 then [backslash, CHR ''b'']
      else if ord ch = 9 then [backslash, CHR ''t'']
      else if ord ch = 10 then [backslash, CHR ''n'']
      else if ord ch = 12 then [backslash, CHR ''f'']
      else if ord ch = 13 then [backslash, CHR ''r'']
      else if 32 \<le> ord ch \<and> ord ch \<le> 126 then [ch]
      else [backslash, CHR ''u'', CHR ''0'', CHR ''0'', hex_digit (ord ch div 16), hex_digit (ord ch mod 16)])"

definition json_string :: "string \<Rightarrow> string" where
  "json_string s = quote # concat (map escape_char s) @ [quote]"

fun commas :: "string list \<Rightarrow> string" where
  "commas [] = []"
| "commas [x] = x"
| "commas (x # xs) = x @ CHR '','' # commas xs"

fun json_text :: "(rat option \<Rightarrow> string) \<Rightarrow> json \<Rightarrow> string" where
  "json_text fr JNull = ''null''"
| "json_text fr (JBool b) = (if b then ''true'' else ''false'')"
| "json_text fr (JInt i) = py_str_int i"
| "json_text fr (JFloat x) = fr x"
| "json_text fr (JStr s) = json_string s"
| "json_text fr (JList js) = CHR ''['' # commas (map (json_text fr) js) @ '']''"
| "json_text fr (JObj kvs) =
     CHR ''{'' # commas (map (\<lambda>kv. json_string (fst kv) @ CHR '':'' # json_text fr (snd kv)) kvs) @ ''}''"

text \<open>\<open>sort_keys=True\<close>, at every level.\<close>

fun sort_keys :: "json \<Rightarrow> json" where
  "sort_keys (JList js) = JList (map sort_keys js)"
| "sort_keys (JObj kvs) = JObj (sort_key fst (map (\<lambda>kv. (fst kv, sort_keys (snd kv))) kvs))"
| "sort_keys j = j"

definition canonical_json :: "(rat option \<Rightarrow> string) \<Rightarrow> json \<Rightarrow> string" where
  "canonical_json fr j = json_text fr (sort_keys j)"

section \<open>Reading\<close>

definition skip_space :: "string \<Rightarrow> string" where
  "skip_space s = dropWhile (\<lambda>ch. ord ch \<in> {9, 10, 13, 32}) s"

definition hex_value :: "char \<Rightarrow> nat option" where
  "hex_value ch =
     (let n = ord ch
      in if 48 \<le> n \<and> n \<le> 57 then Some (n - 48)
         else if 97 \<le> n \<and> n \<le> 102 then Some (n - 87)
         else if 65 \<le> n \<and> n \<le> 70 then Some (n - 55) else None)"

definition hex_char :: "char \<Rightarrow> char \<Rightarrow> char \<Rightarrow> char \<Rightarrow> char option" where
  "hex_char a b c d =
     (case (hex_value a, hex_value b, hex_value c, hex_value d) of
        (Some w, Some x, Some y, Some z) \<Rightarrow>
          (let n = ((w * 16 + x) * 16 + y) * 16 + z in if n < 256 then Some (char_of n) else None)
      | _ \<Rightarrow> None)"

definition unescape :: "char \<Rightarrow> char option" where
  "unescape e = map_of [(quote, quote), (backslash, backslash), (CHR ''/'', CHR ''/''), (CHR ''b'', char_of (8::nat)),
     (CHR ''f'', char_of (12::nat)), (CHR ''n'', char_of (10::nat)), (CHR ''r'', char_of (13::nat)),
     (CHR ''t'', char_of (9::nat))] e"

text \<open>A string after its first quote.\<close>

fun read_string :: "string \<Rightarrow> (string \<times> string) option" where
  "read_string [] = None"
| "read_string (ch # r) =
     (if ch = quote then Some ([], r)
      else if ch = backslash then
        (case r of
           [] \<Rightarrow> None
         | e # r1 \<Rightarrow>
             if e = CHR ''u'' then
               (case r1 of
                  a # b # c # d # r2 \<Rightarrow>
                    (case hex_char a b c d of None \<Rightarrow> None
                     | Some x \<Rightarrow> map_option (apfst (Cons x)) (read_string r2))
                | _ \<Rightarrow> None)
             else (case unescape e of None \<Rightarrow> None
                   | Some x \<Rightarrow> map_option (apfst (Cons x)) (read_string r1)))
      else if ord ch < 32 then None
      else map_option (apfst (Cons ch)) (read_string r))"

definition digits_of :: "string \<Rightarrow> string" where
  "digits_of s = takeWhile is_digit s"

definition int_digits :: "string \<Rightarrow> string" where
  "int_digits s = (case s of [] \<Rightarrow> [] | ch # _ \<Rightarrow> if ch = CHR ''0'' then [ch] else digits_of s)"

definition fraction_part :: "string \<Rightarrow> string" where
  "fraction_part s =
     (case s of
        ch # r \<Rightarrow> if ch = CHR ''.'' \<and> digits_of r \<noteq> [] then ch # digits_of r else []
      | [] \<Rightarrow> [])"

definition exponent_part :: "string \<Rightarrow> string" where
  "exponent_part s =
     (case s of
        ch # r \<Rightarrow>
          (let sgn = (case r of c # _ \<Rightarrow> if c \<in> {CHR ''+'', CHR ''-''} then [c] else [] | [] \<Rightarrow> []);
               ds = digits_of (drop (length sgn) r)
           in if ch \<in> {CHR ''e'', CHR ''E''} \<and> ds \<noteq> [] then ch # sgn @ ds else [])
      | [] \<Rightarrow> [])"

definition decimal :: "string \<Rightarrow> nat" where
  "decimal ds = foldl (\<lambda>n ch. 10 * n + (ord ch - 48)) 0 ds"

definition read_number :: "(string \<Rightarrow> rat option) \<Rightarrow> string \<Rightarrow> (json \<times> string) option" where
  "read_number float_of s =
     (let neg = (case s of ch # _ \<Rightarrow> ch = CHR ''-'' | [] \<Rightarrow> False);
          r = (if neg then drop 1 s else s);
          ds = int_digits r; r1 = drop (length ds) r;
          fraction = fraction_part r1; r2 = drop (length fraction) r1;
          expo = exponent_part r2; r3 = drop (length expo) r2
      in if ds = [] then None
         else if fraction = [] \<and> expo = []
         then Some (JInt (if neg then - int (decimal ds) else int (decimal ds)), r3)
         else Some (JFloat (float_of (take (length s - length r3) s)), r3))"

definition literals :: "(string \<times> json) list" where
  "literals = [(''null'', JNull), (''true'', JBool True), (''false'', JBool False), (''NaN'', JFloat None),
     (''Infinity'', JFloat None), (''-Infinity'', JFloat None)]"

definition read_scalar :: "(string \<Rightarrow> rat option) \<Rightarrow> string \<Rightarrow> (json \<times> string) option" where
  "read_scalar float_of s =
     (case find (\<lambda>(l, _). take (length l) s = l) literals of
        Some (l, j) \<Rightarrow> Some (j, drop (length l) s)
      | None \<Rightarrow> read_number float_of s)"

text \<open>
  A value at the head of the text, the items of a list after its bracket or a comma, and the
  members of an object, with fuel for the nesting and the length. A later member replaces an
  earlier one of the same key.
\<close>

fun read_value :: "(string \<Rightarrow> rat option) \<Rightarrow> nat \<Rightarrow> string \<Rightarrow> (json \<times> string) option"
and read_items :: "(string \<Rightarrow> rat option) \<Rightarrow> nat \<Rightarrow> string \<Rightarrow> (json list \<times> string) option"
and read_members ::
  "(string \<Rightarrow> rat option) \<Rightarrow> nat \<Rightarrow> (string \<times> json) list \<Rightarrow> string \<Rightarrow> ((string \<times> json) list \<times> string) option"
where
  "read_value fo 0 s = None"
| "read_value fo (Suc n) s =
     (case s of
        [] \<Rightarrow> None
      | ch # r \<Rightarrow>
          if ch = quote then map_option (apfst JStr) (read_string r)
          else if ch = CHR ''['' then
            (case skip_space r of
               [] \<Rightarrow> None
             | c # r' \<Rightarrow> if c = CHR '']'' then Some (JList [], r')
                         else map_option (apfst JList) (read_items fo n (c # r')))
          else if ch = CHR ''{'' then
            (case skip_space r of
               [] \<Rightarrow> None
             | c # r' \<Rightarrow> if c = CHR ''}'' then Some (JObj [], r')
                         else map_option (apfst JObj) (read_members fo n [] (c # r')))
          else read_scalar fo s)"
| "read_items fo 0 s = None"
| "read_items fo (Suc n) s =
     (case read_value fo n s of
        None \<Rightarrow> None
      | Some (j, r) \<Rightarrow>
          (case skip_space r of
             [] \<Rightarrow> None
           | c # r' \<Rightarrow> if c = CHR '']'' then Some ([j], r')
                       else if c = CHR '','' then map_option (apfst (Cons j)) (read_items fo n (skip_space r'))
                       else None))"
| "read_members fo 0 kvs s = None"
| "read_members fo (Suc n) kvs s =
     (case s of
        [] \<Rightarrow> None
      | q # r \<Rightarrow>
          if q \<noteq> quote then None
          else (case read_string r of
             None \<Rightarrow> None
           | Some (k, r1) \<Rightarrow>
               (case skip_space r1 of
                  [] \<Rightarrow> None
                | c # r2 \<Rightarrow>
                    if c \<noteq> CHR '':'' then None
                    else (case read_value fo n (skip_space r2) of
                       None \<Rightarrow> None
                     | Some (j, r3) \<Rightarrow>
                         (case skip_space r3 of
                            [] \<Rightarrow> None
                          | c' # r4 \<Rightarrow>
                              if c' = CHR ''}'' then Some (AList.update k j kvs, r4)
                              else if c' = CHR '','' then read_members fo n (AList.update k j kvs) (skip_space r4)
                              else None)))))"

definition json_loads :: "(string \<Rightarrow> rat option) \<Rightarrow> string \<Rightarrow> json option" where
  "json_loads fo s =
     (case read_value fo (Suc (length s)) (skip_space s) of
        None \<Rightarrow> None
      | Some (j, r) \<Rightarrow> if skip_space r = [] then Some j else None)"

section \<open>Reading what was written\<close>

text \<open>The values a manifest is made of: no float, and no key twice in an object.\<close>

fun plain :: "json \<Rightarrow> bool" where
  "plain (JFloat x) \<longleftrightarrow> False"
| "plain (JList js) \<longleftrightarrow> (\<forall>j \<in> set js. plain j)"
| "plain (JObj kvs) \<longleftrightarrow> distinct (map fst kvs) \<and> (\<forall>kv \<in> set kvs. plain (snd kv))"
| "plain j \<longleftrightarrow> True"

lemma ord_less: "ord ch < 256"
  by (simp add: ord_def)

lemma char_of_ord [simp]: "char_of (ord ch) = ch"
  by (simp add: ord_def)

lemma hex_value_digit: "n < 16 \<Longrightarrow> hex_value (hex_digit n) = Some n"
  by (auto simp: hex_value_def hex_digit_def Let_def)

lemma hex_char_ord:
  "hex_char (CHR ''0'') (CHR ''0'') (hex_digit (ord ch div 16)) (hex_digit (ord ch mod 16)) = Some ch"
proof -
  have zero: "hex_value (CHR ''0'') = Some 0" by code_simp
  have "ord ch div 16 < 16" "ord ch mod 16 < 16" using ord_less [of ch] by (simp_all add: less_mult_imp_div_less)
  moreover have "ord ch div 16 * 16 + ord ch mod 16 = ord ch" by (rule div_mult_mod_eq)
  ultimately show ?thesis using ord_less [of ch] by (simp add: hex_char_def zero hex_value_digit Let_def)
qed

lemma char_eq_ord: "ord ch = n \<Longrightarrow> ch = char_of n"
  using char_of_ord [of ch] by metis

lemma read_escaped: "read_string (escape_char ch @ r) = map_option (apfst (Cons ch)) (read_string r)"
proof -
  have u: "CHR ''u'' \<noteq> quote" "backslash \<noteq> quote" by simp_all
  consider "ch = quote" | "ch = backslash" | n where "ch = char_of n" "n \<in> {8, 9, 10, 12, 13 :: nat}"
    | "ch \<noteq> quote" "ch \<noteq> backslash" "ord ch \<notin> {8, 9, 10, 12, 13}" "32 \<le> ord ch \<and> ord ch \<le> 126"
    | "ch \<noteq> quote" "ch \<noteq> backslash" "ord ch \<notin> {8, 9, 10, 12, 13}" "\<not> (32 \<le> ord ch \<and> ord ch \<le> 126)"
    using char_of_ord [of ch] by metis
  then show ?thesis
  proof cases
    case 3
    then show ?thesis by (auto simp: escape_char_def unescape_def split: if_splits)
  next
    case 4
    then show ?thesis by (auto simp: escape_char_def)
  next
    case 5
    then show ?thesis by (simp add: escape_char_def hex_char_ord)
  qed (simp_all add: escape_char_def unescape_def)
qed

lemma read_string_text: "read_string (concat (map escape_char s) @ quote # r) = Some (s, r)"
  by (induction s) (simp_all add: read_escaped)

text \<open>A text after a value that does not go on with a number.\<close>

definition stops :: "string \<Rightarrow> bool" where
  "stops r \<longleftrightarrow> (case r of [] \<Rightarrow> True | ch # _ \<Rightarrow> \<not> is_digit ch \<and> ch \<notin> {CHR ''.'', CHR ''e'', CHR ''E''})"

lemma digits_nat_str: "stops r \<Longrightarrow> digits_of (nat_str n @ r) = nat_str n"
  using nat_str_digits [of n]
  by (auto simp: digits_of_def stops_def takeWhile_append split: list.splits)

lemma nat_str_nonempty [simp]: "nat_str n \<noteq> []"
  by (subst nat_str.simps) simp

lemma nat_str_hd_zero: "hd (nat_str n) = CHR ''0'' \<longleftrightarrow> n = 0"
proof (induction n rule: nat_str.induct)
  case (1 n)
  show ?case
  proof (cases "n < 10")
    case True
    then have "hd (nat_str n) = char_of (48 + n)" by (subst nat_str.simps) simp
    moreover have "ord (CHR ''0'') = 48" by code_simp
    ultimately show ?thesis using True ord_digit [of n] by (metis add_cancel_left_right char_of_ord add_0_right)
  next
    case False
    then have "hd (nat_str n) = hd (nat_str (n div 10))" by (subst nat_str.simps) simp
    then show ?thesis using False 1 by simp
  qed
qed

lemma int_digits_nat_str: "stops r \<Longrightarrow> int_digits (nat_str n @ r) = nat_str n"
proof (cases "n = 0")
  case True
  moreover have "nat_str 0 = ''0''" by code_simp
  ultimately show ?thesis by (simp add: int_digits_def)
next
  case False
  assume s: "stops r"
  obtain c cs where "nat_str n = c # cs" "c \<noteq> CHR ''0''"
    using False nat_str_hd_zero [of n] by (cases "nat_str n") auto
  then show ?thesis using digits_nat_str [OF s, of n] by (simp add: int_digits_def)
qed

lemma stops_parts: "stops r \<Longrightarrow> fraction_part r = [] \<and> exponent_part r = []"
  by (auto simp: stops_def fraction_part_def exponent_part_def split: list.splits)

lemma read_number_text:
  assumes "stops r"
  shows "read_number fo (py_str_int i @ r) = Some (JInt i, r)"
proof -
  have minus: "\<not> is_digit (CHR ''-'')" by (simp add: is_digit_def ord_def)
  note parts = stops_parts [OF assms] int_digits_nat_str [OF assms]
  show ?thesis
  proof (cases "i < 0")
    case True
    then show ?thesis
      by (simp add: py_str_int_def read_number_def parts decimal_def nat_str_value)
  next
    case False
    obtain c cs where c: "nat_str (nat i) = c # cs" by (cases "nat_str (nat i)") auto
    then have "c \<noteq> CHR ''-''" using nat_str_digits [of "nat i"] minus by auto
    then have neg: "(case nat_str (nat i) @ r of [] \<Rightarrow> False | ch # _ \<Rightarrow> ch = CHR ''-'') = False" using c by simp
    show ?thesis using False
      by (simp add: py_str_int_def read_number_def neg parts decimal_def nat_str_value del: not_less)
  qed
qed

lemma read_scalar_text:
  assumes "stops r" shows "read_scalar fo (py_str_int i @ r) = Some (JInt i, r)"
proof -
  have "find (\<lambda>(l, _). take (length l) (py_str_int i @ r) = l) literals = None"
  proof -
    obtain c cs where c: "nat_str (nat \<bar>i\<bar>) = c # cs" by (cases "nat_str (nat \<bar>i\<bar>)") auto
    then have "is_digit c" using nat_str_digits [of "nat \<bar>i\<bar>"] by auto
    then have "c \<notin> {CHR ''n'', CHR ''t'', CHR ''f'', CHR ''N'', CHR ''I'', CHR ''-''}"
      by (auto simp: is_digit_def ord_def)
    moreover have "py_str_int i = (if i < 0 then CHR ''-'' # c # cs else c # cs)"
      using c by (cases "i < 0") (simp_all add: py_str_int_def)
    ultimately show ?thesis by (simp add: literals_def)
  qed
  then show ?thesis by (simp add: read_scalar_def read_number_text [OF assms])
qed

lemma update_fresh: "k \<notin> fst ` set kvs \<Longrightarrow> AList.update k j kvs = kvs @ [(k, j)]"
  by (induction kvs) auto

lemma skip_space_head [simp]: "ord ch \<notin> {9, 10, 13, 32} \<Longrightarrow> skip_space (ch # r) = ch # r"
  by (simp add: skip_space_def)

definition opens_value :: "char \<Rightarrow> bool" where
  "opens_value ch \<longleftrightarrow> ord ch \<notin> {9, 10, 13, 32} \<and> ch \<notin> {CHR '']'', CHR ''}''}"

lemma text_opens: "plain j \<Longrightarrow> \<exists>c cs. json_text fr j = c # cs \<and> opens_value c"
proof (cases j)
  case (JInt i)
  obtain c cs where c: "nat_str (nat \<bar>i\<bar>) = c # cs" by (cases "nat_str (nat \<bar>i\<bar>)") auto
  then have "is_digit c" using nat_str_digits [of "nat \<bar>i\<bar>"] by auto
  then have "opens_value c" by (auto simp: is_digit_def opens_value_def ord_def)
  moreover have "opens_value (CHR ''-'')" by (simp add: opens_value_def ord_def)
  ultimately show ?thesis using c JInt by (cases "i < 0") (simp_all add: py_str_int_def)
qed (auto simp: opens_value_def ord_def json_string_def)

lemma skip_space_text: "plain j \<Longrightarrow> skip_space (json_text fr j @ r) = json_text fr j @ r"
  using text_opens [of j fr] by (auto simp: opens_value_def)

lemma stops_punct [simp]:
  "stops (CHR '','' # r)" "stops (CHR '']'' # r)" "stops (CHR ''}'' # r)" "stops []"
  by (simp_all add: stops_def is_digit_def ord_def)

lemma skip_space_punct [simp]:
  "skip_space (CHR '','' # r) = CHR '','' # r" "skip_space (CHR '']'' # r) = CHR '']'' # r"
  "skip_space (CHR ''}'' # r) = CHR ''}'' # r" "skip_space (CHR '':'' # r) = CHR '':'' # r"
  "skip_space (quote # r) = quote # r" "skip_space [] = []"
  by (simp_all add: skip_space_def ord_def)

lemma read_items_text:
  assumes "js \<noteq> []" and "length (commas (map (json_text fr) js)) < n" and "\<forall>j \<in> set js. plain j"
    and "\<And>j n r. j \<in> set js \<Longrightarrow> stops r \<Longrightarrow> length (json_text fr j) \<le> n
           \<Longrightarrow> read_value fo n (json_text fr j @ r) = Some (j, r)"
  shows "read_items fo n (commas (map (json_text fr) js) @ CHR '']'' # r) = Some (js, r)"
  using assms
proof (induction js arbitrary: n)
  case (Cons j js)
  then obtain m where n: "n = Suc m" by (cases n) auto
  show ?case
  proof (cases js)
    case Nil
    then show ?thesis using Cons.prems(2,4) n by simp
  next
    case (Cons j' js')
    let ?rest = "commas (map (json_text fr) js) @ CHR '']'' # r"
    have shape: "commas (map (json_text fr) (j # js)) @ CHR '']'' # r = json_text fr j @ CHR '','' # ?rest"
      using Cons by simp
    have len: "length (json_text fr j) \<le> m" "length (commas (map (json_text fr) js)) < m"
      using Cons.prems(2) Cons n by simp_all
    have "\<exists>t. ?rest = json_text fr j' @ t" using Cons by (cases js') auto
    then have skip: "skip_space ?rest = ?rest" using skip_space_text [of j' fr] Cons.prems(3) Cons by auto
    have "read_items fo m ?rest = Some (js, r)"
      using Cons.IH [OF _ len(2)] Cons.prems(3,4) Cons by auto
    then show ?thesis
      using Cons.prems(4) [of j "CHR '','' # ?rest" m] len(1) n skip unfolding shape by simp
  qed
qed simp

abbreviation member_text :: "(rat option \<Rightarrow> string) \<Rightarrow> string \<times> json \<Rightarrow> string" where
  "member_text fr kv \<equiv> json_string (fst kv) @ CHR '':'' # json_text fr (snd kv)"

lemma read_members_text:
  assumes "kvs \<noteq> []" and "length (commas (map (member_text fr) kvs)) < n"
    and "\<forall>kv \<in> set kvs. plain (snd kv)" and "distinct (map fst (acc @ kvs))"
    and "\<And>j n r. j \<in> snd ` set kvs \<Longrightarrow> stops r \<Longrightarrow> length (json_text fr j) \<le> n
           \<Longrightarrow> read_value fo n (json_text fr j @ r) = Some (j, r)"
  shows "read_members fo n acc (commas (map (member_text fr) kvs) @ CHR ''}'' # r) = Some (acc @ kvs, r)"
  using assms
proof (induction kvs arbitrary: n acc)
  case (Cons kv kvs)
  obtain k j where kv: "kv = (k, j)" by fastforce
  from Cons.prems(2) obtain m where n: "n = Suc m" by (cases n) auto
  have fresh: "AList.update k j acc = acc @ [kv]" using Cons.prems(4) kv by (simp add: update_fresh)
  have j: "plain j" using Cons.prems(3) kv by simp
  let ?tail = "if kvs = [] then CHR ''}'' # r else CHR '','' # commas (map (member_text fr) kvs) @ CHR ''}'' # r"
  have shape: "commas (map (member_text fr) (kv # kvs)) @ CHR ''}'' # r
      = quote # concat (map escape_char k) @ quote # CHR '':'' # json_text fr j @ ?tail"
    using kv by (cases kvs) (simp_all add: json_string_def)
  have "length (json_text fr j) \<le> m" using Cons.prems(2) kv n by (cases kvs) simp_all
  then have val: "read_value fo m (json_text fr j @ ?tail) = Some (j, ?tail)"
    using Cons.prems(5) [of j ?tail m] kv by simp
  show ?case
  proof (cases "kvs = []")
    case True
    then show ?thesis unfolding shape using val n fresh
      by (simp add: read_string_text skip_space_text [OF j])
  next
    case False
    let ?rest = "commas (map (member_text fr) kvs) @ CHR ''}'' # r"
    have len: "length (commas (map (member_text fr) kvs)) < m" using Cons.prems(2) False kv n by (cases kvs) simp_all
    have "\<exists>t. ?rest = quote # t" using False by (cases kvs; cases "tl kvs") (simp_all add: json_string_def)
    then have skip: "skip_space ?rest = ?rest" by auto
    have "read_members fo m (acc @ [kv]) ?rest = Some ((acc @ [kv]) @ kvs, r)"
      using Cons.IH [OF False len, of "acc @ [kv]"] Cons.prems(3,4,5) by simp
    then show ?thesis unfolding shape using val n fresh False skip
      by (simp add: read_string_text skip_space_text [OF j])
  qed
qed simp

lemma read_value_text:
  "plain j \<Longrightarrow> stops r \<Longrightarrow> length (json_text fr j) \<le> n \<Longrightarrow> read_value fo n (json_text fr j @ r) = Some (j, r)"
proof (induction j arbitrary: n r)
  case (JInt i)
  obtain c cs where c: "json_text fr (JInt i) = c # cs" "opens_value c" using text_opens [of "JInt i" fr] by auto
  obtain d ds where "nat_str (nat \<bar>i\<bar>) = d # ds" by (cases "nat_str (nat \<bar>i\<bar>)") auto
  moreover from this have "is_digit d" using nat_str_digits [of "nat \<bar>i\<bar>"] by auto
  ultimately have "c = CHR ''-'' \<or> is_digit c" using c(1) by (cases "i < 0") (auto simp: py_str_int_def)
  then have "c \<notin> {quote, CHR ''['', CHR ''{''}" by (auto simp: is_digit_def ord_def)
  then show ?case using JInt.prems(2,3) c read_scalar_text [OF JInt.prems(2), of fo i] by (cases n) simp_all
next
  case (JStr s)
  then show ?case by (cases n) (simp_all add: json_string_def read_string_text)
next
  case (JList js)
  then obtain m where n: "n = Suc m" by (cases n) auto
  show ?case
  proof (cases js)
    case (Cons j js')
    let ?rest = "commas (map (json_text fr) js) @ CHR '']'' # r"
    obtain c cs where c: "json_text fr j = c # cs" "opens_value c"
      using text_opens [of j fr] JList.prems(1) Cons by auto
    then have rest: "\<exists>t. ?rest = c # t" using Cons by (cases js') auto
    have "read_items fo m ?rest = Some (js, r)"
      using JList n Cons by (intro read_items_text) auto
    moreover have "skip_space ?rest = ?rest" "c \<noteq> CHR '']''" using rest c(2) by (auto simp: opens_value_def)
    ultimately show ?thesis using rest n by auto
  qed (use n in simp)
next
  case (JObj kvs)
  then obtain m where n: "n = Suc m" by (cases n) auto
  show ?case
  proof (cases kvs)
    case (Cons kv kvs')
    let ?rest = "commas (map (member_text fr) kvs) @ CHR ''}'' # r"
    have rest: "\<exists>t. ?rest = quote # t" using Cons by (cases kvs') (simp_all add: json_string_def)
    have IH: "read_value fo n' (json_text fr j @ r') = Some (j, r')"
      if "j \<in> snd ` set kvs" "stops r'" "length (json_text fr j) \<le> n'" for j n' r'
      using that JObj.IH JObj.prems(1) by fastforce
    have "read_members fo m [] ?rest = Some ([] @ kvs, r)"
      using JObj.prems n Cons by (intro read_members_text IH) auto
    then show ?thesis using rest n by auto
  qed (use n in simp)
next
  case JNull
  then show ?case by (cases n) (simp_all add: read_scalar_def literals_def)
next
  case (JBool b)
  then show ?case by (cases n; cases b) (simp_all add: read_scalar_def literals_def)
qed simp

lemma sort_keys_plain: "plain j \<Longrightarrow> plain (sort_keys j)"
proof (induction j rule: sort_keys.induct)
  case (2 kvs)
  have "distinct (map fst (sort_key fst (map (\<lambda>kv. (fst kv, sort_keys (snd kv))) kvs)))"
    using 2 by (simp add: distinct_map comp_def inj_on_def) (metis fst_conv)
  then show ?case using 2 by auto
qed auto

lemma json_loads_text: "plain j \<Longrightarrow> json_loads fo (json_text fr j) = Some j"
  using read_value_text [of j "[]" fr "Suc (length (json_text fr j))" fo] skip_space_text [of j fr "[]"]
  by (simp add: json_loads_def)

text \<open>
  What is pinned is what is read: the canonical text of a value without floats is read back
  as that value with its keys sorted, so two values have the same canonical text, and one hash
  pin, exactly when they are equal up to the order of keys.
\<close>

theorem canonical_json_roundtrip:
  assumes "plain j" and "plain j'"
  shows "json_loads fo (canonical_json fr j) = Some (sort_keys j)
     \<and> (canonical_json fr j = canonical_json fr j' \<longleftrightarrow> sort_keys j = sort_keys j')"
proof -
  have r: "json_loads fo (canonical_json fr i) = Some (sort_keys i)" if "plain i" for i
    using json_loads_text [OF sort_keys_plain [OF that]] by (simp add: canonical_json_def)
  then show ?thesis using assms by (metis canonical_json_def option.inject)
qed

theorem canonical_json_roundtrip_witness:
  "json_loads (\<lambda>_. None) (canonical_json (\<lambda>_. [])
     (JObj [(''n'', JList [JInt (- 70), JNull]), (''a'', JStr [quote, char_of (200::nat)])]))
   = Some (JObj [(''a'', JStr [quote, char_of (200::nat)]), (''n'', JList [JInt (- 70), JNull])])"
proof -
  let ?j = "JObj [(''n'', JList [JInt (- 70), JNull]), (''a'', JStr [quote, char_of (200::nat)])]"
  have "plain ?j" by simp
  from canonical_json_roundtrip [OF this this, of "\<lambda>_. None" "\<lambda>_. []"]
  have "json_loads (\<lambda>_. None) (canonical_json (\<lambda>_. []) ?j) = Some (sort_keys ?j)" by blast
  moreover have "sort_keys ?j
      = JObj [(''a'', JStr [quote, char_of (200::nat)]), (''n'', JList [JInt (- 70), JNull])]" by code_simp
  ultimately show ?thesis by simp
qed

end
