(* ===== verification/Export_Documents.thy ===== *)
theory Export_Documents
  imports Canonical_Json Unicode_Text
begin

text \<open>
  The documents of an export: their renderer (\<open>src/imsg/export/render.py\<close>), their ids, object
  names and metadata (\<open>documents.py\<close>), and the manifest of a plan with its JSON form
  (\<open>models.py\<close>, \<open>planner.py\<close>). \<open>H\<close> is SHA-256 in hexadecimal. The time zone is an argument, as the
  two spellings of an instant the renderer prints; a character outside the model's alphabet (the
  dashes and the reaction symbols) is written as its UTF-8 bytes.
\<close>

section \<open>What the renderer reads\<close>

record export_attachment =
  x_attachment :: int
  x_guid :: string
  x_filename :: "string option"
  x_mime :: "string option"
  content_eligible :: bool
  x_caption :: "string option"
  x_ocr_text :: "string option"
  x_transcript :: "string option"
  x_pdf_text :: "string option"

record export_message =
  x_message :: int
  x_sent_at :: instant
  x_sender :: string
  x_text :: "string option"
  x_attachments :: "export_attachment list"
  x_suffixes :: "string list"

record export_segment =
  x_segment :: int
  x_stable_key :: string
  x_chat :: int
  x_chat_kind :: string
  x_chat_name :: "string option"
  x_people :: "string list"
  x_started :: instant
  x_ended :: instant
  x_messages :: "export_message list"

record export_chunk =
  x_chunk :: int
  x_chunk_attachment :: int
  x_chunk_guid :: string
  x_chunk_mime :: "string option"
  x_chunk_kind :: string
  x_chunk_seq :: int
  x_chunk_text :: string
  x_parent :: export_segment

record render_config =
  tz_name :: string
  snippet_chars :: nat
  stamp :: "instant \<Rightarrow> string"
  stamp_t :: "instant \<Rightarrow> string"
  isoformat :: "instant \<Rightarrow> string"

section \<open>The renderer\<close>

definition WITHHELD_PLACEHOLDER :: string where "WITHHELD_PLACEHOLDER = ''[attachment not exported]''"
definition EM_DASH :: string where "EM_DASH = [CHR 0xE2, CHR 0x80, CHR 0x94]"
definition EN_DASH :: string where "EN_DASH = [CHR 0xE2, CHR 0x80, CHR 0x93]"

definition quoted :: "string \<Rightarrow> string" where "quoted s = quote # s @ [quote]"

definition truncate_text :: "nat \<Rightarrow> string option \<Rightarrow> string" where
  "truncate_text n t =
     (case t of
        None \<Rightarrow> EM_DASH
      | Some s \<Rightarrow> if text_strip s = [] then EM_DASH else shortened n s)"

definition starts_with :: "string \<Rightarrow> string \<Rightarrow> bool" where
  "starts_with p s \<longleftrightarrow> take (length p) s = p"

definition classify_mime :: "string option \<Rightarrow> string" where
  "classify_mime mime =
     (case mime of
        None \<Rightarrow> ''other''
      | Some m \<Rightarrow>
          if m = [] then ''other''
          else if m = ''application/pdf'' then ''pdf''
          else if starts_with ''image/'' m then ''image''
          else if starts_with ''audio/'' m then ''audio''
          else if starts_with ''video/'' m then ''video''
          else ''other'')"

text \<open>\<open>x or default\<close> on an optional string.\<close>

definition or_else :: "string option \<Rightarrow> string \<Rightarrow> string" where
  "or_else t d = (case t of None \<Rightarrow> d | Some s \<Rightarrow> if s = [] then d else s)"

definition format_attachment :: "nat \<Rightarrow> export_attachment \<Rightarrow> string" where
  "format_attachment n att =
     (if \<not> content_eligible att then WITHHELD_PLACEHOLDER
      else
        (let trunc = (\<lambda>t. quoted (truncate_text n t)); kind = classify_mime (x_mime att)
         in if kind = ''pdf'' then
              ''[pdf '' @ quoted (or_else (x_filename att) ''attachment.pdf'') @ '': '' @ trunc (x_pdf_text att) @ '']''
            else if kind = ''image'' then
              ''[image: caption '' @ trunc (x_caption att) @ '' | ocr '' @ trunc (x_ocr_text att) @ '']''
            else if kind = ''audio'' then ''[audio: transcript '' @ trunc (x_transcript att) @ '']''
            else if kind = ''video'' then
              ''[video: caption '' @ trunc (x_caption att) @ '' | ocr '' @ trunc (x_ocr_text att)
                @ '' | transcript '' @ trunc (x_transcript att) @ '']''
            else ''[attachment '' @ quoted (or_else (x_filename att) ''attachment'') @ '']''))"

definition format_message :: "render_config \<Rightarrow> export_message \<Rightarrow> string" where
  "format_message rc m =
     (let parts = (case x_text m of None \<Rightarrow> [] | Some s \<Rightarrow> if s = [] then [] else [s])
                  @ map (format_attachment (snippet_chars rc)) (x_attachments m);
          body = foldl (\<lambda>b suffix. if b = [] then suffix else b @ '' '' @ suffix)
                   (py_join '' '' parts) (x_suffixes m)
      in ''['' @ stamp rc (x_sent_at m) @ ''] '' @ x_sender m @ '': '' @ body)"

definition header_lines :: "render_config \<Rightarrow> export_segment \<Rightarrow> string list" where
  "header_lines rc g =
     (let title = (if x_chat_kind g = ''group''
                   then (case x_chat_name g of
                           Some (c # cs) \<Rightarrow> '' (group '' @ quoted (c # cs) @ '')''
                         | _ \<Rightarrow> '' (group)'')
                   else [])
      in [''Chat: '' @ py_join '', '' (x_people g) @ title,
          ''Time: '' @ stamp_t rc (x_started g) @ '' '' @ EN_DASH @ '' '' @ stamp_t rc (x_ended g)
            @ '' '' @ tz_name rc])"

definition newline :: string where "newline = [char_of (10::nat)]"

definition lines_text :: "string list \<Rightarrow> string" where
  "lines_text ls = py_join newline ls @ newline"

definition render_segment_document :: "render_config \<Rightarrow> export_segment \<Rightarrow> string option" where
  "render_segment_document rc g =
     (if x_messages g = [] then None
      else Some (lines_text (header_lines rc g @ [''---''] @ map (format_message rc) (x_messages g))))"

definition render_chunk_document :: "render_config \<Rightarrow> export_chunk \<Rightarrow> string" where
  "render_chunk_document rc k =
     lines_text ((''Attachment content ('' @ x_chunk_kind k @ '', part '' @ py_str_int (x_chunk_seq k) @ '')'')
                 # header_lines rc (x_parent k) @ [''---'', x_chunk_text k])"

section \<open>Ids and object names\<close>

definition external_document_id :: "(string \<Rightarrow> string) \<Rightarrow> string \<Rightarrow> string" where
  "external_document_id H payload = CHR ''d'' # take 62 (H payload)"

definition segment_document_id :: "(string \<Rightarrow> string) \<Rightarrow> string \<Rightarrow> string" where
  "segment_document_id H stable_key = external_document_id H (''segment:'' @ stable_key)"

definition chunk_payload :: "string \<Rightarrow> string \<Rightarrow> string \<Rightarrow> int \<Rightarrow> string" where
  "chunk_payload stable_key guid kind seq =
     ''attachment_chunk:'' @ stable_key @ '':'' @ guid @ '':'' @ kind @ '':'' @ py_str_int seq"

definition attachment_chunk_document_id ::
  "(string \<Rightarrow> string) \<Rightarrow> string \<Rightarrow> string \<Rightarrow> string \<Rightarrow> int \<Rightarrow> string" where
  "attachment_chunk_document_id H stable_key guid kind seq =
     external_document_id H (chunk_payload stable_key guid kind seq)"

definition gcs_object_for :: "string \<Rightarrow> string" where
  "gcs_object_for document_id = ''segments/'' @ document_id @ ''.txt''"

definition staged_relpath_for :: "string \<Rightarrow> string" where
  "staged_relpath_for document_id = ''docs/'' @ document_id @ ''.txt''"

lemma gcs_object_inj [simp]: "gcs_object_for d = gcs_object_for d' \<longleftrightarrow> d = d'"
  by (simp add: gcs_object_for_def)

lemma staged_relpath_inj [simp]: "staged_relpath_for d = staged_relpath_for d' \<longleftrightarrow> d = d'"
  by (simp add: staged_relpath_for_def)

section \<open>The manifest\<close>

record planned_upsert =
  u_document :: string
  u_kind :: string
  u_sha :: string
  u_relpath :: string
  u_object :: string
  u_chat :: int
  u_segment :: int
  u_chunk :: "int option"
  u_people :: "string list"
  u_mime :: "string option"
  u_guids :: "string list"
  u_started :: string
  u_ended :: string
  u_segment_key :: string

record planned_delete =
  del_document :: string
  del_object :: string

record manifest =
  m_mode :: string
  m_allowlist_sha :: string
  m_config_sha :: string
  m_upserts :: "planned_upsert list"
  m_deletes :: "planned_delete list"

definition MANIFEST_FORMAT_VERSION :: int where "MANIFEST_FORMAT_VERSION = 1"

definition opt_int :: "int option \<Rightarrow> json" where
  "opt_int x = (case x of None \<Rightarrow> JNull | Some i \<Rightarrow> JInt i)"

definition opt_str :: "string option \<Rightarrow> json" where
  "opt_str x = (case x of None \<Rightarrow> JNull | Some s \<Rightarrow> JStr s)"

definition upsert_to_manifest_entry :: "planned_upsert \<Rightarrow> json" where
  "upsert_to_manifest_entry u = JObj
     [(''document_id'', JStr (u_document u)), (''kind'', JStr (u_kind u)),
      (''content_sha256'', JStr (u_sha u)), (''staged_relpath'', JStr (u_relpath u)),
      (''gcs_object'', JStr (u_object u)), (''chat_id'', JInt (u_chat u)),
      (''segment_id'', JInt (u_segment u)), (''attachment_chunk_id'', opt_int (u_chunk u)),
      (''people'', JList (map JStr (u_people u))), (''mime_type'', opt_str (u_mime u)),
      (''eligible_attachment_guids'', JList (map JStr (u_guids u))),
      (''started_at'', JStr (u_started u)), (''ended_at'', JStr (u_ended u)),
      (''segment_key'', JStr (u_segment_key u))]"

definition delete_entry :: "planned_delete \<Rightarrow> json" where
  "delete_entry x = JObj [(''document_id'', JStr (del_document x)), (''gcs_object'', JStr (del_object x))]"

definition manifest_json :: "manifest \<Rightarrow> json" where
  "manifest_json m = JObj
     [(''format_version'', JInt MANIFEST_FORMAT_VERSION), (''mode'', JStr (m_mode m)),
      (''allowlist_sha256'', JStr (m_allowlist_sha m)), (''config_sha256'', JStr (m_config_sha m)),
      (''upserts'', JList (map upsert_to_manifest_entry (m_upserts m))),
      (''deletes'', JList (map delete_entry (m_deletes m)))]"

section \<open>Metadata\<close>

definition structdata_for :: "string list \<Rightarrow> string \<Rightarrow> string \<Rightarrow> string \<Rightarrow> string \<Rightarrow> json" where
  "structdata_for people started ended segment_key kind = JObj
     [(''people'', JList (map JStr people)), (''started_at'', JStr started), (''ended_at'', JStr ended),
      (''segment_key'', JStr segment_key), (''document_kind'', JStr kind)]"

definition metadata_jsonl_line ::
  "(rat option \<Rightarrow> string) \<Rightarrow> string \<Rightarrow> string \<Rightarrow> string \<Rightarrow> json \<Rightarrow> string" where
  "metadata_jsonl_line fr document_id bucket object struct_data = canonical_json fr (JObj
     [(''id'', JStr document_id), (''structData'', struct_data),
      (''content'', JObj [(''mimeType'', JStr ''text/plain''),
         (''uri'', JStr (''gs://'' @ bucket @ ''/'' @ object))])])"

definition metadata_of :: "(rat option \<Rightarrow> string) \<Rightarrow> string \<Rightarrow> planned_upsert \<Rightarrow> string" where
  "metadata_of fr bucket u = metadata_jsonl_line fr (u_document u) bucket (u_object u)
     (structdata_for (u_people u) (u_started u) (u_ended u) (u_segment_key u) (u_kind u))"

section \<open>Reading a manifest\<close>

text \<open>
  What \<open>push\<close> takes from the parsed manifest; a value of another shape than \<open>plan\<close> writes is one
  the code raises on, \<open>None\<close>. An absent \<open>upserts\<close> or \<open>deletes\<close> is empty.
\<close>

definition jget :: "string \<Rightarrow> json \<Rightarrow> json option" where
  "jget k j = (case j of JObj kvs \<Rightarrow> map_of kvs k | _ \<Rightarrow> None)"

fun as_str :: "json option \<Rightarrow> string option" where
  "as_str (Some (JStr s)) = Some s" | "as_str _ = None"

fun as_int :: "json option \<Rightarrow> int option" where
  "as_int (Some (JInt i)) = Some i" | "as_int _ = None"

fun as_opt_int :: "json option \<Rightarrow> int option option" where
  "as_opt_int (Some (JInt i)) = Some (Some i)" | "as_opt_int (Some JNull) = Some None"
| "as_opt_int _ = None"

fun as_opt_str :: "json option \<Rightarrow> string option option" where
  "as_opt_str (Some (JStr s)) = Some (Some s)" | "as_opt_str (Some JNull) = Some None"
| "as_opt_str _ = None"

fun all_some :: "'a option list \<Rightarrow> 'a list option" where
  "all_some [] = Some []"
| "all_some (None # xs) = None"
| "all_some (Some x # xs) = map_option (Cons x) (all_some xs)"

fun as_list :: "(json option \<Rightarrow> 'a option) \<Rightarrow> json option \<Rightarrow> 'a list option" where
  "as_list f (Some (JList js)) = all_some (map (f \<circ> Some) js)" | "as_list f _ = None"

definition entry_of_json :: "json \<Rightarrow> planned_upsert option" where
  "entry_of_json j =
     (case (as_str (jget ''document_id'' j), as_str (jget ''kind'' j), as_str (jget ''content_sha256'' j),
            as_str (jget ''staged_relpath'' j), as_str (jget ''gcs_object'' j)) of
        (Some d, Some k, Some s, Some r, Some g) \<Rightarrow>
          (case (as_int (jget ''chat_id'' j), as_int (jget ''segment_id'' j),
                 as_opt_int (jget ''attachment_chunk_id'' j), as_list as_str (jget ''people'' j),
                 as_opt_str (jget ''mime_type'' j)) of
             (Some c, Some sg, Some ch, Some p, Some m) \<Rightarrow>
               (case (as_list as_str (jget ''eligible_attachment_guids'' j), as_str (jget ''started_at'' j),
                      as_str (jget ''ended_at'' j), as_str (jget ''segment_key'' j)) of
                  (Some gs, Some st, Some en, Some key) \<Rightarrow>
                    Some \<lparr>u_document = d, u_kind = k, u_sha = s, u_relpath = r, u_object = g, u_chat = c,
                          u_segment = sg, u_chunk = ch, u_people = p, u_mime = m, u_guids = gs,
                          u_started = st, u_ended = en, u_segment_key = key\<rparr>
                | _ \<Rightarrow> None)
           | _ \<Rightarrow> None)
      | _ \<Rightarrow> None)"

definition delete_of_json :: "json \<Rightarrow> planned_delete option" where
  "delete_of_json j =
     (case (as_str (jget ''document_id'' j), as_str (jget ''gcs_object'' j)) of
        (Some d, Some g) \<Rightarrow> Some \<lparr>del_document = d, del_object = g\<rparr>
      | _ \<Rightarrow> None)"

definition listed_in :: "(json \<Rightarrow> 'a option) \<Rightarrow> json option \<Rightarrow> 'a list option" where
  "listed_in f j =
     (case j of None \<Rightarrow> Some [] | Some _ \<Rightarrow> as_list (\<lambda>x. Option.bind x f) j)"

definition manifest_of_json :: "json \<Rightarrow> manifest option" where
  "manifest_of_json j =
     (case (as_str (jget ''mode'' j), as_str (jget ''allowlist_sha256'' j), as_str (jget ''config_sha256'' j),
            listed_in entry_of_json (jget ''upserts'' j), listed_in delete_of_json (jget ''deletes'' j)) of
        (Some m, Some a, Some c, Some us, Some ds) \<Rightarrow>
          Some \<lparr>m_mode = m, m_allowlist_sha = a, m_config_sha = c, m_upserts = us, m_deletes = ds\<rparr>
      | _ \<Rightarrow> None)"

lemma map_of_sort_key: "distinct (map fst kvs) \<Longrightarrow> map_of (sort_key f kvs) = map_of kvs"
  by (rule map_of_inject_set [THEN iffD2]) (simp_all add: distinct_map)

lemma jget_sort_keys:
  assumes "distinct (map fst kvs)"
  shows "jget k (sort_keys (JObj kvs)) = map_option sort_keys (map_of kvs k)"
proof -
  have "distinct (map fst (map (\<lambda>kv. (fst kv, sort_keys (snd kv))) kvs))"
    using assms by (simp add: comp_def)
  from map_of_sort_key [OF this, of fst] have "jget k (sort_keys (JObj kvs))
      = map_of (map (\<lambda>kv. (fst kv, sort_keys (snd kv))) kvs) k" by (simp add: jget_def)
  then show ?thesis using map_of_map [of sort_keys kvs] by (simp add: case_prod_beta')
qed

lemma sort_keys_strs [simp]: "map (sort_keys \<circ> JStr) xs = map JStr xs"
  by simp

lemma all_some_map [simp]: "all_some (map Some xs) = Some xs"
  by (induction xs) simp_all

lemma as_list_strs [simp]: "map (as_str \<circ> Some \<circ> JStr) xs = map Some xs" "map (as_str \<circ> (Some \<circ> JStr)) xs = map Some xs"
  by simp_all

lemma sort_keys_opt [simp]: "sort_keys (opt_int x) = opt_int x" "sort_keys (opt_str t) = opt_str t"
  by (cases x; simp add: opt_int_def) (cases t; simp add: opt_str_def)

lemma as_opt [simp]: "as_opt_int (Some (opt_int x)) = Some x" "as_opt_str (Some (opt_str t)) = Some t"
  by (cases x; simp add: opt_int_def) (cases t; simp add: opt_str_def)

lemma entry_roundtrip: "entry_of_json (sort_keys (upsert_to_manifest_entry u)) = Some u"
proof -
  let ?kvs = "case upsert_to_manifest_entry u of JObj kvs \<Rightarrow> kvs | _ \<Rightarrow> []"
  have shape: "upsert_to_manifest_entry u = JObj ?kvs" by (simp add: upsert_to_manifest_entry_def)
  have "distinct (map fst ?kvs)" by (simp add: upsert_to_manifest_entry_def)
  from jget_sort_keys [OF this]
  have get: "jget k (sort_keys (upsert_to_manifest_entry u)) = map_option sort_keys (map_of ?kvs k)" for k
    unfolding shape [symmetric] .
  show ?thesis unfolding entry_of_json_def get by (simp add: upsert_to_manifest_entry_def)
qed

lemma delete_roundtrip: "delete_of_json (sort_keys (delete_entry x)) = Some x"
proof -
  let ?kvs = "[(''document_id'', JStr (del_document x)), (''gcs_object'', JStr (del_object x))]"
  have get: "jget k (sort_keys (delete_entry x)) = map_option sort_keys (map_of ?kvs k)" for k
    unfolding delete_entry_def by (rule jget_sort_keys) simp
  show ?thesis unfolding delete_of_json_def get by simp
qed

lemma listed_in_map: "(\<And>x. f (sort_keys (g x)) = Some x) \<Longrightarrow>
    listed_in f (map_option sort_keys (Some (JList (map g xs)))) = Some xs"
  by (simp add: listed_in_def comp_def)

lemma manifest_roundtrip: "manifest_of_json (sort_keys (manifest_json m)) = Some m"
proof -
  let ?kvs = "case manifest_json m of JObj kvs \<Rightarrow> kvs | _ \<Rightarrow> []"
  have shape: "manifest_json m = JObj ?kvs" by (simp add: manifest_json_def)
  have "distinct (map fst ?kvs)" by (simp add: manifest_json_def)
  from jget_sort_keys [OF this]
  have get: "jget k (sort_keys (manifest_json m)) = map_option sort_keys (map_of ?kvs k)" for k
    unfolding shape [symmetric] .
  have u: "map_of ?kvs ''upserts'' = Some (JList (map upsert_to_manifest_entry (m_upserts m)))"
    and d: "map_of ?kvs ''deletes'' = Some (JList (map delete_entry (m_deletes m)))"
    and r: "map_of ?kvs ''mode'' = Some (JStr (m_mode m))"
      "map_of ?kvs ''allowlist_sha256'' = Some (JStr (m_allowlist_sha m))"
      "map_of ?kvs ''config_sha256'' = Some (JStr (m_config_sha m))"
    by (simp_all add: manifest_json_def)
  show ?thesis
    unfolding manifest_of_json_def get u d r listed_in_map [OF entry_roundtrip] listed_in_map [OF delete_roundtrip]
    by simp
qed

lemma plain_manifest: "plain (manifest_json m)"
proof -
  have "plain (opt_int x)" "plain (opt_str t)" for x t
    by (cases x; simp add: opt_int_def) (cases t; simp add: opt_str_def)
  then show ?thesis by (auto simp: manifest_json_def upsert_to_manifest_entry_def delete_entry_def)
qed

definition manifest_text :: "(rat option \<Rightarrow> string) \<Rightarrow> manifest \<Rightarrow> string" where
  "manifest_text fr m = canonical_json fr (manifest_json m)"

lemma manifest_text_reads_back: "Option.bind (json_loads fo (manifest_text fr m)) manifest_of_json = Some m"
  using json_loads_text [OF sort_keys_plain [OF plain_manifest]] manifest_roundtrip
  by (simp add: manifest_text_def canonical_json_def)

text \<open>
  C37: A staged manifest is read back as the plan it was written from: parsing the file's text gives
  the same upserts and deletes in the same order, and two plans with the same manifest text are
  the same plan, so a pinned hash of the text pins every field of every document.
\<close>

theorem manifest_file_roundtrip:
  "Option.bind (json_loads fo (manifest_text fr m)) manifest_of_json = Some m
   \<and> (manifest_text fr m = manifest_text fr m' \<longleftrightarrow> m = m')"
  using manifest_text_reads_back by (metis option.inject)

section \<open>Ids\<close>

lemma no_colon_split:
  assumes "a @ CHR '':'' # x = b @ CHR '':'' # y" and "CHR '':'' \<notin> set a" and "CHR '':'' \<notin> set b"
  shows "a = b \<and> x = y"
  using assms
proof (induction a arbitrary: b)
  case Nil
  then show ?case by (cases b) auto
next
  case (Cons c a)
  then show ?case by (cases b) auto
qed

lemma py_str_int_no_colon: "CHR '':'' \<notin> set (py_str_int i)"
  using nat_str_digits [of "nat i"] nat_str_digits [of "nat (- i)"]
  by (auto simp: py_str_int_def is_digit_def ord_def)

lemma chunk_payload_inj:
  assumes "CHR '':'' \<notin> set key" "CHR '':'' \<notin> set key'" "CHR '':'' \<notin> set kind" "CHR '':'' \<notin> set kind'"
    and "chunk_payload key guid kind seq = chunk_payload key' guid' kind' seq'"
  shows "key = key' \<and> guid = guid' \<and> kind = kind' \<and> seq = seq'"
proof -
  have "key @ CHR '':'' # guid @ CHR '':'' # kind @ CHR '':'' # py_str_int seq
      = key' @ CHR '':'' # guid' @ CHR '':'' # kind' @ CHR '':'' # py_str_int seq'"
    using assms(5) by (simp add: chunk_payload_def)
  from no_colon_split [OF this assms(1,2)] have k: "key = key'"
    and rest: "guid @ CHR '':'' # kind @ CHR '':'' # py_str_int seq
      = guid' @ CHR '':'' # kind' @ CHR '':'' # py_str_int seq'" by auto
  have "rev (py_str_int seq) @ CHR '':'' # rev kind @ CHR '':'' # rev guid
      = rev (py_str_int seq') @ CHR '':'' # rev kind' @ CHR '':'' # rev guid'"
    using arg_cong [OF rest, of rev] by simp
  from no_colon_split [OF this] have s: "rev (py_str_int seq) = rev (py_str_int seq')"
    and rest': "rev kind @ CHR '':'' # rev guid = rev kind' @ CHR '':'' # rev guid'"
    by (simp_all add: py_str_int_no_colon)
  from no_colon_split [OF rest'] have "kind = kind'" "guid = guid'" using assms(3,4) by simp_all
  with k s show ?thesis by (simp add: py_str_int_inj)
qed

text \<open>
  External ids fit the store and name one document: with a hash of 64 digits an id has 63
  characters and starts with a letter, a segment and a chunk never share one, two segments share
  one only when their keys agree, and two chunks only when key, attachment, kind and part do, as
  long as the first 62 digits of the hash tell these payloads apart (keys and kinds hold no
  colon, the attachment's guid may).
\<close>

theorem document_ids_fit:
  assumes "\<And>s. length (H s) = 64"
    and "inj_on (\<lambda>s. take 62 (H s)) {''segment:'' @ key, ''segment:'' @ key',
           chunk_payload key guid kind seq, chunk_payload key' guid' kind' seq'}"
    and "CHR '':'' \<notin> set key" "CHR '':'' \<notin> set key'" "CHR '':'' \<notin> set kind" "CHR '':'' \<notin> set kind'"
  shows "length (segment_document_id H key) = 63 \<and> length (attachment_chunk_document_id H key guid kind seq) = 63
     \<and> hd (segment_document_id H key) = CHR ''d'' \<and> hd (attachment_chunk_document_id H key guid kind seq) = CHR ''d''
     \<and> segment_document_id H key \<noteq> attachment_chunk_document_id H key' guid' kind' seq'
     \<and> (segment_document_id H key = segment_document_id H key' \<longleftrightarrow> key = key')
     \<and> (attachment_chunk_document_id H key guid kind seq = attachment_chunk_document_id H key' guid' kind' seq'
          \<longleftrightarrow> key = key' \<and> guid = guid' \<and> kind = kind' \<and> seq = seq')"
proof -
  let ?t = "\<lambda>s. take 62 (H s)"
  have "''segment:'' @ key \<noteq> chunk_payload key' guid' kind' seq'" by (simp add: chunk_payload_def)
  then have "?t (''segment:'' @ key) \<noteq> ?t (chunk_payload key' guid' kind' seq')"
    using inj_onD [OF assms(2), of "''segment:'' @ key" "chunk_payload key' guid' kind' seq'"] by blast
  moreover have "?t (''segment:'' @ key) = ?t (''segment:'' @ key') \<longleftrightarrow> key = key'"
    using inj_onD [OF assms(2), of "''segment:'' @ key" "''segment:'' @ key'"] by auto
  moreover have "?t (chunk_payload key guid kind seq) = ?t (chunk_payload key' guid' kind' seq')
      \<longleftrightarrow> key = key' \<and> guid = guid' \<and> kind = kind' \<and> seq = seq'"
    using inj_onD [OF assms(2), of "chunk_payload key guid kind seq" "chunk_payload key' guid' kind' seq'"]
      chunk_payload_inj [OF assms(3-6)] by auto
  ultimately show ?thesis
    by (simp add: segment_document_id_def attachment_chunk_document_id_def external_document_id_def assms(1))
qed

definition padded :: "string \<Rightarrow> string" where
  "padded s = take 64 (s @ replicate 64 (CHR ''0''))"

theorem document_ids_fit_witness:
  "segment_document_id padded ''k1'' \<noteq> attachment_chunk_document_id padded ''k2'' ''at_0:x'' ''ocr'' 3"
proof -
  have "length (padded s) = 64" for s by (simp add: padded_def)
  moreover have "inj_on (\<lambda>s. take 62 (padded s)) {''segment:'' @ ''k1'', ''segment:'' @ ''k2'',
      chunk_payload ''k1'' ''at_0:x'' ''ocr'' 3, chunk_payload ''k2'' ''at_0:x'' ''ocr'' 3}"
  proof -
    have "distinct (map (\<lambda>s. take 62 (padded s)) [''segment:'' @ ''k1'', ''segment:'' @ ''k2'',
      chunk_payload ''k1'' ''at_0:x'' ''ocr'' 3, chunk_payload ''k2'' ''at_0:x'' ''ocr'' 3])" by code_simp
    from conjunct2 [OF this [unfolded distinct_map]] show ?thesis by (simp only: list.set)
  qed
  ultimately show ?thesis
    using document_ids_fit [of padded "''k1''" "''k2''" "''at_0:x''" "''ocr''" 3 "''at_0:x''" "''ocr''" 3]
    by simp
qed

end
