(* ===== verification/Export_Plan.thy ===== *)
theory Export_Plan
  imports Eligibility Export_Documents "HOL-Library.Product_Lexorder"
begin

text \<open>
  The planner of the export gate (\<open>src/imsg/export/planner.py\<close>) with the approval rules
  (\<open>review.py\<close>) and the purge (\<open>purge.py\<close>). The corpus adds to the tables the eligibility engine
  reads the columns the export reads beside them; the SQL is translated join by join, and a dict
  is an association list in insertion order. Rows a query's \<open>ORDER BY\<close> leaves tied keep the
  order of their table.
\<close>

section \<open>The corpus\<close>

record segment_row =
  sg_key :: int
  sg_stable_key :: string
  sg_chat :: int
  sg_started :: instant
  sg_ended :: instant

record attachment_row =
  at_key :: int
  at_guid :: string
  at_filename :: "string option"
  at_mime :: "string option"

record link_row =
  ln_message :: int
  ln_attachment :: int
  ln_ordinal :: "int option"

record enrichment_row =
  en_attachment :: int
  en_kind :: string
  en_state :: string
  en_text :: "string option"

record chunk_row =
  ck_key :: int
  ck_attachment :: int
  ck_kind :: string
  ck_seq :: int
  ck_text :: string

record reaction_row =
  rx_key :: int
  rx_target :: "int option"
  rx_kind :: string
  rx_from_me :: bool
  rx_sender :: "int option"
  rx_removed :: bool
  rx_acted_at :: "instant option"

text \<open>
  \<open>short_names\<close>, \<open>chat_details\<close> and \<open>message_texts\<close> are columns of \<open>person\<close>, \<open>chat\<close> and \<open>message\<close>
  by key; \<open>links\<close> and \<open>reactions\<close> are \<open>message_attachment\<close> and \<open>tapback\<close> with all the columns
  read here.
\<close>

record corpus =
  base :: db
  short_names :: "(int \<times> string) list"
  chat_details :: "(int \<times> string \<times> string option) list"
  message_texts :: "(int \<times> string option) list"
  segments :: "segment_row list"
  attachments :: "attachment_row list"
  links :: "link_row list"
  enrichments :: "enrichment_row list"
  chunks :: "chunk_row list"
  reactions :: "reaction_row list"

definition wf_corpus :: "corpus \<Rightarrow> bool" where
  "wf_corpus c \<longleftrightarrow>
     wf_db (base c) \<and> distinct (map sg_key (segments c)) \<and> distinct (map sg_stable_key (segments c))
     \<and> distinct (map at_key (attachments c)) \<and> distinct (map at_guid (attachments c))
     \<and> distinct (map ck_key (chunks c)) \<and> distinct (map (\<lambda>k. (ck_attachment k, ck_kind k, ck_seq k)) (chunks c))
     \<and> distinct (map snd (segment_messages (base c)))
     \<and> distinct (map (\<lambda>l. (ln_message l, ln_attachment l)) (links c))
     \<and> message_attachments (base c) = map (\<lambda>l. (ln_message l, ln_attachment l)) (links c)
     \<and> (\<forall>l \<in> set (links c). ln_attachment l \<in> at_key ` set (attachments c))"

definition short_name_of :: "corpus \<Rightarrow> int option \<Rightarrow> string option" where
  "short_name_of c p = Option.bind p (map_of (short_names c))"

section \<open>Fetching gated rows\<close>

text \<open>The people of a chat: its participants and everyone whose message is in it.\<close>

definition chat_people :: "corpus \<Rightarrow> int \<Rightarrow> string list" where
  "chat_people c chat = sort (remdups (
     List.map_filter (\<lambda>p. short_name_of c (Some (part_person p)))
       (filter (\<lambda>p. part_chat p = chat) (participants (base c)))
     @ List.map_filter (\<lambda>m. short_name_of c (message_sender (owner_person_id (base c)) m))
         (filter (\<lambda>m. msg_chat m = chat) (messages (base c)))))"

definition chat_infos :: "corpus \<Rightarrow> int list \<Rightarrow> (int \<times> string \<times> string option \<times> string list) list" where
  "chat_infos c chat_ids =
     map (\<lambda>(chat, kind, dname). (chat, kind, dname, chat_people c chat))
       (filter (\<lambda>(chat, _). chat \<in> set chat_ids) (chat_details c))"

definition link_order :: "link_row \<Rightarrow> int \<times> (bool \<times> int) \<times> int" where
  "link_order l = (ln_message l, (case ln_ordinal l of None \<Rightarrow> (True, 0) | Some i \<Rightarrow> (False, i)), ln_attachment l)"

definition attachment_rows ::
  "corpus \<Rightarrow> int list \<Rightarrow> ((link_row \<times> attachment_row) \<times> enrichment_row option) list" where
  "attachment_rows c message_ids =
     left_join (\<lambda>(l, a) e. en_attachment e = at_key a \<and> en_state e = ''done'')
       (inner_join (\<lambda>l a. at_key a = ln_attachment l)
         (sort_key link_order (filter (\<lambda>l. ln_message l \<in> set message_ids) (links c)))
         (attachments c))
       (enrichments c)"

text \<open>The entry of a pair when it is first met: an ineligible one keeps its ids only.\<close>

definition new_attachment :: "bool \<Rightarrow> attachment_row \<Rightarrow> export_attachment" where
  "new_attachment ok a =
     \<lparr>x_attachment = at_key a, x_guid = at_guid a,
      x_filename = (if ok then at_filename a else None), x_mime = (if ok then at_mime a else None),
      content_eligible = ok, x_caption = None, x_ocr_text = None, x_transcript = None, x_pdf_text = None\<rparr>"

definition add_enrichment :: "enrichment_row option \<Rightarrow> export_attachment \<Rightarrow> export_attachment" where
  "add_enrichment er x =
     (case er of
        Some e \<Rightarrow>
          if \<not> content_eligible x \<or> en_text e = None then x
          else if en_kind e = ''pdf_text'' then x\<lparr>x_pdf_text := en_text e\<rparr>
          else if en_kind e = ''caption'' then x\<lparr>x_caption := en_text e\<rparr>
          else if en_kind e \<in> {''ocr'', ''frame_ocr''} then x\<lparr>x_ocr_text := en_text e\<rparr>
          else if en_kind e = ''transcript'' then x\<lparr>x_transcript := en_text e\<rparr>
          else x
      | None \<Rightarrow> x)"

definition pair_eligible :: "((int \<times> int) \<times> bool) list \<Rightarrow> (int \<times> int) list \<Rightarrow> int \<Rightarrow> int \<Rightarrow> bool" where
  "pair_eligible elig segment_by_message m a =
     (case map_of segment_by_message m of
        None \<Rightarrow> False
      | Some s \<Rightarrow> (case map_of elig (s, a) of None \<Rightarrow> False | Some ok \<Rightarrow> ok))"

definition collect_row ::
  "((int \<times> int) \<times> bool) list \<Rightarrow> (int \<times> int) list \<Rightarrow> ((int \<times> int) \<times> export_attachment) list
     \<Rightarrow> (link_row \<times> attachment_row) \<times> enrichment_row option \<Rightarrow> ((int \<times> int) \<times> export_attachment) list" where
  "collect_row elig seg_of collected row =
     (let ((l, a), er) = row; key = (ln_message l, at_key a);
          entry = (case map_of collected key of
                     Some x \<Rightarrow> x
                   | None \<Rightarrow> new_attachment (pair_eligible elig seg_of (ln_message l) (at_key a)) a)
      in AList.update key (add_enrichment er entry) collected)"

definition fetch_attachment_rows ::
  "corpus \<Rightarrow> int list \<Rightarrow> ((int \<times> int) \<times> bool) list \<Rightarrow> (int \<times> int) list
     \<Rightarrow> ((int \<times> int) \<times> export_attachment) list" where
  "fetch_attachment_rows c message_ids elig seg_of =
     foldl (collect_row elig seg_of) [] (attachment_rows c message_ids)"

definition message_attachments_of ::
  "((int \<times> int) \<times> export_attachment) list \<Rightarrow> int \<Rightarrow> export_attachment list" where
  "message_attachments_of collected m = map snd (filter (\<lambda>e. fst (fst e) = m) collected)"

section \<open>Tapbacks\<close>

definition tapback_symbols :: "(string \<times> string) list" where
  "tapback_symbols =
     [(''loved'', [CHR 0xE2, CHR 0x99, CHR 0xA5]), (''liked'', [CHR 0xF0, CHR 0x9F, CHR 0x91, CHR 0x8D]),
      (''disliked'', [CHR 0xF0, CHR 0x9F, CHR 0x91, CHR 0x8E]), (''laughed'', [CHR 0xF0, CHR 0x9F, CHR 0x98, CHR 0x82]),
      (''emphasized'', [CHR 0xE2, CHR 0x80, CHR 0xBC]), (''questioned'', [CHR 0xE2, CHR 0x9D, CHR 0x93]),
      (''sticker'', [CHR 0xF0, CHR 0x9F, CHR 0x8F, CHR 0xB7])]"

definition tapback_symbol :: "string \<Rightarrow> string" where
  "tapback_symbol kind =
     (if starts_with ''emoji:'' kind then drop 6 kind
      else case map_of tapback_symbols kind of None \<Rightarrow> kind | Some s \<Rightarrow> s)"

definition owner_short_name :: "corpus \<Rightarrow> string option" where
  "owner_short_name c = short_name_of c (owner_person_id (base c))"

definition reaction_order :: "reaction_row \<Rightarrow> (bool \<times> int) \<times> int" where
  "reaction_order t = ((case rx_acted_at t of None \<Rightarrow> (True, 0) | Some i \<Rightarrow> (False, i)), rx_key t)"

definition tapback_suffixes :: "corpus \<Rightarrow> int list \<Rightarrow> int \<Rightarrow> string list" where
  "tapback_suffixes c message_ids m =
     List.map_filter
       (\<lambda>t. let named = (case short_name_of c (rx_sender t) of Some [] \<Rightarrow> None | s \<Rightarrow> s);
                sender = (case named of Some s \<Rightarrow> Some s
                          | None \<Rightarrow> if rx_from_me t then owner_short_name c else None)
            in map_option (\<lambda>s. ''('' @ tapback_symbol (rx_kind t) @ '' '' @ s @ '')'') sender)
       (sort_key reaction_order
         (filter (\<lambda>t. rx_target t = Some m \<and> m \<in> set message_ids \<and> \<not> rx_removed t) (reactions c)))"

section \<open>Segments\<close>

datatype plan_error =
  No_Sender int | Unknown_Chat int int | Unknown_Mode string | Staging_Exists int | No_Such_Person string

definition segment_rows :: "corpus \<Rightarrow> int list \<Rightarrow> segment_row list" where
  "segment_rows c chat_ids =
     sort_key (\<lambda>g. (sg_chat g, sg_started g, sg_key g)) (filter (\<lambda>g. sg_chat g \<in> set chat_ids) (segments c))"

text \<open>The exportable messages of the segments, each with its segment.\<close>

definition message_rows :: "corpus \<Rightarrow> int list \<Rightarrow> (int \<times> message_row) list" where
  "message_rows c segment_ids =
     sort_key (\<lambda>(_, m). (row_sent_at m, message_key m))
       (map (\<lambda>(sm, m). (fst sm, m))
         (inner_join (\<lambda>sm m. message_key m = snd sm)
           (filter (\<lambda>sm. fst sm \<in> set segment_ids) (segment_messages (base c)))
           (filter exportable_message (messages (base c)))))"

definition export_message_of ::
  "corpus \<Rightarrow> int list \<Rightarrow> ((int \<times> int) \<times> export_attachment) list \<Rightarrow> message_row \<Rightarrow> string \<Rightarrow> export_message" where
  "export_message_of c message_ids collected m sender =
     \<lparr>x_message = message_key m, x_sent_at = row_sent_at m, x_sender = sender,
      x_text = Option.bind (map_of (message_texts c) (message_key m)) id,
      x_attachments = message_attachments_of collected (message_key m),
      x_suffixes = tapback_suffixes c message_ids (message_key m)\<rparr>"

text \<open>A message without a resolvable sender ends the plan.\<close>

fun named_messages ::
  "corpus \<Rightarrow> (message_row \<Rightarrow> string \<Rightarrow> export_message) \<Rightarrow> (int \<times> message_row) list
     \<Rightarrow> plan_error + (int \<times> export_message) list" where
  "named_messages c mk [] = Inr []"
| "named_messages c mk ((s, m) # rows) =
     (case short_name_of c (message_sender (owner_person_id (base c)) m) of
        None \<Rightarrow> Inl (No_Sender (message_key m))
      | Some name \<Rightarrow> map_sum id (Cons (s, mk m name)) (named_messages c mk rows))"

fun built_segments ::
  "(int \<times> string \<times> string option \<times> string list) list \<Rightarrow> (int \<times> export_message) list \<Rightarrow> segment_row list
     \<Rightarrow> plan_error + export_segment list" where
  "built_segments infos msgs [] = Inr []"
| "built_segments infos msgs (g # gs) =
     (case map_of infos (sg_chat g) of
        None \<Rightarrow> Inl (Unknown_Chat (sg_key g) (sg_chat g))
      | Some (kind, dname, people) \<Rightarrow>
          map_sum id (Cons \<lparr>x_segment = sg_key g, x_stable_key = sg_stable_key g, x_chat = sg_chat g,
                            x_chat_kind = kind, x_chat_name = dname, x_people = people,
                            x_started = sg_started g, x_ended = sg_ended g,
                            x_messages = map snd (filter (\<lambda>(s, _). s = sg_key g) msgs)\<rparr>)
            (built_segments infos msgs gs))"

definition fetch_export_segments ::
  "corpus \<Rightarrow> int list \<Rightarrow> plan_error + (export_segment list \<times> ((int \<times> int) \<times> bool) list)" where
  "fetch_export_segments c chat_ids =
     (if chat_ids = [] then Inr ([], [])
      else
        (let infos = chat_infos c chat_ids;
             srows = segment_rows c chat_ids;
             segment_ids = map sg_key srows;
             mrows = message_rows c segment_ids;
             elig = compute_attachment_eligibility (base c) segment_ids;
             message_ids = map (\<lambda>(_, m). message_key m) mrows;
             seg_of = rev (map (\<lambda>(s, m). (message_key m, s)) mrows);
             collected = fetch_attachment_rows c message_ids elig seg_of
         in case named_messages c (export_message_of c message_ids collected) mrows of
              Inl e \<Rightarrow> Inl e
            | Inr msgs \<Rightarrow> map_sum id (\<lambda>gs. (gs, elig)) (built_segments infos msgs srows)))"

section \<open>Attachment chunks\<close>

definition ENRICHMENT_KIND_ENUM :: "string list" where
  "ENRICHMENT_KIND_ENUM = [''pdf_text'', ''ocr'', ''caption'', ''transcript'', ''frame_ocr'', ''doc_text'']"

text \<open>An enum column is ordered as it was declared.\<close>

definition kind_rank :: "string \<Rightarrow> nat" where
  "kind_rank k = length (takeWhile (\<lambda>k'. k' \<noteq> k) ENRICHMENT_KIND_ENUM)"

definition chunk_rows :: "corpus \<Rightarrow> int list \<Rightarrow> (chunk_row \<times> attachment_row) list" where
  "chunk_rows c attachment_ids =
     inner_join (\<lambda>k a. at_key a = ck_attachment k)
       (sort_key (\<lambda>k. (ck_attachment k, kind_rank (ck_kind k), ck_seq k))
         (filter (\<lambda>k. ck_attachment k \<in> set attachment_ids) (chunks c)))
       (attachments c)"

definition export_chunk_of :: "export_segment \<Rightarrow> chunk_row \<times> attachment_row \<Rightarrow> export_chunk" where
  "export_chunk_of parent row =
     (let (k, a) = row
      in \<lparr>x_chunk = ck_key k, x_chunk_attachment = ck_attachment k, x_chunk_guid = at_guid a,
          x_chunk_mime = at_mime a, x_chunk_kind = ck_kind k, x_chunk_seq = ck_seq k,
          x_chunk_text = ck_text k, x_parent = parent\<rparr>)"

definition eligible_pairs :: "((int \<times> int) \<times> bool) list \<Rightarrow> (int \<times> int) list" where
  "eligible_pairs elig = map fst (filter snd elig)"

definition fetch_chunks_for ::
  "corpus \<Rightarrow> export_segment list \<Rightarrow> ((int \<times> int) \<times> bool) list \<Rightarrow> export_chunk list" where
  "fetch_chunks_for c gs elig =
     (let pairs = eligible_pairs elig;
          rows = chunk_rows c (sort (remdups (map snd pairs)))
      in if pairs = [] then []
         else concat (map
           (\<lambda>(s, a). case map_of (rev (map (\<lambda>g. (x_segment g, g)) gs)) s of
              None \<Rightarrow> []
            | Some parent \<Rightarrow> map (export_chunk_of parent) (filter (\<lambda>(k, _). ck_attachment k = a) rows))
           (sort pairs)))"

section \<open>The desired documents\<close>

text \<open>
  What the configuration and the libraries give: SHA-256, the spelling of floats, the renderer's
  settings, the bucket, and the projection of the configuration that is hashed.
\<close>

record export_config =
  sha :: "string \<Rightarrow> string"
  float_repr :: "rat option \<Rightarrow> string"
  float_value :: "string \<Rightarrow> rat option"
  rendering :: render_config
  gcs_bucket :: string
  projection :: json

definition export_config_sha256 :: "export_config \<Rightarrow> string" where
  "export_config_sha256 cfg = sha cfg (canonical_json (float_repr cfg) (projection cfg))"

definition segment_guids :: "export_segment \<Rightarrow> string list" where
  "segment_guids g =
     sort (remdups (map x_guid (filter content_eligible (concat (map x_attachments (x_messages g))))))"

definition segment_upsert :: "export_config \<Rightarrow> export_segment \<Rightarrow> string \<Rightarrow> planned_upsert" where
  "segment_upsert cfg g body =
     (let document_id = segment_document_id (sha cfg) (x_stable_key g)
      in \<lparr>u_document = document_id, u_kind = ''segment'', u_sha = sha cfg body,
          u_relpath = staged_relpath_for document_id, u_object = gcs_object_for document_id,
          u_chat = x_chat g, u_segment = x_segment g, u_chunk = None, u_people = x_people g,
          u_mime = None, u_guids = segment_guids g,
          u_started = isoformat (rendering cfg) (x_started g), u_ended = isoformat (rendering cfg) (x_ended g),
          u_segment_key = x_stable_key g\<rparr>)"

definition chunk_upsert :: "export_config \<Rightarrow> export_chunk \<Rightarrow> string \<Rightarrow> planned_upsert" where
  "chunk_upsert cfg k body =
     (let g = x_parent k;
          document_id = attachment_chunk_document_id (sha cfg) (x_stable_key g) (x_chunk_guid k)
                          (x_chunk_kind k) (x_chunk_seq k)
      in \<lparr>u_document = document_id, u_kind = ''attachment_chunk'', u_sha = sha cfg body,
          u_relpath = staged_relpath_for document_id, u_object = gcs_object_for document_id,
          u_chat = x_chat g, u_segment = x_segment g, u_chunk = Some (x_chunk k), u_people = x_people g,
          u_mime = Some (or_else (x_chunk_mime k) ''unknown''), u_guids = [x_chunk_guid k],
          u_started = isoformat (rendering cfg) (x_started g), u_ended = isoformat (rendering cfg) (x_ended g),
          u_segment_key = x_stable_key g\<rparr>)"

type_synonym desired = "(string \<times> planned_upsert \<times> string) list"

definition segment_documents :: "export_config \<Rightarrow> export_segment list \<Rightarrow> (planned_upsert \<times> string) list" where
  "segment_documents cfg gs =
     List.map_filter (\<lambda>g. map_option (\<lambda>t. (segment_upsert cfg g t, t)) (render_segment_document (rendering cfg) g)) gs"

definition chunk_documents :: "export_config \<Rightarrow> export_chunk list \<Rightarrow> (planned_upsert \<times> string) list" where
  "chunk_documents cfg ks =
     map (\<lambda>k. let t = render_chunk_document (rendering cfg) k in (chunk_upsert cfg k t, t)) ks"

definition collect_documents :: "(planned_upsert \<times> string) list \<Rightarrow> desired" where
  "collect_documents ds = foldl (\<lambda>acc d. AList.update (u_document (fst d)) d acc) [] ds"

definition build_desired_documents :: "export_config \<Rightarrow> corpus \<Rightarrow> plan_error + desired" where
  "build_desired_documents cfg c =
     map_sum id (\<lambda>(gs, elig). collect_documents
         (segment_documents cfg gs @ chunk_documents cfg (fetch_chunks_for c gs elig)))
       (fetch_export_segments c (sort (eligible_chat_ids (base c) None)))"

section \<open>Reconciling\<close>

record document_row =
  doc_id :: string
  doc_kind :: string
  doc_segment :: "int option"
  doc_chunk :: "int option"
  doc_uri :: "string option"
  doc_sha :: "string option"
  doc_state :: string

definition current_pushed_state :: "document_row list \<Rightarrow> (string \<times> string option) list" where
  "current_pushed_state docs = map (\<lambda>d. (doc_id d, doc_sha d)) (filter (\<lambda>d. doc_state d = ''pushed'') docs)"

definition is_unchanged :: "(string \<times> string option) list \<Rightarrow> string \<Rightarrow> planned_upsert \<Rightarrow> bool" where
  "is_unchanged current document_id u \<longleftrightarrow> Option.bind (map_of current document_id) id = Some (u_sha u)"

definition reconcile_desired_against_pushed ::
  "desired \<Rightarrow> (string \<times> string option) list \<Rightarrow> planned_upsert list \<times> planned_delete list \<times> nat" where
  "reconcile_desired_against_pushed desired current =
     (let ordered = map (\<lambda>d. (d, fst (the (map_of desired d)))) (sort (map fst desired));
          upserts = map snd (filter (\<lambda>(d, u). \<not> is_unchanged current d u) ordered);
          unchanged = length (filter (\<lambda>(d, u). is_unchanged current d u) ordered);
          deletes = map (\<lambda>d. \<lparr>del_document = d, del_object = gcs_object_for d\<rparr>)
                      (filter (\<lambda>d. map_of desired d = None) (sort (map fst current)))
      in (upserts, deletes, unchanged))"

record plan_preview =
  p_upsert_count :: nat
  p_delete_count :: nat
  p_unchanged_count :: nat
  p_chat_ids :: "int list"
  p_delete_ids :: "string list"

definition preview_plan :: "export_config \<Rightarrow> corpus \<Rightarrow> document_row list \<Rightarrow> plan_error + plan_preview" where
  "preview_plan cfg c docs =
     map_sum id (\<lambda>desired.
         let (upserts, deletes, unchanged) = reconcile_desired_against_pushed desired (current_pushed_state docs)
         in \<lparr>p_upsert_count = length upserts, p_delete_count = length deletes, p_unchanged_count = unchanged,
             p_chat_ids = sort (remdups (map u_chat upserts)), p_delete_ids = map del_document deletes\<rparr>)
       (build_desired_documents cfg c)"

section \<open>Runs and approval\<close>

record run_row =
  run_id :: int
  run_mode :: string
  run_snapshot :: json
  run_config_sha :: string
  run_manifest_sha :: string
  run_approved_sha :: "string option"
  run_status :: string

record item_row =
  item_run :: int
  item_document :: string
  item_action :: string
  item_sha :: "string option"
  item_relpath :: "string option"
  item_state :: string

record export_db =
  runs :: "run_row list"
  items :: "item_row list"
  documents :: "document_row list"

text \<open>One run's staging directory: the files under it by relative path, and the manifest's text.\<close>

record staging =
  staged_manifest :: "string option"
  staged_metadata :: string
  staged_files :: "(string \<times> string) list"

text \<open>The allowlist, frozen.\<close>

definition snapshot_allowlist :: "corpus \<Rightarrow> json" where
  "snapshot_allowlist c =
     JList (map (\<lambda>(al, p). JObj [(''person_id'', JInt (allow_person al)), (''short_name'', JStr (snd p)),
                                  (''text_allowed'', JBool (text_allowed al)),
                                  (''attachments_allowed'', JBool (attachments_allowed al))])
       (inner_join (\<lambda>al p. fst p = allow_person al) (sort_key allow_person (allowlist (base c))) (short_names c)))"

definition last_ok_run :: "run_row list \<Rightarrow> run_row option" where
  "last_ok_run rs =
     (case sort_desc run_id (filter (\<lambda>r. run_status r = ''ok'') rs) of [] \<Rightarrow> None | r # _ \<Rightarrow> Some r)"

definition previously_allowed :: "json \<Rightarrow> string list" where
  "previously_allowed snapshot =
     List.map_filter (\<lambda>e. if jget ''text_allowed'' e = Some (JBool True) then as_str (jget ''short_name'' e) else None)
       (case snapshot of JList es \<Rightarrow> es | _ \<Rightarrow> [])"

definition pushed_chats :: "corpus \<Rightarrow> document_row list \<Rightarrow> int list" where
  "pushed_chats c docs =
     map (\<lambda>(_, g). sg_chat g)
       (inner_join (\<lambda>d g. doc_segment d = Some (sg_key g))
         (filter (\<lambda>d. doc_state d = ''pushed'') docs) (segments c))"

definition pushed_mimes :: "corpus \<Rightarrow> document_row list \<Rightarrow> string list" where
  "pushed_mimes c docs =
     map (\<lambda>(_, a). case at_mime a of None \<Rightarrow> ''unknown'' | Some m \<Rightarrow> m)
       (inner_join (\<lambda>(_, k) a. at_key a = ck_attachment k)
         (inner_join (\<lambda>d k. doc_chunk d = Some (ck_key k))
           (filter (\<lambda>d. doc_state d = ''pushed'') docs) (chunks c))
         (attachments c))"

datatype approval_reason =
  First_Push | Contains_Deletes | New_Person | New_Thread | New_Mime | Config_Changed

definition compute_approval_requirements ::
  "corpus \<Rightarrow> run_row list \<Rightarrow> document_row list \<Rightarrow> manifest \<Rightarrow> string \<Rightarrow> approval_reason list" where
  "compute_approval_requirements c rs docs m mode =
     (if mode = ''purge'' then []
      else case last_ok_run rs of
        None \<Rightarrow> [First_Push]
      | Some r \<Rightarrow>
          (let people = set (concat (map u_people (m_upserts m)));
               chats = set (map u_chat (m_upserts m));
               mimes = set (map (\<lambda>u. case u_mime u of None \<Rightarrow> ''unknown'' | Some t \<Rightarrow> if t = [] then ''unknown'' else t)
                              (filter (\<lambda>u. u_kind u = ''attachment_chunk'') (m_upserts m)))
           in (if m_deletes m \<noteq> [] then [Contains_Deletes] else [])
              @ (if \<not> people \<subseteq> set (previously_allowed (run_snapshot r)) then [New_Person] else [])
              @ (if \<not> chats \<subseteq> set (pushed_chats c docs) then [New_Thread] else [])
              @ (if \<not> mimes \<subseteq> set (pushed_mimes c docs) then [New_Mime] else [])
              @ (if m_config_sha m \<noteq> run_config_sha r then [Config_Changed] else [])))"

section \<open>The plan\<close>

record plan_result =
  result_run :: int
  result_manifest_sha :: string
  result_upserts :: nat
  result_deletes :: nat
  result_unchanged :: nat
  result_reasons :: "approval_reason list"

definition plan_manifest ::
  "export_config \<Rightarrow> corpus \<Rightarrow> string \<Rightarrow> planned_upsert list \<Rightarrow> planned_delete list \<Rightarrow> manifest" where
  "plan_manifest cfg c mode upserts deletes =
     \<lparr>m_mode = mode,
      m_allowlist_sha = sha cfg (canonical_json (float_repr cfg) (snapshot_allowlist c)),
      m_config_sha = export_config_sha256 cfg, m_upserts = upserts, m_deletes = deletes\<rparr>"

definition upsert_item :: "int \<Rightarrow> planned_upsert \<Rightarrow> item_row" where
  "upsert_item run u = \<lparr>item_run = run, item_document = u_document u, item_action = ''upsert'',
     item_sha = Some (u_sha u), item_relpath = Some (u_relpath u), item_state = ''staged''\<rparr>"

definition delete_item :: "int \<Rightarrow> planned_delete \<Rightarrow> item_row" where
  "delete_item run x = \<lparr>item_run = run, item_document = del_document x, item_action = ''delete'',
     item_sha = None, item_relpath = None, item_state = ''staged''\<rparr>"

definition plan_row :: "export_config \<Rightarrow> corpus \<Rightarrow> int \<Rightarrow> manifest \<Rightarrow> run_row" where
  "plan_row cfg c run m =
     \<lparr>run_id = run, run_mode = m_mode m, run_snapshot = snapshot_allowlist c, run_config_sha = m_config_sha m,
      run_manifest_sha = sha cfg (manifest_text (float_repr cfg) m), run_approved_sha = None,
      run_status = ''planned''\<rparr>"

definition plan_dir :: "export_config \<Rightarrow> desired \<Rightarrow> manifest \<Rightarrow> staging" where
  "plan_dir cfg desired m =
     (let ls = map (metadata_of (float_repr cfg) (gcs_bucket cfg)) (m_upserts m)
      in \<lparr>staged_manifest = Some (manifest_text (float_repr cfg) m),
          staged_metadata = py_join newline ls @ (if ls = [] then [] else newline),
          staged_files = map (\<lambda>u. (u_relpath u, snd (the (map_of desired (u_document u))))) (m_upserts m)\<rparr>)"

definition plan_items :: "int \<Rightarrow> manifest \<Rightarrow> item_row list" where
  "plan_items run m = map (upsert_item run) (m_upserts m) @ map (delete_item run) (m_deletes m)"

text \<open>
  \<open>run\<close> is the id the table assigns, \<open>area\<close> the staging directories by run. The review report is
  left out.
\<close>

definition plan_export ::
  "export_config \<Rightarrow> corpus \<Rightarrow> int \<Rightarrow> string \<Rightarrow> export_db \<Rightarrow> (int \<times> staging) list
     \<Rightarrow> plan_error + (plan_result \<times> export_db \<times> (int \<times> staging) list)" where
  "plan_export cfg c run mode x area =
     (if mode \<notin> {''reconcile'', ''purge''} then Inl (Unknown_Mode mode)
      else case build_desired_documents cfg c of
        Inl e \<Rightarrow> Inl e
      | Inr desired \<Rightarrow>
          (let (upserts, deletes, unchanged) =
                 reconcile_desired_against_pushed desired (current_pushed_state (documents x));
               m = plan_manifest cfg c mode upserts deletes;
               row = plan_row cfg c run m;
               result = \<lparr>result_run = run, result_manifest_sha = run_manifest_sha row,
                         result_upserts = length upserts, result_deletes = length deletes,
                         result_unchanged = unchanged,
                         result_reasons = compute_approval_requirements c (runs x) (documents x) m mode\<rparr>
           in if map_of area run \<noteq> None then Inl (Staging_Exists run)
              else Inr (result, x\<lparr>runs := runs x @ [row], items := items x @ plan_items run m\<rparr>,
                        AList.update run (plan_dir cfg desired m) area)))"

section \<open>The purge\<close>

text \<open>The revoked row keeps its place; a person without one gets one.\<close>

definition revoke_person :: "string \<Rightarrow> corpus \<Rightarrow> plan_error + corpus" where
  "revoke_person name c =
     (case filter (\<lambda>p. snd p = name) (short_names c) of
        [] \<Rightarrow> Inl (No_Such_Person name)
      | (p, _) # _ \<Rightarrow>
          (let al = allowlist (base c);
               al' = (if \<exists>a \<in> set al. allow_person a = p
                      then map (\<lambda>a. if allow_person a = p
                                    then a\<lparr>text_allowed := False, attachments_allowed := False\<rparr> else a) al
                      else al @ [\<lparr>allow_person = p, text_allowed = False, attachments_allowed = False\<rparr>])
           in Inr (c\<lparr>base := (base c)\<lparr>allowlist := al'\<rparr>\<rparr>)))"

definition purge_person ::
  "export_config \<Rightarrow> corpus \<Rightarrow> string \<Rightarrow> int \<Rightarrow> export_db \<Rightarrow> (int \<times> staging) list
     \<Rightarrow> plan_error + (corpus \<times> plan_result \<times> export_db \<times> (int \<times> staging) list)" where
  "purge_person cfg c name run x area =
     (case revoke_person name c of
        Inl e \<Rightarrow> Inl e
      | Inr c' \<Rightarrow> map_sum id (Pair c') (plan_export cfg c' run ''purge'' x area))"

text \<open>The transaction of the preview is rolled back: nothing but the answer is left.\<close>

definition preview_purge :: "export_config \<Rightarrow> corpus \<Rightarrow> string \<Rightarrow> document_row list \<Rightarrow> plan_error + plan_preview" where
  "preview_purge cfg c name docs =
     (case revoke_person name c of Inl e \<Rightarrow> Inl e | Inr c' \<Rightarrow> preview_plan cfg c' docs)"

section \<open>What the fetches return\<close>

abbreviation row_sender :: "corpus \<Rightarrow> message_row \<Rightarrow> string option" where
  "row_sender c m \<equiv> short_name_of c (message_sender (owner_person_id (base c)) m)"

lemma named_messages_Inr:
  "named_messages c mk rows = Inr msgs \<longleftrightarrow>
     (\<forall>r \<in> set rows. row_sender c (snd r) \<noteq> None)
     \<and> msgs = map (\<lambda>r. (fst r, mk (snd r) (the (row_sender c (snd r))))) rows"
proof (induction rows arbitrary: msgs)
  case (Cons r rows)
  obtain s m where r: "r = (s, m)" by fastforce
  let ?all = "map (\<lambda>r. (fst r, mk (snd r) (the (row_sender c (snd r))))) rows"
  show ?case
  proof (cases "named_messages c mk rows")
    case (Inl e)
    then show ?thesis using Cons.IH [of ?all] r by (auto split: option.splits)
  next
    case (Inr msgs')
    then show ?thesis using Cons.IH [of msgs'] r by (auto split: option.splits)
  qed
qed auto

definition segment_of_row ::
  "(int \<times> string \<times> string option \<times> string list) list \<Rightarrow> (int \<times> export_message) list \<Rightarrow> segment_row \<Rightarrow> export_segment" where
  "segment_of_row infos msgs g =
     (let (kind, dname, people) = the (map_of infos (sg_chat g))
      in \<lparr>x_segment = sg_key g, x_stable_key = sg_stable_key g, x_chat = sg_chat g,
          x_chat_kind = kind, x_chat_name = dname, x_people = people,
          x_started = sg_started g, x_ended = sg_ended g,
          x_messages = map snd (filter (\<lambda>(s, _). s = sg_key g) msgs)\<rparr>)"

lemma built_segments_Inr:
  "built_segments infos msgs gs = Inr xs \<longleftrightarrow>
     (\<forall>g \<in> set gs. map_of infos (sg_chat g) \<noteq> None) \<and> xs = map (segment_of_row infos msgs) gs"
proof (induction gs arbitrary: xs)
  case (Cons g gs)
  show ?case
  proof (cases "built_segments infos msgs gs")
    case (Inl e)
    then show ?thesis using Cons.IH [of "map (segment_of_row infos msgs) gs"]
      by (auto split: option.splits simp: segment_of_row_def)
  next
    case (Inr xs')
    then show ?thesis using Cons.IH [of xs']
      by (auto split: option.splits simp: segment_of_row_def)
  qed
qed auto

lemma map_sum_Inr: "map_sum id f x = Inr y \<longleftrightarrow> (\<exists>z. x = Inr z \<and> y = f z)"
  by (cases x) auto

lemma map_of_chat_infos:
  "map_of (chat_infos c ids) chat = Some (kind, dname, people) \<Longrightarrow> people = chat_people c chat \<and> chat \<in> set ids"
  by (drule map_of_SomeD) (auto simp: chat_infos_def)

text \<open>The rows of one link of an attachment, and the entry they end in.\<close>

definition done_enrichments :: "corpus \<Rightarrow> attachment_row \<Rightarrow> enrichment_row option list" where
  "done_enrichments c a =
     (case filter (\<lambda>e. en_attachment e = at_key a \<and> en_state e = ''done'') (enrichments c) of
        [] \<Rightarrow> [None] | es \<Rightarrow> map Some es)"

definition attachment_links :: "corpus \<Rightarrow> int list \<Rightarrow> (link_row \<times> attachment_row) list" where
  "attachment_links c message_ids =
     inner_join (\<lambda>l a. at_key a = ln_attachment l)
       (sort_key link_order (filter (\<lambda>l. ln_message l \<in> set message_ids) (links c))) (attachments c)"

definition link_entry ::
  "corpus \<Rightarrow> ((int \<times> int) \<times> bool) list \<Rightarrow> (int \<times> int) list \<Rightarrow> link_row \<times> attachment_row
     \<Rightarrow> (int \<times> int) \<times> export_attachment" where
  "link_entry c elig seg_of p =
     ((ln_message (fst p), at_key (snd p)),
      foldl (\<lambda>x e. add_enrichment e x)
        (new_attachment (pair_eligible elig seg_of (ln_message (fst p)) (at_key (snd p))) (snd p))
        (done_enrichments c (snd p)))"

lemma attachment_rows_eq:
  "attachment_rows c ids = concat (map (\<lambda>p. map (Pair p) (done_enrichments c (snd p))) (attachment_links c ids))"
  unfolding attachment_rows_def left_join_def attachment_links_def
proof (rule arg_cong [where f = concat], rule map_cong [OF refl])
  fix p :: "link_row \<times> attachment_row"
  obtain l a where [simp]: "p = (l, a)" by fastforce
  show "(case filter ((\<lambda>(l, a) e. en_attachment e = at_key a \<and> en_state e = ''done'') p) (enrichments c) of
           [] \<Rightarrow> [(p, None)] | y # ys \<Rightarrow> map (\<lambda>y. (p, Some y)) (y # ys)) = map (Pair p) (done_enrichments c (snd p))"
    by (simp add: done_enrichments_def split: list.split)
qed

lemma update_last: "k \<notin> fst ` set acc \<Longrightarrow> AList.update k y (acc @ [(k, x)]) = acc @ [(k, y)]"
  by (induction acc) auto

lemma map_of_append_fresh: "k \<notin> fst ` set acc \<Longrightarrow> ([k \<mapsto> x] ++ map_of acc) k = Some x"
  by (simp add: map_add_Some_iff map_of_eq_None_iff)

lemma collect_more:
  assumes "k = (ln_message l, at_key a)" and "k \<notin> fst ` set acc"
  shows "foldl (collect_row elig seg_of) (acc @ [(k, x)]) (map (Pair (l, a)) es)
     = acc @ [(k, foldl (\<lambda>x e. add_enrichment e x) x es)]"
  by (induction es arbitrary: x)
    (simp_all add: collect_row_def Let_def map_of_append_fresh [OF assms(2)] update_last [OF assms(2)]
      assms(1) [symmetric])

lemma collect_group:
  assumes "k = (ln_message l, at_key a)" and "k \<notin> fst ` set acc" and "es \<noteq> []"
  shows "foldl (collect_row elig seg_of) acc (map (Pair (l, a)) es)
     = acc @ [(k, foldl (\<lambda>x e. add_enrichment e x) (new_attachment (pair_eligible elig seg_of (fst k) (snd k)) a) es)]"
proof -
  obtain e es' where es: "es = e # es'" using assms(3) by (cases es) auto
  have "map_of acc k = None" using assms(2) by (simp add: map_of_eq_None_iff)
  then have "collect_row elig seg_of acc ((l, a), e)
      = acc @ [(k, add_enrichment e (new_attachment (pair_eligible elig seg_of (fst k) (snd k)) a))]"
    using assms(1,2) by (simp add: collect_row_def Let_def update_fresh)
  then show ?thesis unfolding es using collect_more [OF assms(1,2)] by simp
qed

lemma collect_all:
  assumes "distinct (map fst acc @ map (\<lambda>p. (ln_message (fst p), at_key (snd p))) ps)"
  shows "foldl (collect_row elig seg_of) acc (concat (map (\<lambda>p. map (Pair p) (done_enrichments c (snd p))) ps))
     = acc @ map (link_entry c elig seg_of) ps"
  using assms
proof (induction ps arbitrary: acc)
  case (Cons p ps)
  obtain l a where p: "p = (l, a)" by fastforce
  let ?k = "(ln_message l, at_key a)"
  have "done_enrichments c a \<noteq> []" by (simp add: done_enrichments_def split: list.split)
  moreover have "?k \<notin> fst ` set acc" using Cons.prems p by auto
  ultimately have step: "foldl (collect_row elig seg_of) acc (map (Pair p) (done_enrichments c (snd p)))
      = acc @ [link_entry c elig seg_of p]"
    using collect_group [of ?k l a acc "done_enrichments c a"] p by (simp add: link_entry_def)
  have "distinct (map fst (acc @ [link_entry c elig seg_of p]) @ map (\<lambda>p. (ln_message (fst p), at_key (snd p))) ps)"
    using Cons.prems by (simp add: link_entry_def)
  from Cons.IH [OF this] show ?case using step by simp
qed simp

lemma distinct_joined_links:
  assumes "distinct (map (\<lambda>l. (ln_message l, ln_attachment l)) ls)" and "distinct (map at_key as)"
  shows "distinct (map (\<lambda>p. (ln_message (fst p), at_key (snd p))) (inner_join (\<lambda>l a. at_key a = ln_attachment l) ls as))"
  using assms(1)
proof (induction ls)
  case (Cons l ls)
  have "distinct (map (\<lambda>a. (ln_message l, at_key a)) (filter (\<lambda>a. at_key a = ln_attachment l) as))"
    using assms(2) by (induction as) (auto simp: image_iff)
  moreover have "(ln_message l, ln_attachment l)
      \<notin> (\<lambda>p. (ln_message (fst p), at_key (snd p))) ` set (inner_join (\<lambda>l a. at_key a = ln_attachment l) ls as)"
    using Cons.prems by (auto simp: set_inner_join)
  ultimately show ?case using Cons
    by (auto simp: inner_join_def comp_def image_iff)
qed (simp add: inner_join_def)

lemma distinct_link_keys:
  assumes "wf_corpus c"
  shows "distinct (map (\<lambda>p. (ln_message (fst p), at_key (snd p))) (attachment_links c ids))"
proof -
  have inj: "distinct (map at_key (attachments c))" using assms by (simp add: wf_corpus_def)
  have "distinct (map (\<lambda>l. (ln_message l, ln_attachment l))
      (sort_key link_order (filter (\<lambda>l. ln_message l \<in> set ids) (links c))))"
    using assms by (simp add: wf_corpus_def distinct_map inj_on_def)
  then show ?thesis unfolding attachment_links_def using inj by (rule distinct_joined_links)
qed

lemma fetch_attachment_rows_eq:
  assumes "wf_corpus c"
  shows "fetch_attachment_rows c ids elig seg_of = map (link_entry c elig seg_of) (attachment_links c ids)"
  using collect_all [of "[]" "attachment_links c ids"] distinct_link_keys [OF assms]
  by (simp add: fetch_attachment_rows_def attachment_rows_eq)

section \<open>What may leave\<close>

text \<open>
  The two gates, said of the corpus: a message may leave when it is exportable and in a segment of
  an open thread; an attachment's content when a segment of an open thread links it and every
  exportable message linking it there is from a person whose attachments are allowed.
\<close>

definition message_may_leave :: "corpus \<Rightarrow> message_row \<Rightarrow> bool" where
  "message_may_leave c m \<longleftrightarrow> exportable_message m
     \<and> (\<exists>g \<in> set (segments c). thread_open (base c) (sg_chat g)
          \<and> (sg_key g, message_key m) \<in> set (segment_messages (base c)))"

definition links_in :: "corpus \<Rightarrow> segment_row \<Rightarrow> int \<Rightarrow> message_row \<Rightarrow> bool" where
  "links_in c g a m \<longleftrightarrow> exportable_message m \<and> (sg_key g, message_key m) \<in> set (segment_messages (base c))
     \<and> (message_key m, a) \<in> set (message_attachments (base c))"

definition attachment_may_leave :: "corpus \<Rightarrow> int \<Rightarrow> bool" where
  "attachment_may_leave c a \<longleftrightarrow>
     (\<exists>g \<in> set (segments c). thread_open (base c) (sg_chat g)
        \<and> (\<exists>m \<in> set (messages (base c)). links_in c g a m)
        \<and> (\<forall>m \<in> set (messages (base c)). links_in c g a m
             \<longrightarrow> attachment_ok (base c) (message_sender (owner_person_id (base c)) m)))"

definition same_visible_attachment :: "corpus \<Rightarrow> attachment_row \<Rightarrow> attachment_row \<Rightarrow> bool" where
  "same_visible_attachment c a a' \<longleftrightarrow> at_key a' = at_key a \<and> at_guid a' = at_guid a
     \<and> (attachment_may_leave c (at_key a) \<longrightarrow> a' = a)"

text \<open>
  Two corpora with the same people, threads, membership and links, that differ only in content
  that may not leave.
\<close>

definition same_visible :: "corpus \<Rightarrow> corpus \<Rightarrow> bool" where
  "same_visible c c' \<longleftrightarrow>
     base c' = base c \<and> short_names c' = short_names c \<and> segments c' = segments c
     \<and> links c' = links c \<and> reactions c' = reactions c
     \<and> filter (\<lambda>ch. thread_open (base c) (fst ch)) (chat_details c')
         = filter (\<lambda>ch. thread_open (base c) (fst ch)) (chat_details c)
     \<and> (\<forall>m \<in> set (messages (base c)). message_may_leave c m
          \<longrightarrow> map_of (message_texts c') (message_key m) = map_of (message_texts c) (message_key m))
     \<and> list_all2 (same_visible_attachment c) (attachments c) (attachments c')
     \<and> (\<forall>a. attachment_may_leave c a
          \<longrightarrow> filter (\<lambda>e. en_attachment e = a) (enrichments c') = filter (\<lambda>e. en_attachment e = a) (enrichments c))
     \<and> filter (\<lambda>k. attachment_may_leave c (ck_attachment k)) (chunks c')
         = filter (\<lambda>k. attachment_may_leave c (ck_attachment k)) (chunks c)"

lemma list_all2_filter:
  "list_all2 R xs ys \<Longrightarrow> (\<And>x y. R x y \<Longrightarrow> P x = P y) \<Longrightarrow> list_all2 R (filter P xs) (filter P ys)"
  by (induction rule: list_all2_induct) simp_all

lemma inner_join_rel:
  assumes "list_all2 R xs ys" and "\<And>l x y. R x y \<Longrightarrow> on l x = on l y"
  shows "list_all2 (\<lambda>p q. fst p = fst q \<and> R (snd p) (snd q)) (inner_join on ls xs) (inner_join on ls ys)"
proof (induction ls)
  case (Cons l ls)
  have "list_all2 R (filter (on l) xs) (filter (on l) ys)"
    using assms by (rule list_all2_filter)
  then have "list_all2 (\<lambda>p q. fst p = fst q \<and> R (snd p) (snd q)) (map (Pair l) (filter (on l) xs)) (map (Pair l) (filter (on l) ys))"
    by (simp add: list_all2_map1 list_all2_map2)
  from list_all2_appendI [OF this Cons.IH] show ?case by (simp add: inner_join_def)
qed (simp add: inner_join_def)

lemma map_eq_rel: "list_all2 (\<lambda>x y. f x = g y) xs ys \<Longrightarrow> map f xs = map g ys"
  by (induction rule: list_all2_induct) simp_all

lemma open_segment_rows:
  assumes "wf_db (base c)"
  shows "g \<in> set (segment_rows c (sort (eligible_chat_ids (base c) None)))
     \<longleftrightarrow> g \<in> set (segments c) \<and> thread_open (base c) (sg_chat g)"
  by (simp add: segment_rows_def eligible_is_open_thread_iff [OF assms] asked_def)

lemma in_message_rows:
  "(s, m) \<in> set (message_rows c segs) \<longleftrightarrow>
     s \<in> set segs \<and> (s, message_key m) \<in> set (segment_messages (base c)) \<and> m \<in> set (messages (base c))
     \<and> exportable_message m"
proof -
  have "(s, m) \<in> set (message_rows c segs) \<longleftrightarrow> (\<exists>x. ((s, x), m) \<in> set (inner_join (\<lambda>sm m. message_key m = snd sm)
      (filter (\<lambda>sm. fst sm \<in> set segs) (segment_messages (base c)))
      (filter exportable_message (messages (base c)))))"
    unfolding message_rows_def by force
  then show ?thesis by (auto simp: set_inner_join)
qed

lemma eligible_attachment_leaves:
  assumes "wf_db (base c)" and "map_of (compute_attachment_eligibility (base c) (map sg_key srows)) (s, a) = Some True"
    and "srows = segment_rows c (sort (eligible_chat_ids (base c) None))"
  shows "attachment_may_leave c a"
proof -
  have "((s, a), True) \<in> set (compute_attachment_eligibility (base c) (map sg_key srows))"
    using assms(2) by (rule map_of_SomeD)
  note gate = this [unfolded attachment_gate_iff [OF assms(1)]]
  then obtain g where g: "g \<in> set srows" "sg_key g = s" by auto
  have "g \<in> set (segments c)" "thread_open (base c) (sg_chat g)"
    using g(1) open_segment_rows [OF assms(1)] assms(3) by simp_all
  then show ?thesis using gate g(2) unfolding attachment_may_leave_def links_in_def by blast
qed

lemma ineligible_entry: "\<not> content_eligible x \<Longrightarrow> foldl (\<lambda>x e. add_enrichment e x) x es = x"
  by (induction es) (simp_all add: add_enrichment_def split: option.split)

lemma link_entry_same:
  assumes "same_visible_attachment c a a'"
    and "\<And>b. attachment_may_leave c b \<Longrightarrow>
           filter (\<lambda>e. en_attachment e = b) (enrichments c') = filter (\<lambda>e. en_attachment e = b) (enrichments c)"
    and "pair_eligible elig seg_of (ln_message l) (at_key a) \<Longrightarrow> attachment_may_leave c (at_key a)"
  shows "link_entry c elig seg_of (l, a) = link_entry c' elig seg_of (l, a')"
proof (cases "pair_eligible elig seg_of (ln_message l) (at_key a)")
  case True
  then have leave: "attachment_may_leave c (at_key a)" by (rule assms(3))
  then have "a' = a" using assms(1) by (simp add: same_visible_attachment_def)
  moreover have "filter (\<lambda>e. en_attachment e = at_key a \<and> en_state e = ''done'') (enrichments c')
      = filter (\<lambda>e. en_attachment e = at_key a \<and> en_state e = ''done'') (enrichments c)"
  proof -
    have "filter (\<lambda>e. en_attachment e = at_key a \<and> en_state e = ''done'') es
        = filter (\<lambda>e. en_state e = ''done'') (filter (\<lambda>e. en_attachment e = at_key a) es)" for es :: "enrichment_row list"
      by (simp add: conj_commute)
    then show ?thesis using assms(2) [OF leave] by (simp only:)
  qed
  ultimately show ?thesis by (simp add: link_entry_def done_enrichments_def)
next
  case False
  then show ?thesis using assms(1)
    by (simp add: link_entry_def same_visible_attachment_def ineligible_entry new_attachment_def)
qed

lemma chat_infos_same:
  assumes "wf_db (base c)" and "same_visible c c'"
  shows "chat_infos c' (sort (eligible_chat_ids (base c) None)) = chat_infos c (sort (eligible_chat_ids (base c) None))"
proof -
  let ?ids = "sort (eligible_chat_ids (base c) None)"
  have f: "filter (\<lambda>(chat, _). chat \<in> set ?ids) ds = filter (\<lambda>ch. thread_open (base c) (fst ch)) ds" for ds :: "(int \<times> string \<times> string option) list"
    by (rule filter_cong) (auto simp: eligible_is_open_thread_iff [OF assms(1)] asked_def)
  have "chat_people c' chat = chat_people c chat" for chat
    using assms(2) by (simp add: same_visible_def chat_people_def short_name_of_def)
  then show ?thesis
    using assms(2) unfolding chat_infos_def f by (simp add: same_visible_def)
qed

text \<open>Both corpora: the same names, messages, attachments, segments.\<close>

lemma segment_parts_same:
  assumes "wf_db (base c)" and "same_visible c c'"
  shows "segment_rows c' ids = segment_rows c ids" "message_rows c' segs = message_rows c segs"
    "row_sender c' m = row_sender c m" "tapback_suffixes c' ms m' = tapback_suffixes c ms m'"
proof -
  have names: "short_name_of c' = short_name_of c" and base: "base c' = base c" and rx: "reactions c' = reactions c"
    and gs: "segments c' = segments c"
    using assms(2) by (auto simp: same_visible_def short_name_of_def)
  have owner: "owner_short_name c' = owner_short_name c" by (simp add: owner_short_name_def names base)
  show "segment_rows c' ids = segment_rows c ids" by (simp add: segment_rows_def gs)
  show "message_rows c' segs = message_rows c segs" by (simp add: message_rows_def base)
  show "row_sender c' m = row_sender c m" by (simp add: names base)
  show "tapback_suffixes c' ms m' = tapback_suffixes c ms m'"
    unfolding tapback_suffixes_def names owner rx ..
qed

lemma fetched_attachments_same:
  assumes "wf_corpus c" "wf_corpus c'" and "same_visible c c'"
    and "srows = segment_rows c (sort (eligible_chat_ids (base c) None))"
    and "elig = compute_attachment_eligibility (base c) (map sg_key srows)"
  shows "fetch_attachment_rows c' ids elig seg_of = fetch_attachment_rows c ids elig seg_of"
proof -
  have db: "wf_db (base c)" using assms(1) by (simp add: wf_corpus_def)
  have leaves: "attachment_may_leave c a" if "pair_eligible elig seg_of m a" for m a
    using that eligible_attachment_leaves [OF db _ assms(4)] assms(5)
    by (auto simp: pair_eligible_def split: option.splits)
  have v: "list_all2 (same_visible_attachment c) (attachments c) (attachments c')" "links c' = links c"
    and en: "\<And>b. attachment_may_leave c b \<Longrightarrow>
           filter (\<lambda>e. en_attachment e = b) (enrichments c') = filter (\<lambda>e. en_attachment e = b) (enrichments c)"
    using assms(3) by (simp_all add: same_visible_def)
  have "list_all2 (\<lambda>p q. fst p = fst q \<and> same_visible_attachment c (snd p) (snd q))
      (attachment_links c ids) (attachment_links c' ids)"
    unfolding attachment_links_def v(2)
    by (rule inner_join_rel [OF v(1)]) (simp add: same_visible_attachment_def)
  then have "list_all2 (\<lambda>p q. link_entry c elig seg_of p = link_entry c' elig seg_of q)
      (attachment_links c ids) (attachment_links c' ids)"
  proof (rule list_all2_mono)
    fix p q :: "link_row \<times> attachment_row"
    assume pq: "fst p = fst q \<and> same_visible_attachment c (snd p) (snd q)"
    obtain l a l' a' where "p = (l, a)" "q = (l', a')" by fastforce
    then show "link_entry c elig seg_of p = link_entry c' elig seg_of q"
      using pq link_entry_same [of c a a' c' elig seg_of l, OF _ en leaves] by simp
  qed
  from map_eq_rel [OF this] show ?thesis
    by (simp add: fetch_attachment_rows_eq [OF assms(1)] fetch_attachment_rows_eq [OF assms(2)])
qed

lemma named_messages_cong:
  "(\<And>s m n. (s, m) \<in> set rows \<Longrightarrow> mk' m n = mk m n) \<Longrightarrow> (\<And>m. row_sender c' m = row_sender c m)
     \<Longrightarrow> named_messages c' mk' rows = named_messages c mk rows"
proof (induction rows)
  case (Cons r rows)
  obtain s m where r: "r = (s, m)" by fastforce
  have "named_messages c' mk' rows = named_messages c mk rows"
    by (rule Cons.IH) (use Cons.prems in auto)
  moreover have "mk' m n = mk m n" for n by (rule Cons.prems(1) [of s m]) (simp add: r)
  ultimately show ?case using Cons.prems(2) [of m] r by (simp cong: option.case_cong)
qed simp

lemma fetched_segments_same:
  assumes "wf_corpus c" "wf_corpus c'" and "same_visible c c'"
  shows "fetch_export_segments c' (sort (eligible_chat_ids (base c) None))
       = fetch_export_segments c (sort (eligible_chat_ids (base c) None))"
proof -
  let ?ids = "sort (eligible_chat_ids (base c) None)"
  let ?srows = "segment_rows c ?ids" and ?elig = "compute_attachment_eligibility (base c) (map sg_key (segment_rows c ?ids))"
  let ?mrows = "message_rows c (map sg_key ?srows)"
  let ?mids = "map (\<lambda>(_, m). message_key m) ?mrows" and ?segof = "rev (map (\<lambda>(s, m). (message_key m, s)) ?mrows)"
  let ?coll = "fetch_attachment_rows c ?mids ?elig ?segof"
  have db: "wf_db (base c)" using assms(1) by (simp add: wf_corpus_def)
  have base: "base c' = base c" using assms(3) by (simp add: same_visible_def)
  note parts = segment_parts_same [OF db assms(3)]
  have coll: "fetch_attachment_rows c' ?mids ?elig ?segof = ?coll"
    by (rule fetched_attachments_same [OF assms refl refl])
  have texts: "export_message_of c' ?mids ?coll m n = export_message_of c ?mids ?coll m n" if "(s, m) \<in> set ?mrows" for s m n
  proof -
    note row = that
    obtain g where "g \<in> set (segments c)" "thread_open (base c) (sg_chat g)" "sg_key g = s"
      using row open_segment_rows [OF db] by (auto simp: in_message_rows)
    then have "message_may_leave c m" "m \<in> set (messages (base c))"
      using row by (auto simp: in_message_rows message_may_leave_def)
    then have "map_of (message_texts c') (message_key m) = map_of (message_texts c) (message_key m)"
      using assms(3) unfolding same_visible_def by blast
    then show ?thesis by (simp add: export_message_of_def parts)
  qed
  have "named_messages c' (export_message_of c' ?mids ?coll) ?mrows = named_messages c (export_message_of c ?mids ?coll) ?mrows"
    using texts parts(3) by (intro named_messages_cong)
  then show ?thesis
    unfolding fetch_export_segments_def chat_infos_same [OF db assms(3)] parts base Let_def coll by simp
qed

lemma fetched_chunks_same:
  assumes "same_visible c c'" and "\<And>s a. ((s, a), True) \<in> set elig \<Longrightarrow> attachment_may_leave c a"
  shows "fetch_chunks_for c' gs elig = fetch_chunks_for c gs elig"
proof -
  let ?ids = "sort (remdups (map snd (eligible_pairs elig)))"
  have ids: "attachment_may_leave c a" if "a \<in> set ?ids" for a
    using that assms(2) by (auto simp: eligible_pairs_def)
  have f: "filter (\<lambda>k. ck_attachment k \<in> set ?ids) ks
      = filter (\<lambda>k. ck_attachment k \<in> set ?ids) (filter (\<lambda>k. attachment_may_leave c (ck_attachment k)) ks)" for ks
    unfolding filter_filter using ids by (intro filter_cong) auto
  have ks: "filter (\<lambda>k. ck_attachment k \<in> set ?ids) (chunks c') = filter (\<lambda>k. ck_attachment k \<in> set ?ids) (chunks c)"
    using assms(1) f [of "chunks c'"] f [of "chunks c"] by (simp add: same_visible_def)
  have as: "filter (\<lambda>a. at_key a = b) (attachments c') = filter (\<lambda>a. at_key a = b) (attachments c)"
    if "attachment_may_leave c b" for b
  proof -
    have "list_all2 (same_visible_attachment c) (filter (\<lambda>a. at_key a = b) (attachments c)) (filter (\<lambda>a. at_key a = b) (attachments c'))"
      using assms(1) by (intro list_all2_filter) (auto simp: same_visible_def same_visible_attachment_def)
    moreover have "y = x" if "x \<in> set (filter (\<lambda>a. at_key a = b) (attachments c))" "same_visible_attachment c x y" for x y
      using that \<open>attachment_may_leave c b\<close> by (auto simp: same_visible_attachment_def)
    ultimately have "list_all2 (=) (filter (\<lambda>a. at_key a = b) (attachments c)) (filter (\<lambda>a. at_key a = b) (attachments c'))"
      by (elim list.rel_mono_strong) blast
    then show ?thesis by (simp add: list_all2_eq [symmetric])
  qed
  have "chunk_rows c' ?ids = chunk_rows c ?ids"
    unfolding chunk_rows_def inner_join_def ks
    by (rule arg_cong [where f = concat], rule map_cong [OF refl]) (use as ids in auto)
  then show ?thesis by (simp only: fetch_chunks_for_def Let_def)
qed

lemma fetched_eligible:
  assumes "fetch_export_segments c ids = Inr (gs, elig)"
  shows "elig = (if ids = [] then [] else compute_attachment_eligibility (base c) (map sg_key (segment_rows c ids)))"
  using assms by (auto simp: fetch_export_segments_def Let_def map_sum_Inr split: if_splits sum.splits)

lemma desired_documents_same:
  assumes "wf_corpus c" "wf_corpus c'" and "same_visible c c'"
  shows "build_desired_documents cfg c' = build_desired_documents cfg c"
proof -
  let ?ids = "sort (eligible_chat_ids (base c) None)"
  have db: "wf_db (base c)" using assms(1) by (simp add: wf_corpus_def)
  have base: "base c' = base c" using assms(3) by (simp add: same_visible_def)
  have chunks: "fetch_chunks_for c' gs elig = fetch_chunks_for c gs elig"
    if "fetch_export_segments c ?ids = Inr (gs, elig)" for gs elig
  proof (rule fetched_chunks_same [OF assms(3)])
    fix s a
    assume m: "((s, a), True) \<in> set elig"
    have "distinct (map fst elig)"
      unfolding fetched_eligible [OF that] by (simp add: compute_attachment_eligibility_def Let_def comp_def)
    then have "map_of elig (s, a) = Some True" using m by simp
    then show "attachment_may_leave c a"
      using fetched_eligible [OF that] m eligible_attachment_leaves [OF db _ refl] by (auto split: if_splits)
  qed
  show ?thesis
    unfolding build_desired_documents_def base fetched_segments_same [OF assms]
    by (cases "fetch_export_segments c ?ids") (use chunks in auto)
qed

lemma update_subset: "set (AList.update k v al) \<subseteq> insert (k, v) (set al)"
  by (induction al) auto

lemma collect_documents_snoc:
  "collect_documents (ds @ [d]) = AList.update (u_document (fst d)) d (collect_documents ds)"
  by (simp add: collect_documents_def)

lemma collect_documents_from: "x \<in> set (collect_documents ds) \<Longrightarrow> snd x \<in> set ds \<and> fst x = u_document (fst (snd x))"
proof (induction ds rule: rev_induct)
  case (snoc d ds)
  then show ?case using update_subset [of "u_document (fst d)" d "collect_documents ds"]
    by (auto simp: collect_documents_snoc)
qed (simp add: collect_documents_def)

lemma collect_documents_distinct: "distinct (map fst (collect_documents ds))"
  by (induction ds rule: rev_induct)
    (simp_all add: collect_documents_snoc collect_documents_def distinct_update)

lemma build_parts:
  assumes "build_desired_documents cfg c = Inr desired"
  obtains gs elig where "fetch_export_segments c (sort (eligible_chat_ids (base c) None)) = Inr (gs, elig)"
    and "desired = collect_documents (segment_documents cfg gs @ chunk_documents cfg (fetch_chunks_for c gs elig))"
  using assms by (auto simp: build_desired_documents_def map_sum_Inr)

lemma kept_by_enrichments:
  "content_eligible (foldl (\<lambda>x e. add_enrichment e x) x es) = content_eligible x"
  "x_guid (foldl (\<lambda>x e. add_enrichment e x) x es) = x_guid x"
  by (induction es arbitrary: x) (simp_all add: add_enrichment_def split: option.split)

text \<open>Everything a fetched segment holds, traced back to the corpus.\<close>

lemma fetched_segment:
  assumes "wf_corpus c" and "fetch_export_segments c (sort (eligible_chat_ids (base c) None)) = Inr (gs, elig)"
    and "g \<in> set gs"
  shows "thread_open (base c) (x_chat g)" "x_people g = chat_people c (x_chat g)"
    "m \<in> set (x_messages g) \<Longrightarrow> x \<in> set (x_attachments m) \<Longrightarrow> content_eligible x
       \<Longrightarrow> \<exists>a \<in> set (attachments c). at_guid a = x_guid x \<and> attachment_may_leave c (at_key a)"
proof -
  let ?ids = "sort (eligible_chat_ids (base c) None)"
  let ?srows = "segment_rows c ?ids"
  let ?elig = "compute_attachment_eligibility (base c) (map sg_key ?srows)"
  let ?mrows = "message_rows c (map sg_key ?srows)"
  let ?mids = "map (\<lambda>(_, m). message_key m) ?mrows" and ?segof = "rev (map (\<lambda>(s, m). (message_key m, s)) ?mrows)"
  let ?coll = "fetch_attachment_rows c ?mids ?elig ?segof"
  have db: "wf_db (base c)" using assms(1) by (simp add: wf_corpus_def)
  have ne: "?ids \<noteq> []" using assms(2,3) by (auto simp: fetch_export_segments_def)
  then obtain msgs where msgs: "named_messages c (export_message_of c ?mids ?coll) ?mrows = Inr msgs"
    and gs: "built_segments (chat_infos c ?ids) msgs ?srows = Inr gs"
    using assms(2) by (auto simp: fetch_export_segments_def Let_def map_sum_Inr split: if_splits sum.splits)
  obtain row where row: "row \<in> set ?srows" "g = segment_of_row (chat_infos c ?ids) msgs row"
    and info: "map_of (chat_infos c ?ids) (sg_chat row) \<noteq> None"
    using assms(3) gs by (auto simp: built_segments_Inr)
  obtain kind dname people where i: "map_of (chat_infos c ?ids) (sg_chat row) = Some (kind, dname, people)"
    using info by (metis not_Some_eq prod_cases3)
  have g: "x_chat g = sg_chat row" "x_people g = people"
    "x_messages g = map snd (filter (\<lambda>(s, _). s = sg_key row) msgs)"
    using row(2) i by (simp_all add: segment_of_row_def)
  show "thread_open (base c) (x_chat g)" using row(1) open_segment_rows [OF db] g(1) by simp
  show "x_people g = chat_people c (x_chat g)" using map_of_chat_infos [OF i] g(1,2) by simp
  assume m: "m \<in> set (x_messages g)" and x: "x \<in> set (x_attachments m)" and ok: "content_eligible x"
  from m obtain s mr name where "m = export_message_of c ?mids ?coll mr name"
    using msgs by (auto simp: g(3) named_messages_Inr)
  then have "x \<in> set (message_attachments_of ?coll (message_key mr))" using x by (simp add: export_message_of_def)
  then obtain p where p: "p \<in> set (attachment_links c ?mids)" "x = snd (link_entry c ?elig ?segof p)"
    by (auto simp: message_attachments_of_def fetch_attachment_rows_eq [OF assms(1)])
  have "pair_eligible ?elig ?segof (ln_message (fst p)) (at_key (snd p))"
    using ok p(2) by (simp add: link_entry_def kept_by_enrichments new_attachment_def)
  then have "attachment_may_leave c (at_key (snd p))"
    using eligible_attachment_leaves [OF db _ refl] by (auto simp: pair_eligible_def split: option.splits)
  moreover have "snd p \<in> set (attachments c)"
    using p(1) set_inner_join [of "fst p" "snd p"] by (simp add: attachment_links_def)
  moreover have "x_guid x = at_guid (snd p)"
    using p(2) by (simp add: link_entry_def kept_by_enrichments new_attachment_def)
  ultimately show "\<exists>a \<in> set (attachments c). at_guid a = x_guid x \<and> attachment_may_leave c (at_key a)" by auto
qed

lemma fetched_chunk:
  assumes "wf_corpus c" and "fetch_export_segments c (sort (eligible_chat_ids (base c) None)) = Inr (gs, elig)"
    and "k \<in> set (fetch_chunks_for c gs elig)"
  shows "x_parent k \<in> set gs" "\<exists>a \<in> set (attachments c). at_guid a = x_chunk_guid k \<and> attachment_may_leave c (at_key a)"
proof -
  have db: "wf_db (base c)" using assms(1) by (simp add: wf_corpus_def)
  from assms(3) obtain s a parent row where p: "(s, a) \<in> set (eligible_pairs elig)"
    "map_of (rev (map (\<lambda>g. (x_segment g, g)) gs)) s = Some parent"
    "row \<in> set (chunk_rows c (sort (remdups (map snd (eligible_pairs elig)))))"
    "ck_attachment (fst row) = a" "k = export_chunk_of parent row"
  proof -
    note found = that
    let ?rows = "chunk_rows c (sort (remdups (map snd (eligible_pairs elig))))"
    obtain s a where sa: "(s, a) \<in> set (eligible_pairs elig)"
      and k: "k \<in> set (case map_of (rev (map (\<lambda>g. (x_segment g, g)) gs)) s of None \<Rightarrow> []
        | Some parent \<Rightarrow> map (export_chunk_of parent) (filter (\<lambda>(k, _). ck_attachment k = a) ?rows))"
      using assms(3) by (auto simp: fetch_chunks_for_def Let_def split: if_splits)
    show ?thesis
    proof (cases "map_of (rev (map (\<lambda>g. (x_segment g, g)) gs)) s")
      case (Some parent)
      then obtain row where "row \<in> set ?rows" "ck_attachment (fst row) = a" "k = export_chunk_of parent row"
        using k by auto
      then show ?thesis using found [OF sa Some] by blast
    qed (use k in simp)
  qed
  have "x_parent k = parent" using p(5) by (cases row) (simp add: export_chunk_of_def)
  then show "x_parent k \<in> set gs" using map_of_SomeD [OF p(2)] by auto
  have r: "snd row \<in> set (attachments c)" "at_key (snd row) = a" "x_chunk_guid k = at_guid (snd row)"
    using p(3,4,5) set_inner_join [of "fst row" "snd row"]
    by (simp_all add: chunk_rows_def export_chunk_of_def case_prod_beta')
  have "((s, a), True) \<in> set elig" using p(1) by (auto simp: eligible_pairs_def)
  moreover have "distinct (map fst elig)"
    unfolding fetched_eligible [OF assms(2)] by (simp add: compute_attachment_eligibility_def Let_def comp_def)
  ultimately have "map_of elig (s, a) = Some True" by simp
  then have "attachment_may_leave c a"
    using fetched_eligible [OF assms(2)] eligible_attachment_leaves [OF db _ refl] by (auto split: if_splits)
  then show "\<exists>a \<in> set (attachments c). at_guid a = x_chunk_guid k \<and> attachment_may_leave c (at_key a)" using r by auto
qed

text \<open>The names an open thread's documents carry belong to allowed people.\<close>

lemma chat_people_allowed:
  assumes "thread_open (base c) chat" and "n \<in> set (chat_people c chat)"
  shows "\<exists>p. short_name_of c (Some p) = Some n \<and> text_ok (base c) (Some p)"
proof -
  from assms(2) consider
    (member) p where "p \<in> set (participants (base c))" "part_chat p = chat" "short_name_of c (Some (part_person p)) = Some n"
  | (sender) m where "m \<in> set (messages (base c))" "msg_chat m = chat" "row_sender c m = Some n"
    by (auto simp: chat_people_def set_map_filter)
  then show ?thesis
  proof cases
    case member
    then show ?thesis using assms(1) by (auto simp: thread_open_def)
  next
    case sender
    then have "text_ok (base c) (message_sender (owner_person_id (base c)) m)"
      using assms(1) by (simp add: thread_open_def)
    then show ?thesis using sender(3) by (cases "message_sender (owner_person_id (base c)) m") auto
  qed
qed

section \<open>The scope of a plan\<close>

definition sample_corpus :: corpus where
  "sample_corpus =
     \<lparr>base = sample_db, short_names = [(1, ''me''), (2, ''ann'')],
      chat_details = [(10, ''dm'', None), (11, ''dm'', None)],
      message_texts = [(100, Some ''hi''), (101, Some ''look'')],
      segments = [\<lparr>sg_key = 1000, sg_stable_key = ''k1'', sg_chat = 10, sg_started = 0, sg_ended = 5\<rparr>],
      attachments = [\<lparr>at_key = 500, at_guid = ''g0'', at_filename = Some ''salary.pdf'', at_mime = Some ''application/pdf''\<rparr>,
                     \<lparr>at_key = 501, at_guid = ''g1'', at_filename = Some ''cat.png'', at_mime = Some ''image/png''\<rparr>],
      links = [\<lparr>ln_message = 100, ln_attachment = 500, ln_ordinal = Some 0\<rparr>,
               \<lparr>ln_message = 101, ln_attachment = 501, ln_ordinal = None\<rparr>],
      enrichments = [\<lparr>en_attachment = 500, en_kind = ''pdf_text'', en_state = ''done'', en_text = Some ''secret''\<rparr>,
                     \<lparr>en_attachment = 501, en_kind = ''ocr'', en_state = ''done'', en_text = Some ''meow''\<rparr>],
      chunks = [\<lparr>ck_key = 7, ck_attachment = 501, ck_kind = ''ocr'', ck_seq = 0, ck_text = ''meow''\<rparr>,
                \<lparr>ck_key = 8, ck_attachment = 500, ck_kind = ''pdf_text'', ck_seq = 0, ck_text = ''secret''\<rparr>],
      reactions = [\<lparr>rx_key = 1, rx_target = Some 101, rx_kind = ''emoji:!'', rx_from_me = True,
                    rx_sender = None, rx_removed = False, rx_acted_at = None\<rparr>]\<rparr>"

definition sample_config :: export_config where
  "sample_config =
     \<lparr>sha = (\<lambda>s. s @ replicate (64 - length s) (CHR ''0'')), float_repr = (\<lambda>_. []), float_value = (\<lambda>_. None),
      rendering = \<lparr>tz_name = ''UTC'', snippet_chars = 3, stamp = py_str_int, stamp_t = py_str_int, isoformat = py_str_int\<rparr>,
      gcs_bucket = ''b'', projection = JNull\<rparr>"

lemma sample_corpus_wf: "wf_corpus sample_corpus"
  using sample_db_wf by (simp add: wf_corpus_def sample_corpus_def) (simp add: sample_db_def)

definition sample_desired :: desired where
  "sample_desired = projr (build_desired_documents sample_config sample_corpus)"

text \<open>One evaluation of the sample for all that follows.\<close>

lemma sample_evaluated:
  "let r = build_desired_documents sample_config sample_corpus; ds = projr r;
       (ups, dels, n) = reconcile_desired_against_pushed ds [(''gone'', Some ''h'')]
   in \<not> isl r \<and> length ds = 2 \<and> u_people (fst (snd (hd ds))) = [''ann'', ''me'']
      \<and> u_guids (fst (snd (hd ds))) = [''g1''] \<and> distinct (map fst ds)
      \<and> list_all (\<lambda>(d, u, body). u_document u = d) ds
      \<and> length ups = 2 \<and> map del_document dels = [''gone''] \<and> n = 0"
  by code_simp

lemma sample_built:
  "build_desired_documents sample_config sample_corpus = Inr sample_desired"
  using sample_evaluated by (auto simp: Let_def sample_desired_def)

lemma sample_desired_facts:
  "length sample_desired = 2" "u_people (fst (snd (hd sample_desired))) = [''ann'', ''me'']"
  "u_guids (fst (snd (hd sample_desired))) = [''g1'']" "distinct (map fst sample_desired)"
  "list_all (\<lambda>(d, u, body). u_document u = d) sample_desired"
  "case reconcile_desired_against_pushed sample_desired [(''gone'', Some ''h'')] of
     (ups, dels, n) \<Rightarrow> length ups = 2 \<and> map del_document dels = [''gone''] \<and> n = 0"
  using sample_evaluated by (auto simp: Let_def sample_desired_def)

text \<open>
  Nothing outside the scope is planned: every desired document belongs to an open thread, the
  people it names are text-allowed, the attachments it shows content of may leave, and its hash
  and id are those of its own text and entry.
\<close>

theorem plan_stays_in_scope:
  assumes "wf_corpus c" and "build_desired_documents cfg c = Inr desired" and "(d, u, body) \<in> set desired"
  shows "d = u_document u \<and> u_sha u = sha cfg body \<and> thread_open (base c) (u_chat u)
     \<and> (\<forall>n \<in> set (u_people u). \<exists>p. short_name_of c (Some p) = Some n \<and> text_ok (base c) (Some p))
     \<and> (\<forall>guid \<in> set (u_guids u). \<exists>a \<in> set (attachments c). at_guid a = guid \<and> attachment_may_leave c (at_key a))"
proof -
  obtain gs elig where f: "fetch_export_segments c (sort (eligible_chat_ids (base c) None)) = Inr (gs, elig)"
    and desired: "desired = collect_documents (segment_documents cfg gs @ chunk_documents cfg (fetch_chunks_for c gs elig))"
    using assms(2) by (rule build_parts)
  note seg = fetched_segment [OF assms(1) f]
  have key: "d = u_document u"
    and "(u, body) \<in> set (segment_documents cfg gs) \<or> (u, body) \<in> set (chunk_documents cfg (fetch_chunks_for c gs elig))"
    using collect_documents_from assms(3) unfolding desired by fastforce+
  then consider (seg) g where "g \<in> set gs" "u = segment_upsert cfg g body"
    | (chunk) k where "k \<in> set (fetch_chunks_for c gs elig)" "u = chunk_upsert cfg k body"
    by (auto simp: segment_documents_def chunk_documents_def set_map_filter Let_def)
  then show ?thesis
  proof cases
    case (seg g)
    have "\<forall>guid \<in> set (segment_guids g). \<exists>a \<in> set (attachments c). at_guid a = guid \<and> attachment_may_leave c (at_key a)"
      using fetched_segment(3) [OF assms(1) f seg(1)] by (auto simp: segment_guids_def)
    then show ?thesis using key seg fetched_segment(1,2) [OF assms(1) f seg(1)] chat_people_allowed
      by (auto simp: segment_upsert_def Let_def)
  next
    case (chunk k)
    note ck = fetched_chunk [OF assms(1) f chunk(1)]
    show ?thesis using key chunk ck(2) fetched_segment(1,2) [OF assms(1) f ck(1)] chat_people_allowed
      by (auto simp: chunk_upsert_def Let_def)
  qed
qed

theorem plan_stays_in_scope_witness:
  "let u = fst (snd (hd sample_desired))
   in u_people u = [''ann'', ''me''] \<and> u_guids u = [''g1''] \<and> thread_open sample_db (u_chat u)"
proof -
  obtain d u body where e: "hd sample_desired = (d, u, body)" by (metis prod_cases3)
  have "(d, u, body) \<in> set sample_desired"
    using sample_desired_facts(1) by (metis e hd_in_set list.size(3) zero_neq_numeral)
  then have "thread_open (base sample_corpus) (u_chat u)"
    using plan_stays_in_scope [OF sample_corpus_wf sample_built] by blast
  then show ?thesis using sample_desired_facts(2,3) e by (simp add: sample_corpus_def)
qed

text \<open>
  C21: The content of what is withheld has no influence on what leaves: two corpora with the same people,
  threads, membership, rows of messages, reactions and links, hidden messages and their senders among
  them, that differ only in the text of messages that may not leave and in the
  names, types, enrichments and chunks of attachments that may not leave have the same desired
  documents, and a plan of the one stages the same bytes and records as a plan of the other.
\<close>

theorem withheld_content_has_no_influence:
  assumes "wf_corpus c" "wf_corpus c'" and "same_visible c c'"
  shows "build_desired_documents cfg c' = build_desired_documents cfg c
     \<and> map_sum id snd (plan_export cfg c' run mode x area) = map_sum id snd (plan_export cfg c run mode x area)"
proof -
  have build: "build_desired_documents cfg c' = build_desired_documents cfg c"
    using assms by (rule desired_documents_same)
  have "snapshot_allowlist c' = snapshot_allowlist c"
    using assms(3) by (simp add: same_visible_def snapshot_allowlist_def)
  then have "plan_manifest cfg c' = plan_manifest cfg c" "snapshot_allowlist c' = snapshot_allowlist c"
    by (simp_all add: plan_manifest_def fun_eq_iff)
  then show ?thesis
    by (cases "build_desired_documents cfg c") (simp_all add: plan_export_def plan_row_def build Let_def case_prod_beta')
qed

definition redacted_corpus :: corpus where
  "redacted_corpus = sample_corpus
     \<lparr>attachments := [\<lparr>at_key = 500, at_guid = ''g0'', at_filename = None, at_mime = Some ''image/png''\<rparr>,
                      \<lparr>at_key = 501, at_guid = ''g1'', at_filename = Some ''cat.png'', at_mime = Some ''image/png''\<rparr>],
      enrichments := drop 1 (enrichments sample_corpus), chunks := take 1 (chunks sample_corpus)\<rparr>"

lemma sample_500_stays: "\<not> attachment_may_leave sample_corpus 500"
  by (auto simp: attachment_may_leave_def links_in_def sample_corpus_def sample_db_def exportable_message_def
      attachment_ok_def message_sender_def effective_sender_def owner_person_id_def coalesce_def)

theorem withheld_content_has_no_influence_witness:
  "build_desired_documents sample_config redacted_corpus = build_desired_documents sample_config sample_corpus"
proof -
  have "wf_corpus redacted_corpus"
    using sample_corpus_wf by (simp add: wf_corpus_def redacted_corpus_def) (simp add: sample_corpus_def)
  moreover have "same_visible sample_corpus redacted_corpus"
  proof -
    have "filter (\<lambda>e. en_attachment e = a) (enrichments redacted_corpus)
        = filter (\<lambda>e. en_attachment e = a) (enrichments sample_corpus)" if "attachment_may_leave sample_corpus a" for a
      using that sample_500_stays by (auto simp: redacted_corpus_def sample_corpus_def)
    moreover have "list_all2 (same_visible_attachment sample_corpus) (attachments sample_corpus) (attachments redacted_corpus)"
    proof -
      have "attachments sample_corpus
          = [\<lparr>at_key = 500, at_guid = ''g0'', at_filename = Some ''salary.pdf'', at_mime = Some ''application/pdf''\<rparr>,
             \<lparr>at_key = 501, at_guid = ''g1'', at_filename = Some ''cat.png'', at_mime = Some ''image/png''\<rparr>]"
        by (simp add: sample_corpus_def)
      then show ?thesis using sample_500_stays by (simp add: redacted_corpus_def same_visible_attachment_def)
    qed
    moreover have "filter (\<lambda>k. attachment_may_leave sample_corpus (ck_attachment k)) (chunks redacted_corpus)
        = filter (\<lambda>k. attachment_may_leave sample_corpus (ck_attachment k)) (chunks sample_corpus)"
    proof -
      have "chunks sample_corpus = [\<lparr>ck_key = 7, ck_attachment = 501, ck_kind = ''ocr'', ck_seq = 0, ck_text = ''meow''\<rparr>,
                \<lparr>ck_key = 8, ck_attachment = 500, ck_kind = ''pdf_text'', ck_seq = 0, ck_text = ''secret''\<rparr>]"
        by (simp add: sample_corpus_def)
      then show ?thesis using sample_500_stays by (simp add: redacted_corpus_def)
    qed
    ultimately show ?thesis by (simp add: same_visible_def) (simp add: redacted_corpus_def)
  qed
  ultimately show ?thesis
    using withheld_content_has_no_influence [OF sample_corpus_wf, of redacted_corpus sample_config] by blast
qed

section \<open>Reconciling converges\<close>

text \<open>What the store holds once every item of a plan is done.\<close>

definition after_plan ::
  "(string \<times> string option) list \<Rightarrow> planned_upsert list \<Rightarrow> planned_delete list \<Rightarrow> (string \<times> string option) list" where
  "after_plan current upserts deletes =
     filter (\<lambda>e. fst e \<notin> del_document ` set deletes)
       (foldl (\<lambda>cur u. AList.update (u_document u) (Some (u_sha u)) cur) current upserts)"

definition desired_state :: "desired \<Rightarrow> string \<Rightarrow> string option option" where
  "desired_state desired d = map_option (\<lambda>x. Some (u_sha (fst x))) (map_of desired d)"

lemma map_of_upserted:
  assumes "\<forall>u \<in> set us. Some (Some (u_sha u)) = f (u_document u)"
  shows "map_of (foldl (\<lambda>cur u. AList.update (u_document u) (Some (u_sha u)) cur) current us) d
     = (if d \<in> u_document ` set us then f d else map_of current d)"
  using assms
proof (induction us rule: rev_induct)
  case (snoc u us)
  then show ?case by (auto simp: update_conv')
qed simp

lemma map_of_filter_key: "map_of (filter (\<lambda>e. P (fst e)) xs) d = (if P d then map_of xs d else None)"
  by (induction xs) auto

text \<open>The desired documents as the reconcile orders them.\<close>

definition ordered_desired :: "desired \<Rightarrow> (string \<times> planned_upsert) list" where
  "ordered_desired desired = map (\<lambda>d. (d, fst (the (map_of desired d)))) (sort (map fst desired))"

lemma reconcile_eq:
  "reconcile_desired_against_pushed desired current =
     (map snd (filter (\<lambda>(d, u). \<not> is_unchanged current d u) (ordered_desired desired)),
      map (\<lambda>d. \<lparr>del_document = d, del_object = gcs_object_for d\<rparr>)
        (filter (\<lambda>d. map_of desired d = None) (sort (map fst current))),
      length (filter (\<lambda>(d, u). is_unchanged current d u) (ordered_desired desired)))"
  by (simp add: reconcile_desired_against_pushed_def ordered_desired_def Let_def)

lemma in_ordered_desired:
  "(d, u) \<in> set (ordered_desired desired) \<longleftrightarrow> (\<exists>x. map_of desired d = Some x \<and> u = fst x)"
proof -
  have "d \<in> fst ` set desired \<longleftrightarrow> (\<exists>x. map_of desired d = Some x)"
    using map_of_eq_None_iff [of desired d] by (auto simp: image_iff)
  then show ?thesis by (auto simp: ordered_desired_def)
qed

lemma reconcile_upserts:
  assumes "\<forall>(d, u, body) \<in> set desired. u_document u = d"
    and "reconcile_desired_against_pushed desired current = (ups, dels, n)"
  shows "u \<in> set ups \<longleftrightarrow> (\<exists>body. map_of desired (u_document u) = Some (u, body)) \<and> \<not> is_unchanged current (u_document u) u"
proof -
  have key: "u_document (fst x) = d" if "map_of desired d = Some x" for d x
    using assms(1) map_of_SomeD [OF that] by (cases x) auto
  have "u \<in> set ups \<longleftrightarrow> (\<exists>d. (d, u) \<in> set (ordered_desired desired) \<and> \<not> is_unchanged current d u)"
    using assms(2) by (force simp: reconcile_eq)
  then show ?thesis using key by (fastforce simp: in_ordered_desired)
qed

lemma reconcile_deletes:
  assumes "reconcile_desired_against_pushed desired current = (ups, dels, n)"
  shows "del_document ` set dels = {d \<in> fst ` set current. map_of desired d = None}"
proof -
  have "map del_document dels = filter (\<lambda>d. map_of desired d = None) (sort (map fst current))"
    using assms by (auto simp: reconcile_eq comp_def)
  from arg_cong [OF this, of set] show ?thesis by auto
qed

lemma after_plan_state:
  assumes "\<forall>(d, u, body) \<in> set desired. u_document u = d"
    and "reconcile_desired_against_pushed desired current = (ups, dels, n)"
  shows "map_of (after_plan current ups dels) = desired_state desired"
proof
  fix d
  let ?new = "foldl (\<lambda>cur u. AList.update (u_document u) (Some (u_sha u)) cur) current ups"
  note ups = reconcile_upserts [OF assms]
  have f: "map_of ?new d = (if d \<in> u_document ` set ups then desired_state desired d else map_of current d)"
    by (rule map_of_upserted) (auto simp: ups desired_state_def)
  have dels: "d \<in> del_document ` set dels \<longleftrightarrow> d \<in> fst ` set current \<and> map_of desired d = None"
    using reconcile_deletes [OF assms(2)] by auto
  have split: "map_of (after_plan current ups dels) d = (if d \<in> del_document ` set dels then None else map_of ?new d)"
    unfolding after_plan_def by (subst map_of_filter_key) simp
  show "map_of (after_plan current ups dels) d = desired_state desired d"
  proof (cases "map_of desired d")
    case None
    then have "d \<notin> u_document ` set ups" by (auto simp: ups)
    moreover have "map_of current d = None" if "d \<notin> del_document ` set dels"
      using that None dels by (simp add: map_of_eq_None_iff)
    ultimately show ?thesis using None f split by (auto simp: desired_state_def)
  next
    case (Some x)
    obtain u body where x: "x = (u, body)" by fastforce
    have u: "u_document u = d" using assms(1) map_of_SomeD [OF Some] x by auto
    show ?thesis
    proof (cases "is_unchanged current d u")
      case True
      then have "map_of current d = Some (Some (u_sha u))"
        by (cases "map_of current d") (simp_all add: is_unchanged_def)
      moreover have "d \<notin> u_document ` set ups" using True Some x u ups by auto
      ultimately show ?thesis using Some x f split dels by (simp add: desired_state_def)
    next
      case False
      then have "d \<in> u_document ` set ups" using Some x u ups [of u] by force
      then show ?thesis using Some f split dels by simp
    qed
  qed
qed

lemma reconcile_converges_len:
  assumes "reconcile_desired_against_pushed desired current = (ups, dels, n)"
  shows "length ups + n = length desired"
proof -
  have "length (ordered_desired desired) = length desired" by (simp add: ordered_desired_def)
  then show ?thesis
    using assms sum_length_filter_compl [of "\<lambda>(d, u). is_unchanged current d u" "ordered_desired desired"]
    by (auto simp: reconcile_eq case_prod_beta')
qed

lemma reconcile_matching:
  assumes "map_of current = desired_state desired"
  shows "reconcile_desired_against_pushed desired current = ([], [], length desired)"
proof -
  have same: "is_unchanged current d u" if "(d, u) \<in> set (ordered_desired desired)" for d u
    using that by (auto simp: in_ordered_desired is_unchanged_def assms desired_state_def)
  have none: "filter (\<lambda>(d, u). \<not> is_unchanged current d u) (ordered_desired desired) = []"
    using same by (auto simp: filter_empty_conv)
  have all: "filter (\<lambda>(d, u). is_unchanged current d u) (ordered_desired desired) = ordered_desired desired"
    using same by (auto simp: filter_id_conv)
  have "map_of desired d \<noteq> None" if "d \<in> fst ` set current" for d
  proof -
    have "map_of current d \<noteq> None" using that by (simp add: map_of_eq_None_iff)
    then show ?thesis by (simp add: assms desired_state_def)
  qed
  then have "filter (\<lambda>d. map_of desired d = None) (sort (map fst current)) = []"
    by (auto simp: filter_empty_conv)
  then show ?thesis using none all by (simp add: reconcile_eq ordered_desired_def)
qed

text \<open>
  A plan carried out is a fixed point: once its upserts are stored and its deletes are gone,
  the store holds exactly the desired documents with their hashes, and reconciling again finds
  nothing to do; every desired document was either upserted or counted as unchanged, and a
  delete is never of a desired document.
\<close>

theorem reconcile_converges:
  assumes "distinct (map fst desired)" and "\<forall>(d, u, body) \<in> set desired. u_document u = d"
    and "reconcile_desired_against_pushed desired current = (ups, dels, n)"
  shows "map_of (after_plan current ups dels) = desired_state desired
     \<and> reconcile_desired_against_pushed desired (after_plan current ups dels) = ([], [], length desired)
     \<and> length ups + n = length desired
     \<and> (\<forall>x \<in> set dels. map_of desired (del_document x) = None)"
  using after_plan_state [OF assms(2,3)] reconcile_matching reconcile_converges_len [OF assms(3)]
    reconcile_deletes [OF assms(3)] by blast

theorem reconcile_converges_witness:
  "let old = [(''gone'', Some ''h'')]; (ups, dels, n) = reconcile_desired_against_pushed sample_desired old
   in length ups = 2 \<and> map del_document dels = [''gone'']
      \<and> reconcile_desired_against_pushed sample_desired (after_plan old ups dels) = ([], [], 2)"
proof -
  let ?old = "[(''gone'', Some ''h'')]"
  obtain ups dels n where r: "reconcile_desired_against_pushed sample_desired ?old = (ups, dels, n)" by (metis prod_cases3)
  have "\<forall>(d, u, body) \<in> set sample_desired. u_document u = d"
    using sample_desired_facts(5) by (simp add: list_all_iff)
  from reconcile_converges [OF sample_desired_facts(4) this r] show ?thesis
    using sample_desired_facts(1,6) r by (simp add: Let_def)
qed

text \<open>
  The dry run is the plan: \<open>preview_plan\<close> fails exactly when building the documents does, and
  otherwise gives the counts, and the documents to delete, of the plan a run of either mode then
  stages; staging adds the run as planned with one staged item per document and no other change.
\<close>

theorem preview_is_the_plan:
  assumes "mode = ''reconcile'' \<or> mode = ''purge''" and "map_of area run = None"
  shows "case plan_export cfg c run mode x area of
      Inl e \<Rightarrow> preview_plan cfg c (documents x) = Inl e
    | Inr (r, x', area') \<Rightarrow>
        (\<exists>p row its dir. preview_plan cfg c (documents x) = Inr p
          \<and> p_upsert_count p = result_upserts r \<and> p_delete_count p = result_deletes r
          \<and> p_unchanged_count p = result_unchanged r
          \<and> x' = x\<lparr>runs := runs x @ [row], items := items x @ its\<rparr> \<and> area' = AList.update run dir area
          \<and> run_status row = ''planned'' \<and> run_approved_sha row = None
          \<and> run_manifest_sha row = sha cfg (the (staged_manifest dir)) \<and> run_manifest_sha row = result_manifest_sha r
          \<and> length its = p_upsert_count p + p_delete_count p
          \<and> map item_document (filter (\<lambda>i. item_action i = ''delete'') its) = p_delete_ids p
          \<and> (\<forall>i \<in> set its. item_run i = run \<and> item_state i = ''staged''))"
proof (cases "build_desired_documents cfg c")
  case (Inl e)
  then show ?thesis using assms by (auto simp: plan_export_def preview_plan_def)
next
  case (Inr desired)
  obtain ups dels n where r: "reconcile_desired_against_pushed desired (current_pushed_state (documents x)) = (ups, dels, n)"
    by (metis prod_cases3)
  let ?m = "plan_manifest cfg c mode ups dels"
  let ?its = "plan_items run ?m"
  have parts: "m_upserts ?m = ups" "m_deletes ?m = dels" by (simp_all add: plan_manifest_def)
  have plan: "\<exists>reasons. plan_export cfg c run mode x area =
      Inr (\<lparr>result_run = run, result_manifest_sha = run_manifest_sha (plan_row cfg c run ?m),
            result_upserts = length ups, result_deletes = length dels, result_unchanged = n, result_reasons = reasons\<rparr>,
           x\<lparr>runs := runs x @ [plan_row cfg c run ?m], items := items x @ ?its\<rparr>,
           AList.update run (plan_dir cfg desired ?m) area)"
    using assms Inr r by (auto simp: plan_export_def Let_def)
  have preview: "\<exists>ids. preview_plan cfg c (documents x) = Inr \<lparr>p_upsert_count = length ups,
      p_delete_count = length dels, p_unchanged_count = n, p_chat_ids = ids, p_delete_ids = map del_document dels\<rparr>"
    using Inr r by (simp add: preview_plan_def)
  have its: "map item_document (filter (\<lambda>i. item_action i = ''delete'') ?its) = map del_document dels"
    "\<forall>i \<in> set ?its. item_run i = run \<and> item_state i = ''staged''" "length ?its = length ups + length dels"
    by (simp_all add: plan_items_def parts filter_map comp_def upsert_item_def delete_item_def ball_Un)
  have row: "run_status (plan_row cfg c run ?m) = ''planned''" "run_approved_sha (plan_row cfg c run ?m) = None"
    "run_manifest_sha (plan_row cfg c run ?m) = sha cfg (the (staged_manifest (plan_dir cfg desired ?m)))"
    by (simp_all add: plan_row_def plan_dir_def Let_def)
  let ?row = "plan_row cfg c run ?m" and ?dir = "plan_dir cfg desired ?m"
  from plan obtain reasons where plan: "plan_export cfg c run mode x area =
      Inr (\<lparr>result_run = run, result_manifest_sha = run_manifest_sha ?row, result_upserts = length ups,
            result_deletes = length dels, result_unchanged = n, result_reasons = reasons\<rparr>,
           x\<lparr>runs := runs x @ [?row], items := items x @ ?its\<rparr>, AList.update run ?dir area)" ..
  from preview obtain ids where preview: "preview_plan cfg c (documents x) = Inr \<lparr>p_upsert_count = length ups,
      p_delete_count = length dels, p_unchanged_count = n, p_chat_ids = ids, p_delete_ids = map del_document dels\<rparr>" ..
  show ?thesis unfolding plan preview sum.case prod.case
    by (rule exI, rule exI [of _ ?row], rule exI [of _ ?its], rule exI [of _ ?dir], rule conjI [OF refl])
      (use its row in simp)
qed

theorem preview_is_the_plan_witness:
  "p_unchanged_count (projr (preview_plan sample_config sample_corpus [])) \<le> 2
   \<and> length (p_delete_ids (projr (preview_plan sample_config sample_corpus []))) = 0"
proof -
  let ?x = "\<lparr>runs = [], items = [], documents = []\<rparr>"
  obtain ups dels n where rec: "reconcile_desired_against_pushed sample_desired [] = (ups, dels, n)" by (metis prod_cases3)
  obtain r x' a' where r: "plan_export sample_config sample_corpus 1 ''reconcile'' ?x [] = Inr (r, x', a')"
    and counts: "result_deletes r = length dels" "result_unchanged r = n"
    using sample_built rec by (auto simp: plan_export_def Let_def current_pushed_state_def)
  have empty: "map_of [] (1 :: int) = (None :: staging option)" by simp
  have small: "dels = []" "n \<le> 2" using rec sample_desired_facts(1)
    by (auto simp: reconcile_eq ordered_desired_def intro: order_trans [OF length_filter_le])
  from preview_is_the_plan [OF disjI1 [OF refl] empty, of sample_config sample_corpus ?x,
      unfolded r sum.case prod.case export_db.select_convs]
  obtain p where p: "preview_plan sample_config sample_corpus [] = Inr p" "p_delete_count p = result_deletes r"
    "p_unchanged_count p = result_unchanged r" by blast
  moreover have "length (p_delete_ids p) = length dels"
    using p(1) sample_built rec by (auto simp: preview_plan_def current_pushed_state_def reconcile_eq)
  ultimately show ?thesis using counts small by simp
qed

end
