(* ===== verification/Export_Push.thy ===== *)
theory Export_Push
  imports Export_Plan
begin

text \<open>
  Approving and pushing a planned run (\<open>src/imsg/export/review.py\<close>, \<open>push.py\<close>) through a
  transport (\<open>transport.py\<close>). The transport is a record of its four calls on a state of its own;
  whether a staged path stays inside its directory after links are resolved is the argument
  \<open>inside\<close>. The push writes without a surrounding transaction, so its statements are listed one
  by one. A manifest entry of another shape than \<open>plan\<close> writes is refused when the file is parsed,
  where the code raises at the entry's first use.
\<close>

section \<open>Approval\<close>

datatype export_error =
  Run_Missing int | Not_Pushable string | Not_Planned string | Config_Drift | Allowlist_Drift
| Manifest_Missing | Manifest_Malformed | Manifest_Drift | Approval_Missing "approval_reason list" | Approval_Drift
| Path_Escapes string | File_Drift string | Segment_Gone int | Chat_Closed int | Chat_Moved int | Resegmented int
| Attachments_Changed int | Chunk_Gone string | Chunk_Changed string | Attachment_Closed string

definition load_manifest :: "export_config \<Rightarrow> (int \<times> staging) list \<Rightarrow> int \<Rightarrow> export_error + (manifest \<times> string \<times> staging)" where
  "load_manifest cfg area run =
     (case map_of area run of
        None \<Rightarrow> Inl Manifest_Missing
      | Some dir \<Rightarrow>
          (case staged_manifest dir of
             None \<Rightarrow> Inl Manifest_Missing
           | Some body \<Rightarrow>
               (case Option.bind (json_loads (float_value cfg) body) manifest_of_json of
                  None \<Rightarrow> Inl Manifest_Malformed
                | Some m \<Rightarrow> Inr (m, sha cfg body, dir))))"

definition find_run :: "export_db \<Rightarrow> int \<Rightarrow> run_row option" where
  "find_run x run = find (\<lambda>r. run_id r = run) (runs x)"

definition update_run :: "int \<Rightarrow> (run_row \<Rightarrow> run_row) \<Rightarrow> export_db \<Rightarrow> export_db" where
  "update_run run f x = x\<lparr>runs := map (\<lambda>r. if run_id r = run then f r else r) (runs x)\<rparr>"

text \<open>A staged file must be inside and still have its hash.\<close>

definition file_error :: "export_config \<Rightarrow> (string \<Rightarrow> bool) \<Rightarrow> staging \<Rightarrow> planned_upsert \<Rightarrow> export_error option" where
  "file_error cfg inside dir u =
     (if \<not> inside (u_relpath u) then Some (Path_Escapes (u_relpath u))
      else if map_option (sha cfg) (map_of (staged_files dir) (u_relpath u)) \<noteq> Some (u_sha u)
      then Some (File_Drift (u_relpath u)) else None)"

fun first_error :: "('a \<Rightarrow> 'e option) \<Rightarrow> 'a list \<Rightarrow> 'e option" where
  "first_error f [] = None"
| "first_error f (a # as) = (case f a of Some e \<Rightarrow> Some e | None \<Rightarrow> first_error f as)"

definition approve_run ::
  "export_config \<Rightarrow> (string \<Rightarrow> bool) \<Rightarrow> int \<Rightarrow> export_db \<Rightarrow> (int \<times> staging) list \<Rightarrow> export_error + export_db" where
  "approve_run cfg inside run x area =
     (case find_run x run of
        None \<Rightarrow> Inl (Run_Missing run)
      | Some r \<Rightarrow>
          if run_status r \<noteq> ''planned'' then Inl (Not_Planned (run_status r))
          else case load_manifest cfg area run of
            Inl e \<Rightarrow> Inl e
          | Inr (m, sha_disk, dir) \<Rightarrow>
              if sha_disk \<noteq> run_manifest_sha r then Inl Manifest_Drift
              else (case first_error (file_error cfg inside dir) (m_upserts m) of
                      Some e \<Rightarrow> Inl e
                    | None \<Rightarrow> Inr (update_run run (\<lambda>r'. r'\<lparr>run_approved_sha := Some (run_manifest_sha r)\<rparr>) x)))"

definition allowlist_matches_snapshot :: "export_config \<Rightarrow> json \<Rightarrow> json \<Rightarrow> bool" where
  "allowlist_matches_snapshot cfg current stored \<longleftrightarrow>
     canonical_json (float_repr cfg) current = canonical_json (float_repr cfg) stored"

section \<open>Eligibility re-derived\<close>

definition guid_rows :: "corpus \<Rightarrow> int list \<Rightarrow> (int \<times> int \<times> string) list" where
  "guid_rows c segment_ids =
     map (\<lambda>(((s, a), m), row). (s, a, at_guid row))
       (inner_join (\<lambda>((s, a), m) row. at_key row = a)
         (linked_attachments (base c) segment_ids) (attachments c))"

text \<open>\<open>map_of elig pair = Some True\<close> is \<open>attachment_eligibility.get(pair, False)\<close>.\<close>

definition eligible_guids_now :: "corpus \<Rightarrow> int list \<Rightarrow> ((int \<times> int) \<times> bool) list \<Rightarrow> int \<Rightarrow> string list" where
  "eligible_guids_now c segment_ids elig s =
     map (\<lambda>(_, _, guid). guid)
       (filter (\<lambda>(s', a, _). s' = s \<and> map_of elig (s', a) = Some True) (guid_rows c segment_ids))"

definition chunk_now :: "corpus \<Rightarrow> int option \<Rightarrow> (int \<times> string \<times> string \<times> int) option" where
  "chunk_now c chunk_id =
     (case chunk_id of
        None \<Rightarrow> None
      | Some k \<Rightarrow>
          map_option (\<lambda>(row, a). (ck_attachment row, at_guid a, ck_kind row, ck_seq row))
            (find (\<lambda>(row, a). ck_key row = k)
              (inner_join (\<lambda>row a. at_key a = ck_attachment row) (chunks c) (attachments c))))"

definition upsert_drift ::
  "export_config \<Rightarrow> corpus \<Rightarrow> int list \<Rightarrow> ((int \<times> int) \<times> bool) list \<Rightarrow> int list \<Rightarrow> planned_upsert \<Rightarrow> export_error option" where
  "upsert_drift cfg c eligible_now elig segment_ids u =
     (case find (\<lambda>g. sg_key g = u_segment u) (segments c) of
        None \<Rightarrow> Some (Segment_Gone (u_segment u))
      | Some g \<Rightarrow>
          if sg_chat g \<notin> set eligible_now then Some (Chat_Closed (sg_chat g))
          else if u_chat u \<noteq> sg_chat g then Some (Chat_Moved (u_chat u))
          else if u_kind u = ''segment'' then
            (if segment_document_id (sha cfg) (sg_stable_key g) \<noteq> u_document u then Some (Resegmented (sg_key g))
             else if set (u_guids u) \<noteq> set (eligible_guids_now c segment_ids elig (u_segment u))
             then Some (Attachments_Changed (sg_key g)) else None)
          else
            (case chunk_now c (u_chunk u) of
               None \<Rightarrow> Some (Chunk_Gone (u_document u))
             | Some (a, guid, kind, seq) \<Rightarrow>
                 if attachment_chunk_document_id (sha cfg) (sg_stable_key g) guid kind seq \<noteq> u_document u
                 then Some (Chunk_Changed (u_document u))
                 else if map_of elig (u_segment u, a) \<noteq> Some True then Some (Attachment_Closed guid)
                 else None))"

definition verify_eligibility_unchanged ::
  "export_config \<Rightarrow> corpus \<Rightarrow> planned_upsert list \<Rightarrow> export_error option" where
  "verify_eligibility_unchanged cfg c upserts =
     (if upserts = [] then None
      else
        (let segment_ids = sort (remdups (map u_segment upserts));
             elig = compute_attachment_eligibility (base c) segment_ids
         in first_error (upsert_drift cfg c (eligible_chat_ids (base c) None) elig segment_ids) upserts))"

section \<open>The checks before a push\<close>

definition PUSHABLE_STATES :: "string list" where "PUSHABLE_STATES = [''planned'', ''pushing'', ''failed'']"

record verified_plan =
  v_mode :: string
  v_dir :: staging
  v_manifest :: manifest
  v_sha :: string
  v_reasons :: "approval_reason list"

definition verify_pushable ::
  "export_config \<Rightarrow> corpus \<Rightarrow> (string \<Rightarrow> bool) \<Rightarrow> int \<Rightarrow> export_db \<Rightarrow> (int \<times> staging) list
     \<Rightarrow> export_error + verified_plan" where
  "verify_pushable cfg c inside run x area =
     (case find_run x run of
        None \<Rightarrow> Inl (Run_Missing run)
      | Some r \<Rightarrow>
          if run_status r \<notin> set PUSHABLE_STATES then Inl (Not_Pushable (run_status r))
          else if export_config_sha256 cfg \<noteq> run_config_sha r then Inl Config_Drift
          else if \<not> allowlist_matches_snapshot cfg (snapshot_allowlist c) (run_snapshot r) then Inl Allowlist_Drift
          else case load_manifest cfg area run of
            Inl e \<Rightarrow> Inl e
          | Inr (m, sha_disk, dir) \<Rightarrow>
              if sha_disk \<noteq> run_manifest_sha r then Inl Manifest_Drift
              else
                (let reasons = compute_approval_requirements c (runs x) (documents x) m (run_mode r)
                 in if reasons \<noteq> [] \<and> run_approved_sha r = None then Inl (Approval_Missing reasons)
                    else if reasons \<noteq> [] \<and> run_approved_sha r \<noteq> Some sha_disk then Inl Approval_Drift
                    else case first_error (file_error cfg inside dir) (m_upserts m) of
                      Some e \<Rightarrow> Inl e
                    | None \<Rightarrow>
                        (case verify_eligibility_unchanged cfg c (m_upserts m) of
                           Some e \<Rightarrow> Inl e
                         | None \<Rightarrow> Inr \<lparr>v_mode = run_mode r, v_dir = dir, v_manifest = m, v_sha = sha_disk,
                                        v_reasons = reasons\<rparr>)))"

record push_preflight =
  pf_mode :: string
  pf_manifest_sha :: string
  pf_upserts :: nat
  pf_deletes :: nat
  pf_done :: nat
  pf_reasons :: "approval_reason list"

definition done_items :: "export_db \<Rightarrow> int \<Rightarrow> item_row list" where
  "done_items x run = filter (\<lambda>i. item_run i = run \<and> item_state i \<in> {''pushed'', ''deleted''}) (items x)"

definition verify_push_preconditions ::
  "export_config \<Rightarrow> corpus \<Rightarrow> (string \<Rightarrow> bool) \<Rightarrow> int \<Rightarrow> export_db \<Rightarrow> (int \<times> staging) list
     \<Rightarrow> export_error + push_preflight" where
  "verify_push_preconditions cfg c inside run x area =
     map_sum id (\<lambda>v. \<lparr>pf_mode = v_mode v, pf_manifest_sha = v_sha v, pf_upserts = length (m_upserts (v_manifest v)),
                      pf_deletes = length (m_deletes (v_manifest v)), pf_done = length (done_items x run),
                      pf_reasons = v_reasons v\<rparr>)
       (verify_pushable cfg c inside run x area)"

section \<open>The transport\<close>

text \<open>
  \<open>None\<close>, and \<open>False\<close> for a delete, is a \<open>TransportError\<close>. An import is given the id, the object and
  the metadata line of each document.
\<close>

record 's transport =
  t_upload :: "string \<Rightarrow> string \<Rightarrow> 's \<Rightarrow> string option \<times> 's"
  t_import :: "(string \<times> string \<times> string) list \<Rightarrow> 's \<Rightarrow> string list option \<times> 's"
  t_delete :: "string \<Rightarrow> string \<Rightarrow> 's \<Rightarrow> bool \<times> 's"
  t_absent :: "string \<Rightarrow> string \<Rightarrow> 's \<Rightarrow> bool \<times> 's"

section \<open>The push\<close>

datatype db_write =
  Record_Item string string | Upsert_Document planned_upsert string | Purge_Document string | Set_Status string

definition upsert_document_row :: "planned_upsert \<Rightarrow> string \<Rightarrow> document_row list \<Rightarrow> document_row list" where
  "upsert_document_row u uri docs =
     (let row = \<lparr>doc_id = u_document u, doc_kind = u_kind u, doc_segment = Some (u_segment u),
                 doc_chunk = u_chunk u, doc_uri = Some uri, doc_sha = Some (u_sha u), doc_state = ''pushed''\<rparr>
      in if \<exists>d \<in> set docs. doc_id d = u_document u
         then map (\<lambda>d. if doc_id d = u_document u then row else d) docs
         else docs @ [row])"

fun apply_write :: "int \<Rightarrow> export_db \<Rightarrow> db_write \<Rightarrow> export_db" where
  "apply_write run x (Record_Item d st) =
     x\<lparr>items := map (\<lambda>i. if item_run i = run \<and> item_document i = d then i\<lparr>item_state := st\<rparr> else i) (items x)\<rparr>"
| "apply_write run x (Upsert_Document u uri) = x\<lparr>documents := upsert_document_row u uri (documents x)\<rparr>"
| "apply_write run x (Purge_Document d) =
     x\<lparr>documents := map (\<lambda>r. if doc_id r = d then r\<lparr>doc_state := ''purged''\<rparr> else r) (documents x)\<rparr>"
| "apply_write run x (Set_Status st) = update_run run (\<lambda>r. r\<lparr>run_status := st\<rparr>) x"

definition item_states :: "export_db \<Rightarrow> int \<Rightarrow> string \<Rightarrow> string option" where
  "item_states x run d =
     map_option item_state (find (\<lambda>i. item_run i = run \<and> item_document i = d) (items x))"

text \<open>Uploads: what goes on to the import, the failures written, and how many were skipped.\<close>

fun upload_loop ::
  "'s transport \<Rightarrow> staging \<Rightarrow> (string \<Rightarrow> string option) \<Rightarrow> planned_upsert list \<Rightarrow> 's
     \<Rightarrow> (planned_upsert \<times> string) list \<times> db_write list \<times> nat \<times> 's" where
  "upload_loop T dir states [] s = ([], [], 0, s)"
| "upload_loop T dir states (u # us) s =
     (if states (u_document u) = Some ''pushed''
      then (let (ok, ws, skipped, s') = upload_loop T dir states us s in (ok, ws, Suc skipped, s'))
      else case t_upload T (u_object u) (the (map_of (staged_files dir) (u_relpath u))) s of
        (None, s1) \<Rightarrow>
          (let (ok, ws, skipped, s') = upload_loop T dir states us s1
           in (ok, Record_Item (u_document u) ''failed'' # ws, skipped, s'))
      | (Some uri, s1) \<Rightarrow>
          (let (ok, ws, skipped, s') = upload_loop T dir states us s1 in ((u, uri) # ok, ws, skipped, s')))"

definition import_phase ::
  "'s transport \<Rightarrow> export_config \<Rightarrow> (planned_upsert \<times> string) list \<Rightarrow> 's \<Rightarrow> db_write list \<times> 's" where
  "import_phase T cfg ok s =
     (if ok = [] then ([], s)
      else
        (let (res, s') = t_import T (map (\<lambda>(u, _). (u_document u, u_object u,
                                       metadata_of (float_repr cfg) (gcs_bucket cfg) u)) ok) s;
             failures = (case res of None \<Rightarrow> map (\<lambda>(u, _). u_document u) ok | Some ds \<Rightarrow> ds)
         in (concat (map (\<lambda>(u, uri). if u_document u \<in> set failures then [Record_Item (u_document u) ''failed'']
                                     else [Record_Item (u_document u) ''pushed'', Upsert_Document u uri]) ok),
             s')))"

fun delete_loop ::
  "'s transport \<Rightarrow> (string \<Rightarrow> string option) \<Rightarrow> planned_delete list \<Rightarrow> 's \<Rightarrow> db_write list \<times> nat \<times> 's" where
  "delete_loop T states [] s = ([], 0, s)"
| "delete_loop T states (x # xs) s =
     (if states (del_document x) = Some ''deleted''
      then (let (ws, skipped, s') = delete_loop T states xs s in (ws, Suc skipped, s'))
      else case t_delete T (del_document x) (del_object x) s of
        (False, s1) \<Rightarrow>
          (let (ws, skipped, s') = delete_loop T states xs s1
           in (Record_Item (del_document x) ''failed'' # ws, skipped, s'))
      | (True, s1) \<Rightarrow>
          (case t_absent T (del_document x) (del_object x) s1 of
             (gone, s2) \<Rightarrow>
               (let (ws, skipped, s') = delete_loop T states xs s2
                in ((if gone then [Record_Item (del_document x) ''deleted'', Purge_Document (del_document x)]
                     else [Record_Item (del_document x) ''failed'']) @ ws, skipped, s'))))"

definition recorded_as :: "string \<Rightarrow> db_write list \<Rightarrow> nat" where
  "recorded_as st ws = length (filter (\<lambda>w. case w of Record_Item _ st' \<Rightarrow> st' = st | _ \<Rightarrow> False) ws)"

record push_result =
  push_status :: string
  push_pushed :: nat
  push_deleted :: nat
  push_failed :: nat
  push_skipped :: nat

text \<open>The statements of a verified push in order, how many items it skipped, and the transport after it.\<close>

definition push_writes ::
  "'s transport \<Rightarrow> export_config \<Rightarrow> verified_plan \<Rightarrow> int \<Rightarrow> export_db \<Rightarrow> 's \<Rightarrow> db_write list \<times> nat \<times> 's" where
  "push_writes T cfg v run x s =
     (let states = item_states x run;
          (ok, ws1, skipped1, s1) = upload_loop T (v_dir v) states (m_upserts (v_manifest v)) s;
          (ws2, s2) = import_phase T cfg ok s1;
          (ws3, skipped2, s3) = delete_loop T states (m_deletes (v_manifest v)) s2
      in (Set_Status ''pushing'' # ws1 @ ws2 @ ws3, skipped1 + skipped2, s3))"

definition remaining_items :: "export_db \<Rightarrow> int \<Rightarrow> item_row list" where
  "remaining_items x run = filter (\<lambda>i. item_run i = run \<and> item_state i \<notin> {''pushed'', ''deleted''}) (items x)"

definition push_export ::
  "'s transport \<Rightarrow> export_config \<Rightarrow> corpus \<Rightarrow> (string \<Rightarrow> bool) \<Rightarrow> int \<Rightarrow> export_db \<Rightarrow> (int \<times> staging) list \<Rightarrow> 's
     \<Rightarrow> (export_error + push_result) \<times> export_db \<times> 's" where
  "push_export T cfg c inside run x area s =
     (case verify_pushable cfg c inside run x area of
        Inl e \<Rightarrow> (Inl e, x, s)
      | Inr v \<Rightarrow>
          (let (ws, skipped, s') = push_writes T cfg v run x s;
               x1 = foldl (apply_write run) x ws;
               final = (if remaining_items x1 run = [] then ''ok'' else ''failed'')
           in (Inr \<lparr>push_status = final, push_pushed = recorded_as ''pushed'' ws, push_deleted = recorded_as ''deleted'' ws,
                    push_failed = recorded_as ''failed'' ws, push_skipped = skipped\<rparr>,
               apply_write run x1 (Set_Status final), s')))"

section \<open>The transport of the tests\<close>

record fake_store =
  f_objects :: "(string \<times> string) list"
  f_imported :: "(string \<times> string) list"
  fail_upload_ids :: "string list"
  fail_import_ids :: "string list"
  fail_delete_ids :: "string list"
  linger_ids :: "string list"

text \<open>\<open>rsplit('/', 1)[-1].removesuffix('.txt')\<close>.\<close>

definition doc_id_for_object :: "string \<Rightarrow> string" where
  "doc_id_for_object object =
     (let name = rev (takeWhile (\<lambda>ch. ch \<noteq> CHR ''/'') (rev object))
      in if drop (length name - 4) name = ''.txt'' then take (length name - 4) name else name)"

definition fake_upload :: "string \<Rightarrow> string \<Rightarrow> string \<Rightarrow> fake_store \<Rightarrow> string option \<times> fake_store" where
  "fake_upload bucket object data f =
     (if doc_id_for_object object \<in> set (fail_upload_ids f) then (None, f)
      else (Some (''gs://'' @ bucket @ ''/'' @ object), f\<lparr>f_objects := AList.update object data (f_objects f)\<rparr>))"

definition fake_import :: "(string \<times> string \<times> string) list \<Rightarrow> fake_store \<Rightarrow> string list option \<times> fake_store" where
  "fake_import es f =
     (Some (filter (\<lambda>d. d \<in> set (fail_import_ids f)) (map fst es)),
      f\<lparr>f_imported := foldl (\<lambda>im (d, _, line). AList.update d line im) (f_imported f)
                        (filter (\<lambda>(d, _). d \<notin> set (fail_import_ids f)) es)\<rparr>)"

definition fake_delete :: "string \<Rightarrow> string \<Rightarrow> fake_store \<Rightarrow> bool \<times> fake_store" where
  "fake_delete d object f =
     (if d \<in> set (fail_delete_ids f) then (False, f)
      else if d \<in> set (linger_ids f) then (True, f)
      else (True, f\<lparr>f_imported := AList.delete d (f_imported f), f_objects := AList.delete object (f_objects f)\<rparr>))"

definition fake_absent :: "string \<Rightarrow> string \<Rightarrow> fake_store \<Rightarrow> bool \<times> fake_store" where
  "fake_absent d object f = (map_of (f_imported f) d = None \<and> map_of (f_objects f) object = None, f)"

definition fake_transport :: "string \<Rightarrow> fake_store transport" where
  "fake_transport bucket =
     \<lparr>t_upload = fake_upload bucket, t_import = fake_import, t_delete = fake_delete, t_absent = fake_absent\<rparr>"

section \<open>What a verified push has shown\<close>

lemma first_error_None: "first_error f as = None \<longleftrightarrow> (\<forall>a \<in> set as. f a = None)"
  by (induction as) (auto split: option.splits)

lemma load_manifest_Inr:
  "load_manifest cfg area run = Inr (m, h, dir) \<longleftrightarrow>
     (\<exists>body. map_of area run = Some dir \<and> staged_manifest dir = Some body \<and> h = sha cfg body
        \<and> Option.bind (json_loads (float_value cfg) body) manifest_of_json = Some m)"
  by (auto simp: load_manifest_def split: option.splits)

lemma verify_pushable_Inr:
  "verify_pushable cfg c inside run x area = Inr v \<longleftrightarrow>
     (\<exists>r m h dir reasons. find_run x run = Some r \<and> run_status r \<in> set PUSHABLE_STATES
        \<and> export_config_sha256 cfg = run_config_sha r
        \<and> allowlist_matches_snapshot cfg (snapshot_allowlist c) (run_snapshot r)
        \<and> load_manifest cfg area run = Inr (m, h, dir) \<and> h = run_manifest_sha r
        \<and> reasons = compute_approval_requirements c (runs x) (documents x) m (run_mode r)
        \<and> (reasons \<noteq> [] \<longrightarrow> run_approved_sha r = Some h)
        \<and> (\<forall>u \<in> set (m_upserts m). file_error cfg inside dir u = None)
        \<and> verify_eligibility_unchanged cfg c (m_upserts m) = None
        \<and> v = \<lparr>v_mode = run_mode r, v_dir = dir, v_manifest = m, v_sha = h, v_reasons = reasons\<rparr>)"
proof (cases "find_run x run")
  case (Some r)
  show ?thesis
  proof (cases "load_manifest cfg area run")
    case (Inr mhd)
    obtain m h dir where mhd: "mhd = (m, h, dir)" by (metis prod_cases3)
    show ?thesis unfolding verify_pushable_def Some Inr mhd
      by (auto simp: Let_def first_error_None split: option.splits)
        (auto simp: first_error_None dest: first_error_None [THEN iffD2])
  qed (use Some in \<open>auto simp: verify_pushable_def\<close>)
qed (auto simp: verify_pushable_def)

text \<open>Whether an attachment's content may leave with a segment.\<close>

definition content_open :: "corpus \<Rightarrow> segment_row \<Rightarrow> int \<Rightarrow> bool" where
  "content_open c g a \<longleftrightarrow>
     (\<exists>m \<in> set (messages (base c)). links_in c g a m)
     \<and> (\<forall>m \<in> set (messages (base c)). links_in c g a m
          \<longrightarrow> attachment_ok (base c) (message_sender (owner_person_id (base c)) m))"

lemma eligibility_distinct: "distinct (map fst (compute_attachment_eligibility d segs))"
  by (simp add: compute_attachment_eligibility_def Let_def comp_def)

lemma eligible_iff_content_open:
  assumes "wf_db (base c)" and "sg_key g \<in> set segs"
  shows "map_of (compute_attachment_eligibility (base c) segs) (sg_key g, a) = Some True \<longleftrightarrow> content_open c g a"
proof -
  have "map_of (compute_attachment_eligibility (base c) segs) (sg_key g, a) = Some True
      \<longleftrightarrow> ((sg_key g, a), True) \<in> set (compute_attachment_eligibility (base c) segs)"
    using eligibility_distinct by (rule map_of_eq_Some_iff)
  also have "\<dots> \<longleftrightarrow> content_open c g a"
    unfolding attachment_gate_iff [OF assms(1)] content_open_def links_in_def using assms(2) by blast
  finally show ?thesis .
qed

lemma in_guid_rows:
  "(s, a, guid) \<in> set (guid_rows c segs) \<longleftrightarrow>
     (\<exists>m row. ((s, a), m) \<in> set (linked_attachments (base c) segs) \<and> row \<in> set (attachments c)
        \<and> at_key row = a \<and> at_guid row = guid)"
proof -
  have "(s, a, guid) \<in> set (guid_rows c segs) \<longleftrightarrow>
      (\<exists>m row. (((s, a), m), row) \<in> set (inner_join (\<lambda>((s, a), m) row. at_key row = a)
         (linked_attachments (base c) segs) (attachments c)) \<and> at_guid row = guid)"
    unfolding guid_rows_def by force
  then show ?thesis by (auto simp: set_inner_join)
qed

lemma guids_now:
  assumes "wf_db (base c)" and "sg_key g \<in> set segs"
  shows "set (eligible_guids_now c segs (compute_attachment_eligibility (base c) segs) (sg_key g))
     = {at_guid row |row. row \<in> set (attachments c) \<and> content_open c g (at_key row)}"
proof -
  have "guid \<in> set (eligible_guids_now c segs (compute_attachment_eligibility (base c) segs) (sg_key g))
      \<longleftrightarrow> (\<exists>a. (sg_key g, a, guid) \<in> set (guid_rows c segs) \<and> content_open c g a)" for guid
    unfolding eligible_guids_now_def eligible_iff_content_open [OF assms, symmetric] by force
  also have "\<dots> guid \<longleftrightarrow> (\<exists>row \<in> set (attachments c). at_guid row = guid \<and> content_open c g (at_key row))" for guid
    using assms(2) by (auto simp: in_guid_rows in_linked_attachments content_open_def links_in_def)
  finally show ?thesis by auto
qed

lemma find_Some_in: "find P xs = Some y \<Longrightarrow> y \<in> set xs \<and> P y"
  by (auto simp: find_Some_iff)

lemma chunk_now_Some:
  "chunk_now c ck = Some (a, guid, kind, seq) \<Longrightarrow>
     \<exists>row ar. row \<in> set (chunks c) \<and> ar \<in> set (attachments c) \<and> ck = Some (ck_key row) \<and> at_key ar = ck_attachment row
       \<and> a = ck_attachment row \<and> guid = at_guid ar \<and> kind = ck_kind row \<and> seq = ck_seq row"
  by (auto simp: chunk_now_def set_inner_join split: option.splits dest!: find_Some_in) blast

text \<open>What the last check has established of one document.\<close>

definition still_open :: "export_config \<Rightarrow> corpus \<Rightarrow> planned_upsert \<Rightarrow> segment_row \<Rightarrow> bool" where
  "still_open cfg c u g \<longleftrightarrow>
     sg_key g = u_segment u \<and> sg_chat g = u_chat u \<and> thread_open (base c) (u_chat u)
     \<and> (if u_kind u = ''segment''
        then u_document u = segment_document_id (sha cfg) (sg_stable_key g)
             \<and> set (u_guids u) = {at_guid row |row. row \<in> set (attachments c) \<and> content_open c g (at_key row)}
        else (\<exists>row \<in> set (chunks c). \<exists>ar \<in> set (attachments c).
               u_chunk u = Some (ck_key row) \<and> at_key ar = ck_attachment row \<and> content_open c g (ck_attachment row)
               \<and> u_document u = attachment_chunk_document_id (sha cfg) (sg_stable_key g) (at_guid ar) (ck_kind row) (ck_seq row)))"

lemma verified_still_open:
  assumes "wf_db (base c)" and "verify_eligibility_unchanged cfg c us = None" and "u \<in> set us"
  shows "\<exists>g \<in> set (segments c). still_open cfg c u g"
proof -
  let ?segs = "sort (remdups (map u_segment us))"
  let ?elig = "compute_attachment_eligibility (base c) ?segs"
  have ok: "upsert_drift cfg c (eligible_chat_ids (base c) None) ?elig ?segs u = None"
    using assms(2,3) by (auto simp: verify_eligibility_unchanged_def Let_def first_error_None split: if_splits)
  then obtain g where f: "find (\<lambda>g. sg_key g = u_segment u) (segments c) = Some g"
    by (cases "find (\<lambda>g. sg_key g = u_segment u) (segments c)") (simp_all add: upsert_drift_def)
  then have g: "g \<in> set (segments c)" "sg_key g = u_segment u" by (auto dest: find_Some_in)
  have seg: "sg_key g \<in> set ?segs" using g(2) assms(3) by simp
  note drift = ok [unfolded upsert_drift_def f option.case]
  have chat: "sg_chat g = u_chat u" "thread_open (base c) (u_chat u)"
    using drift by (auto simp: eligible_is_open_thread_iff [OF assms(1)] split: if_splits)
  show ?thesis
  proof (cases "u_kind u = ''segment''")
    case True
    then show ?thesis using drift g chat guids_now [OF assms(1) seg] unfolding still_open_def
      by (intro bexI [of _ g]) (auto split: if_splits)
  next
    case False
    then obtain a guid kind seq where n: "chunk_now c (u_chunk u) = Some (a, guid, kind, seq)"
      using drift by (cases "chunk_now c (u_chunk u)") (auto split: if_splits)
    have "map_of ?elig (sg_key g, a) = Some True"
      "u_document u = attachment_chunk_document_id (sha cfg) (sg_stable_key g) guid kind seq"
      using drift False n g(2) by (auto split: if_splits)
    then show ?thesis
      using False g chat chunk_now_Some [OF n] eligible_iff_content_open [OF assms(1) seg] unfolding still_open_def by auto
  qed
qed

text \<open>
  C20: Nothing leaves unless every pin holds: a push that is refused changes neither the database
  nor the store. One that goes ahead found the run in a pushable state, the configuration and the
  allowlist as planned, the staged manifest with the recorded hash (and, unless the run is a purge
  or needs no approval, with the approved one), every staged file inside the directory with the
  hash of its entry, and, in the database as it is now, every document's thread open, its
  segment and chat unchanged, and its attachments exactly those whose content may leave with it.
\<close>

theorem push_needs_every_pin:
  assumes "wf_corpus c"
  shows "case push_export T cfg c inside run x area s of
      (Inl e, x', s') \<Rightarrow> x' = x \<and> s' = s
    | (Inr p, x', s') \<Rightarrow>
        (\<exists>r dir body m. find_run x run = Some r \<and> run_status r \<in> {''planned'', ''pushing'', ''failed''}
          \<and> export_config_sha256 cfg = run_config_sha r
          \<and> canonical_json (float_repr cfg) (snapshot_allowlist c) = canonical_json (float_repr cfg) (run_snapshot r)
          \<and> map_of area run = Some dir \<and> staged_manifest dir = Some body \<and> sha cfg body = run_manifest_sha r
          \<and> Option.bind (json_loads (float_value cfg) body) manifest_of_json = Some m
          \<and> (run_mode r = ''purge'' \<or> compute_approval_requirements c (runs x) (documents x) m (run_mode r) = []
             \<or> run_approved_sha r = Some (sha cfg body))
          \<and> (\<forall>u \<in> set (m_upserts m). inside (u_relpath u)
               \<and> (\<exists>data. map_of (staged_files dir) (u_relpath u) = Some data \<and> sha cfg data = u_sha u)
               \<and> (\<exists>g \<in> set (segments c). still_open cfg c u g)))"
proof (cases "verify_pushable cfg c inside run x area")
  case (Inl e)
  then show ?thesis by (simp add: push_export_def)
next
  case (Inr v)
  have db: "wf_db (base c)" using assms by (simp add: wf_corpus_def)
  obtain r m h dir reasons where f: "find_run x run = Some r" "run_status r \<in> set PUSHABLE_STATES"
    "export_config_sha256 cfg = run_config_sha r"
    "allowlist_matches_snapshot cfg (snapshot_allowlist c) (run_snapshot r)"
    "load_manifest cfg area run = Inr (m, h, dir)" "h = run_manifest_sha r"
    "reasons = compute_approval_requirements c (runs x) (documents x) m (run_mode r)"
    "reasons \<noteq> [] \<longrightarrow> run_approved_sha r = Some h"
    "\<forall>u \<in> set (m_upserts m). file_error cfg inside dir u = None"
    "verify_eligibility_unchanged cfg c (m_upserts m) = None"
    using Inr unfolding verify_pushable_Inr by blast
  obtain body where b: "map_of area run = Some dir" "staged_manifest dir = Some body" "h = sha cfg body"
    "Option.bind (json_loads (float_value cfg) body) manifest_of_json = Some m"
    using f(5) unfolding load_manifest_Inr by blast
  have files: "inside (u_relpath u) \<and> (\<exists>data. map_of (staged_files dir) (u_relpath u) = Some data \<and> sha cfg data = u_sha u)"
    if "u \<in> set (m_upserts m)" for u
    using f(9) that by (auto simp: file_error_def split: if_splits)
  have "\<forall>u \<in> set (m_upserts m). \<exists>g \<in> set (segments c). still_open cfg c u g"
    using verified_still_open [OF db f(10)] by blast
  moreover have "run_status r \<in> {''planned'', ''pushing'', ''failed''}" using f(2) by (simp add: PUSHABLE_STATES_def)
  moreover have "canonical_json (float_repr cfg) (snapshot_allowlist c) = canonical_json (float_repr cfg) (run_snapshot r)"
    using f(4) by (simp only: allowlist_matches_snapshot_def)
  moreover have "sha cfg body = run_manifest_sha r" using b(3) f(6) by simp
  moreover have "run_mode r = ''purge'' \<or> compute_approval_requirements c (runs x) (documents x) m (run_mode r) = []
      \<or> run_approved_sha r = Some (sha cfg body)" using f(7,8) b(3) by blast
  ultimately have "\<exists>r dir body m. find_run x run = Some r \<and> run_status r \<in> {''planned'', ''pushing'', ''failed''}
          \<and> export_config_sha256 cfg = run_config_sha r
          \<and> canonical_json (float_repr cfg) (snapshot_allowlist c) = canonical_json (float_repr cfg) (run_snapshot r)
          \<and> map_of area run = Some dir \<and> staged_manifest dir = Some body \<and> sha cfg body = run_manifest_sha r
          \<and> Option.bind (json_loads (float_value cfg) body) manifest_of_json = Some m
          \<and> (run_mode r = ''purge'' \<or> compute_approval_requirements c (runs x) (documents x) m (run_mode r) = []
             \<or> run_approved_sha r = Some (sha cfg body))
          \<and> (\<forall>u \<in> set (m_upserts m). inside (u_relpath u)
               \<and> (\<exists>data. map_of (staged_files dir) (u_relpath u) = Some data \<and> sha cfg data = u_sha u)
               \<and> (\<exists>g \<in> set (segments c). still_open cfg c u g))"
    using f(1,3) b(1,2,4) files by blast
  moreover obtain ws skipped s'' where "push_writes T cfg v run x s = (ws, skipped, s'')" by (metis prod_cases3)
  ultimately show ?thesis using Inr by (simp add: push_export_def Let_def)
qed

section \<open>A fresh plan can be pushed\<close>

lemma distinct_same_key: "distinct (map f xs) \<Longrightarrow> y \<in> set xs \<Longrightarrow> z \<in> set xs \<Longrightarrow> f y = f z \<Longrightarrow> y = z"
  by (auto simp: distinct_map dest: inj_onD)

lemma find_same_key: "distinct (map f xs) \<Longrightarrow> y \<in> set xs \<Longrightarrow> find (\<lambda>z. f z = f y) xs = Some y"
  by (induction xs) (auto simp: image_iff)

text \<open>A message is in one segment, so the planner's lookup by message finds it.\<close>

lemma segment_of_message:
  assumes "wf_corpus c" and "(s, m) \<in> set (message_rows c segs)"
  shows "map_of (rev (map (\<lambda>(s, m). (message_key m, s)) (message_rows c segs))) (message_key m) = Some s"
proof -
  let ?xs = "rev (map (\<lambda>(s, m). (message_key m, s)) (message_rows c segs))"
  have "(message_key m, s) \<in> set ?xs" using assms(2) by force
  then obtain s' where s': "map_of ?xs (message_key m) = Some s'" by (metis map_of_eq_None_iff not_Some_eq image_eqI fst_conv)
  have "distinct (map snd (segment_messages (base c)))" using assms(1) by (simp add: wf_corpus_def)
  moreover have "(s', message_key m) \<in> set (segment_messages (base c))"
    using map_of_SomeD [OF s'] by (auto simp: in_message_rows)
  moreover have "(s, message_key m) \<in> set (segment_messages (base c))" using assms(2) by (simp add: in_message_rows)
  ultimately have "s' = s" using distinct_same_key by fastforce
  then show ?thesis using s' by simp
qed

lemma ex_conj_replace:
  "A = (\<exists>m. P m \<and> Q m) \<Longrightarrow> (\<And>m. P m \<Longrightarrow> Q m = R m) \<Longrightarrow> A = (\<exists>m. P m \<and> R m)"
  by auto

lemma set_of_key:
  "set (map snd (filter (\<lambda>(s, _). s = k) (map (\<lambda>r. (fst r, F (snd r))) rows))) = F ` {m. (k, m) \<in> set rows}"
proof (induction rows)
  case (Cons r rows)
  have "{m. (k, m) \<in> set (r # rows)} = (if fst r = k then insert (snd r) {m. (k, m) \<in> set rows} else {m. (k, m) \<in> set rows})"
    by (cases r) auto
  then show ?case using Cons.IH by simp
qed simp

lemma fetched_segment_row:
  assumes "wf_corpus c" and "fetch_export_segments c (sort (eligible_chat_ids (base c) None)) = Inr (gs, elig)"
    and "g \<in> set gs"
  shows "\<exists>row \<in> set (segments c). x_segment g = sg_key row \<and> x_stable_key g = sg_stable_key row \<and> x_chat g = sg_chat row
     \<and> row \<in> set (segment_rows c (sort (eligible_chat_ids (base c) None)))
     \<and> set (segment_guids g) = {at_guid a |a. a \<in> set (attachments c) \<and> content_open c row (at_key a)}"
proof -
  let ?ids = "sort (eligible_chat_ids (base c) None)"
  let ?srows = "segment_rows c ?ids"
  let ?elig = "compute_attachment_eligibility (base c) (map sg_key ?srows)"
  let ?mrows = "message_rows c (map sg_key ?srows)"
  let ?mids = "map (\<lambda>(_, m). message_key m) ?mrows" and ?segof = "rev (map (\<lambda>(s, m). (message_key m, s)) ?mrows)"
  let ?coll = "fetch_attachment_rows c ?mids ?elig ?segof"
  have db: "wf_db (base c)" using assms(1) by (simp add: wf_corpus_def)
  have "?ids \<noteq> []" using assms(2,3) by (auto simp: fetch_export_segments_def)
  then obtain msgs where msgs: "named_messages c (export_message_of c ?mids ?coll) ?mrows = Inr msgs"
    and gs: "built_segments (chat_infos c ?ids) msgs ?srows = Inr gs"
    using assms(2) by (auto simp: fetch_export_segments_def Let_def map_sum_Inr split: if_splits sum.splits)
  obtain row where row: "row \<in> set ?srows" "g = segment_of_row (chat_infos c ?ids) msgs row"
    using assms(3) gs by (auto simp: built_segments_Inr)
  have in_c: "row \<in> set (segments c)" using row(1) open_segment_rows [OF db] by simp
  have g: "x_segment g = sg_key row" "x_stable_key g = sg_stable_key row" "x_chat g = sg_chat row"
    "x_messages g = map snd (filter (\<lambda>(s, _). s = sg_key row) msgs)"
    using row(2) by (simp_all add: segment_of_row_def case_prod_beta' Let_def)
  have seg: "sg_key row \<in> set (map sg_key ?srows)" using row(1) by simp
  note open_iff = eligible_iff_content_open [OF db seg]
  have pair: "pair_eligible ?elig ?segof (message_key m) a \<longleftrightarrow> content_open c row a"
    if "(sg_key row, m) \<in> set ?mrows" for m a
    using segment_of_message [OF assms(1) that] open_iff [of a]
    by (auto simp: pair_eligible_def split: option.splits)
  have entry: "content_eligible (snd (link_entry c ?elig ?segof p)) = pair_eligible ?elig ?segof (ln_message (fst p)) (at_key (snd p))"
    "x_guid (snd (link_entry c ?elig ?segof p)) = at_guid (snd p)"
    "fst (link_entry c ?elig ?segof p) = (ln_message (fst p), at_key (snd p))" for p
    by (simp_all add: link_entry_def kept_by_enrichments new_attachment_def)
  have atts: "x \<in> set (message_attachments_of ?coll k) \<longleftrightarrow>
      (\<exists>p \<in> set (attachment_links c ?mids). x = snd (link_entry c ?elig ?segof p) \<and> ln_message (fst p) = k)" for x k
    by (auto simp: message_attachments_of_def fetch_attachment_rows_eq [OF assms(1)] entry(3))
  have L1: "guid \<in> set (segment_guids g) \<longleftrightarrow>
      (\<exists>m. (sg_key row, m) \<in> set ?mrows \<and> (\<exists>p \<in> set (attachment_links c ?mids). ln_message (fst p) = message_key m
        \<and> content_open c row (at_key (snd p)) \<and> at_guid (snd p) = guid))" for guid
  proof -
    have "guid \<in> set (segment_guids g) \<longleftrightarrow>
        (\<exists>em \<in> set (x_messages g). \<exists>x \<in> set (x_attachments em). content_eligible x \<and> x_guid x = guid)"
      by (auto simp: segment_guids_def)
    also have "set (x_messages g)
        = (\<lambda>m. export_message_of c ?mids ?coll m (the (row_sender c m))) ` {m. (sg_key row, m) \<in> set ?mrows}"
    proof -
      have "msgs = map (\<lambda>r. (fst r, export_message_of c ?mids ?coll (snd r) (the (row_sender c (snd r))))) ?mrows"
        using msgs by (simp only: named_messages_Inr)
      then show ?thesis unfolding g(4)
        using set_of_key [of "sg_key row" "\<lambda>m. export_message_of c ?mids ?coll m (the (row_sender c m))" ?mrows] by simp
    qed
    finally have "guid \<in> set (segment_guids g) \<longleftrightarrow>
        (\<exists>m. (sg_key row, m) \<in> set ?mrows \<and> (\<exists>x \<in> set (message_attachments_of ?coll (message_key m)).
           content_eligible x \<and> x_guid x = guid))"
      by (simp add: export_message_of_def)
    moreover have "(\<exists>x \<in> set (message_attachments_of ?coll (message_key m)). content_eligible x \<and> x_guid x = guid)
        \<longleftrightarrow> (\<exists>p \<in> set (attachment_links c ?mids). ln_message (fst p) = message_key m
              \<and> content_open c row (at_key (snd p)) \<and> at_guid (snd p) = guid)" if "(sg_key row, m) \<in> set ?mrows" for m
    proof -
      have "content_eligible (snd (link_entry c ?elig ?segof p)) \<longleftrightarrow> content_open c row (at_key (snd p))"
        if "ln_message (fst p) = message_key m" for p
        using pair [OF \<open>(sg_key row, m) \<in> set ?mrows\<close>] that by (simp only: entry(1))
      then show ?thesis unfolding Bex_def atts entry(2) [symmetric] by blast
    qed
    ultimately show ?thesis by (rule ex_conj_replace)
  qed
  have L2: "(\<exists>m. (sg_key row, m) \<in> set ?mrows \<and> (\<exists>p \<in> set (attachment_links c ?mids). ln_message (fst p) = message_key m
        \<and> content_open c row (at_key (snd p)) \<and> at_guid (snd p) = guid))
      \<longleftrightarrow> (\<exists>a \<in> set (attachments c). content_open c row (at_key a) \<and> at_guid a = guid)" (is "?L \<longleftrightarrow> ?R") for guid
  proof
    assume ?L
    then show ?R by (auto simp: attachment_links_def set_inner_join)
  next
    assume ?R
    then obtain a where a: "a \<in> set (attachments c)" "content_open c row (at_key a)" "at_guid a = guid" by blast
    then obtain m where m: "m \<in> set (messages (base c))" "links_in c row (at_key a) m" by (auto simp: content_open_def)
    then have mr: "(sg_key row, m) \<in> set ?mrows" using seg by (simp add: in_message_rows links_in_def)
    obtain l where l: "l \<in> set (links c)" "ln_message l = message_key m" "ln_attachment l = at_key a"
      using m(2) assms(1) by (auto simp: links_in_def wf_corpus_def)
    have "message_key m \<in> set ?mids" using mr by force
    then have "(l, a) \<in> set (attachment_links c ?mids)" using l a(1) by (simp add: attachment_links_def set_inner_join)
    then show ?L using mr l(2) a(2,3) by force
  qed
  have "set (segment_guids g) = {at_guid a |a. a \<in> set (attachments c) \<and> content_open c row (at_key a)}"
    using trans [OF L1 L2] by auto
  then show ?thesis using in_c g row(1) by blast
qed

lemma fetched_chunk_row:
  assumes "wf_corpus c" and "fetch_export_segments c (sort (eligible_chat_ids (base c) None)) = Inr (gs, elig)"
    and "k \<in> set (fetch_chunks_for c gs elig)"
  shows "x_parent k \<in> set gs
     \<and> (\<exists>row \<in> set (chunks c). \<exists>ar \<in> set (attachments c). at_key ar = ck_attachment row
          \<and> x_chunk k = ck_key row \<and> x_chunk_guid k = at_guid ar \<and> x_chunk_kind k = ck_kind row \<and> x_chunk_seq k = ck_seq row
          \<and> map_of elig (x_segment (x_parent k), ck_attachment row) = Some True)"
proof -
  let ?rows = "chunk_rows c (sort (remdups (map snd (eligible_pairs elig))))"
  have dist: "distinct (map fst elig)" unfolding fetched_eligible [OF assms(2)] by (simp add: eligibility_distinct)
  obtain s a where sa: "(s, a) \<in> set (eligible_pairs elig)"
    and k: "k \<in> set (case map_of (rev (map (\<lambda>g. (x_segment g, g)) gs)) s of None \<Rightarrow> []
        | Some parent \<Rightarrow> map (export_chunk_of parent) (filter (\<lambda>(k, _). ck_attachment k = a) ?rows))"
    using assms(3) by (auto simp: fetch_chunks_for_def Let_def split: if_splits)
  then obtain parent where parent: "map_of (rev (map (\<lambda>g. (x_segment g, g)) gs)) s = Some parent"
    by (cases "map_of (rev (map (\<lambda>g. (x_segment g, g)) gs)) s") auto
  then obtain row ar where row: "(row, ar) \<in> set ?rows" "ck_attachment row = a" "k = export_chunk_of parent (row, ar)"
    using k by auto
  have "parent \<in> set gs" "x_segment parent = s" using map_of_SomeD [OF parent] by auto
  moreover have "map_of elig (s, a) = Some True"
    using sa dist by (auto simp: eligible_pairs_def)
  moreover have "row \<in> set (chunks c)" "ar \<in> set (attachments c)" "at_key ar = ck_attachment row"
    using row(1) by (auto simp: chunk_rows_def set_inner_join)
  ultimately show ?thesis using row(2,3) 
    by (simp add: export_chunk_of_def) (rule bexI [of _ row], rule bexI [of _ ar], simp_all)
qed

lemma chunk_now_row:
  assumes "wf_corpus c" and "row \<in> set (chunks c)" and "ar \<in> set (attachments c)" and "at_key ar = ck_attachment row"
  shows "chunk_now c (Some (ck_key row)) = Some (ck_attachment row, at_guid ar, ck_kind row, ck_seq row)"
proof -
  let ?j = "inner_join (\<lambda>row a. at_key a = ck_attachment row) (chunks c) (attachments c)"
  have "(row, ar) \<in> set ?j" using assms(2-4) by (simp add: set_inner_join)
  then obtain row' ar' where f: "find (\<lambda>(r, a). ck_key r = ck_key row) ?j = Some (row', ar')"
    by (cases "find (\<lambda>(r, a). ck_key r = ck_key row) ?j") (auto simp: find_None_iff)
  then have i: "row' \<in> set (chunks c)" "ar' \<in> set (attachments c)" "at_key ar' = ck_attachment row'" "ck_key row' = ck_key row"
    using find_Some_in [OF f] by (auto simp: set_inner_join)
  then have "row' = row" using assms(1,2) distinct_same_key [of ck_key "chunks c" row' row] by (simp add: wf_corpus_def)
  moreover have "ar' = ar"
    using calculation i(2,3) assms(1,3,4) distinct_same_key [of at_key "attachments c" ar' ar] by (simp add: wf_corpus_def)
  ultimately show ?thesis using f by (simp add: chunk_now_def)
qed

text \<open>The planner's documents pass the last check of the push against the same corpus.\<close>

lemma desired_not_drifted:
  assumes "wf_corpus c" and "build_desired_documents cfg c = Inr desired" and "(d, u, body) \<in> set desired"
    and "u_segment u \<in> set segs"
  shows "upsert_drift cfg c (eligible_chat_ids (base c) None) (compute_attachment_eligibility (base c) segs) segs u = None"
proof -
  have db: "wf_db (base c)" and keys: "distinct (map sg_key (segments c))" using assms(1) by (simp_all add: wf_corpus_def)
  obtain gs elig where f: "fetch_export_segments c (sort (eligible_chat_ids (base c) None)) = Inr (gs, elig)"
    and desired: "desired = collect_documents (segment_documents cfg gs @ chunk_documents cfg (fetch_chunks_for c gs elig))"
    using assms(2) by (rule build_parts)
  have open_chat: "sg_chat row \<in> set (eligible_chat_ids (base c) None)"
    if "row \<in> set (segment_rows c (sort (eligible_chat_ids (base c) None)))" for row
    using that by (simp add: segment_rows_def)
  consider (seg) g where "g \<in> set gs" "u = segment_upsert cfg g body"
    | (chunk) k where "k \<in> set (fetch_chunks_for c gs elig)" "u = chunk_upsert cfg k body"
    using collect_documents_from [of "(d, u, body)"] assms(3) unfolding desired
    by (fastforce simp: segment_documents_def chunk_documents_def set_map_filter Let_def)
  then show ?thesis
  proof cases
    case (seg g)
    from fetched_segment_row [OF assms(1) f seg(1)] obtain row where row: "row \<in> set (segments c)"
      "x_segment g = sg_key row" "x_stable_key g = sg_stable_key row" "x_chat g = sg_chat row"
      "row \<in> set (segment_rows c (sort (eligible_chat_ids (base c) None)))"
      "set (segment_guids g) = {at_guid a |a. a \<in> set (attachments c) \<and> content_open c row (at_key a)}" by blast
    have u: "u_segment u = sg_key row" "u_chat u = sg_chat row" "u_kind u = ''segment''"
      "u_document u = segment_document_id (sha cfg) (sg_stable_key row)" "u_guids u = segment_guids g"
      using seg(2) row(2-4) by (simp_all add: segment_upsert_def Let_def)
    have "set (eligible_guids_now c segs (compute_attachment_eligibility (base c) segs) (sg_key row)) = set (segment_guids g)"
      using guids_now [OF db, of row segs] assms(4) u(1) row(6) by simp
    then show ?thesis
      using find_same_key [OF keys row(1)] open_chat [OF row(5)] by (simp add: upsert_drift_def u)
  next
    case (chunk k)
    from fetched_chunk_row [OF assms(1) f chunk(1)] obtain ck ar where ck: "x_parent k \<in> set gs" "ck \<in> set (chunks c)"
      "ar \<in> set (attachments c)" "at_key ar = ck_attachment ck" "x_chunk k = ck_key ck" "x_chunk_guid k = at_guid ar"
      "x_chunk_kind k = ck_kind ck" "x_chunk_seq k = ck_seq ck"
      "map_of elig (x_segment (x_parent k), ck_attachment ck) = Some True" by blast
    from fetched_segment_row [OF assms(1) f ck(1)] obtain row where row: "row \<in> set (segments c)"
      "x_segment (x_parent k) = sg_key row" "x_stable_key (x_parent k) = sg_stable_key row" "x_chat (x_parent k) = sg_chat row"
      "row \<in> set (segment_rows c (sort (eligible_chat_ids (base c) None)))" by blast
    have u: "u_segment u = sg_key row" "u_chat u = sg_chat row" "u_kind u = ''attachment_chunk''" "u_chunk u = Some (ck_key ck)"
      "u_document u = attachment_chunk_document_id (sha cfg) (sg_stable_key row) (at_guid ar) (ck_kind ck) (ck_seq ck)"
      using chunk(2) row(2-4) ck(5-8) by (simp_all add: chunk_upsert_def Let_def)
    have "content_open c row (ck_attachment ck)"
      using ck(9) row(2,5) fetched_eligible [OF f] eligible_iff_content_open [OF db, of row] by (auto split: if_splits)
    then have "map_of (compute_attachment_eligibility (base c) segs) (sg_key row, ck_attachment ck) = Some True"
      using eligible_iff_content_open [OF db, of row segs] assms(4) u(1) by simp
    then show ?thesis
      using find_same_key [OF keys row(1)] open_chat [OF row(5)] chunk_now_row [OF assms(1) ck(2-4)]
      by (simp add: upsert_drift_def u)
  qed
qed

lemma desired_fields:
  assumes "build_desired_documents cfg c = Inr desired" and "(d, u, body) \<in> set desired"
  shows "u_document u = d \<and> u_sha u = sha cfg body \<and> u_relpath u = staged_relpath_for d \<and> u_object u = gcs_object_for d"
proof -
  obtain gs elig where "desired = collect_documents (segment_documents cfg gs @ chunk_documents cfg (fetch_chunks_for c gs elig))"
    using assms(1) by (rule build_parts)
  then have "(u, body) \<in> set (segment_documents cfg gs @ chunk_documents cfg (fetch_chunks_for c gs elig))" "d = u_document u"
    using collect_documents_from assms(2) by fastforce+
  then show ?thesis
    by (auto simp: segment_documents_def chunk_documents_def set_map_filter segment_upsert_def chunk_upsert_def Let_def)
qed

lemma desired_distinct: "build_desired_documents cfg c = Inr desired \<Longrightarrow> distinct (map fst desired)"
  by (auto simp: build_desired_documents_def map_sum_Inr collect_documents_distinct)

lemma desired_keys: "build_desired_documents cfg c = Inr desired \<Longrightarrow> \<forall>(d, u, body) \<in> set desired. u_document u = d"
  using desired_fields by blast

lemma map_of_same_key:
  "u \<in> set us \<Longrightarrow> (\<And>u'. u' \<in> set us \<Longrightarrow> f u' = f u \<Longrightarrow> g u' = g u) \<Longrightarrow> map_of (map (\<lambda>u. (f u, g u)) us) (f u) = Some (g u)"
proof (induction us)
  case (Cons v us)
  show ?case
  proof (cases "f v = f u")
    case True
    then show ?thesis using Cons.prems(2) [of v] by simp
  next
    case False
    then have "u \<in> set us" using Cons.prems(1) by (metis set_ConsD)
    then have "map_of (map (\<lambda>u. (f u, g u)) us) (f u) = Some (g u)"
    proof (rule Cons.IH)
      fix u' assume "u' \<in> set us" "f u' = f u"
      then show "g u' = g u" by (intro Cons.prems(2)) (simp_all only: list.set insert_iff simp_thms)
    qed
    then show ?thesis using False by (simp del: map_map)
  qed
qed simp

lemma staged_files_verify:
  assumes "build_desired_documents cfg c = Inr desired"
    and "reconcile_desired_against_pushed desired current = (ups, dels, n)" and "m_upserts m = ups"
    and "\<And>p. inside p" and "u \<in> set ups"
  shows "file_error cfg inside (plan_dir cfg desired m) u = None"
proof -
  note ups = reconcile_upserts [OF desired_keys [OF assms(1)] assms(2)]
  have mem: "\<exists>body. map_of desired (u_document v) = Some (v, body) \<and> u_sha v = sha cfg body
      \<and> u_relpath v = staged_relpath_for (u_document v)" if "v \<in> set ups" for v
    using that ups [of v] desired_fields [OF assms(1)] by (blast dest: map_of_SomeD)
  obtain body where body: "map_of desired (u_document u) = Some (u, body)" "u_sha u = sha cfg body"
    using mem [OF assms(5)] by blast
  have "map_of (staged_files (plan_dir cfg desired m)) (u_relpath u) = Some (snd (the (map_of desired (u_document u))))"
    unfolding plan_dir_def Let_def assms(3) staging.select_convs
    by (rule map_of_same_key [OF assms(5)]) (use mem mem [OF assms(5)] in \<open>metis staged_relpath_inj\<close>)
  then show ?thesis using body assms(4) by (simp add: file_error_def)
qed

lemma planned_run_verifies:
  assumes "wf_corpus c" and "build_desired_documents cfg c = Inr desired"
    and "reconcile_desired_against_pushed desired current = (ups, dels, n)" and "m = plan_manifest cfg c mode ups dels"
    and "find_run x run = Some r" and "run_status r \<in> set PUSHABLE_STATES"
    and "run_config_sha r = m_config_sha m" and "run_snapshot r = snapshot_allowlist c"
    and "run_manifest_sha r = sha cfg (manifest_text (float_repr cfg) m)"
    and "map_of area run = Some (plan_dir cfg desired m)" and "\<And>p. inside p"
    and "reasons = compute_approval_requirements c (runs x) (documents x) m (run_mode r)"
    and "reasons \<noteq> [] \<Longrightarrow> run_approved_sha r = Some (run_manifest_sha r)"
  shows "verify_pushable cfg c inside run x area = Inr \<lparr>v_mode = run_mode r, v_dir = plan_dir cfg desired m,
     v_manifest = m, v_sha = run_manifest_sha r, v_reasons = reasons\<rparr>"
proof -
  have parts: "m_upserts m = ups" "m_config_sha m = export_config_sha256 cfg" using assms(4) by (simp_all add: plan_manifest_def)
  have load: "load_manifest cfg area run = Inr (m, run_manifest_sha r, plan_dir cfg desired m)"
    using manifest_text_reads_back [of "float_value cfg" "float_repr cfg" m] assms(9,10)
    by (simp add: load_manifest_Inr plan_dir_def Let_def)
  have files: "\<forall>u \<in> set (m_upserts m). file_error cfg inside (plan_dir cfg desired m) u = None"
    using staged_files_verify [OF assms(2,3) parts(1) assms(11)] parts(1) by simp
  have drift: "verify_eligibility_unchanged cfg c ups = None"
  proof -
    let ?segs = "sort (remdups (map u_segment ups))"
    have "upsert_drift cfg c (eligible_chat_ids (base c) None) (compute_attachment_eligibility (base c) ?segs) ?segs u = None"
      if "u \<in> set ups" for u
    proof -
      obtain body where "map_of desired (u_document u) = Some (u, body)"
        using reconcile_upserts [OF desired_keys [OF assms(2)] assms(3)] \<open>u \<in> set ups\<close> by blast
      from desired_not_drifted [OF assms(1,2) map_of_SomeD [OF this]] that show ?thesis by simp
    qed
    then show ?thesis by (simp add: verify_eligibility_unchanged_def Let_def first_error_None)
  qed
  show ?thesis
    unfolding verify_pushable_Inr
    using assms(5-8) load files drift parts assms(12,13)
    by (intro exI [of _ r] exI [of _ m] exI [of _ "run_manifest_sha r"] exI [of _ "plan_dir cfg desired m"] exI [of _ reasons])
      (auto simp: allowlist_matches_snapshot_def)
qed

lemma find_run_update: "find_run (update_run run f x) run' = (if run' = run then map_option f (find_run x run) else find_run x run')"
  if "\<And>r. run_id (f r) = run_id r"
proof -
  have "find (\<lambda>r. run_id r = run') (map (\<lambda>r. if run_id r = run then f r else r) rs)
      = (if run' = run then map_option f (find (\<lambda>r. run_id r = run) rs) else find (\<lambda>r. run_id r = run') rs)" for rs
    using that by (induction rs) auto
  then show ?thesis by (simp add: find_run_def update_run_def)
qed

lemma last_ok_other:
  assumes "\<And>r. run_status (f r) = run_status r" "\<And>r. run_status r = ''ok'' \<Longrightarrow> P r \<Longrightarrow> f r = r"
  shows "map (\<lambda>r. if P r then f r else r) (filter (\<lambda>r. run_status r = ''ok'') rs) = filter (\<lambda>r. run_status r = ''ok'') rs"
  using assms by (induction rs) auto

lemma approval_same_runs:
  "filter (\<lambda>r. run_status r = ''ok'') rs' = filter (\<lambda>r. run_status r = ''ok'') rs \<Longrightarrow>
     compute_approval_requirements c rs' docs m mode = compute_approval_requirements c rs docs m mode"
  by (simp add: compute_approval_requirements_def last_ok_run_def)

lemma plan_export_Inr:
  assumes "plan_export cfg c run mode x area = Inr (res, x0, area')"
  obtains desired ups dels n m where "build_desired_documents cfg c = Inr desired" "map_of area run = None"
    and "reconcile_desired_against_pushed desired (current_pushed_state (documents x)) = (ups, dels, n)"
    and "m = plan_manifest cfg c mode ups dels" "mode = ''reconcile'' \<or> mode = ''purge''"
    and "x0 = x\<lparr>runs := runs x @ [plan_row cfg c run m], items := items x @ plan_items run m\<rparr>"
    and "area' = AList.update run (plan_dir cfg desired m) area"
    and "result_upserts res = length ups" "result_deletes res = length dels" "result_unchanged res = n"
    and "result_reasons res = compute_approval_requirements c (runs x) (documents x) m mode"
    and "result_manifest_sha res = run_manifest_sha (plan_row cfg c run m)"
proof -
  obtain desired where d: "build_desired_documents cfg c = Inr desired"
    using assms by (cases "build_desired_documents cfg c") (auto simp: plan_export_def split: if_splits)
  obtain ups dels n where r: "reconcile_desired_against_pushed desired (current_pushed_state (documents x)) = (ups, dels, n)"
    by (metis prod_cases3)
  have mode: "mode = ''reconcile'' \<or> mode = ''purge''" using assms by (auto simp: plan_export_def split: if_splits)
  have free: "map_of area run = None"
  proof (rule ccontr)
    assume "map_of area run \<noteq> None"
    then have "plan_export cfg c run mode x area = Inl (Staging_Exists run)"
      using mode d r by (simp add: plan_export_def Let_def)
    then show False using assms by simp
  qed
  let ?m = "plan_manifest cfg c mode ups dels"
  have "plan_export cfg c run mode x area =
      Inr (\<lparr>result_run = run, result_manifest_sha = run_manifest_sha (plan_row cfg c run ?m),
            result_upserts = length ups, result_deletes = length dels, result_unchanged = n,
            result_reasons = compute_approval_requirements c (runs x) (documents x) ?m mode\<rparr>,
           x\<lparr>runs := runs x @ [plan_row cfg c run ?m], items := items x @ plan_items run ?m\<rparr>,
           AList.update run (plan_dir cfg desired ?m) area)"
    using mode free d r by (simp add: plan_export_def Let_def)
  with assms have eqs: "res = \<lparr>result_run = run, result_manifest_sha = run_manifest_sha (plan_row cfg c run ?m),
            result_upserts = length ups, result_deletes = length dels, result_unchanged = n,
            result_reasons = compute_approval_requirements c (runs x) (documents x) ?m mode\<rparr>"
    "x0 = x\<lparr>runs := runs x @ [plan_row cfg c run ?m], items := items x @ plan_items run ?m\<rparr>"
    "area' = AList.update run (plan_dir cfg desired ?m) area" by simp_all
  show ?thesis by (rule that [OF d free r refl mode eqs(2,3)]) (simp_all add: eqs(1))
qed

lemma find_append_fresh: "find P xs = None \<Longrightarrow> P y \<Longrightarrow> find P (xs @ [y]) = Some y"
  by (induction xs) (auto split: if_splits)

lemma approve_planned:
  assumes "build_desired_documents cfg c = Inr desired"
    and "reconcile_desired_against_pushed desired current = (ups, dels, n)" and "m = plan_manifest cfg c mode ups dels"
    and "find_run x run = Some (plan_row cfg c run m)" and "map_of area run = Some (plan_dir cfg desired m)"
    and "\<And>p. inside p"
  shows "approve_run cfg inside run x area
     = Inr (update_run run (\<lambda>r. r\<lparr>run_approved_sha := Some (run_manifest_sha (plan_row cfg c run m))\<rparr>) x)"
proof -
  have "load_manifest cfg area run = Inr (m, run_manifest_sha (plan_row cfg c run m), plan_dir cfg desired m)"
    using manifest_text_reads_back [of "float_value cfg" "float_repr cfg" m] assms(5)
    by (simp add: load_manifest_Inr plan_dir_def plan_row_def Let_def)
  moreover have "m_upserts m = ups" using assms(3) by (simp add: plan_manifest_def)
  then have "first_error (file_error cfg inside (plan_dir cfg desired m)) (m_upserts m) = None"
    using staged_files_verify [OF assms(1,2) _ assms(6)] by (simp add: first_error_None)
  moreover have "run_status (plan_row cfg c run m) = ''planned''" by (simp add: plan_row_def)
  ultimately show ?thesis using assms(4) by (simp add: approve_run_def)
qed

lemma fresh_plan_verified:
  assumes "wf_corpus c" and "plan_export cfg c run mode x area = Inr (res, x0, area')"
    and "find_run x run = None" and "\<forall>i \<in> set (items x). item_run i \<noteq> run" and "\<And>p. inside p"
  shows "(result_reasons res = [] \<longrightarrow>
       verify_push_preconditions cfg c inside run x0 area'
         = Inr \<lparr>pf_mode = mode, pf_manifest_sha = result_manifest_sha res, pf_upserts = result_upserts res,
                pf_deletes = result_deletes res, pf_done = 0, pf_reasons = []\<rparr>)
     \<and> (\<exists>x1. approve_run cfg inside run x0 area' = Inr x1
          \<and> verify_push_preconditions cfg c inside run x1 area'
            = Inr \<lparr>pf_mode = mode, pf_manifest_sha = result_manifest_sha res, pf_upserts = result_upserts res,
                   pf_deletes = result_deletes res, pf_done = 0, pf_reasons = result_reasons res\<rparr>)"
proof -
  obtain desired ups dels n m where p: "build_desired_documents cfg c = Inr desired" "map_of area run = None"
    "reconcile_desired_against_pushed desired (current_pushed_state (documents x)) = (ups, dels, n)"
    "m = plan_manifest cfg c mode ups dels" "mode = ''reconcile'' \<or> mode = ''purge''"
    "x0 = x\<lparr>runs := runs x @ [plan_row cfg c run m], items := items x @ plan_items run m\<rparr>"
    "area' = AList.update run (plan_dir cfg desired m) area"
    "result_upserts res = length ups" "result_deletes res = length dels" "result_unchanged res = n"
    "result_reasons res = compute_approval_requirements c (runs x) (documents x) m mode"
    "result_manifest_sha res = run_manifest_sha (plan_row cfg c run m)"
    using assms(2) by (rule plan_export_Inr)
  let ?row = "plan_row cfg c run m"
  let ?x1 = "update_run run (\<lambda>r. r\<lparr>run_approved_sha := Some (run_manifest_sha ?row)\<rparr>) x0"
  have row: "run_id ?row = run" "run_status ?row = ''planned''" "run_config_sha ?row = m_config_sha m"
    "run_snapshot ?row = snapshot_allowlist c" "run_manifest_sha ?row = sha cfg (manifest_text (float_repr cfg) m)"
    "run_mode ?row = mode" "run_approved_sha ?row = None"
    using p(4) by (simp_all add: plan_row_def plan_manifest_def)
  have dir: "map_of area' run = Some (plan_dir cfg desired m)" using p(7) by (simp add: update_conv')
  have fr: "find_run x0 run = Some ?row"
    using assms(3) row(1) by (simp add: p(6) find_run_def find_append_fresh)
  have fr1: "find_run ?x1 run = Some (?row\<lparr>run_approved_sha := Some (run_manifest_sha ?row)\<rparr>)"
    using fr by (simp add: find_run_update)
  have docs: "documents x0 = documents x" "documents ?x1 = documents x" "items ?x1 = items x0"
    by (simp_all add: p(6) update_run_def)
  have ok0: "filter (\<lambda>r. run_status r = ''ok'') (runs x0) = filter (\<lambda>r. run_status r = ''ok'') (runs x)"
    using row(2) by (simp add: p(6))
  have reasons0: "compute_approval_requirements c (runs x0) (documents x0) m mode = result_reasons res"
    using approval_same_runs [OF ok0] p(11) docs by simp
  have ok1: "filter (\<lambda>r. run_status r = ''ok'') (runs ?x1) = filter (\<lambda>r. run_status r = ''ok'') (runs x)"
  proof -
    have "\<forall>r \<in> set (runs x). run_id r \<noteq> run" using assms(3) by (auto simp: find_run_def find_None_iff)
    then have "map (\<lambda>r. if run_id r = run then r\<lparr>run_approved_sha := Some (run_manifest_sha ?row)\<rparr> else r) (runs x) = runs x"
      by (simp add: map_idI)
    then show ?thesis using row(1,2) by (simp add: p(6) update_run_def)
  qed
  have reasons1: "compute_approval_requirements c (runs ?x1) (documents ?x1) m mode = result_reasons res"
    using approval_same_runs [OF ok1] p(11) docs by simp
  have parts: "m_upserts m = ups" "m_deletes m = dels" using p(4) by (simp_all add: plan_manifest_def)
  have none: "done_items x0 run = []"
    using assms(4) by (auto simp: done_items_def p(6) plan_items_def upsert_item_def delete_item_def filter_empty_conv)
  then have nothing_done: "done_items x0 run = []" "done_items ?x1 run = []"
    unfolding done_items_def docs(3) by simp_all
  have "verify_pushable cfg c inside run x0 area' = Inr \<lparr>v_mode = mode, v_dir = plan_dir cfg desired m,
      v_manifest = m, v_sha = run_manifest_sha ?row, v_reasons = []\<rparr>" if "result_reasons res = []"
    using planned_run_verifies [OF assms(1) p(1,3,4) fr _ row(3,4,5) dir assms(5) refl] that reasons0 row(2,6)
    by (simp add: PUSHABLE_STATES_def)
  then have direct: "result_reasons res = [] \<longrightarrow>
       verify_push_preconditions cfg c inside run x0 area'
         = Inr \<lparr>pf_mode = mode, pf_manifest_sha = result_manifest_sha res, pf_upserts = result_upserts res,
                pf_deletes = result_deletes res, pf_done = 0, pf_reasons = []\<rparr>"
    by (simp add: verify_push_preconditions_def parts nothing_done p(8,9,12))
  have "verify_pushable cfg c inside run ?x1 area' = Inr \<lparr>v_mode = mode, v_dir = plan_dir cfg desired m,
      v_manifest = m, v_sha = run_manifest_sha ?row, v_reasons = result_reasons res\<rparr>"
    using planned_run_verifies [OF assms(1) p(1,3,4) fr1 _ _ _ _ dir assms(5) refl] row reasons1
    by (simp add: PUSHABLE_STATES_def)
  then have "verify_push_preconditions cfg c inside run ?x1 area'
      = Inr \<lparr>pf_mode = mode, pf_manifest_sha = result_manifest_sha res, pf_upserts = result_upserts res,
             pf_deletes = result_deletes res, pf_done = 0, pf_reasons = result_reasons res\<rparr>"
    by (simp add: verify_push_preconditions_def parts nothing_done p(8,9,12))
  moreover have "approve_run cfg inside run x0 area' = Inr ?x1"
    by (rule approve_planned [OF p(1,3,4) fr dir assms(5)])
  ultimately show ?thesis using direct by blast
qed

text \<open>
  The planner and the push agree: a fresh plan of an unchanged corpus passes every check of the
  push, whose queries are written independently, at once when it needs no approval, and after
  \<open>approve_run\<close>, which accepts it, in any case; the rehearsal then reports the plan's own counts.
\<close>

theorem fresh_plan_is_pushable:
  assumes "wf_corpus c" and "plan_export cfg c run mode x area = Inr (res, x0, area')"
    and "find_run x run = None" and "\<forall>i \<in> set (items x). item_run i \<noteq> run" and "\<And>p. inside p"
  shows "(result_reasons res = [] \<longrightarrow>
       verify_push_preconditions cfg c inside run x0 area'
         = Inr \<lparr>pf_mode = mode, pf_manifest_sha = result_manifest_sha res, pf_upserts = result_upserts res,
                pf_deletes = result_deletes res, pf_done = 0, pf_reasons = []\<rparr>)
     \<and> (\<exists>x1. approve_run cfg inside run x0 area' = Inr x1
          \<and> verify_push_preconditions cfg c inside run x1 area'
            = Inr \<lparr>pf_mode = mode, pf_manifest_sha = result_manifest_sha res, pf_upserts = result_upserts res,
                   pf_deletes = result_deletes res, pf_done = 0, pf_reasons = result_reasons res\<rparr>)"
  by (rule fresh_plan_verified [OF assms])

definition empty_db :: export_db where "empty_db = \<lparr>runs = [], items = [], documents = []\<rparr>"

lemma sample_plan:
  "\<exists>res x0 area. plan_export sample_config sample_corpus 1 ''reconcile'' empty_db [] = Inr (res, x0, area)
     \<and> result_upserts res = 2 \<and> result_reasons res = [First_Push]"
proof -
  obtain ups dels n where r: "reconcile_desired_against_pushed sample_desired [] = (ups, dels, n)" by (metis prod_cases3)
  have dels: "dels = []" using r by (simp add: reconcile_eq)
  have n: "n = 0" using r by (auto simp: reconcile_eq is_unchanged_def)
  have "length ups = 2"
    using reconcile_converges_len [OF r] n sample_desired_facts(1) by simp
  then show ?thesis using r dels
    by (simp add: plan_export_def Let_def sample_built empty_db_def current_pushed_state_def compute_approval_requirements_def
        last_ok_run_def sort_desc_def)
qed

theorem fresh_plan_is_pushable_witness:
  "\<exists>res x0 area x1 pf. plan_export sample_config sample_corpus 1 ''reconcile'' empty_db [] = Inr (res, x0, area)
     \<and> approve_run sample_config (\<lambda>_. True) 1 x0 area = Inr x1
     \<and> verify_push_preconditions sample_config sample_corpus (\<lambda>_. True) 1 x1 area = Inr pf
     \<and> pf_upserts pf = 2 \<and> pf_reasons pf = [First_Push]"
proof -
  obtain res x0 area where p: "plan_export sample_config sample_corpus 1 ''reconcile'' empty_db [] = Inr (res, x0, area)"
    "result_upserts res = 2" "result_reasons res = [First_Push]" using sample_plan by blast
  have "find_run empty_db 1 = None" "\<forall>i \<in> set (items empty_db). item_run i \<noteq> 1" by (simp_all add: find_run_def empty_db_def)
  from fresh_plan_is_pushable [OF sample_corpus_wf p(1) this, of "\<lambda>_. True"] p show ?thesis by auto
qed

text \<open>The sample plan approved and verified, for the witnesses.\<close>

lemma sample_pushable:
  "\<exists>res x0 area x1 v. plan_export sample_config sample_corpus 1 ''reconcile'' empty_db [] = Inr (res, x0, area)
     \<and> approve_run sample_config (\<lambda>_. True) 1 x0 area = Inr x1
     \<and> verify_pushable sample_config sample_corpus (\<lambda>_. True) 1 x1 area = Inr v"
proof -
  obtain res x0 area where p: "plan_export sample_config sample_corpus 1 ''reconcile'' empty_db [] = Inr (res, x0, area)"
    using sample_plan by blast
  have "find_run empty_db 1 = None" "\<forall>i \<in> set (items empty_db). item_run i \<noteq> 1" by (simp_all add: find_run_def empty_db_def)
  from fresh_plan_verified [OF sample_corpus_wf p this, of "\<lambda>_. True"] obtain x1 pf where a:
    "approve_run sample_config (\<lambda>_. True) 1 x0 area = Inr x1"
    "verify_push_preconditions sample_config sample_corpus (\<lambda>_. True) 1 x1 area = Inr pf" by blast
  from a(2) have "\<exists>v. verify_pushable sample_config sample_corpus (\<lambda>_. True) 1 x1 area = Inr v"
    by (cases "verify_pushable sample_config sample_corpus (\<lambda>_. True) 1 x1 area")
      (simp_all add: verify_push_preconditions_def)
  then show ?thesis using p a(1) by blast
qed

definition calm_store :: fake_store where
  "calm_store = \<lparr>f_objects = [], f_imported = [], fail_upload_ids = [], fail_import_ids = [], fail_delete_ids = [],
     linger_ids = []\<rparr>"

theorem push_needs_every_pin_witness:
  "\<exists>res x0 area x1 p x' s'. plan_export sample_config sample_corpus 1 ''reconcile'' empty_db [] = Inr (res, x0, area)
     \<and> approve_run sample_config (\<lambda>_. True) 1 x0 area = Inr x1
     \<and> push_export (fake_transport ''b'') sample_config sample_corpus (\<lambda>_. True) 1 x1 area calm_store = (Inr p, x', s')
     \<and> (\<exists>r dir body. find_run x1 1 = Some r \<and> map_of area 1 = Some dir \<and> staged_manifest dir = Some body
          \<and> sha sample_config body = run_manifest_sha r)"
proof -
  obtain res x0 area x1 v where p: "plan_export sample_config sample_corpus 1 ''reconcile'' empty_db [] = Inr (res, x0, area)"
    "approve_run sample_config (\<lambda>_. True) 1 x0 area = Inr x1"
    "verify_pushable sample_config sample_corpus (\<lambda>_. True) 1 x1 area = Inr v" using sample_pushable by blast
  obtain ws k s'' where "push_writes (fake_transport ''b'') sample_config v 1 x1 calm_store = (ws, k, s'')" by (metis prod_cases3)
  then obtain q x' s' where q:
    "push_export (fake_transport ''b'') sample_config sample_corpus (\<lambda>_. True) 1 x1 area calm_store = (Inr q, x', s')"
    using p(3) by (simp add: push_export_def Let_def)
  have "\<exists>r dir body. find_run x1 1 = Some r \<and> map_of area 1 = Some dir \<and> staged_manifest dir = Some body
          \<and> sha sample_config body = run_manifest_sha r"
    using push_needs_every_pin [OF sample_corpus_wf, where T = "fake_transport ''b''" and cfg = sample_config
      and inside = "\<lambda>_. True" and run = 1 and x = x1 and area = area and s = calm_store]
    unfolding q by auto
  then show ?thesis using p(1,2) q by blast
qed

section \<open>Retries reach the plan\<close>

text \<open>What can happen to a planned run: the owner approves it, or it is pushed once more.\<close>

datatype 's export_op = Approve "string \<Rightarrow> bool" | Push "'s transport" corpus "string \<Rightarrow> bool" 's

fun export_step :: "export_config \<Rightarrow> int \<Rightarrow> (int \<times> staging) list \<Rightarrow> export_db \<Rightarrow> 's export_op \<Rightarrow> export_db" where
  "export_step cfg run area x (Approve inside) =
     (case approve_run cfg inside run x area of Inl _ \<Rightarrow> x | Inr x' \<Rightarrow> x')"
| "export_step cfg run area x (Push T c inside s) = fst (snd (push_export T cfg c inside run x area s))"

abbreviation stored :: "export_db \<Rightarrow> string \<Rightarrow> string option option" where
  "stored x \<equiv> map_of (current_pushed_state (documents x))"

lemma item_states_record:
  "item_states (apply_write run x (Record_Item d st)) run d' =
     (if d' = d then map_option (\<lambda>_. st) (item_states x run d') else item_states x run d')"
proof -
  have "map_option item_state (find (\<lambda>i. item_run i = run \<and> item_document i = d')
          (map (\<lambda>i. if item_run i = run \<and> item_document i = d then i\<lparr>item_state := st\<rparr> else i) rows))
      = (if d' = d then map_option (\<lambda>_. st) (map_option item_state (find (\<lambda>i. item_run i = run \<and> item_document i = d') rows))
         else map_option item_state (find (\<lambda>i. item_run i = run \<and> item_document i = d') rows))" for rows :: "item_row list"
    by (induction rows) auto
  then show ?thesis by (simp add: item_states_def)
qed

lemma stored_upsert:
  "map_of (current_pushed_state (upsert_document_row u uri docs)) d =
     (if d = u_document u then Some (Some (u_sha u)) else map_of (current_pushed_state docs) d)"
proof -
  define row where "row = \<lparr>doc_id = u_document u, doc_kind = u_kind u, doc_segment = Some (u_segment u),
     doc_chunk = u_chunk u, doc_uri = Some uri, doc_sha = Some (u_sha u), doc_state = ''pushed''\<rparr>"
  have replaced: "map_of (current_pushed_state (map (\<lambda>r. if doc_id r = u_document u then row else r) docs)) d =
     (if d = u_document u \<and> (\<exists>r \<in> set docs. doc_id r = u_document u) then Some (Some (u_sha u))
      else map_of (current_pushed_state docs) d)"
    by (induction docs) (auto simp: current_pushed_state_def row_def)
  have "map_of (current_pushed_state docs) (u_document u) = None" if "\<forall>r \<in> set docs. doc_id r \<noteq> u_document u"
    using that by (auto simp: current_pushed_state_def map_of_eq_None_iff)
  moreover have "current_pushed_state (docs @ [row]) = current_pushed_state docs @ [(u_document u, Some (u_sha u))]"
    by (simp add: current_pushed_state_def row_def)
  ultimately show ?thesis
    using replaced by (auto simp: upsert_document_row_def row_def [symmetric] map_add_def split: option.split)
qed

lemma stored_purge:
  "map_of (current_pushed_state (map (\<lambda>r. if doc_id r = k then r\<lparr>doc_state := ''purged''\<rparr> else r) docs)) d
     = (if d = k then None else map_of (current_pushed_state docs) d)"
  by (induction docs) (auto simp: current_pushed_state_def)

definition plan_ids :: "planned_upsert list \<Rightarrow> planned_delete list \<Rightarrow> bool" where
  "plan_ids ups dels \<longleftrightarrow> (\<forall>u \<in> set ups. \<forall>u' \<in> set ups. u_document u' = u_document u \<longrightarrow> u' = u)
     \<and> u_document ` set ups \<inter> del_document ` set dels = {}"

text \<open>
  Between the statements of two items: an upsert recorded as pushed is stored with its hash, a
  delete recorded as deleted is not stored, and no other document is touched.
\<close>

definition run_tracks ::
  "int \<Rightarrow> planned_upsert list \<Rightarrow> planned_delete list \<Rightarrow> (string \<Rightarrow> string option option) \<Rightarrow> export_db \<Rightarrow> bool" where
  "run_tracks run ups dels before x \<longleftrightarrow>
     (\<forall>u \<in> set ups. item_states x run (u_document u) \<notin> {None, Some ''deleted''}
        \<and> (item_states x run (u_document u) = Some ''pushed'' \<longrightarrow> stored x (u_document u) = Some (Some (u_sha u))))
     \<and> (\<forall>d \<in> set dels. item_states x run (del_document d) \<notin> {None, Some ''pushed''}
        \<and> (item_states x run (del_document d) = Some ''deleted'' \<longrightarrow> stored x (del_document d) = None))
     \<and> (\<forall>k. k \<notin> u_document ` set ups \<and> k \<notin> del_document ` set dels \<longrightarrow> stored x k = before k)"

lemma documents_record [simp]: "documents (apply_write run x (Record_Item d st)) = documents x"
  by simp

lemma tracks_failed:
  "run_tracks run ups dels before x \<Longrightarrow> run_tracks run ups dels before (apply_write run x (Record_Item d ''failed''))"
  unfolding run_tracks_def item_states_record documents_record by auto

lemma tracks_status:
  "run_tracks run ups dels before (apply_write run x (Set_Status st)) = run_tracks run ups dels before x"
  by (simp add: run_tracks_def item_states_def update_run_def)

lemma item_states_documents [simp]:
  "item_states (x\<lparr>documents := ds\<rparr>) run d = item_states x run d"
  by (simp add: item_states_def)

lemma tracks_pushed:
  assumes "plan_ids ups dels" and "u \<in> set ups" and "run_tracks run ups dels before x"
  shows "run_tracks run ups dels before
     (apply_write run (apply_write run x (Record_Item (u_document u) ''pushed'')) (Upsert_Document u uri))"
proof -
  let ?x1 = "apply_write run x (Record_Item (u_document u) ''pushed'')"
  let ?x2 = "apply_write run ?x1 (Upsert_Document u uri)"
  have st: "item_states ?x2 run d = item_states ?x1 run d" for d by (simp del: apply_write.simps(1))
  have stored: "stored ?x2 d = (if d = u_document u then Some (Some (u_sha u)) else stored x d)" for d
    by (simp add: stored_upsert)
  have not_del: "\<forall>x \<in> set dels. del_document x \<noteq> u_document u" using assms(1,2) by (auto simp: plan_ids_def)
  have same: "u' = u" if "u' \<in> set ups" "u_document u' = u_document u" for u'
    using that assms(1,2) by (auto simp: plan_ids_def)
  show ?thesis
    using assms(2,3) not_del same unfolding run_tracks_def st item_states_record stored
    by (auto dest!: same)
qed

lemma tracks_deleted:
  assumes "plan_ids ups dels" and "d \<in> del_document ` set dels" and "run_tracks run ups dels before x"
  shows "run_tracks run ups dels before
     (apply_write run (apply_write run x (Record_Item d ''deleted'')) (Purge_Document d))"
proof -
  let ?x1 = "apply_write run x (Record_Item d ''deleted'')"
  let ?x2 = "apply_write run ?x1 (Purge_Document d)"
  have st: "item_states ?x2 run k = item_states ?x1 run k" for k by (simp del: apply_write.simps(1))
  have stored: "stored ?x2 k = (if k = d then None else stored x k)" for k
    by (simp add: stored_purge)
  have "\<forall>u \<in> set ups. u_document u \<noteq> d" using assms(1,2) by (auto simp: plan_ids_def)
  then show ?thesis
    using assms(2,3) unfolding run_tracks_def st item_states_record stored by auto
qed

lemma upload_loop_shape:
  "upload_loop T dir states us s = (ok, ws, k, s') \<Longrightarrow>
     (\<forall>e \<in> set ok. fst e \<in> set us) \<and> (\<forall>w \<in> set ws. \<exists>d. w = Record_Item d ''failed'')"
proof (induction us arbitrary: ok ws k s s')
  case (Cons u us)
  show ?case
  proof (cases "states (u_document u) = Some ''pushed''")
    case True
    then show ?thesis using Cons by (fastforce split: prod.splits)
  next
    case False
    obtain uri s1 where up: "t_upload T (u_object u) (the (map_of (staged_files dir) (u_relpath u))) s = (uri, s1)" by fastforce
    obtain ok1 ws1 k1 s2 where rest: "upload_loop T dir states us s1 = (ok1, ws1, k1, s2)" by (metis prod_cases4)
    show ?thesis using Cons.IH [OF rest] Cons.prems False up rest by (cases uri) auto
  qed
qed simp

lemma tracks_uploads:
  "run_tracks run ups dels before x \<Longrightarrow> \<forall>w \<in> set ws. \<exists>d. w = Record_Item d ''failed'' \<Longrightarrow>
     run_tracks run ups dels before (foldl (apply_write run) x ws)"
proof (induction ws arbitrary: x)
  case (Cons w ws)
  then show ?case using tracks_failed by fastforce
qed simp

lemma tracks_imports:
  assumes "plan_ids ups dels"
  shows "run_tracks run ups dels before x \<Longrightarrow> fst ` set ok \<subseteq> set ups \<Longrightarrow>
     run_tracks run ups dels before (foldl (apply_write run) x
       (concat (map (\<lambda>(u, uri). if u_document u \<in> failures then [Record_Item (u_document u) ''failed'']
                                else [Record_Item (u_document u) ''pushed'', Upsert_Document u uri]) ok)))"
proof (induction ok arbitrary: x)
  case (Cons e ok)
  obtain u uri where e: "e = (u, uri)" by fastforce
  then have u: "u \<in> set ups" "fst ` set ok \<subseteq> set ups" using Cons.prems(2) by auto
  show ?case
  proof (cases "u_document u \<in> failures")
    case True
    then show ?thesis using Cons.IH [OF tracks_failed [OF Cons.prems(1)] u(2)] e by (simp del: apply_write.simps)
  next
    case False
    then show ?thesis using Cons.IH [OF tracks_pushed [OF assms u(1) Cons.prems(1)] u(2)] e by (simp del: apply_write.simps)
  qed
qed simp

lemma import_phase_writes:
  "import_phase T cfg ok s = (ws, s') \<Longrightarrow>
     \<exists>failures. ws = concat (map (\<lambda>(u, uri). if u_document u \<in> failures then [Record_Item (u_document u) ''failed'']
                                else [Record_Item (u_document u) ''pushed'', Upsert_Document u uri]) ok)"
  by (auto simp: import_phase_def Let_def split: if_splits prod.splits)

lemma tracks_deletes:
  assumes "plan_ids ups dels"
  shows "run_tracks run ups dels before x \<Longrightarrow> set xs \<subseteq> set dels \<Longrightarrow> delete_loop T states xs s = (ws, k, s') \<Longrightarrow>
     run_tracks run ups dels before (foldl (apply_write run) x ws)"
proof (induction xs arbitrary: x ws k s s')
  case (Cons d xs)
  have d: "del_document d \<in> del_document ` set dels" "set xs \<subseteq> set dels" using Cons.prems(2) by auto
  show ?case
  proof (cases "states (del_document d) = Some ''deleted''")
    case True
    then show ?thesis using Cons.IH [OF Cons.prems(1) d(2)] Cons.prems(3) by (auto split: prod.splits)
  next
    case False
    obtain ok s1 where del: "t_delete T (del_document d) (del_object d) s = (ok, s1)" by fastforce
    obtain gone s2 where absent: "t_absent T (del_document d) (del_object d) s1 = (gone, s2)" by fastforce
    obtain ws1 k1 t1 where r1: "delete_loop T states xs s1 = (ws1, k1, t1)" by (metis prod_cases3)
    obtain ws2 k2 t2 where r2: "delete_loop T states xs s2 = (ws2, k2, t2)" by (metis prod_cases3)
    note failed = Cons.IH [OF tracks_failed [OF Cons.prems(1), of "del_document d"] d(2)]
    note deleted = Cons.IH [OF tracks_deleted [OF assms d(1) Cons.prems(1)] d(2) r2]
    show ?thesis
      using Cons.prems(3) False del absent r1 r2 failed [OF r1] failed [OF r2] deleted
      by (cases ok; cases gone) (auto simp del: apply_write.simps)
  qed
qed simp

lemma tracks_writes:
  assumes "plan_ids ups dels" and "run_tracks run ups dels before x"
    and "m_upserts (v_manifest v) = ups" and "m_deletes (v_manifest v) = dels"
    and "push_writes T cfg v run x s = (ws, k, s')"
  shows "run_tracks run ups dels before (foldl (apply_write run) x ws)"
proof -
  let ?st = "item_states x run"
  obtain ok ws1 k1 s1 where up: "upload_loop T (v_dir v) ?st ups s = (ok, ws1, k1, s1)" by (metis prod_cases4)
  obtain ws2 s2 where im: "import_phase T cfg ok s1 = (ws2, s2)" by fastforce
  obtain ws3 k3 s3 where dl: "delete_loop T ?st dels s2 = (ws3, k3, s3)" by (metis prod_cases3)
  have ws: "ws = Set_Status ''pushing'' # ws1 @ ws2 @ ws3"
    using assms(3-5) up im dl by (simp add: push_writes_def Let_def)
  note shape = upload_loop_shape [OF up]
  have "run_tracks run ups dels before (apply_write run x (Set_Status ''pushing''))" (is "run_tracks _ _ _ _ ?x0")
    using assms(2) by (simp only: tracks_status)
  then have 1: "run_tracks run ups dels before (foldl (apply_write run) ?x0 ws1)"
    using tracks_uploads shape by blast
  obtain failures where "ws2 = concat (map (\<lambda>(u, uri). if u_document u \<in> failures then [Record_Item (u_document u) ''failed'']
      else [Record_Item (u_document u) ''pushed'', Upsert_Document u uri]) ok)"
    using import_phase_writes [OF im] by blast
  then have 2: "run_tracks run ups dels before (foldl (apply_write run) (foldl (apply_write run) ?x0 ws1) ws2)"
    using tracks_imports [OF assms(1) 1, of ok failures] shape by auto
  have "foldl (apply_write run) x ws
      = foldl (apply_write run) (foldl (apply_write run) (foldl (apply_write run) ?x0 ws1) ws2) ws3"
    by (simp only: ws foldl_append foldl_Cons)
  then show ?thesis using tracks_deletes [OF assms(1) 2 subset_refl dl] by (simp only:)
qed

lemma pin_write:
  "map_option run_manifest_sha (find_run (apply_write run x w) run) = map_option run_manifest_sha (find_run x run)"
  by (cases w) (simp_all add: find_run_update option.map_comp comp_def, simp_all add: find_run_def)

lemma pin_writes:
  "map_option run_manifest_sha (find_run (foldl (apply_write run) x ws) run) = map_option run_manifest_sha (find_run x run)"
  by (induction ws arbitrary: x) (simp_all only: foldl.simps pin_write)

lemma tracks_update_run: "run_tracks run ups dels before (update_run r f x) = run_tracks run ups dels before x"
  by (simp add: run_tracks_def item_states_def update_run_def)

text \<open>What every step keeps of a run planned with manifest \<open>m\<close>.\<close>

definition run_consistent ::
  "export_config \<Rightarrow> int \<Rightarrow> manifest \<Rightarrow> (string \<Rightarrow> string option option) \<Rightarrow> export_db \<Rightarrow> bool" where
  "run_consistent cfg run m before x \<longleftrightarrow>
     map_option run_manifest_sha (find_run x run) = Some (sha cfg (manifest_text (float_repr cfg) m))
     \<and> run_tracks run (m_upserts m) (m_deletes m) before x
     \<and> (\<forall>r. find_run x run = Some r \<longrightarrow> run_status r = ''ok'' \<longrightarrow> remaining_items x run = [])"

lemma verified_manifest:
  assumes "map_of area run = Some dir" and "staged_manifest dir = Some (manifest_text (float_repr cfg) m)"
    and "verify_pushable cfg c inside run x area = Inr v"
  shows "v_manifest v = m"
  using assms manifest_text_reads_back [of "float_value cfg" "float_repr cfg" m]
  by (auto simp: verify_pushable_Inr load_manifest_Inr)

lemma step_consistent:
  assumes "map_of area run = Some dir" and "staged_manifest dir = Some (manifest_text (float_repr cfg) m)"
    and "plan_ids (m_upserts m) (m_deletes m)" and "run_consistent cfg run m before x"
  shows "run_consistent cfg run m before (export_step cfg run area x op)"
proof (cases op)
  case (Approve inside)
  show ?thesis
  proof (cases "approve_run cfg inside run x area")
    case (Inr x')
    then obtain h where x': "x' = update_run run (\<lambda>r. r\<lparr>run_approved_sha := Some h\<rparr>) x"
      by (auto simp: approve_run_def split: option.splits if_splits sum.splits)
    have "remaining_items x' run = remaining_items x run" by (simp add: x' remaining_items_def update_run_def)
    moreover have "find_run x' run = map_option (\<lambda>r. r\<lparr>run_approved_sha := Some h\<rparr>) (find_run x run)"
      by (simp add: x' find_run_update)
    ultimately show ?thesis using assms(4) Approve Inr
      by (auto simp: run_consistent_def x' tracks_update_run option.map_comp comp_def)
  qed (use Approve assms(4) in simp)
next
  case (Push T c inside s)
  show ?thesis
  proof (cases "verify_pushable cfg c inside run x area")
    case (Inl e)
    then show ?thesis using Push assms(4) by (simp add: push_export_def)
  next
    case (Inr v)
    have m: "v_manifest v = m" by (rule verified_manifest [OF assms(1,2) Inr])
    obtain ws k s' where ws: "push_writes T cfg v run x s = (ws, k, s')" by (metis prod_cases3)
    let ?x1 = "foldl (apply_write run) x ws"
    let ?st = "if remaining_items ?x1 run = [] then ''ok'' else ''failed''"
    have x': "export_step cfg run area x op = apply_write run ?x1 (Set_Status ?st)"
      using Push Inr ws by (simp add: push_export_def Let_def)
    have "run_tracks run (m_upserts m) (m_deletes m) before ?x1"
      using assms(4) m by (intro tracks_writes [OF assms(3) _ _ _ ws]) (simp_all add: run_consistent_def)
    then have tracks: "run_tracks run (m_upserts m) (m_deletes m) before (apply_write run ?x1 (Set_Status ?st))"
      by (simp only: tracks_status)
    have status: "run_status r = ?st" if "find_run (apply_write run ?x1 (Set_Status ?st)) run = Some r" for r
      using that by (auto simp: find_run_update)
    have same: "remaining_items (apply_write run ?x1 (Set_Status ?st)) run = remaining_items ?x1 run"
      by (simp add: remaining_items_def update_run_def)
    have pins: "map_option run_manifest_sha (find_run (apply_write run ?x1 (Set_Status ?st)) run)
        = Some (sha cfg (manifest_text (float_repr cfg) m))"
      using assms(4) unfolding pin_write pin_writes run_consistent_def by blast
    have done_if: "remaining_items (apply_write run ?x1 (Set_Status ?st)) run = []"
      if "find_run (apply_write run ?x1 (Set_Status ?st)) run = Some r" "run_status r = ''ok''" for r
      using status [OF that(1)] that(2) unfolding same by (auto split: if_splits)
    show ?thesis unfolding x' run_consistent_def using pins tracks done_if by blast
  qed
qed

lemma steps_consistent:
  assumes "map_of area run = Some dir" and "staged_manifest dir = Some (manifest_text (float_repr cfg) m)"
    and "plan_ids (m_upserts m) (m_deletes m)"
  shows "run_consistent cfg run m before x \<Longrightarrow> run_consistent cfg run m before (foldl (export_step cfg run area) x ops)"
proof (induction ops arbitrary: x)
  case Nil
  then show ?case by simp
next
  case (Cons a ops)
  then show ?case using Cons.IH [OF step_consistent [OF assms Cons.prems]] by simp
qed

lemma item_state_finished:
  assumes "remaining_items x run = []" and "item_states x run d \<noteq> None"
  shows "item_states x run d \<in> {Some ''pushed'', Some ''deleted''}"
proof -
  obtain i where "find (\<lambda>i. item_run i = run \<and> item_document i = d) (items x) = Some i"
    using assms(2) by (auto simp: item_states_def)
  then have "i \<in> set (items x)" "item_run i = run" "item_states x run d = Some (item_state i)"
    by (auto dest: find_Some_in simp: item_states_def)
  then show ?thesis using assms(1) by (auto simp: remaining_items_def filter_empty_conv)
qed

lemma item_states_planned:
  assumes "\<forall>i \<in> set its. item_run i \<noteq> run" and "\<forall>i \<in> set new. item_run i = run \<and> item_state i = ''staged''"
    and "d \<in> item_document ` set new"
  shows "map_option item_state (find (\<lambda>i. item_run i = run \<and> item_document i = d) (its @ new)) = Some ''staged''"
proof -
  have "find (\<lambda>i. item_run i = run \<and> item_document i = d) (its @ new) = find (\<lambda>i. item_run i = run \<and> item_document i = d) new"
    using assms(1) by (induction its) auto
  moreover obtain i where "find (\<lambda>i. item_run i = run \<and> item_document i = d) new = Some i"
    using assms(2,3) by (cases "find (\<lambda>i. item_run i = run \<and> item_document i = d) new") (auto simp: find_None_iff)
  ultimately show ?thesis using assms(2) by (auto dest: find_Some_in)
qed

text \<open>
  C22: Retries end in the plan: however often a planned run is approved and pushed, whatever the
  transport answers each time and however the corpus changes in between, once the run is \<open>ok\<close> the
  recorded external state is exactly the desired state the plan was made for, and reconciling
  it again finds nothing to do.
\<close>

theorem retries_reach_the_plan:
  assumes "plan_export cfg c run mode x area = Inr (res, x0, area')" and "build_desired_documents cfg c = Inr desired"
    and "find_run x run = None" and "\<forall>i \<in> set (items x). item_run i \<noteq> run"
    and "x' = foldl (export_step cfg run area') x0 ops"
    and "find_run x' run = Some r" and "run_status r = ''ok''"
  shows "map_of (current_pushed_state (documents x')) = desired_state desired
     \<and> reconcile_desired_against_pushed desired (current_pushed_state (documents x')) = ([], [], length desired)"
proof -
  obtain ups dels n m where p: "reconcile_desired_against_pushed desired (current_pushed_state (documents x)) = (ups, dels, n)"
    "m = plan_manifest cfg c mode ups dels"
    "x0 = x\<lparr>runs := runs x @ [plan_row cfg c run m], items := items x @ plan_items run m\<rparr>"
    "area' = AList.update run (plan_dir cfg desired m) area"
    using plan_export_Inr [OF assms(1)] assms(2) by (metis sum.inject(2))
  have parts: "m_upserts m = ups" "m_deletes m = dels" using p(2) by (simp_all add: plan_manifest_def)
  note keys = desired_keys [OF assms(2)]
  note ups = reconcile_upserts [OF keys p(1)] and dels = reconcile_deletes [OF p(1)]
  have ids: "plan_ids ups dels" using ups dels by (fastforce simp: plan_ids_def)
  have dir: "map_of area' run = Some (plan_dir cfg desired m)"
    "staged_manifest (plan_dir cfg desired m) = Some (manifest_text (float_repr cfg) m)"
    using p(4) by (simp_all add: update_conv' plan_dir_def Let_def)
  have staged: "item_states x0 run k = Some ''staged''" if "k \<in> u_document ` set ups \<union> del_document ` set dels" for k
  proof -
    have "\<forall>i \<in> set (plan_items run m). item_run i = run \<and> item_state i = ''staged''"
      by (auto simp: plan_items_def upsert_item_def delete_item_def)
    moreover have "k \<in> item_document ` set (plan_items run m)"
      using that by (simp add: plan_items_def parts image_Un image_image upsert_item_def delete_item_def)
    ultimately show ?thesis using item_states_planned [OF assms(4)] by (simp add: item_states_def p(3))
  qed
  have "run_consistent cfg run m (stored x) x0"
  proof -
    have "find_run x0 run = Some (plan_row cfg c run m)"
      using assms(3) by (simp add: p(3) find_run_def find_append_fresh plan_row_def)
    moreover have "run_tracks run ups dels (stored x) x0" using staged by (auto simp: run_tracks_def p(3))
    ultimately show ?thesis by (simp add: run_consistent_def parts plan_row_def)
  qed
  then have final: "run_consistent cfg run m (stored x) x'"
    using steps_consistent [OF dir] ids parts assms(5) by simp
  then have rem: "remaining_items x' run = []" and tracks: "run_tracks run ups dels (stored x) x'"
    using assms(6,7) by (auto simp: run_consistent_def parts)
  have after: "map_of (after_plan (current_pushed_state (documents x)) ups dels) = desired_state desired"
    by (rule after_plan_state [OF keys p(1)])
  have "stored x' k = desired_state desired k" for k
  proof -
    consider (up) u where "u \<in> set ups" "u_document u = k" | (del) d where "d \<in> set dels" "del_document d = k"
      | (other) "k \<notin> u_document ` set ups" "k \<notin> del_document ` set dels" by blast
    then show ?thesis
    proof cases
      case (up u)
      then have "item_states x' run k = Some ''pushed''"
        using tracks item_state_finished [OF rem, of k] by (auto simp: run_tracks_def)
      then have "stored x' k = Some (Some (u_sha u))" using tracks up by (auto simp: run_tracks_def)
      moreover obtain body where "map_of desired k = Some (u, body)" using ups up by blast
      ultimately show ?thesis by (simp add: desired_state_def)
    next
      case (del d)
      then have "item_states x' run k = Some ''deleted''"
        using tracks item_state_finished [OF rem, of k] by (auto simp: run_tracks_def)
      then have "stored x' k = None" using tracks del by (auto simp: run_tracks_def)
      moreover have "map_of desired k = None" using equalityD1 [OF dels] del by (auto simp: image_subset_iff)
      ultimately show ?thesis by (simp add: desired_state_def)
    next
      case other
      have "map_of (after_plan (current_pushed_state (documents x)) ups dels) k = stored x k"
      proof -
        have "\<forall>u \<in> set ups. Some (Some (u_sha u)) = desired_state desired (u_document u)"
          using ups by (auto simp: desired_state_def)
        note map_of_upserted [OF this, of "current_pushed_state (documents x)" k]
        then show ?thesis unfolding after_plan_def
          by (subst map_of_filter_key [where P = "\<lambda>d. d \<notin> del_document ` set dels"]) (simp only: other if_True if_False not_False_eq_True)
      qed
      then show ?thesis using tracks other after by (simp add: run_tracks_def)
    qed
  qed
  then have st: "stored x' = desired_state desired" by blast
  moreover have "reconcile_desired_against_pushed desired (current_pushed_state (documents x')) = ([], [], length desired)"
    by (rule reconcile_matching [OF st])
  ultimately show ?thesis by blast
qed

end
