(* ===== verification/Export_Store.thy ===== *)
theory Export_Store
  imports Export_Push
begin

text \<open>
  What the push relies on of the store behind the transport: the laws of
  \<^verbatim>\<open>ExportTransport\<close> (\<^verbatim>\<open>export/transport.py\<close>) as two locales,
  interpreted on the transport of the tests, and what a push guarantees over any
  store that keeps them.
\<close>

section \<open>A store that answers\<close>

text \<open>While \<open>good\<close> holds no operation fails, and a deleted document is confirmed absent.\<close>

locale cooperative_transport =
  fixes T :: "'s transport" and good :: "'s \<Rightarrow> bool"
  assumes upload_ok: "good s \<Longrightarrow> \<exists>uri s'. t_upload T object body s = (Some uri, s') \<and> good s'"
    and import_ok: "good s \<Longrightarrow> \<exists>s'. t_import T es s = (Some [], s') \<and> good s'"
    and delete_ok: "good s \<Longrightarrow> \<exists>s1 s2. t_delete T d object s = (True, s1) \<and> t_absent T d object s1 = (True, s2) \<and> good s2"

text \<open>The documents of the run whose item is not finished.\<close>

definition unfinished :: "int \<Rightarrow> export_db \<Rightarrow> string set" where
  "unfinished run x = item_document ` set (remaining_items x run)"

lemma unfinished_record:
  "st \<in> {''pushed'', ''deleted''} \<Longrightarrow> unfinished run (apply_write run x (Record_Item d st)) = unfinished run x - {d}"
proof -
  assume "st \<in> {''pushed'', ''deleted''}"
  then have "item_document ` set (filter (\<lambda>i. item_run i = run \<and> item_state i \<notin> {''pushed'', ''deleted''})
        (map (\<lambda>i. if item_run i = run \<and> item_document i = d then i\<lparr>item_state := st\<rparr> else i) rows))
      = item_document ` set (filter (\<lambda>i. item_run i = run \<and> item_state i \<notin> {''pushed'', ''deleted''}) rows) - {d}" for rows
    by (induction rows) auto
  then show ?thesis by (simp add: unfinished_def remaining_items_def)
qed

lemma unfinished_other:
  "(\<And>d st. w \<noteq> Record_Item d st) \<Longrightarrow> unfinished run (apply_write run x w) = unfinished run x"
  by (cases w) (auto simp: unfinished_def remaining_items_def update_run_def simp del: set_filter)

definition only_successes :: "db_write list \<Rightarrow> bool" where
  "only_successes ws \<longleftrightarrow> (\<forall>d st. Record_Item d st \<in> set ws \<longrightarrow> st \<in> {''pushed'', ''deleted''})"

lemma unfinished_writes:
  "only_successes ws \<Longrightarrow>
     unfinished run (foldl (apply_write run) x ws) = unfinished run x - {d. \<exists>st. Record_Item d st \<in> set ws}"
proof (induction ws arbitrary: x)
  case (Cons w ws)
  have ok: "only_successes ws" using Cons.prems by (auto simp: only_successes_def)
  show ?case
  proof (cases "\<exists>d st. w = Record_Item d st")
    case True
    then obtain d st where w: "w = Record_Item d st" by blast
    then have "st \<in> {''pushed'', ''deleted''}" using Cons.prems by (auto simp: only_successes_def)
    from unfinished_record [OF this, of run x d] show ?thesis using Cons.IH [OF ok] w
      by (auto simp del: apply_write.simps)
  next
    case False
    then show ?thesis using Cons.IH [OF ok] unfinished_other [of w run x] by (auto simp del: apply_write.simps)
  qed
qed simp

context cooperative_transport
begin

lemma uploads_complete:
  "good s \<Longrightarrow> \<exists>ok k s'. upload_loop T dir states us s = (ok, [], k, s') \<and> good s'
     \<and> map fst ok = filter (\<lambda>u. states (u_document u) \<noteq> Some ''pushed'') us"
proof (induction us arbitrary: s)
  case (Cons u us)
  show ?case
  proof (cases "states (u_document u) = Some ''pushed''")
    case True
    then show ?thesis using Cons.IH [OF Cons.prems] by (auto simp: Let_def)
  next
    case False
    obtain uri s1 where up: "t_upload T (u_object u) (the (map_of (staged_files dir) (u_relpath u))) s = (Some uri, s1)" "good s1"
      using upload_ok [OF Cons.prems] by blast
    then show ?thesis using Cons.IH [OF up(2)] False by (auto simp: Let_def)
  qed
qed simp

lemma imports_complete:
  assumes "good s"
  shows "\<exists>s'. import_phase T cfg ok s
     = (concat (map (\<lambda>(u, uri). [Record_Item (u_document u) ''pushed'', Upsert_Document u uri]) ok), s') \<and> good s'"
  using import_ok [OF assms, of "map (\<lambda>(u, _). (u_document u, u_object u, metadata_of (float_repr cfg) (gcs_bucket cfg) u)) ok"]
    assms by (auto simp: import_phase_def Let_def)

lemma deletes_complete:
  "good s \<Longrightarrow> \<exists>ws k s'. delete_loop T states ds s = (ws, k, s') \<and> good s' \<and> only_successes ws
     \<and> {d. \<exists>st. Record_Item d st \<in> set ws} = del_document ` {x \<in> set ds. states (del_document x) \<noteq> Some ''deleted''}"
proof (induction ds arbitrary: s)
  case Nil
  then show ?case by (auto simp: only_successes_def)
next
  case (Cons x ds)
  show ?case
  proof (cases "states (del_document x) = Some ''deleted''")
    case True
    obtain ws k s' where rest: "delete_loop T states ds s = (ws, k, s')" "good s'" "only_successes ws"
      "{d. \<exists>st. Record_Item d st \<in> set ws} = del_document ` {x \<in> set ds. states (del_document x) \<noteq> Some ''deleted''}"
      using Cons.IH [OF Cons.prems] by blast
    have "{y \<in> set (x # ds). states (del_document y) \<noteq> Some ''deleted''} = {y \<in> set ds. states (del_document y) \<noteq> Some ''deleted''}"
      using True by auto
    then show ?thesis using True rest by simp
  next
    case False
    obtain s1 s2 where d: "t_delete T (del_document x) (del_object x) s = (True, s1)"
      "t_absent T (del_document x) (del_object x) s1 = (True, s2)" "good s2" using delete_ok [OF Cons.prems] by blast
    obtain ws k s' where rest: "delete_loop T states ds s2 = (ws, k, s')" "good s'" "only_successes ws"
      "{d. \<exists>st. Record_Item d st \<in> set ws} = del_document ` {x \<in> set ds. states (del_document x) \<noteq> Some ''deleted''}"
      using Cons.IH [OF d(3)] by blast
    have "{y \<in> set (x # ds). states (del_document y) \<noteq> Some ''deleted''}
        = insert x {y \<in> set ds. states (del_document y) \<noteq> Some ''deleted''}"
      using False by auto
    moreover have "{e. \<exists>st. Record_Item e st \<in> set ([Record_Item (del_document x) ''deleted'', Purge_Document (del_document x)] @ ws)}
        = insert (del_document x) {e. \<exists>st. Record_Item e st \<in> set ws}" by auto
    ultimately show ?thesis using False d rest by (auto simp: only_successes_def Let_def)
  qed
qed

lemma writes_complete:
  assumes "good s"
  shows "\<exists>ws k s'. push_writes T cfg v run x s = (ws, k, s') \<and> only_successes ws
     \<and> {d. \<exists>st. Record_Item d st \<in> set ws}
       = u_document ` {u \<in> set (m_upserts (v_manifest v)). item_states x run (u_document u) \<noteq> Some ''pushed''}
         \<union> del_document ` {d \<in> set (m_deletes (v_manifest v)). item_states x run (del_document d) \<noteq> Some ''deleted''}
     \<and> (\<exists>ok ws'. ws = Set_Status ''pushing'' # concat (map (\<lambda>(u, uri). [Record_Item (u_document u) ''pushed'', Upsert_Document u uri]) ok) @ ws'
          \<and> map fst ok = filter (\<lambda>u. item_states x run (u_document u) \<noteq> Some ''pushed'') (m_upserts (v_manifest v)))"
proof -
  obtain ok k1 s1 where up: "upload_loop T (v_dir v) (item_states x run) (m_upserts (v_manifest v)) s = (ok, [], k1, s1)" "good s1"
    "map fst ok = filter (\<lambda>u. item_states x run (u_document u) \<noteq> Some ''pushed'') (m_upserts (v_manifest v))"
    using uploads_complete [OF assms] by blast
  let ?ws2 = "concat (map (\<lambda>(u, uri). [Record_Item (u_document u) ''pushed'', Upsert_Document u uri]) ok)"
  obtain s2 where im: "import_phase T cfg ok s1 = (?ws2, s2)" "good s2" using imports_complete [OF up(2)] by blast
  obtain ws3 k3 s3 where dl: "delete_loop T (item_states x run) (m_deletes (v_manifest v)) s2 = (ws3, k3, s3)"
    "only_successes ws3"
    "{d. \<exists>st. Record_Item d st \<in> set ws3}
       = del_document ` {d \<in> set (m_deletes (v_manifest v)). item_states x run (del_document d) \<noteq> Some ''deleted''}"
    using deletes_complete [OF im(2)] by blast
  have "{d. \<exists>st. Record_Item d st \<in> set ?ws2} = u_document ` set (map fst ok)" by (force simp: image_iff)
  moreover have "only_successes ?ws2" by (auto simp: only_successes_def)
  moreover have "{d. \<exists>st. Record_Item d st \<in> set (Set_Status ''pushing'' # ?ws2 @ ws3)}
      = {d. \<exists>st. Record_Item d st \<in> set ?ws2} \<union> {d. \<exists>st. Record_Item d st \<in> set ws3}" by auto
  moreover have "only_successes (Set_Status ''pushing'' # ?ws2 @ ws3)"
    using calculation(2) dl(2) by (auto simp: only_successes_def)
  moreover have "push_writes T cfg v run x s = (Set_Status ''pushing'' # ?ws2 @ ws3, k1 + k3, s3)"
    using up(1) im(1) dl(1) by (simp add: push_writes_def Let_def)
  ultimately show ?thesis using dl(3) up(3)
    by (intro exI [of _ "Set_Status ''pushing'' # ?ws2 @ ws3"] exI [of _ "k1 + k3"] exI [of _ s3]) auto
qed

end

section \<open>A run that can finish finishes\<close>

lemma item_state_of_row:
  assumes "distinct (map item_document (filter (\<lambda>i. item_run i = run) (items x)))"
    and "i \<in> set (items x)" and "item_run i = run"
  shows "item_states x run (item_document i) = Some (item_state i)"
proof -
  have "find (\<lambda>j. item_run j = run \<and> item_document j = item_document i) rows = Some i"
    if "distinct (map item_document (filter (\<lambda>i. item_run i = run) rows))" "i \<in> set rows" for rows
    using that
  proof (induction rows)
    case (Cons j rows)
    show ?case
    proof (cases "i = j")
      case False
      then have i: "i \<in> set rows" using Cons.prems(2) by simp
      then have "item_document j \<noteq> item_document i" if "item_run j = run"
        using Cons.prems(1) that assms(3) by (auto simp: image_iff)
      then show ?thesis using Cons.IH Cons.prems(1) i by (auto split: if_splits)
    qed (use assms(3) in simp)
  qed simp
  then show ?thesis using assms(1,2) by (simp add: item_states_def)
qed

context cooperative_transport
begin

lemma verified_push_completes:
  assumes "good s" and "verify_pushable cfg c inside run x area = Inr v"
    and "item_document ` {i \<in> set (items x). item_run i = run}
       \<subseteq> u_document ` set (m_upserts (v_manifest v)) \<union> del_document ` set (m_deletes (v_manifest v))"
    and "distinct (map item_document (filter (\<lambda>i. item_run i = run) (items x)))"
  shows "\<exists>p x' s'. push_export T cfg c inside run x area s = (Inr p, x', s') \<and> push_status p = ''ok''
     \<and> map_option run_status (find_run x' run) = Some ''ok'' \<and> remaining_items x' run = []"
proof -
  let ?m = "v_manifest v"
  obtain ws k s' where w: "push_writes T cfg v run x s = (ws, k, s')" "only_successes ws"
    "{d. \<exists>st. Record_Item d st \<in> set ws}
       = u_document ` {u \<in> set (m_upserts ?m). item_states x run (u_document u) \<noteq> Some ''pushed''}
         \<union> del_document ` {d \<in> set (m_deletes ?m). item_states x run (del_document d) \<noteq> Some ''deleted''}"
    using writes_complete [OF assms(1)] by blast
  let ?x1 = "foldl (apply_write run) x ws"
  have "d \<in> {d. \<exists>st. Record_Item d st \<in> set ws}" if "d \<in> unfinished run x" for d
  proof -
    obtain i where i: "i \<in> set (items x)" "item_run i = run" "item_document i = d"
      "item_state i \<notin> {''pushed'', ''deleted''}"
      using \<open>d \<in> unfinished run x\<close> by (auto simp: unfinished_def remaining_items_def)
    have "item_states x run d = Some (item_state i)" using item_state_of_row [OF assms(4) i(1,2)] i(3) by simp
    moreover have "d \<in> u_document ` set (m_upserts ?m) \<union> del_document ` set (m_deletes ?m)"
      using subsetD [OF assms(3)] i(1-3) by blast
    ultimately show ?thesis using i(4) unfolding w(3) by auto
  qed
  then have "unfinished run ?x1 = {}" using unfinished_writes [OF w(2)] by blast
  then have none: "remaining_items ?x1 run = []" by (simp add: unfinished_def)
  obtain r where "find_run x run = Some r" using assms(2) by (auto simp: verify_pushable_Inr)
  then have "map_option run_manifest_sha (find_run ?x1 run) = Some (run_manifest_sha r)" by (simp add: pin_writes)
  then obtain r1 where "find_run ?x1 run = Some r1" by blast
  then have "map_option run_status (find_run (apply_write run ?x1 (Set_Status ''ok'')) run) = Some ''ok''"
    by (simp add: find_run_update)
  moreover have "remaining_items (apply_write run ?x1 (Set_Status ''ok'')) run = []"
    using none by (simp add: remaining_items_def update_run_def)
  ultimately show ?thesis using assms(2) w(1) none by (simp add: push_export_def Let_def)
qed

end

text \<open>
  C24: A run that can finish finishes: when the plan verifies, its items are those of the manifest,
  and no operation of the transport fails, one push, first attempt or retry, leaves no item
  behind and records the run as \<open>ok\<close>.
\<close>

theorem cooperative_push_completes:
  assumes "cooperative_transport T good" and "good s" and "verify_pushable cfg c inside run x area = Inr v"
    and "item_document ` {i \<in> set (items x). item_run i = run}
       \<subseteq> u_document ` set (m_upserts (v_manifest v)) \<union> del_document ` set (m_deletes (v_manifest v))"
    and "distinct (map item_document (filter (\<lambda>i. item_run i = run) (items x)))"
  shows "\<exists>p x' s'. push_export T cfg c inside run x area s = (Inr p, x', s') \<and> push_status p = ''ok''
     \<and> map_option run_status (find_run x' run) = Some ''ok'' \<and> remaining_items x' run = []"
  by (rule cooperative_transport.verified_push_completes [OF assms])

definition calm :: "fake_store \<Rightarrow> bool" where
  "calm f \<longleftrightarrow> fail_upload_ids f = [] \<and> fail_import_ids f = [] \<and> fail_delete_ids f = [] \<and> linger_ids f = []"

interpretation fake: cooperative_transport "fake_transport bucket" calm for bucket
proof
  fix s :: fake_store and object body d es
  assume "calm s"
  then show "\<exists>uri s'. t_upload (fake_transport bucket) object body s = (Some uri, s') \<and> calm s'"
    and "\<exists>s'. t_import (fake_transport bucket) es s = (Some [], s') \<and> calm s'"
    and "\<exists>s1 s2. t_delete (fake_transport bucket) d object s = (True, s1)
        \<and> t_absent (fake_transport bucket) d object s1 = (True, s2) \<and> calm s2"
    by (simp_all add: fake_transport_def fake_upload_def fake_import_def fake_delete_def fake_absent_def calm_def
        delete_conv')
qed

lemma calm_store_calm: "calm calm_store"
  by (simp add: calm_def calm_store_def)

lemma reconcile_distinct:
  assumes "distinct (map fst desired)" and "\<forall>(d, u, body) \<in> set desired. u_document u = d"
    and "reconcile_desired_against_pushed desired current = (ups, dels, n)"
  shows "distinct (map u_document ups)"
proof -
  have key: "u_document (fst (the (map_of desired d))) = d" if "d \<in> fst ` set desired" for d
  proof -
    have "map_of desired d \<noteq> None" using that by (simp add: map_of_eq_None_iff)
    then obtain x where x: "map_of desired d = Some x" by blast
    then show ?thesis using bspec [OF assms(2) map_of_SomeD [OF x]] by (cases x) simp
  qed
  have "map u_document ups = filter (\<lambda>d. \<not> is_unchanged current d (fst (the (map_of desired d)))) (sort (map fst desired))"
  proof -
    have "map u_document (map snd (filter (\<lambda>(d, u). \<not> is_unchanged current d u)
            (map (\<lambda>d. (d, fst (the (map_of desired d)))) ds)))
        = filter (\<lambda>d. \<not> is_unchanged current d (fst (the (map_of desired d)))) ds" if "set ds \<subseteq> fst ` set desired" for ds
      using that key by (induction ds) auto
    then have "map u_document (map snd (filter (\<lambda>(d, u). \<not> is_unchanged current d u) (ordered_desired desired)))
        = filter (\<lambda>d. \<not> is_unchanged current d (fst (the (map_of desired d)))) (sort (map fst desired))"
      unfolding ordered_desired_def by simp
    moreover have "map snd (filter (\<lambda>(d, u). \<not> is_unchanged current d u) (ordered_desired desired)) = ups"
      using assms(3) unfolding reconcile_eq by simp
    ultimately show ?thesis by (simp only:)
  qed
  then show ?thesis using assms(1) by simp
qed

lemma sample_run_items:
  assumes "plan_export sample_config sample_corpus 1 ''reconcile'' empty_db [] = Inr (res, x0, area)"
    and "approve_run sample_config (\<lambda>_. True) 1 x0 area = Inr x1"
    and "verify_pushable sample_config sample_corpus (\<lambda>_. True) 1 x1 area = Inr v"
  shows "item_document ` {i \<in> set (items x1). item_run i = 1}
       \<subseteq> u_document ` set (m_upserts (v_manifest v)) \<union> del_document ` set (m_deletes (v_manifest v))"
    and "distinct (map item_document (filter (\<lambda>i. item_run i = 1) (items x1)))"
proof -
  obtain desired ups dels n m where p: "build_desired_documents sample_config sample_corpus = Inr desired"
    "reconcile_desired_against_pushed desired (current_pushed_state (documents empty_db)) = (ups, dels, n)"
    "m = plan_manifest sample_config sample_corpus ''reconcile'' ups dels"
    "x0 = empty_db\<lparr>runs := runs empty_db @ [plan_row sample_config sample_corpus 1 m],
                   items := items empty_db @ plan_items 1 m\<rparr>"
    "area = AList.update 1 (plan_dir sample_config desired m) []"
    using plan_export_Inr [OF assms(1)] by metis
  have parts: "m_upserts m = ups" "m_deletes m = dels" using p(3) by (simp_all add: plan_manifest_def)
  have dir: "map_of area 1 = Some (plan_dir sample_config desired m)"
    "staged_manifest (plan_dir sample_config desired m) = Some (manifest_text (float_repr sample_config) m)"
    using p(5) by (simp_all add: plan_dir_def Let_def)
  have m: "v_manifest v = m" by (rule verified_manifest [OF dir assms(3)])
  have x1: "items x1 = plan_items 1 m"
    using assms(2) by (auto simp: approve_run_def p(4) empty_db_def update_run_def split: option.splits sum.splits if_splits)
  have docs: "map item_document (plan_items 1 m) = map u_document ups @ map del_document dels"
    by (simp add: plan_items_def parts upsert_item_def delete_item_def)
  have all: "filter (\<lambda>i. item_run i = 1) (plan_items 1 m) = plan_items 1 m"
    by (auto simp: plan_items_def upsert_item_def delete_item_def)
  have "dels = []" using p(2) by (simp add: reconcile_eq empty_db_def current_pushed_state_def)
  moreover have "distinct (map u_document ups)"
    using reconcile_distinct [OF desired_distinct [OF p(1)] desired_keys [OF p(1)] p(2)] by simp
  ultimately show "distinct (map item_document (filter (\<lambda>i. item_run i = 1) (items x1)))"
    unfolding x1 all docs by simp
  have "item_document ` {i \<in> set (items x1). item_run i = 1} \<subseteq> set (map item_document (plan_items 1 m))"
    unfolding x1 by auto
  then show "item_document ` {i \<in> set (items x1). item_run i = 1}
       \<subseteq> u_document ` set (m_upserts (v_manifest v)) \<union> del_document ` set (m_deletes (v_manifest v))"
    unfolding docs m parts by simp
qed

theorem cooperative_push_completes_witness:
  "\<exists>res x0 area x1 p x' s'. plan_export sample_config sample_corpus 1 ''reconcile'' empty_db [] = Inr (res, x0, area)
     \<and> approve_run sample_config (\<lambda>_. True) 1 x0 area = Inr x1
     \<and> push_export (fake_transport ''b'') sample_config sample_corpus (\<lambda>_. True) 1 x1 area calm_store = (Inr p, x', s')
     \<and> push_status p = ''ok'' \<and> remaining_items x' 1 = []"
proof -
  obtain res x0 area x1 v where p: "plan_export sample_config sample_corpus 1 ''reconcile'' empty_db [] = Inr (res, x0, area)"
    "approve_run sample_config (\<lambda>_. True) 1 x0 area = Inr x1"
    "verify_pushable sample_config sample_corpus (\<lambda>_. True) 1 x1 area = Inr v" using sample_pushable by blast
  from cooperative_push_completes [OF fake.cooperative_transport_axioms [of "''b''"] calm_store_calm p(3) sample_run_items [OF p]] p(1,2)
  show ?thesis by blast
qed

theorem retries_reach_the_plan_witness:
  "\<exists>res x0 area x'. plan_export sample_config sample_corpus 1 ''reconcile'' empty_db [] = Inr (res, x0, area)
     \<and> x' = foldl (export_step sample_config 1 area) x0
          [Approve (\<lambda>_. True), Push (fake_transport ''b'') sample_corpus (\<lambda>_. True) calm_store]
     \<and> map_of (current_pushed_state (documents x')) = desired_state sample_desired
     \<and> reconcile_desired_against_pushed sample_desired (current_pushed_state (documents x')) = ([], [], 2)"
proof -
  obtain res x0 area x1 v where p: "plan_export sample_config sample_corpus 1 ''reconcile'' empty_db [] = Inr (res, x0, area)"
    "approve_run sample_config (\<lambda>_. True) 1 x0 area = Inr x1"
    "verify_pushable sample_config sample_corpus (\<lambda>_. True) 1 x1 area = Inr v" using sample_pushable by blast
  obtain q x' s' where q:
    "push_export (fake_transport ''b'') sample_config sample_corpus (\<lambda>_. True) 1 x1 area calm_store = (Inr q, x', s')"
    "map_option run_status (find_run x' 1) = Some ''ok''"
    using fake.verified_push_completes [of calm_store, where bucket = "''b''", OF calm_store_calm p(3) sample_run_items [OF p]] by blast
  obtain r where r: "find_run x' 1 = Some r" "run_status r = ''ok''" using q(2) by auto
  have "find_run empty_db 1 = None" "\<forall>i \<in> set (items empty_db). item_run i \<noteq> 1" by (simp_all add: find_run_def empty_db_def)
  moreover have x': "x' = foldl (export_step sample_config 1 area) x0
      [Approve (\<lambda>_. True), Push (fake_transport ''b'') sample_corpus (\<lambda>_. True) calm_store]"
    using p(2) q(1) by simp
  ultimately have "map_of (current_pushed_state (documents x')) = desired_state sample_desired
     \<and> reconcile_desired_against_pushed sample_desired (current_pushed_state (documents x')) = ([], [], length sample_desired)"
    by (rule retries_reach_the_plan [OF p(1) sample_built _ _ _ r])
  then show ?thesis using p(1) x' sample_desired_facts(1) by auto
qed

section \<open>A store that does as it is told\<close>

text \<open>
  \<open>live s d\<close>: the data store has document \<open>d\<close>. An upload only writes the bucket, an import adds
  no document it was not given, a delete adds none, and absence is only reported of a document
  that is gone.
\<close>

locale document_store =
  fixes T :: "'s transport" and live :: "'s \<Rightarrow> string \<Rightarrow> bool"
  assumes upload_adds: "live (snd (t_upload T object body s)) d \<Longrightarrow> live s d"
    and import_adds: "live (snd (t_import T es s)) d \<Longrightarrow> live s d \<or> d \<in> fst ` set es"
    and delete_adds: "live (snd (t_delete T k object s)) d \<Longrightarrow> live s d"
    and absent_adds: "live (snd (t_absent T k object s)) d \<Longrightarrow> live s d"
    and absent_gone: "t_absent T d object s = (True, s') \<Longrightarrow> \<not> live s' d"
begin

lemma uploads_add:
  "upload_loop T dir states us s = (ok, ws, k, s') \<Longrightarrow>
     (live s' d \<longrightarrow> live s d) \<and> (\<forall>e \<in> set ok. fst e \<in> set us) \<and> (\<forall>d st. Record_Item d st \<in> set ws \<longrightarrow> st = ''failed'')"
proof (induction us arbitrary: ok ws k s s')
  case (Cons u us)
  obtain uri s1 where up: "t_upload T (u_object u) (the (map_of (staged_files dir) (u_relpath u))) s = (uri, s1)" by fastforce
  obtain ok1 ws1 k1 t1 where rest: "upload_loop T dir states us s1 = (ok1, ws1, k1, t1)" by (metis prod_cases4)
  obtain ok2 ws2 k2 t2 where rest2: "upload_loop T dir states us s = (ok2, ws2, k2, t2)" by (metis prod_cases4)
  show ?case
    using Cons.IH [OF rest] Cons.IH [OF rest2] Cons.prems up rest rest2
      upload_adds [of "u_object u" "the (map_of (staged_files dir) (u_relpath u))" s d]
    by (cases "states (u_document u) = Some ''pushed''"; cases uri) auto
qed simp

lemma imports_add:
  assumes "import_phase T cfg ok s = (ws, s')"
  shows "live s' d \<Longrightarrow> live s d \<or> d \<in> (\<lambda>e. u_document (fst e)) ` set ok"
    and "Record_Item e ''deleted'' \<notin> set ws"
proof -
  obtain failures where "ws = concat (map (\<lambda>(u, uri). if u_document u \<in> failures then [Record_Item (u_document u) ''failed'']
      else [Record_Item (u_document u) ''pushed'', Upsert_Document u uri]) ok)"
    using import_phase_writes [OF assms] by blast
  then show "Record_Item e ''deleted'' \<notin> set ws" by (auto split: if_splits)
  assume live: "live s' d"
  let ?es = "map (\<lambda>(u, _). (u_document u, u_object u, metadata_of (float_repr cfg) (gcs_bucket cfg) u)) ok"
  have "s' = s \<or> s' = snd (t_import T ?es s)"
    using assms by (auto simp: import_phase_def Let_def split: if_splits prod.splits)
  moreover have "fst ` set ?es = (\<lambda>e. u_document (fst e)) ` set ok" by (force simp: image_iff)
  ultimately show "live s d \<or> d \<in> (\<lambda>e. u_document (fst e)) ` set ok" using live import_adds [of ?es s d] by auto
qed

lemma deletes_add:
  "delete_loop T states ds s = (ws, k, s') \<Longrightarrow>
     (live s' d \<longrightarrow> live s d) \<and> (Record_Item d ''deleted'' \<in> set ws \<longrightarrow> \<not> live s' d)"
proof (induction ds arbitrary: ws k s s')
  case (Cons x ds)
  obtain ok s1 where del: "t_delete T (del_document x) (del_object x) s = (ok, s1)" by fastforce
  obtain gone s2 where ab: "t_absent T (del_document x) (del_object x) s1 = (gone, s2)" by fastforce
  obtain ws0 k0 t0 where r0: "delete_loop T states ds s = (ws0, k0, t0)" by (metis prod_cases3)
  obtain ws1 k1 t1 where r1: "delete_loop T states ds s1 = (ws1, k1, t1)" by (metis prod_cases3)
  obtain ws2 k2 t2 where r2: "delete_loop T states ds s2 = (ws2, k2, t2)" by (metis prod_cases3)
  have "live s1 d \<Longrightarrow> live s d" using delete_adds [of "del_document x" "del_object x" s d] del by simp
  moreover have "live s2 d \<Longrightarrow> live s1 d" using absent_adds [of "del_document x" "del_object x" s1 d] ab by simp
  moreover have "gone \<Longrightarrow> d = del_document x \<Longrightarrow> \<not> live s2 d"
    using absent_gone [of "del_document x" "del_object x" s1 s2] ab by auto
  ultimately show ?case
    using Cons.IH [OF r0] Cons.IH [OF r1] Cons.IH [OF r2] Cons.prems del ab r0 r1 r2
    by (cases "states (del_document x) = Some ''deleted''"; cases ok; cases gone) auto
qed simp

lemma writes_add:
  assumes "push_writes T cfg v run x s = (ws, k, s')"
  shows "live s' d \<Longrightarrow> live s d \<or> d \<in> u_document ` set (m_upserts (v_manifest v))"
    and "Record_Item d ''deleted'' \<in> set ws \<Longrightarrow> \<not> live s' d"
proof -
  obtain ok ws1 k1 s1 where up: "upload_loop T (v_dir v) (item_states x run) (m_upserts (v_manifest v)) s = (ok, ws1, k1, s1)"
    by (metis prod_cases4)
  obtain ws2 s2 where im: "import_phase T cfg ok s1 = (ws2, s2)" by fastforce
  obtain ws3 k3 s3 where dl: "delete_loop T (item_states x run) (m_deletes (v_manifest v)) s2 = (ws3, k3, s3)"
    by (metis prod_cases3)
  have ws: "ws = Set_Status ''pushing'' # ws1 @ ws2 @ ws3" "s' = s3"
    using assms up im dl by (simp_all add: push_writes_def Let_def)
  show "live s d \<or> d \<in> u_document ` set (m_upserts (v_manifest v))" if "live s' d"
    using that ws(2) uploads_add [OF up, of d] imports_add(1) [OF im, of d] deletes_add [OF dl, of d] by blast
  show "\<not> live s' d" if "Record_Item d ''deleted'' \<in> set ws"
    using that ws uploads_add [OF up, of d] imports_add(2) [OF im, of d] deletes_add [OF dl, of d] by auto
qed

end

interpretation fake_ds: document_store "fake_transport bucket" "\<lambda>f d. map_of (f_imported f) d \<noteq> None" for bucket
proof
  fix s s' :: fake_store and object body d k and es :: "(string \<times> string \<times> string) list"
  let ?T = "fake_transport bucket"
  show "map_of (f_imported (snd (t_upload ?T object body s))) d \<noteq> None \<Longrightarrow> map_of (f_imported s) d \<noteq> None"
    and "map_of (f_imported (snd (t_absent ?T k object s))) d \<noteq> None \<Longrightarrow> map_of (f_imported s) d \<noteq> None"
    and "t_absent ?T d object s = (True, s') \<Longrightarrow> \<not> map_of (f_imported s') d \<noteq> None"
    by (auto simp: fake_transport_def fake_upload_def fake_absent_def split: if_splits)
  show "map_of (f_imported (snd (t_delete ?T k object s))) d \<noteq> None \<Longrightarrow> map_of (f_imported s) d \<noteq> None"
    by (simp add: fake_transport_def fake_delete_def delete_conv' split: if_splits)
  have "map_of (foldl (\<lambda>im (d, _, line). AList.update d line im) im es) d \<noteq> None \<Longrightarrow>
      map_of im d \<noteq> None \<or> d \<in> fst ` set es" for im and es :: "(string \<times> string \<times> string) list"
  proof (induction es arbitrary: im)
    case (Cons e es)
    show ?case using Cons.IH [of "AList.update (fst e) (snd (snd e)) im"] Cons.prems
      by (cases e) (auto simp: update_conv' split: if_splits)
  qed simp
  moreover have "fst ` set (filter P es) \<subseteq> fst ` set es" for P by auto
  ultimately have "map_of (foldl (\<lambda>im (d, _, line). AList.update d line im) (f_imported s) (filter P es)) d \<noteq> None \<Longrightarrow>
      map_of (f_imported s) d \<noteq> None \<or> d \<in> fst ` set es" for P
    by blast
  then show "map_of (f_imported (snd (t_import ?T es s))) d \<noteq> None \<Longrightarrow> map_of (f_imported s) d \<noteq> None \<or> d \<in> fst ` set es"
    by (simp add: fake_transport_def fake_import_def)
qed

lemma item_states_other:
  "(\<And>d st. w \<noteq> Record_Item d st) \<Longrightarrow> item_states (apply_write run x w) run k = item_states x run k"
  by (cases w) (auto simp: item_states_def update_run_def)

lemma item_states_written:
  assumes "item_states (foldl (apply_write run) x ws) run d = Some st"
  shows "item_states x run d = Some st \<or> Record_Item d st \<in> set ws"
  using assms
proof (induction ws arbitrary: x)
  case (Cons w ws)
  then have "item_states (apply_write run x w) run d = Some st \<or> Record_Item d st \<in> set ws" by simp
  moreover have "item_states (apply_write run x w) run d = Some st \<Longrightarrow> item_states x run d = Some st \<or> w = Record_Item d st"
  proof (cases "\<exists>k t. w = Record_Item k t")
    case True
    then obtain k t where w: "w = Record_Item k t" by blast
    show "item_states (apply_write run x w) run d = Some st \<Longrightarrow> ?thesis"
      unfolding w item_states_record by (auto split: if_splits)
  next
    case False
    then show "item_states (apply_write run x w) run d = Some st \<Longrightarrow> ?thesis" using item_states_other by auto
  qed
  ultimately show ?case by auto
qed simp

text \<open>
  C23: A push is confined to its manifest, whatever fails on the way: over any store that keeps the
  transport's laws, a document live after the push was live before it or is an upsert of the
  staged manifest, and a delete that this push records as done is of a document that is gone.
\<close>

theorem push_is_confined:
  assumes "document_store T live" and "push_export T cfg c inside run x area s = (Inr p, x', s')"
  shows "\<exists>m h dir. load_manifest cfg area run = Inr (m, h, dir)
     \<and> (\<forall>d. live s' d \<longrightarrow> live s d \<or> d \<in> u_document ` set (m_upserts m))
     \<and> (\<forall>d. item_states x' run d = Some ''deleted'' \<and> item_states x run d \<noteq> Some ''deleted'' \<longrightarrow> \<not> live s' d)"
proof -
  obtain v where v: "verify_pushable cfg c inside run x area = Inr v"
    using assms(2) by (auto simp: push_export_def split: sum.splits)
  obtain ws k t where w: "push_writes T cfg v run x s = (ws, k, t)" by (metis prod_cases3)
  have eqs: "s' = t" "\<exists>st. x' = apply_write run (foldl (apply_write run) x ws) (Set_Status st)"
    using assms(2) v w by (auto simp: push_export_def Let_def)
  obtain m h dir where m: "load_manifest cfg area run = Inr (m, h, dir)" "v_manifest v = m"
    using v by (auto simp: verify_pushable_Inr)
  have gone: "\<not> live s' d" if "item_states x' run d = Some ''deleted''" "item_states x run d \<noteq> Some ''deleted''" for d
  proof -
    have "item_states (foldl (apply_write run) x ws) run d = Some ''deleted''"
      using that(1) eqs(2) by (auto simp: item_states_def update_run_def)
    then have "Record_Item d ''deleted'' \<in> set ws" using item_states_written that(2) by blast
    then show ?thesis using document_store.writes_add(2) [OF assms(1) w] eqs(1) by blast
  qed
  have "live s d \<or> d \<in> u_document ` set (m_upserts m)" if "live s' d" for d
    using that document_store.writes_add(1) [OF assms(1) w] eqs(1) m(2) by blast
  then show ?thesis using m(1) gone by blast
qed

theorem push_is_confined_witness:
  "\<exists>res x0 area x1 p x' s' m h dir. plan_export sample_config sample_corpus 1 ''reconcile'' empty_db [] = Inr (res, x0, area)
     \<and> approve_run sample_config (\<lambda>_. True) 1 x0 area = Inr x1
     \<and> push_export (fake_transport ''b'') sample_config sample_corpus (\<lambda>_. True) 1 x1 area calm_store = (Inr p, x', s')
     \<and> load_manifest sample_config area 1 = Inr (m, h, dir)
     \<and> dom (map_of (f_imported s')) \<subseteq> u_document ` set (m_upserts m)"
proof -
  obtain res x0 area x1 v where p: "plan_export sample_config sample_corpus 1 ''reconcile'' empty_db [] = Inr (res, x0, area)"
    "approve_run sample_config (\<lambda>_. True) 1 x0 area = Inr x1"
    "verify_pushable sample_config sample_corpus (\<lambda>_. True) 1 x1 area = Inr v" using sample_pushable by blast
  obtain q x' s' where q:
    "push_export (fake_transport ''b'') sample_config sample_corpus (\<lambda>_. True) 1 x1 area calm_store = (Inr q, x', s')"
    using fake.verified_push_completes [of calm_store, where bucket = "''b''", OF calm_store_calm p(3) sample_run_items [OF p]] by blast
  obtain m h dir where m: "load_manifest sample_config area 1 = Inr (m, h, dir)"
    "\<forall>d. map_of (f_imported s') d \<noteq> None \<longrightarrow> map_of (f_imported calm_store) d \<noteq> None \<or> d \<in> u_document ` set (m_upserts m)"
    using push_is_confined [OF fake_ds.document_store_axioms [of "''b''"] q] by blast
  have "dom (map_of (f_imported s')) \<subseteq> u_document ` set (m_upserts m)"
    using m(2) by (auto simp: calm_store_def)
  then show ?thesis using p(1,2) q m(1) by blast
qed

section \<open>What the records miss\<close>

text \<open>
  C39: A purge push needs no approval whatever it uploads: the plan of a revocation is made like any
  other, so it carries every document that became eligible since the last push, and it passes the
  checks of the push as it is planned, without the owner's approval.
\<close>

theorem purge_plan_pushes_unapproved_uploads:
  assumes "wf_corpus c" and "plan_export cfg c run ''purge'' x area = Inr (res, x0, area')"
    and "find_run x run = None" and "\<forall>i \<in> set (items x). item_run i \<noteq> run" and "\<And>p. inside p"
  shows "verify_push_preconditions cfg c inside run x0 area'
         = Inr \<lparr>pf_mode = ''purge'', pf_manifest_sha = result_manifest_sha res, pf_upserts = result_upserts res,
                pf_deletes = result_deletes res, pf_done = 0, pf_reasons = []\<rparr>"
proof -
  have "result_reasons res = []" using plan_export_Inr [OF assms(2)] by (metis compute_approval_requirements_def)
  then show ?thesis using fresh_plan_verified [OF assms] by simp
qed

lemma sample_purge_plan:
  "\<exists>res x0 area. plan_export sample_config sample_corpus 1 ''purge'' empty_db [] = Inr (res, x0, area)
     \<and> result_upserts res = 2"
  using sample_plan by (auto simp: plan_export_def Let_def sample_built split: prod.splits)

theorem purge_plan_pushes_unapproved_uploads_witness:
  "\<exists>res x0 area pf. plan_export sample_config sample_corpus 1 ''purge'' empty_db [] = Inr (res, x0, area)
     \<and> verify_push_preconditions sample_config sample_corpus (\<lambda>_. True) 1 x0 area = Inr pf
     \<and> pf_upserts pf = 2 \<and> pf_reasons pf = []"
proof -
  obtain res x0 area where p: "plan_export sample_config sample_corpus 1 ''purge'' empty_db [] = Inr (res, x0, area)"
    "result_upserts res = 2" using sample_purge_plan by blast
  have "find_run empty_db 1 = None" "\<forall>i \<in> set (items empty_db). item_run i \<noteq> 1" by (simp_all add: find_run_def empty_db_def)
  from purge_plan_pushes_unapproved_uploads [OF sample_corpus_wf p(1) this, of "\<lambda>_. True"] p show ?thesis by auto
qed

lemma stored_write:
  assumes "\<And>u uri. w = Upsert_Document u uri \<Longrightarrow> u_document u \<noteq> d" and "stored x d = None"
  shows "stored (apply_write run x w) d = None"
proof (cases w)
  case (Upsert_Document u uri)
  then show ?thesis using assms by (simp add: stored_upsert)
next
  case (Purge_Document k)
  then show ?thesis using assms(2) by (simp add: stored_purge)
qed (use assms(2) in \<open>simp_all add: update_run_def\<close>)

lemma stored_writes:
  "\<forall>u uri. Upsert_Document u uri \<in> set ws \<longrightarrow> u_document u \<noteq> d \<Longrightarrow> stored x d = None \<Longrightarrow>
     stored (foldl (apply_write run) x ws) d = None"
proof (induction ws arbitrary: x)
  case (Cons w ws)
  have "stored (apply_write run x w) d = None" by (rule stored_write) (use Cons.prems in auto)
  moreover have "\<forall>u uri. Upsert_Document u uri \<in> set ws \<longrightarrow> u_document u \<noteq> d" using Cons.prems(1) by simp
  ultimately show ?case using Cons.IH by (simp only: foldl_Cons)
qed simp

lemma deletes_upsert_nothing:
  "delete_loop T states ds s = (ws, k, s') \<Longrightarrow> Upsert_Document u uri \<notin> set ws"
proof (induction ds arbitrary: ws k s s')
  case (Cons x ds)
  then show ?case by (auto simp: Let_def split: if_splits prod.splits bool.splits)
qed simp

lemma uploads_leave_pushed:
  "upload_loop T dir states us s = (ok, ws, k, s') \<Longrightarrow> \<forall>e \<in> set ok. states (u_document (fst e)) \<noteq> Some ''pushed''"
proof (induction us arbitrary: ok ws k s s')
  case (Cons u us)
  show ?case
  proof (cases "states (u_document u) = Some ''pushed''")
    case True
    then show ?thesis using Cons by (fastforce split: prod.splits)
  next
    case False
    obtain uri s1 where up: "t_upload T (u_object u) (the (map_of (staged_files dir) (u_relpath u))) s = (uri, s1)" by fastforce
    obtain ok1 ws1 k1 s2 where rest: "upload_loop T dir states us s1 = (ok1, ws1, k1, s2)" by (metis prod_cases4)
    show ?thesis using Cons.IH [OF rest] Cons.prems False up rest by (cases uri) auto
  qed
qed simp

lemma pushed_items_not_upserted:
  assumes "push_writes T cfg v run x s = (ws, k, s')" and "item_states x run (u_document u) = Some ''pushed''"
  shows "Upsert_Document u uri \<notin> set ws"
proof -
  obtain ok ws1 k1 s1 where up: "upload_loop T (v_dir v) (item_states x run) (m_upserts (v_manifest v)) s = (ok, ws1, k1, s1)"
    by (metis prod_cases4)
  obtain ws2 s2 where im: "import_phase T cfg ok s1 = (ws2, s2)" by fastforce
  obtain ws3 k3 s3 where dl: "delete_loop T (item_states x run) (m_deletes (v_manifest v)) s2 = (ws3, k3, s3)"
    by (metis prod_cases3)
  have ws: "ws = Set_Status ''pushing'' # ws1 @ ws2 @ ws3" using assms(1) up im dl by (simp add: push_writes_def Let_def)
  have "Upsert_Document u uri \<notin> set ws2"
    using import_phase_writes [OF im] uploads_leave_pushed [OF up] assms(2) by (fastforce split: if_splits)
  moreover have "Upsert_Document u uri \<notin> set ws1" using upload_loop_shape [OF up] by blast
  ultimately show ?thesis using deletes_upsert_nothing [OF dl] by (simp add: ws)
qed

text \<open>
  C38: A push that dies between its two statements for a document the database had no row of, the item
  marked \<open>pushed\<close> and the \<open>export_document\<close> row not yet written, hides that document: the retry of the run
  skips it, so it stays unrecorded however the retry ends, and no plan reconciled with the state then
  reached deletes it, whatever it desires.
\<close>

theorem crash_hides_a_document:
  assumes "verify_pushable cfg c inside run x area = Inr v"
    and "push_writes T cfg v run x s = (pre @ Record_Item (u_document u) ''pushed'' # Upsert_Document u uri # post, k, s1)"
    and "\<forall>u' uri'. Upsert_Document u' uri' \<in> set pre \<longrightarrow> u_document u' \<noteq> u_document u"
    and "stored x (u_document u) = None" and "item_states x run (u_document u) \<noteq> None"
    and "xc = foldl (apply_write run) x (pre @ [Record_Item (u_document u) ''pushed''])"
    and "push_export T' cfg' c' inside' run xc area' s2 = (res, x', s')"
  shows "stored x' (u_document u) = None
     \<and> (\<forall>desired. u_document u \<notin> del_document ` set (fst (snd (reconcile_desired_against_pushed desired
                                                             (current_pushed_state (documents x'))))))"
proof -
  let ?d = "u_document u"
  have "item_states (foldl (apply_write run) x pre) run ?d \<noteq> None"
    using assms(5)
  proof (induction pre arbitrary: x)
    case (Cons w pre)
    have "item_states (apply_write run x w) run ?d \<noteq> None"
    proof (cases "\<exists>k t. w = Record_Item k t")
      case True
      then show ?thesis using Cons.prems by (auto simp: item_states_record simp del: apply_write.simps)
    next
      case False
      then show ?thesis using Cons.prems item_states_other [of w run x ?d] by auto
    qed
    then show ?case using Cons.IH by (simp only: foldl_Cons)
  qed simp
  then have pushed: "item_states xc run ?d = Some ''pushed''"
    by (simp add: assms(6) item_states_record del: apply_write.simps)
  have xc: "stored xc ?d = None"
    unfolding assms(6) by (rule stored_writes) (use assms(3,4) in auto)
  have st: "stored x' ?d = None"
  proof (cases "verify_pushable cfg' c' inside' run xc area'")
    case (Inl e)
    then show ?thesis using assms(7) xc by (simp add: push_export_def)
  next
    case (Inr v')
    obtain ws k' t where w: "push_writes T' cfg' v' run xc s2 = (ws, k', t)" by (metis prod_cases3)
    have "x' = apply_write run (foldl (apply_write run) xc ws)
        (Set_Status (if remaining_items (foldl (apply_write run) xc ws) run = [] then ''ok'' else ''failed''))"
      using assms(7) Inr w by (simp add: push_export_def Let_def)
    moreover have "\<forall>u' uri'. Upsert_Document u' uri' \<in> set ws \<longrightarrow> u_document u' \<noteq> ?d"
      using pushed_items_not_upserted [OF w] pushed by metis
    ultimately show ?thesis by (auto intro!: stored_write stored_writes xc simp del: apply_write.simps)
  qed
  moreover have "?d \<notin> del_document ` set (fst (snd (reconcile_desired_against_pushed desired (current_pushed_state (documents x')))))" for desired
    using st by (force simp: reconcile_eq map_of_eq_None_iff)
  ultimately show ?thesis by blast
qed

theorem crash_hides_a_document_witness:
  "\<exists>x1 area v pre u uri post k s1 xc. verify_pushable sample_config sample_corpus (\<lambda>_. True) 1 x1 area = Inr v
     \<and> push_writes (fake_transport ''b'') sample_config v 1 x1 calm_store
       = (pre @ Record_Item (u_document u) ''pushed'' # Upsert_Document u uri # post, k, s1)
     \<and> xc = foldl (apply_write 1) x1 (pre @ [Record_Item (u_document u) ''pushed''])
     \<and> stored (fst (snd (push_export (fake_transport ''b'') sample_config sample_corpus (\<lambda>_. True) 1 xc area s1))) (u_document u) = None"
proof -
  obtain res x0 area x1 v where p: "plan_export sample_config sample_corpus 1 ''reconcile'' empty_db [] = Inr (res, x0, area)"
    "approve_run sample_config (\<lambda>_. True) 1 x0 area = Inr x1"
    "verify_pushable sample_config sample_corpus (\<lambda>_. True) 1 x1 area = Inr v" using sample_pushable by blast
  obtain desired ups dels n m where d: "build_desired_documents sample_config sample_corpus = Inr desired"
    "reconcile_desired_against_pushed desired (current_pushed_state (documents empty_db)) = (ups, dels, n)"
    "m = plan_manifest sample_config sample_corpus ''reconcile'' ups dels"
    "x0 = empty_db\<lparr>runs := runs empty_db @ [plan_row sample_config sample_corpus 1 m],
                   items := items empty_db @ plan_items 1 m\<rparr>"
    "area = AList.update 1 (plan_dir sample_config desired m) []" "result_upserts res = length ups"
    using plan_export_Inr [OF p(1)] by metis
  have parts: "m_upserts m = ups" using d(3) by (simp add: plan_manifest_def)
  have dir: "map_of area 1 = Some (plan_dir sample_config desired m)"
    "staged_manifest (plan_dir sample_config desired m) = Some (manifest_text (float_repr sample_config) m)"
    using d(5) by (simp_all add: plan_dir_def Let_def)
  have m: "v_manifest v = m" by (rule verified_manifest [OF dir p(3)])
  have x1: "items x1 = plan_items 1 m" "documents x1 = []"
    using p(2) by (auto simp: approve_run_def d(4) empty_db_def update_run_def split: option.splits sum.splits if_splits)
  have "length ups = 2" using sample_plan p(1) d(6) by auto
  then obtain u us where ups: "ups = u # us" by (cases ups) auto
  have staged: "item_states x1 1 (u_document u) = Some ''staged''"
    by (simp add: item_states_def x1(1) plan_items_def parts ups upsert_item_def)
  obtain ok ws' k s1 where w: "push_writes (fake_transport ''b'') sample_config v 1 x1 calm_store
      = (Set_Status ''pushing'' # concat (map (\<lambda>(u, uri). [Record_Item (u_document u) ''pushed'', Upsert_Document u uri]) ok) @ ws', k, s1)"
    "map fst ok = filter (\<lambda>u. item_states x1 1 (u_document u) \<noteq> Some ''pushed'') (m_upserts (v_manifest v))"
    using fake.writes_complete [OF calm_store_calm, of "''b''" sample_config v 1 x1] by blast
  from w(2) obtain uri rest where ok: "ok = (u, uri) # rest"
    by (cases ok) (auto simp: m parts ups staged)
  let ?post = "concat (map (\<lambda>(u, uri). [Record_Item (u_document u) ''pushed'', Upsert_Document u uri]) rest) @ ws'"
  have w': "push_writes (fake_transport ''b'') sample_config v 1 x1 calm_store
      = ([Set_Status ''pushing''] @ Record_Item (u_document u) ''pushed'' # Upsert_Document u uri # ?post, k, s1)"
    using w(1) ok by simp
  let ?xc = "foldl (apply_write 1) x1 ([Set_Status ''pushing''] @ [Record_Item (u_document u) ''pushed''])"
  obtain r x' s' where q: "push_export (fake_transport ''b'') sample_config sample_corpus (\<lambda>_. True) 1 ?xc area s1 = (r, x', s')"
    by (metis prod_cases3)
  have "stored x' (u_document u) = None"
    using crash_hides_a_document [OF p(3) w' _ _ _ refl q] staged x1(2) by (simp add: current_pushed_state_def)
  then have "stored (fst (snd (push_export (fake_transport ''b'') sample_config sample_corpus (\<lambda>_. True) 1 ?xc area s1))) (u_document u) = None"
    unfolding q by simp
  then show ?thesis using p(3) w' by blast
qed

end
