(* ===== verification/Binary64.thy ===== *)
theory Binary64
  imports Prelude
begin

text \<open>
  Python's float where rounding decides something: a sum of scores is compared and sorted by. A
  float is the rational it stands for, and an operation is the exact one followed by \<open>fl\<close>,
  rounding to 53 bits with ties to even. The exponent is unbounded: overflow, subnormals, the
  signed zero, infinities and NaN are left out, and no score comes near them.
\<close>

definition pow2 :: "int \<Rightarrow> rat" where
  "pow2 e = 2 powi e"

lemma pow2_pos [simp]: "0 < pow2 e"
  by (simp add: pow2_def)

lemma pow2_nonneg [simp]: "0 \<le> pow2 e" "pow2 e \<noteq> 0"
  by (simp_all add: pow2_def)

lemma pow2_0 [simp]: "pow2 0 = 1"
  by (simp add: pow2_def)

lemma pow2_add: "pow2 (e + d) = pow2 e * pow2 d"
  by (simp add: pow2_def power_int_add)

lemma pow2_of_nat [simp]: "pow2 (int n) = 2 ^ n"
  by (simp add: pow2_def)

lemma pow2_numeral [simp]: "pow2 (numeral k) = 2 ^ numeral k"
  by (simp add: pow2_def)

lemma pow2_Suc: "pow2 (e + 1) = 2 * pow2 e"
  by (simp add: pow2_add) (simp add: pow2_def)

lemma pow2_mono: "d \<le> e \<Longrightarrow> pow2 d \<le> pow2 e"
  by (simp add: pow2_def power_int_increasing)

lemma pow2_less: "d < e \<Longrightarrow> pow2 d < pow2 e"
  by (simp add: pow2_def power_int_strict_increasing)

text \<open>The exponent of a positive number: the \<open>e\<close> with \<open>pow2 e \<le> x < pow2 (e + 1)\<close>, by doubling and halving.\<close>

fun bit_length :: "nat \<Rightarrow> nat" where
  "bit_length n = (if n = 0 then 0 else Suc (bit_length (n div 2)))"

declare bit_length.simps [simp del]

definition exponent :: "rat \<Rightarrow> int" where
  "exponent x =
     (let (n, d) = quotient_of x;
          e = int (bit_length (nat n)) - int (bit_length (nat d))
      in if pow2 e \<le> x then e else e - 1)"

lemma bit_length_bounds: "n \<noteq> 0 \<Longrightarrow> 2 ^ (bit_length n - 1) \<le> n \<and> n < 2 ^ bit_length n"
proof (induction n rule: bit_length.induct)
  case (1 n)
  show ?case
  proof (cases "n div 2 = 0")
    case True
    with 1(2) have "n = 1" by simp
    then show ?thesis by (simp add: bit_length.simps)
  next
    case False
    have b: "bit_length n = Suc (bit_length (n div 2))" using 1(2) by (subst bit_length.simps) simp
    have pos: "0 < bit_length (n div 2)" using False by (subst bit_length.simps) simp
    have ih: "2 ^ (bit_length (n div 2) - 1) \<le> n div 2" "n div 2 < 2 ^ bit_length (n div 2)"
      using 1(1) 1(2) False by auto
    have "2 ^ bit_length (n div 2) = 2 * (2::nat) ^ (bit_length (n div 2) - 1)"
      using pos by (metis Suc_pred' power_Suc)
    then have "2 ^ bit_length (n div 2) \<le> n" using ih(1) by linarith
    moreover have "n < 2 * 2 ^ bit_length (n div 2)" using ih(2) by linarith
    ultimately show ?thesis by (simp add: b)
  qed
qed

lemma exponent_bounds:
  assumes "0 < x"
  shows "pow2 (exponent x) \<le> x \<and> x < pow2 (exponent x + 1)"
proof -
  obtain n d where q: "quotient_of x = (n, d)" by fastforce
  have d: "0 < d" and x: "x = of_int n / of_int d"
    using quotient_of_denom_pos [OF q] quotient_of_div [OF q] by simp_all
  have n: "0 < n" using assms d by (simp add: x zero_less_divide_iff)
  define a b where "a = int (bit_length (nat n))" and "b = int (bit_length (nat d))"
  have bounds: "pow2 (int (bit_length (nat k)) - 1) \<le> of_int k \<and> of_int k < pow2 (int (bit_length (nat k)))" if "0 < k" for k
  proof -
    have nz: "nat k \<noteq> 0" using that by simp
    have pos: "0 < bit_length (nat k)" using that by (subst bit_length.simps) simp
    have "of_nat (2 ^ (bit_length (nat k) - 1)) \<le> (of_nat (nat k) :: rat)"
      "(of_nat (nat k) :: rat) < of_nat (2 ^ bit_length (nat k))"
      using bit_length_bounds [OF nz] by (simp_all only: of_nat_le_iff of_nat_less_iff)
    moreover have "(of_nat (nat k) :: rat) = of_int k" using that by simp
    moreover have "int (bit_length (nat k)) - 1 = int (bit_length (nat k) - 1)" using pos by simp
    ultimately show ?thesis by (simp only: pow2_of_nat of_nat_power of_nat_numeral)
  qed
  have an: "pow2 (a - 1) \<le> of_int n" "of_int n < pow2 a" using bounds [OF n] unfolding a_def by blast+
  have bd: "pow2 (b - 1) \<le> of_int d" "of_int d < pow2 b" using bounds [OF d] unfolding b_def by blast+
  have low: "pow2 (a - b - 1) \<le> x"
  proof -
    have "pow2 (a - b - 1) * of_int d \<le> pow2 (a - b - 1) * pow2 b" using bd(2) by (intro mult_left_mono) simp_all
    also have "\<dots> = pow2 (a - 1)" by (simp add: pow2_add [symmetric])
    finally show ?thesis using an(1) d by (simp add: x field_simps)
  qed
  have high: "x < pow2 (a - b + 1)"
  proof -
    have "of_int n < pow2 (a - b + 1) * pow2 (b - 1)" using an(2) by (simp add: pow2_add [symmetric])
    also have "\<dots> \<le> pow2 (a - b + 1) * of_int d" using bd(1) by (intro mult_left_mono) simp_all
    finally show ?thesis using d by (simp add: x field_simps)
  qed
  have e: "exponent x = (if pow2 (a - b) \<le> x then a - b else a - b - 1)"
    unfolding exponent_def q a_def b_def by (simp only: Let_def split_conv)
  show ?thesis
  proof (cases "pow2 (a - b) \<le> x")
    case True
    then show ?thesis using high unfolding e by (simp only: if_True)
  next
    case False
    then have "x < pow2 (a - b - 1 + 1)" by (simp add: not_le)
    then show ?thesis using low False unfolding e by (simp only: if_False)
  qed
qed

lemma exponent_unique:
  assumes "pow2 e \<le> x" and "x < pow2 (e + 1)"
  shows "exponent x = e"
proof -
  have "0 < x" using assms(1) pow2_pos [of e] by linarith
  note b = exponent_bounds [OF this]
  have "\<not> exponent x < e"
  proof
    assume "exponent x < e"
    then have "pow2 (exponent x + 1) \<le> pow2 e" by (intro pow2_mono) simp
    then show False using b assms(1) by linarith
  qed
  moreover have "\<not> e < exponent x"
  proof
    assume "e < exponent x"
    then have "pow2 (e + 1) \<le> pow2 (exponent x)" by (intro pow2_mono) simp
    then show False using b assms(2) by linarith
  qed
  ultimately show ?thesis by simp
qed

lemma exponent_mono: "0 < x \<Longrightarrow> x \<le> y \<Longrightarrow> exponent x \<le> exponent y"
proof (rule ccontr)
  assume "0 < x" "x \<le> y" "\<not> exponent x \<le> exponent y"
  then have "pow2 (exponent y + 1) \<le> pow2 (exponent x)" by (intro pow2_mono) simp
  then show False using exponent_bounds [of x] exponent_bounds [of y] \<open>0 < x\<close> \<open>x \<le> y\<close> by linarith
qed

section \<open>Rounding\<close>

definition round_pos :: "rat \<Rightarrow> rat" where
  "round_pos x = of_int (round_half_even (x * pow2 (52 - exponent x))) * pow2 (exponent x - 52)"

definition fl :: "rat \<Rightarrow> rat" where
  "fl x = (if x = 0 then 0 else if 0 < x then round_pos x else - round_pos (- x))"

lemma round_half_even_mono: "x \<le> y \<Longrightarrow> round_half_even x \<le> round_half_even y"
proof -
  assume le: "x \<le> y"
  show ?thesis
  proof (cases "\<lfloor>x\<rfloor> = \<lfloor>y\<rfloor>")
    case True
    then show ?thesis using le by (auto simp: round_half_even_def Let_def)
  next
    case False
    then have "\<lfloor>x\<rfloor> + 1 \<le> \<lfloor>y\<rfloor>" using floor_mono [OF le] by linarith
    moreover have "round_half_even x \<le> \<lfloor>x\<rfloor> + 1" "\<lfloor>y\<rfloor> \<le> round_half_even y"
      by (auto simp: round_half_even_def Let_def)
    ultimately show ?thesis by linarith
  qed
qed

lemma scaled_bounds:
  assumes "0 < x"
  shows "2 ^ 52 \<le> round_half_even (x * pow2 (52 - exponent x))" "round_half_even (x * pow2 (52 - exponent x)) \<le> 2 ^ 53"
proof -
  let ?e = "exponent x"
  have "pow2 ?e * pow2 (52 - ?e) \<le> x * pow2 (52 - ?e)"
    using exponent_bounds [OF assms] by (intro mult_right_mono) simp_all
  then have "of_int (2 ^ 52) \<le> x * pow2 (52 - ?e)" by (simp add: pow2_add [symmetric])
  from round_half_even_mono [OF this] show "2 ^ 52 \<le> round_half_even (x * pow2 (52 - ?e))"
    unfolding round_half_even_of_int .
  have "x * pow2 (52 - ?e) \<le> pow2 (?e + 1) * pow2 (52 - ?e)"
    using exponent_bounds [OF assms] by (intro mult_right_mono) simp_all
  then have "x * pow2 (52 - ?e) \<le> of_int (2 ^ 53)" by (simp add: pow2_add [symmetric])
  from round_half_even_mono [OF this] show "round_half_even (x * pow2 (52 - ?e)) \<le> 2 ^ 53"
    unfolding round_half_even_of_int .
qed

lemma round_pos_bounds:
  assumes "0 < x"
  shows "pow2 (exponent x) \<le> round_pos x" "round_pos x \<le> pow2 (exponent x + 1)"
proof -
  let ?e = "exponent x"
  have "of_int (2 ^ 52) * pow2 (?e - 52) \<le> round_pos x"
    unfolding round_pos_def using scaled_bounds(1) [OF assms] by (intro mult_right_mono) (simp_all only: of_int_le_iff pow2_nonneg)
  moreover have "of_int (2 ^ 52) * pow2 (?e - 52) = pow2 ?e"
    using pow2_add [of "int 52" "?e - 52"] by simp
  ultimately show "pow2 ?e \<le> round_pos x" by simp
  have "round_pos x \<le> of_int (2 ^ 53) * pow2 (?e - 52)"
    unfolding round_pos_def using scaled_bounds(2) [OF assms] by (intro mult_right_mono) (simp_all only: of_int_le_iff pow2_nonneg)
  moreover have "of_int (2 ^ 53) * pow2 (?e - 52) = pow2 (?e + 1)"
    using pow2_add [of "int 53" "?e - 52"] by (simp add: algebra_simps)
  ultimately show "round_pos x \<le> pow2 (?e + 1)" by simp
qed

lemma round_pos_mono:
  assumes "0 < x" and "x \<le> y"
  shows "round_pos x \<le> round_pos y"
proof (cases "exponent x = exponent y")
  case True
  have "x * pow2 (52 - exponent x) \<le> y * pow2 (52 - exponent x)" using assms(2) by (intro mult_right_mono) simp_all
  then have "round_half_even (x * pow2 (52 - exponent x)) \<le> round_half_even (y * pow2 (52 - exponent x))"
    by (rule round_half_even_mono)
  then show ?thesis unfolding round_pos_def True by (intro mult_right_mono) (simp_all only: of_int_le_iff pow2_nonneg)
next
  case False
  then have "exponent x + 1 \<le> exponent y" using exponent_mono [OF assms] by linarith
  then have "pow2 (exponent x + 1) \<le> pow2 (exponent y)" by (rule pow2_mono)
  then show ?thesis using round_pos_bounds [of x] round_pos_bounds [of y] assms by linarith
qed

lemma round_pos_exact:
  assumes "2 ^ 52 \<le> m" and "m \<le> 2 ^ 53"
  shows "round_pos (of_int m * pow2 k) = of_int m * pow2 k"
proof (cases "m = 2 ^ 53")
  case True
  have x: "of_int m * pow2 k = pow2 (k + 53)" using pow2_add [of k "int 53"] by (simp add: True)
  have "exponent (pow2 (k + 53)) = k + 53" by (rule exponent_unique) (simp_all add: pow2_less)
  moreover have "pow2 (k + 53) * pow2 (52 - (k + 53)) = of_int (2 ^ 52)"
    using pow2_add [of "k + 53" "52 - (k + 53)"] pow2_of_nat [of 52] by simp
  moreover have "of_int (2 ^ 52) * pow2 (k + 53 - 52) = pow2 (k + 53)"
    using pow2_add [of "int 52" "k + 1"] by (simp add: algebra_simps)
  ultimately show ?thesis unfolding x round_pos_def by (simp only: round_half_even_of_int)
next
  case False
  let ?x = "of_int m * pow2 k"
  have p52: "pow2 (k + 52) = of_int (2 ^ 52) * pow2 k" and p53: "pow2 (k + 52 + 1) = of_int (2 ^ 53) * pow2 k"
    using pow2_add [of k "int 52"] pow2_add [of k "int 53"] by (simp_all add: ac_simps)
  have "exponent ?x = k + 52"
  proof (rule exponent_unique)
    show "pow2 (k + 52) \<le> ?x" unfolding p52 using assms(1) by (intro mult_right_mono) (simp_all only: of_int_le_iff pow2_nonneg)
    show "?x < pow2 (k + 52 + 1)"
      unfolding p53 using assms(2) False by (intro mult_strict_right_mono) (simp_all only: of_int_less_iff pow2_pos)
  qed
  moreover have "?x * pow2 (52 - (k + 52)) = of_int m"
    using pow2_add [of k "52 - (k + 52)"] by (simp add: mult.assoc)
  moreover have "k + 52 - 52 = k" by simp
  ultimately show ?thesis unfolding round_pos_def by (simp only: round_half_even_of_int)
qed

lemma round_pos_idem: "0 < x \<Longrightarrow> round_pos (round_pos x) = round_pos x"
proof -
  assume "0 < x"
  note b = scaled_bounds [OF this]
  show ?thesis using round_pos_exact [OF b, of "exponent x - 52"] unfolding round_pos_def [of x, symmetric] .
qed

text \<open>The laws of correctly rounded arithmetic the scores rest on.\<close>

definition is_float :: "rat \<Rightarrow> bool" where
  "is_float x \<longleftrightarrow> fl x = x"

lemma fl_0 [simp]: "fl 0 = 0"
  by (simp add: fl_def)

lemma fl_pos: "0 < x \<Longrightarrow> fl x = round_pos x"
  by (simp add: fl_def)

lemma fl_positive: "0 < x \<Longrightarrow> 0 < fl x"
  using round_pos_bounds(1) [of x] pow2_pos [of "exponent x"] by (simp add: fl_pos del: pow2_pos)

lemma fl_mono: "0 \<le> x \<Longrightarrow> x \<le> y \<Longrightarrow> fl x \<le> fl y"
  using fl_positive [of y] by (cases "x = 0"; cases "y = 0") (auto simp: fl_pos round_pos_mono)

lemma fl_nonneg: "0 \<le> x \<Longrightarrow> 0 \<le> fl x"
  using fl_mono [of 0 x] by simp

lemma is_float_fl: "0 \<le> x \<Longrightarrow> is_float (fl x)"
  using fl_pos [of "round_pos x"] fl_positive [of x]
  by (cases "x = 0") (simp_all add: is_float_def fl_pos round_pos_idem)

lemma is_float_0 [simp]: "is_float 0"
  by (simp add: is_float_def)

text \<open>Adding something to a float never takes it below itself.\<close>

lemma fl_add_ge: "is_float x \<Longrightarrow> 0 \<le> x \<Longrightarrow> 0 \<le> y \<Longrightarrow> x \<le> fl (x + y)"
  using fl_mono [of x "x + y"] by (simp add: is_float_def)

text \<open>Integers up to \<open>2 ^ 53\<close> are floats.\<close>

lemma fl_of_nat: "n \<le> 2 ^ 53 \<Longrightarrow> fl (of_nat n) = of_nat n"
proof (cases "n = 0 \<or> n = 2 ^ 53")
  case True
  have "fl (of_nat (2 ^ 53)) = of_nat (2 ^ 53)"
    using round_pos_exact [of "2 ^ 53" 0] by (simp add: fl_pos)
  then show ?thesis using True by auto
next
  case False
  assume "n \<le> 2 ^ 53"
  with False have n: "0 < n" "n < 2 ^ 53" by auto
  then have pos: "0 < (of_nat n :: rat)" by simp
  let ?e = "exponent (of_nat n)"
  note b = exponent_bounds [OF pos]
  have "?e < 53"
  proof (rule ccontr)
    assume "\<not> ?e < 53"
    then have "pow2 53 \<le> pow2 ?e" by (intro pow2_mono) simp
    then have "of_nat (2 ^ 53) \<le> (of_nat n :: rat)" using b by simp
    then show False using n(2) unfolding of_nat_le_iff by simp
  qed
  moreover have "0 \<le> ?e"
  proof (rule ccontr)
    assume "\<not> 0 \<le> ?e"
    then have "pow2 (?e + 1) \<le> pow2 0" by (intro pow2_mono) simp
    then show False using b n(1) by simp
  qed
  ultimately have "52 = ?e + int (nat (52 - ?e))" by simp
  then obtain j where j: "52 = ?e + int j" by blast
  have s: "of_int (int n * 2 ^ j) * pow2 (?e - 52) = of_nat n"
  proof -
    have "?e - 52 = - int j" using j by simp
    then have "(2 ^ j :: rat) * pow2 (?e - 52) = 1" using pow2_add [of "int j" "- int j"] by simp
    then show ?thesis by (simp add: mult.assoc)
  qed
  have "pow2 52 \<le> of_nat n * 2 ^ j" "of_nat n * 2 ^ j < pow2 53"
  proof -
    have e: "pow2 (?e + int j) = pow2 52" "pow2 (?e + 1 + int j) = pow2 53" using j by (simp_all add: algebra_simps)
    show "pow2 52 \<le> of_nat n * 2 ^ j"
      unfolding e(1) [symmetric] pow2_add pow2_of_nat using b by (intro mult_right_mono) simp_all
    show "of_nat n * 2 ^ j < pow2 53"
      unfolding e(2) [symmetric] pow2_add pow2_of_nat using b by (intro mult_strict_right_mono) (simp_all add: pow2_add)
  qed
  then have "of_int (2 ^ 52) \<le> (of_int (int n * 2 ^ j) :: rat)" "(of_int (int n * 2 ^ j) :: rat) \<le> of_int (2 ^ 53)" by simp_all
  then have "2 ^ 52 \<le> int n * 2 ^ j" "int n * 2 ^ j \<le> 2 ^ 53" by (simp_all only: of_int_le_iff)
  from round_pos_exact [OF this, of "?e - 52"] show ?thesis unfolding s fl_pos [OF pos] .
qed

lemma fl_examples:
  "fl (1 / 3) = 6004799503160661 / 18014398509481984" "fl (1 / 10) = 3602879701896397 / 36028797018963968"
  by code_simp+

end
