(* ===== verification/Rank_Fusion.thy ===== *)
theory Rank_Fusion
  imports Binary64 "HOL-Library.AList" "HOL-Library.Product_Lexorder"
begin

text \<open>
  The ranked lists of a search: reciprocal rank fusion (\<^verbatim>\<open>retrieval/fuse.py\<close>), the best rank of a
  segment among chunk hits (\<^verbatim>\<open>retrieval/fts_search.py\<close>), and the collapse of item-level vector rows
  to their nearest segments with its early stop (\<^verbatim>\<open>retrieval/vector_search.py\<close>). A dict is an
  association list in insertion order, so stable sorting of its items is as the code has it.
\<close>

section \<open>Reciprocal rank fusion\<close>

text \<open>\<open>scores.get(segment_id, 0.0) + 1.0 / (rrf_k + position)\<close>, in floats.\<close>

definition rank_share :: "int \<Rightarrow> nat \<Rightarrow> rat" where
  "rank_share k position = fl (1 / of_int (k + int position))"

definition add_share :: "int \<Rightarrow> rat \<Rightarrow> nat \<Rightarrow> rat" where
  "add_share k s position = fl (s + rank_share k position)"

definition get_or :: "'v \<Rightarrow> ('k \<times> 'v) list \<Rightarrow> 'k \<Rightarrow> 'v" where
  "get_or d m x = (case map_of m x of None \<Rightarrow> d | Some v \<Rightarrow> v)"

type_synonym rank_lists = "(string \<times> int list) list"

fun fuse_list :: "int \<Rightarrow> nat \<Rightarrow> int list \<Rightarrow> (int \<times> rat) list \<Rightarrow> (int \<times> rat) list" where
  "fuse_list k position [] scores = scores"
| "fuse_list k position (s # ss) scores =
     fuse_list k (Suc position) ss (AList.update s (add_share k (get_or 0 scores s) position) scores)"

definition fused_scores :: "int \<Rightarrow> rank_lists \<Rightarrow> (int \<times> rat) list" where
  "fused_scores k rls = foldl (\<lambda>scores (_, ids). fuse_list k 1 ids scores) [] rls"

text \<open>The rank recorded per list: of a repeated segment, the last.\<close>

fun rank_in :: "nat \<Rightarrow> int list \<Rightarrow> int \<Rightarrow> nat option" where
  "rank_in position [] x = None"
| "rank_in position (s # ss) x =
     (case rank_in (Suc position) ss x of Some r \<Rightarrow> Some r | None \<Rightarrow> if s = x then Some position else None)"

definition ranks_of :: "rank_lists \<Rightarrow> int \<Rightarrow> (string \<times> nat) list" where
  "ranks_of rls x = List.map_filter (\<lambda>(name, ids). map_option (Pair name) (rank_in 1 ids x)) rls"

record fused_result =
  fused_segment :: int
  fused_score :: rat
  per_list_ranks :: "(string \<times> nat) list"

definition reciprocal_rank_fusion :: "int \<Rightarrow> rank_lists \<Rightarrow> fused_result list" where
  "reciprocal_rank_fusion k rls =
     sort_key (\<lambda>r. (- fused_score r, fused_segment r))
       (map (\<lambda>(s, score). \<lparr>fused_segment = s, fused_score = score, per_list_ranks = ranks_of rls s\<rparr>)
         (fused_scores k rls))"

text \<open>The score of a segment, list by list: what every occurrence adds, in order.\<close>

fun positions :: "nat \<Rightarrow> int list \<Rightarrow> int \<Rightarrow> nat list" where
  "positions p [] x = []"
| "positions p (s # ss) x = (if s = x then p # positions (Suc p) ss x else positions (Suc p) ss x)"

definition occurrences :: "rank_lists \<Rightarrow> int \<Rightarrow> nat list" where
  "occurrences rls x = concat (map (\<lambda>(_, ids). positions 1 ids x) rls)"

definition rrf_score :: "int \<Rightarrow> rank_lists \<Rightarrow> int \<Rightarrow> rat" where
  "rrf_score k rls x = foldl (add_share k) 0 (occurrences rls x)"

lemma fuse_list_lookup:
  "map_of (fuse_list k p ids scores) x =
     (if positions p ids x = [] then map_of scores x
      else Some (foldl (add_share k) (get_or 0 scores x) (positions p ids x)))"
proof (induction ids arbitrary: p scores)
  case (Cons s ss)
  show ?case by (simp add: Cons.IH update_conv' get_or_def)
qed simp

lemma fuse_list_keys: "set (map fst (fuse_list k p ids scores)) = set (map fst scores) \<union> set ids"
  by (induction ids arbitrary: p scores) (auto simp: dom_update)

lemma fuse_list_distinct: "distinct (map fst scores) \<Longrightarrow> distinct (map fst (fuse_list k p ids scores))"
  by (induction ids arbitrary: p scores) (auto simp: distinct_update)

lemma positions_empty: "positions p ids x = [] \<longleftrightarrow> x \<notin> set ids"
  by (induction ids arbitrary: p) auto

lemma fused_scores_snoc:
  "fused_scores k (rls @ [(n, ids)]) = fuse_list k 1 ids (fused_scores k rls)"
  by (simp add: fused_scores_def)

lemma occurrences_snoc: "occurrences (rls @ [(n, ids)]) x = occurrences rls x @ positions 1 ids x"
  by (simp add: occurrences_def)

lemma fused_scores_lookup:
  "map_of (fused_scores k rls) x = (if occurrences rls x = [] then None else Some (rrf_score k rls x))"
proof (induction rls rule: rev_induct)
  case Nil
  then show ?case by (simp add: fused_scores_def occurrences_def)
next
  case (snoc e rls)
  obtain n ids where e: "e = (n, ids)" by fastforce
  show ?case
    unfolding e fused_scores_snoc fuse_list_lookup occurrences_snoc snoc.IH rrf_score_def get_or_def
    by (auto simp: foldl_append)
qed

lemma fused_scores_distinct: "distinct (map fst (fused_scores k rls))"
proof (induction rls rule: rev_induct)
  case (snoc e rls)
  obtain n ids where "e = (n, ids)" by fastforce
  then show ?case using fuse_list_distinct [OF snoc] by (simp add: fused_scores_snoc)
qed (simp add: fused_scores_def)

lemma occurrences_empty: "occurrences rls x = [] \<longleftrightarrow> (\<forall>(n, ids) \<in> set rls. x \<notin> set ids)"
  by (fastforce simp: occurrences_def positions_empty)

lemma in_fused_scores: "(x, s) \<in> set (fused_scores k rls) \<longleftrightarrow> (\<exists>(n, ids) \<in> set rls. x \<in> set ids) \<and> s = rrf_score k rls x"
proof -
  have "(x, s) \<in> set (fused_scores k rls) \<longleftrightarrow> map_of (fused_scores k rls) x = Some s"
    using fused_scores_distinct by (simp add: map_of_eq_Some_iff)
  then show ?thesis by (auto simp: fused_scores_lookup occurrences_empty)
qed

lemma ranking_of_fused:
  "set (map fused_segment (reciprocal_rank_fusion k rls)) = \<Union> (set ` snd ` set rls)
   \<and> distinct (map fused_segment (reciprocal_rank_fusion k rls))
   \<and> map fused_score (reciprocal_rank_fusion k rls)
      = map (rrf_score k rls) (map fused_segment (reciprocal_rank_fusion k rls))
   \<and> sorted (map (\<lambda>r. (- fused_score r, fused_segment r)) (reciprocal_rank_fusion k rls))"
proof -
  let ?row = "\<lambda>(s, score). \<lparr>fused_segment = s, fused_score = score, per_list_ranks = ranks_of rls s\<rparr>"
  let ?rows = "map ?row (fused_scores k rls)"
  have ids: "map fused_segment ?rows = map fst (fused_scores k rls)" by auto
  have "set (map fst (fused_scores k rls)) = \<Union> (set ` snd ` set rls)"
  proof (rule set_eqI)
    fix x
    have "x \<in> set (map fst (fused_scores k rls)) \<longleftrightarrow> (\<exists>s. (x, s) \<in> set (fused_scores k rls))" by force
    then show "x \<in> set (map fst (fused_scores k rls)) \<longleftrightarrow> x \<in> \<Union> (set ` snd ` set rls)"
      by (force simp: in_fused_scores)
  qed
  moreover have "distinct (map fused_segment (reciprocal_rank_fusion k rls))"
  proof -
    have "mset (map fused_segment (reciprocal_rank_fusion k rls)) = mset (map fused_segment ?rows)"
      unfolding reciprocal_rank_fusion_def mset_map mset_sort ..
    then show ?thesis using fused_scores_distinct [of k rls] unfolding ids by (metis mset_eq_imp_distinct_iff)
  qed
  moreover have "fused_score r = rrf_score k rls (fused_segment r)" if "r \<in> set (reciprocal_rank_fusion k rls)" for r
    using that in_fused_scores by (fastforce simp: reciprocal_rank_fusion_def)
  moreover have "sorted (map (\<lambda>r. (- fused_score r, fused_segment r)) (reciprocal_rank_fusion k rls))"
    unfolding reciprocal_rank_fusion_def by (rule sorted_sort_key)
  moreover have "set (map fused_segment (reciprocal_rank_fusion k rls)) = set (map fused_segment ?rows)"
    unfolding reciprocal_rank_fusion_def set_map set_sort ..
  ultimately show ?thesis unfolding ids by simp
qed

text \<open>
  Fusion ranks every segment of any list once, and no other: by its score, the highest first, equal
  scores by segment id, where a score adds \<open>1 / (k + rank)\<close> for each place the segment has, in the
  floats' own arithmetic.
\<close>

theorem fusion_ranks_every_segment_once:
  "set (map fused_segment (reciprocal_rank_fusion k rls)) = \<Union> (set ` snd ` set rls)
   \<and> distinct (map fused_segment (reciprocal_rank_fusion k rls))
   \<and> map fused_score (reciprocal_rank_fusion k rls)
      = map (rrf_score k rls) (map fused_segment (reciprocal_rank_fusion k rls))
   \<and> sorted (map (\<lambda>r. (- fused_score r, fused_segment r)) (reciprocal_rank_fusion k rls))"
  by (rule ranking_of_fused)

text \<open>Ranking ahead in every list.\<close>

definition ranked_ahead :: "rank_lists \<Rightarrow> int \<Rightarrow> int \<Rightarrow> bool" where
  "ranked_ahead rls a b \<longleftrightarrow>
     (\<forall>(name, ids) \<in> set rls. \<forall>r. rank_in 1 ids b = Some r \<longrightarrow> (\<exists>q < r. rank_in 1 ids a = Some q))"

lemma rank_in_None: "rank_in p ids x = None \<longleftrightarrow> x \<notin> set ids"
proof (induction ids arbitrary: p)
  case (Cons s ss)
  show ?case using Cons.IH [of "Suc p"] by (cases "rank_in (Suc p) ss x") auto
qed simp

lemma positions_distinct:
  "distinct ids \<Longrightarrow> positions p ids x = (case rank_in p ids x of None \<Rightarrow> [] | Some r \<Rightarrow> [r])"
proof (induction ids arbitrary: p)
  case (Cons s ss)
  have "s = x \<Longrightarrow> rank_in (Suc p) ss x = None" using Cons.prems by (simp add: rank_in_None)
  then show ?case using Cons by (auto split: option.splits)
qed simp

lemma rank_share_nonneg: "0 < k \<Longrightarrow> 0 \<le> rank_share k p"
  by (simp add: rank_share_def fl_nonneg)

lemma rank_share_antimono: "0 < k \<Longrightarrow> q \<le> r \<Longrightarrow> rank_share k r \<le> rank_share k q"
  unfolding rank_share_def by (intro fl_mono) (auto intro!: divide_left_mono)

lemma add_share_float:
  assumes "0 < k" and "0 \<le> s"
  shows "is_float (add_share k s p)" "0 \<le> add_share k s p"
  using rank_share_nonneg [OF assms(1), of p] assms(2) by (simp_all add: add_share_def is_float_fl fl_nonneg)

lemma add_share_mono:
  "0 < k \<Longrightarrow> 0 \<le> t \<Longrightarrow> t \<le> s \<Longrightarrow> q \<le> r \<Longrightarrow> add_share k t r \<le> add_share k s q"
  using rank_share_nonneg [of k r] rank_share_antimono [of k q r] by (simp add: add_share_def) (rule fl_mono, simp_all)

lemma rrf_score_snoc:
  "rrf_score k (rls @ [(n, ids)]) x = foldl (add_share k) (rrf_score k rls x) (positions 1 ids x)"
  by (simp add: rrf_score_def occurrences_snoc)

lemma rrf_score_float:
  assumes "0 < k"
  shows "is_float (rrf_score k rls x) \<and> 0 \<le> rrf_score k rls x"
proof -
  have "is_float (foldl (add_share k) s ps) \<and> 0 \<le> foldl (add_share k) s ps" if "is_float s" "0 \<le> s" for s ps
    using that
  proof (induction ps arbitrary: s)
    case (Cons p ps)
    show ?case using Cons.IH [OF add_share_float [OF assms Cons.prems(2)]] by simp
  qed simp
  then show ?thesis by (simp add: rrf_score_def)
qed

text \<open>
  Fusion keeps what all lists agree on: a segment that stands before another in every list the
  other is in has a score at least as high, rounding included, so it comes first unless the two
  scores are equal and its id is the larger; lists it is in alone only help it.
\<close>

theorem fusion_keeps_agreement:
  assumes "0 < k" and "\<forall>(name, ids) \<in> set rls. distinct ids" and "ranked_ahead rls a b"
  shows "rrf_score k rls b \<le> rrf_score k rls a"
  using assms(2,3)
proof (induction rls rule: rev_induct)
  case Nil
  then show ?case by (simp add: rrf_score_def occurrences_def)
next
  case (snoc e rls)
  obtain n ids where e: "e = (n, ids)" by fastforce
  have ih: "rrf_score k rls b \<le> rrf_score k rls a" using snoc by (auto simp: ranked_ahead_def)
  have d: "distinct ids" using snoc.prems(1) e by simp
  have ahead: "\<exists>q < r. rank_in 1 ids a = Some q" if "rank_in 1 ids b = Some r" for r
    using snoc.prems(2) that e by (simp add: ranked_ahead_def)
  note fa = rrf_score_float [OF assms(1), of rls a] and fb = rrf_score_float [OF assms(1), of rls b]
  show ?case
  proof (cases "rank_in 1 ids b")
    case None
    have "rrf_score k rls a \<le> rrf_score k (rls @ [(n, ids)]) a"
      unfolding rrf_score_snoc positions_distinct [OF d]
      using fl_add_ge fa rank_share_nonneg [OF assms(1)] by (auto simp: add_share_def split: option.split)
    moreover have "rrf_score k (rls @ [(n, ids)]) b = rrf_score k rls b"
      unfolding rrf_score_snoc positions_distinct [OF d] None by simp
    ultimately show ?thesis using ih e by simp
  next
    case (Some r)
    obtain q where q: "q < r" "rank_in 1 ids a = Some q" using ahead [OF Some] by blast
    have "add_share k (rrf_score k rls b) r \<le> add_share k (rrf_score k rls a) q"
      using add_share_mono [OF assms(1) _ ih, of q r] fb q(1) by simp
    then show ?thesis unfolding e rrf_score_snoc positions_distinct [OF d] Some q(2) by simp
  qed
qed

theorem fusion_keeps_agreement_witness:
  "rrf_score 60 [(''segment_fts'', [7, 3]), (''segment_vector'', [7, 3]), (''attachment_fts'', [7, 5, 3])] 3
     \<le> rrf_score 60 [(''segment_fts'', [7, 3]), (''segment_vector'', [7, 3]), (''attachment_fts'', [7, 5, 3])] 7"
  by (rule fusion_keeps_agreement) (simp_all add: ranked_ahead_def)

end
