(* ===== verification/Vector_Collapse.thy ===== *)
theory Vector_Collapse
  imports Binary64 "HOL-Library.AList"
begin

text \<open>
  From item-level hits to segments (\<^verbatim>\<open>retrieval/vector_search.py\<close>, \<^verbatim>\<open>retrieval/fts_search.py\<close>): the nearest
  distance or best rank of each segment, and the streaming read that stops once no unread row can
  change the answer. A distance is a float, the index's row order is the list's.
\<close>

section \<open>The best value per segment\<close>

text \<open>\<open>if s not in best or v < best[s]: best[s] = v\<close>, a dict in insertion order.\<close>

definition keep_best :: "(int \<times> 'v::linorder) list \<Rightarrow> int \<times> 'v \<Rightarrow> (int \<times> 'v) list" where
  "keep_best best row =
     (let (s, v) = row
      in case map_of best s of
           None \<Rightarrow> best @ [(s, v)]
         | Some w \<Rightarrow> if v < w then AList.update s v best else best)"

definition best_per_segment :: "(int \<times> 'v::linorder) list \<Rightarrow> (int \<times> 'v) list" where
  "best_per_segment rows = foldl keep_best [] rows"

record channel_result =
  segment_ids :: "int list"
  scan_cap_reached :: bool

definition nearest_segments :: "(int \<times> rat) list \<Rightarrow> nat \<Rightarrow> channel_result" where
  "nearest_segments rows k =
     (let ids = map fst (take k (sort_key snd (best_per_segment rows)))
      in \<lparr>segment_ids = ids, scan_cap_reached = length ids < k\<rparr>)"

definition best_rank_per_segment :: "(nat \<times> int) list \<Rightarrow> int list" where
  "best_rank_per_segment rows = map fst (sort_key snd (best_per_segment (map (\<lambda>(r, s). (s, r)) rows)))"

section \<open>The streaming read\<close>

definition COLLAPSE_FETCH_ROWS :: nat where "COLLAPSE_FETCH_ROWS = 64"
definition DISTANCE_ORDER_TOLERANCE :: rat where "DISTANCE_ORDER_TOLERANCE = fl (1 / 1000)"

text \<open>\<open>farthest_read - tolerance > kth_best\<close>; \<open>None\<close> is minus infinity.\<close>

definition collapse_is_settled :: "(int \<times> rat) list \<Rightarrow> rat option \<Rightarrow> nat \<Rightarrow> rat \<Rightarrow> bool" where
  "collapse_is_settled best farthest k tolerance =
     (if length best < k then False
      else case farthest of
        None \<Rightarrow> False
      | Some f \<Rightarrow> sort (map snd best) ! (k - 1) < fl (f - tolerance))"

definition farther :: "rat option \<Rightarrow> int \<times> rat \<Rightarrow> rat option" where
  "farther f row = Some (case f of None \<Rightarrow> snd row | Some g \<Rightarrow> max g (snd row))"

text \<open>The rows read, given the rows of the cursor not fetched yet.\<close>

function stream_rows ::
  "nat \<Rightarrow> rat \<Rightarrow> (int \<times> rat) list \<Rightarrow> rat option \<Rightarrow> (int \<times> rat) list \<Rightarrow> (int \<times> rat) list" where
  "stream_rows k tol best farthest unread =
     (let batch = take COLLAPSE_FETCH_ROWS unread;
          best' = foldl keep_best best batch;
          farthest' = foldl farther farthest batch
      in if length batch < COLLAPSE_FETCH_ROWS \<or> collapse_is_settled best' farthest' k tol then batch
         else batch @ stream_rows k tol best' farthest' (drop COLLAPSE_FETCH_ROWS unread))"
  by auto
termination
  by (relation "measure (\<lambda>(k, tol, best, farthest, unread). length unread)") (auto simp: COLLAPSE_FETCH_ROWS_def)

declare stream_rows.simps [simp del]

definition collapsed_nearest_segments :: "(int \<times> rat) list \<Rightarrow> nat \<Rightarrow> channel_result" where
  "collapsed_nearest_segments rows k =
     nearest_segments (stream_rows k DISTANCE_ORDER_TOLERANCE [] None rows) k"

section \<open>Stopping early changes nothing\<close>

lemma stream_rows_subset: "set (stream_rows k tol best farthest unread) \<subseteq> set unread"
proof (induction unread arbitrary: best farthest rule: length_induct)
  case (1 unread)
  show ?case
  proof (cases "length (take COLLAPSE_FETCH_ROWS unread) < COLLAPSE_FETCH_ROWS")
    case True
    then show ?thesis by (subst stream_rows.simps) (simp add: Let_def set_take_subset min_less_iff_disj)
  next
    case False
    then have "length (drop COLLAPSE_FETCH_ROWS unread) < length unread" by (auto simp: COLLAPSE_FETCH_ROWS_def)
    then have "set (stream_rows k tol b f (drop COLLAPSE_FETCH_ROWS unread)) \<subseteq> set unread" for b f
      using 1 set_drop_subset by fast
    then show ?thesis using set_take_subset [of COLLAPSE_FETCH_ROWS unread]
      by (subst stream_rows.simps) (simp add: Let_def)
  qed
qed

lemma keep_best_keys: "set (map fst (keep_best best (s, v))) = insert s (set (map fst best))"
proof (cases "map_of best s")
  case (Some w)
  then have "s \<in> fst ` set best" by (force dest: map_of_SomeD)
  then show ?thesis using Some by (auto simp: keep_best_def dom_update)
qed (simp add: keep_best_def)

lemma keep_best_distinct: "distinct (map fst best) \<Longrightarrow> distinct (map fst (keep_best best row))"
  by (cases row) (auto simp: keep_best_def distinct_update map_of_eq_None_iff split: option.split)

lemma best_distinct: "distinct (map fst (best_per_segment rows))"
  unfolding best_per_segment_def
  by (induction rows rule: rev_induct) (simp_all add: keep_best_distinct)

lemma best_keys: "fst ` set (best_per_segment rows) = fst ` set rows"
  unfolding best_per_segment_def
proof (induction rows rule: rev_induct)
  case (snoc row rows)
  then show ?case using keep_best_keys [of "foldl keep_best [] rows"] by (cases row) (simp add: image_Un insert_commute)
qed simp

lemma nearest_segments_from: "set (segment_ids (nearest_segments rows k)) \<subseteq> fst ` set rows"
proof -
  have "set (segment_ids (nearest_segments rows k)) \<subseteq> fst ` set (best_per_segment rows)"
    using set_take_subset by (fastforce simp: nearest_segments_def)
  then show ?thesis by (simp only: best_keys)
qed

lemma collapsed_from: "set (segment_ids (collapsed_nearest_segments rows k)) \<subseteq> fst ` set rows"
  unfolding collapsed_nearest_segments_def
  using nearest_segments_from stream_rows_subset by (metis (no_types, lifting) image_mono order_trans)

lemma best_rank_from: "set (best_rank_per_segment rows) \<subseteq> snd ` set rows"
proof -
  have "set (best_rank_per_segment rows) = fst ` set (map (\<lambda>(r, s). (s, r)) rows)"
    unfolding best_rank_per_segment_def using best_keys [of "map (\<lambda>(r, s). (s, r)) rows"] by (simp only: set_map set_sort)
  then show ?thesis by force
qed

text \<open>Rows farther than a bound leave the entries within it untouched, in order.\<close>

lemma keep_best_far:
  fixes t :: "'v::linorder"
  assumes "distinct (map fst best)" and "t < v"
  shows "filter (\<lambda>e. snd e \<le> t) (keep_best best (s, v)) = filter (\<lambda>e. snd e \<le> t) best"
proof (cases "map_of best s")
  case None
  then show ?thesis using assms(2) by (simp add: keep_best_def)
next
  case (Some w)
  have "filter (\<lambda>e. snd e \<le> t) (AList.update s v es) = filter (\<lambda>e. snd e \<le> t) es"
    if "distinct (map fst es)" "map_of es s = Some w" "v < w" for es
    using that assms(2)
  proof (induction es)
    case (Cons e es)
    show ?case
    proof (cases "fst e = s")
      case True
      then show ?thesis using Cons.prems by (cases e) auto
    next
      case False
      then show ?thesis using Cons by (cases e) auto
    qed
  qed simp
  then show ?thesis using Some assms(1) by (simp add: keep_best_def)
qed

lemma far_rows_change_nothing:
  fixes t :: "'v::linorder"
  assumes "distinct (map fst best)" and "\<forall>row \<in> set rows. t < snd row"
  shows "filter (\<lambda>e. snd e \<le> t) (foldl keep_best best rows) = filter (\<lambda>e. snd e \<le> t) best"
  using assms
proof (induction rows arbitrary: best)
  case (Cons row rows)
  obtain s v where row: "row = (s, v)" by fastforce
  then show ?case
    using Cons.IH [OF keep_best_distinct [OF Cons.prems(1)]] keep_best_far [OF Cons.prems(1), of t v s] Cons.prems(2) by simp
qed simp

text \<open>A stable sort puts the entries within a bound first.\<close>

lemma sort_key_split:
  fixes f :: "'a \<Rightarrow> 'k::linorder"
  shows "sort_key f xs = sort_key f (filter (\<lambda>x. f x \<le> t) xs) @ sort_key f (filter (\<lambda>x. \<not> f x \<le> t) xs)"
proof -
  have "ys = filter (\<lambda>x. f x \<le> t) ys @ filter (\<lambda>x. \<not> f x \<le> t) ys" if "sorted (map f ys)" for ys
    using that
  proof (induction ys)
    case (Cons y ys)
    show ?case
    proof (cases "f y \<le> t")
      case False
      then have "\<forall>z \<in> set ys. \<not> f z \<le> t" using Cons.prems by (auto dest: order.trans)
      then show ?thesis using False by (simp add: filter_empty_conv filter_id_conv)
    next
      case True
      then show ?thesis using Cons by simp
    qed
  qed simp
  from this [OF sorted_sort_key [of f xs]] show ?thesis unfolding filter_sort .
qed

lemma take_nearest:
  fixes xs ys :: "('a \<times> 'k::linorder) list"
  assumes "filter (\<lambda>e. snd e \<le> t) xs = filter (\<lambda>e. snd e \<le> t) ys" and "k \<le> length (filter (\<lambda>e. snd e \<le> t) xs)"
  shows "take k (sort_key snd xs) = take k (sort_key snd ys)"
  using assms sort_key_split [of snd xs t] sort_key_split [of snd ys t] by simp

lemma kth_within:
  fixes xs :: "('a \<times> 'k::linorder) list"
  assumes "0 < k" and "k \<le> length xs"
  shows "k \<le> length (filter (\<lambda>e. snd e \<le> sort (map snd xs) ! (k - 1)) xs)"
proof -
  let ?vs = "sort (map snd xs)"
  let ?t = "?vs ! (k - 1)"
  have "\<forall>v \<in> set (take k ?vs). v \<le> ?t"
  proof
    fix v assume "v \<in> set (take k ?vs)"
    then obtain i where "i < k" "i < length ?vs" "v = ?vs ! i" by (auto simp: in_set_conv_nth)
    then show "v \<le> ?t" using assms by (simp add: sorted_nth_mono)
  qed
  then have "k \<le> length (filter (\<lambda>v. v \<le> ?t) (take k ?vs))" using assms(2) by (simp add: filter_id_conv)
  also have "\<dots> \<le> length (filter (\<lambda>v. v \<le> ?t) (take k ?vs @ drop k ?vs))"
    unfolding filter_append length_append by (rule le_add1)
  also have "\<dots> = length (filter (\<lambda>v. v \<le> ?t) (map snd xs))"
    unfolding append_take_drop_id filter_sort length_sort ..
  finally show ?thesis by (simp add: filter_map comp_def)
qed

text \<open>Rows in distance order to within the tolerance.\<close>

definition nearly_ordered :: "rat \<Rightarrow> (int \<times> rat) list \<Rightarrow> bool" where
  "nearly_ordered tol rows \<longleftrightarrow>
     (\<forall>i < length rows. \<forall>j < length rows. i < j \<longrightarrow> fl (snd (rows ! i) - tol) \<le> snd (rows ! j))"

lemma nearly_ordered_append:
  "nearly_ordered tol (xs @ ys) \<Longrightarrow> x \<in> set xs \<Longrightarrow> y \<in> set ys \<Longrightarrow> fl (snd x - tol) \<le> snd y"
proof -
  assume n: "nearly_ordered tol (xs @ ys)" and "x \<in> set xs" "y \<in> set ys"
  then obtain i j where i: "i < length xs" "xs ! i = x" and j: "j < length ys" "ys ! j = y" by (auto simp: in_set_conv_nth)
  have "fl (snd ((xs @ ys) ! i) - tol) \<le> snd ((xs @ ys) ! (length xs + j))"
    using n i(1) j(1) unfolding nearly_ordered_def by (metis add_strict_left_mono length_append trans_less_add1)
  then show ?thesis using i j by (simp add: nth_append)
qed

lemma farther_read:
  "foldl farther None rows = (if rows = [] then None else Some (Max (snd ` set rows)))"
proof (induction rows rule: rev_induct)
  case (snoc row rows)
  then show ?case by (auto simp: farther_def max.commute)
qed simp

lemma settled_is_final:
  assumes "0 < k" and "nearly_ordered tol (rows @ unread)"
    and "collapse_is_settled (best_per_segment rows) (foldl farther None rows) k tol"
  shows "nearest_segments (rows @ unread) k = nearest_segments rows k"
proof -
  let ?best = "best_per_segment rows"
  let ?t = "sort (map snd ?best) ! (k - 1)"
  have ne: "rows \<noteq> []" and len: "k \<le> length ?best" and far: "?t < fl (Max (snd ` set rows) - tol)"
    using assms(3) by (auto simp: collapse_is_settled_def farther_read split: if_splits)
  have "Max (snd ` set rows) \<in> snd ` set rows" using ne by (intro Max_in) simp_all
  then obtain x where x: "x \<in> set rows" "snd x = Max (snd ` set rows)" by force
  have "\<forall>row \<in> set unread. ?t < snd row"
    using nearly_ordered_append [OF assms(2) x(1)] x(2) far by (metis order.strict_trans2)
  then have "filter (\<lambda>e. snd e \<le> ?t) (best_per_segment (rows @ unread)) = filter (\<lambda>e. snd e \<le> ?t) ?best"
    using far_rows_change_nothing [OF best_distinct] by (simp add: best_per_segment_def)
  then have "take k (sort_key snd ?best) = take k (sort_key snd (best_per_segment (rows @ unread)))"
    using kth_within [OF assms(1) len] by (intro take_nearest) simp_all
  then show ?thesis by (simp add: nearest_segments_def)
qed

lemma stream_rows_final:
  assumes "0 < k" and "nearly_ordered tol (read @ unread)"
  shows "nearest_segments (read @ stream_rows k tol (best_per_segment read) (foldl farther None read) unread) k
       = nearest_segments (read @ unread) k"
  using assms(2)
proof (induction unread arbitrary: read rule: length_induct)
  case (1 unread)
  let ?batch = "take COLLAPSE_FETCH_ROWS unread"
  let ?rest = "drop COLLAPSE_FETCH_ROWS unread"
  have best: "foldl keep_best (best_per_segment read) ?batch = best_per_segment (read @ ?batch)"
    by (simp add: best_per_segment_def)
  have far: "foldl farther (foldl farther None read) ?batch = foldl farther None (read @ ?batch)" by simp
  have parts: "(read @ ?batch) @ ?rest = read @ unread" by simp
  show ?case
  proof (cases "length ?batch < COLLAPSE_FETCH_ROWS")
    case True
    then have "?batch = unread" by simp
    then show ?thesis using True by (subst stream_rows.simps) (simp add: Let_def)
  next
    case False
    show ?thesis
    proof (cases "collapse_is_settled (best_per_segment (read @ ?batch)) (foldl farther None (read @ ?batch)) k tol")
      case True
      have "nearest_segments (read @ unread) k = nearest_segments (read @ ?batch) k"
        using settled_is_final [OF assms(1) _ True, of ?rest] 1(2) unfolding parts by blast
      then show ?thesis using True by (subst stream_rows.simps) (simp only: Let_def best far simp_thms if_True)
    next
      case False
      note unsettled = this
      have shorter: "length ?rest < length unread"
        using \<open>\<not> length ?batch < COLLAPSE_FETCH_ROWS\<close> by (auto simp: COLLAPSE_FETCH_ROWS_def)
      have ih: "nearest_segments ((read @ ?batch) @ stream_rows k tol (best_per_segment (read @ ?batch))
            (foldl farther None (read @ ?batch)) ?rest) k = nearest_segments ((read @ ?batch) @ ?rest) k"
        using 1(1) shorter 1(2) parts by (metis (no_types))
      have "stream_rows k tol (best_per_segment read) (foldl farther None read) unread
          = ?batch @ stream_rows k tol (best_per_segment (read @ ?batch)) (foldl farther None (read @ ?batch)) ?rest"
        using unsettled \<open>\<not> length ?batch < COLLAPSE_FETCH_ROWS\<close>
        by (subst stream_rows.simps) (simp only: Let_def best far simp_thms if_False)
      then show ?thesis using ih unfolding parts by (simp only: append_assoc)
    qed
  qed
qed

text \<open>
  C31: Reading stops early without changing the answer: when the index returns its rows in distance
  order to within the tolerance, the streamed read gives the same segments in the same order, and
  the same cap flag, as collapsing every row.
\<close>

theorem early_stop_is_exact:
  assumes "0 < k" and "nearly_ordered DISTANCE_ORDER_TOLERANCE rows"
  shows "collapsed_nearest_segments rows k = nearest_segments rows k"
proof -
  have none: "best_per_segment [] = []" "foldl farther None [] = None" by (simp_all add: best_per_segment_def)
  show ?thesis
    using stream_rows_final [OF assms(1), of DISTANCE_ORDER_TOLERANCE "[]" rows] assms(2)
    unfolding collapsed_nearest_segments_def none by simp
qed

definition sample_rows :: "(int \<times> rat) list" where
  "sample_rows = map (\<lambda>n. (int (n mod 9), of_nat n)) [1..<71]"

lemma tolerance_bounds: "0 \<le> DISTANCE_ORDER_TOLERANCE" "DISTANCE_ORDER_TOLERANCE \<le> 1"
  using fl_mono [of "1 / 1000" 1] fl_of_nat [of 1] by (simp_all add: DISTANCE_ORDER_TOLERANCE_def fl_nonneg)

lemma sample_rows_ordered: "nearly_ordered DISTANCE_ORDER_TOLERANCE sample_rows"
proof -
  have "fl (of_nat (i + 1) - DISTANCE_ORDER_TOLERANCE) \<le> of_nat (j + 1)" if "i < j" "j < 70" for i j
  proof -
    have "fl (of_nat (i + 1) - DISTANCE_ORDER_TOLERANCE) \<le> fl (of_nat (i + 1))"
      using tolerance_bounds by (intro fl_mono) (simp_all add: algebra_simps add_increasing)
    then show ?thesis using that fl_of_nat [of "i + 1"] by simp
  qed
  then show ?thesis by (simp add: nearly_ordered_def sample_rows_def)
qed

lemma sample_rows_settle: "stream_rows 3 DISTANCE_ORDER_TOLERANCE [] None sample_rows = take 64 sample_rows"
proof -
  let ?batch = "take COLLAPSE_FETCH_ROWS sample_rows"
  have best: "length (foldl keep_best [] ?batch) = 9" "sort (map snd (foldl keep_best [] ?batch)) ! 2 = 3"
    by code_simp+
  have far: "foldl farther None ?batch = Some 64" by code_simp
  have "3 < fl (64 - DISTANCE_ORDER_TOLERANCE)"
    using fl_mono [of 4 "64 - DISTANCE_ORDER_TOLERANCE"] fl_of_nat [of 4] tolerance_bounds by simp
  then have "collapse_is_settled (foldl keep_best [] ?batch) (foldl farther None ?batch) 3 DISTANCE_ORDER_TOLERANCE"
    unfolding far collapse_is_settled_def best by (simp add: best)
  then show ?thesis by (subst stream_rows.simps) (simp only: Let_def simp_thms if_True, simp add: COLLAPSE_FETCH_ROWS_def)
qed

theorem early_stop_is_exact_witness:
  "collapsed_nearest_segments sample_rows 3 = nearest_segments sample_rows 3
   \<and> segment_ids (collapsed_nearest_segments sample_rows 3) = [1, 2, 3]
   \<and> stream_rows 3 DISTANCE_ORDER_TOLERANCE [] None sample_rows = take 64 sample_rows"
proof -
  have "segment_ids (nearest_segments sample_rows 3) = [1, 2, 3]" by code_simp
  moreover have "collapsed_nearest_segments sample_rows 3 = nearest_segments sample_rows 3"
    by (rule early_stop_is_exact) (simp_all add: sample_rows_ordered)
  ultimately show ?thesis using sample_rows_settle by simp
qed

end
