(* ===== verification/Query_Analysis.thy ===== *)
theory Query_Analysis
  imports Unicode_Text
begin

text \<open>
  The query side of the text search: normalization (\<^verbatim>\<open>textnorm.py\<close>) and the routing of a query to
  full-text, trigram or \<open>LIKE\<close> search with the quoting each needs (\<^verbatim>\<open>retrieval/query.py\<close>). Text is a
  list of code points. NFC, the standard library's table, is a parameter.
\<close>

section \<open>Words and white space\<close>

fun usplit_loop :: "utext \<Rightarrow> utext \<Rightarrow> utext list" where
  "usplit_loop word [] = (if word = [] then [] else [rev word])"
| "usplit_loop word (c # s) =
     (if uspace c then (if word = [] then [] else [rev word]) @ usplit_loop [] s else usplit_loop (c # word) s)"

definition usplit :: "utext \<Rightarrow> utext list" where
  "usplit s = usplit_loop [] s"

text \<open>\<open>sub(" ", s)\<close> of a run of white space.\<close>

fun squeeze :: "bool \<Rightarrow> utext \<Rightarrow> utext" where
  "squeeze inside [] = []"
| "squeeze inside (c # s) =
     (if uspace c then (if inside then squeeze True s else 32 # squeeze True s) else c # squeeze False s)"

text \<open>\<open>s.replace(c, new)\<close> for a single character.\<close>

definition replace_char :: "nat \<Rightarrow> utext \<Rightarrow> utext \<Rightarrow> utext" where
  "replace_char c new s = concat (map (\<lambda>d. if d = c then new else [d]) s)"

section \<open>Normalization\<close>

definition CURLY_TO_ASCII :: "(nat \<times> nat) list" where
  "CURLY_TO_ASCII =
     [(0x2018, 39), (0x2019, 39), (0x201A, 39), (0x201B, 39), (0x201C, 34), (0x201D, 34), (0x201E, 34), (0x201F, 34)]"

definition strip_nul :: "utext \<Rightarrow> utext" where
  "strip_nul s = replace_char 0 [] s"

definition fold_curly :: "nat \<Rightarrow> nat" where
  "fold_curly c = (case map_of CURLY_TO_ASCII c of None \<Rightarrow> c | Some d \<Rightarrow> d)"

definition variation_selector :: "nat \<Rightarrow> bool" where
  "variation_selector c \<longleftrightarrow> 0xFE00 \<le> c \<and> c \<le> 0xFE0F"

definition normalize_text :: "(utext \<Rightarrow> utext) \<Rightarrow> utext \<Rightarrow> utext" where
  "normalize_text nfc s =
     ustrip (squeeze False (filter (\<lambda>c. \<not> variation_selector c) (map fold_curly (nfc (strip_nul s)))))"

section \<open>Routing\<close>

definition TRIGRAM_MIN_CHARS :: nat where "TRIGRAM_MIN_CHARS = 3"

definition EMOJI_RANGES :: "(nat \<times> nat) list" where
  "EMOJI_RANGES =
     [(0x1F1E6, 0x1F1FF), (0x1F300, 0x1FAFF), (0x1F000, 0x1F0FF), (0x2600, 0x27BF), (0x2300, 0x23FF),
      (0x2B00, 0x2BFF), (0x2190, 0x21FF)]"

definition is_emoji :: "nat \<Rightarrow> bool" where
  "is_emoji c \<longleftrightarrow> list_ex (\<lambda>(lo, hi). lo \<le> c \<and> c \<le> hi) EMOJI_RANGES"

definition contains_emoji :: "utext \<Rightarrow> bool" where
  "contains_emoji s \<longleftrightarrow> list_ex is_emoji s"

definition is_fully_quoted :: "utext \<Rightarrow> bool" where
  "is_fully_quoted s \<longleftrightarrow> 2 \<le> length s \<and> hd s = 34 \<and> last s = 34"

datatype query_mode = Bm25 | Trigram | Emoji

record analyzed_query =
  raw_query :: utext
  query_mode :: query_mode
  phrase :: utext

definition analyze_query :: "(utext \<Rightarrow> utext) \<Rightarrow> utext \<Rightarrow> analyzed_query" where
  "analyze_query nfc raw =
     (let normalized = normalize_text nfc raw
      in if contains_emoji normalized then \<lparr>raw_query = raw, query_mode = Emoji, phrase = normalized\<rparr>
         else if is_fully_quoted normalized then
           (let inner = ustrip (butlast (tl normalized))
            in if TRIGRAM_MIN_CHARS \<le> length inner
               then \<lparr>raw_query = raw, query_mode = Trigram, phrase = inner\<rparr>
               else \<lparr>raw_query = raw, query_mode = Bm25, phrase = (if inner = [] then normalized else inner)\<rparr>)
         else \<lparr>raw_query = raw, query_mode = Bm25, phrase = normalized\<rparr>)"

definition quote_term :: "utext \<Rightarrow> utext" where
  "quote_term t = 34 # replace_char 34 [34, 34] t @ [34]"

fun join_spaces :: "utext list \<Rightarrow> utext" where
  "join_spaces [] = []"
| "join_spaces [t] = t"
| "join_spaces (t # ts) = t @ 32 # join_spaces ts"

definition bm25_match_expression :: "utext \<Rightarrow> utext" where
  "bm25_match_expression p =
     (let tokens = usplit p in if tokens = [] then [34, 34] else join_spaces (map quote_term tokens))"

definition trigram_match_expression :: "utext \<Rightarrow> utext" where
  "trigram_match_expression p = quote_term p"

definition like_pattern :: "utext \<Rightarrow> utext" where
  "like_pattern p =
     37 # replace_char 95 [92, 95] (replace_char 37 [92, 37] (replace_char 92 [92, 92] p)) @ [37]"

section \<open>What the engines read\<close>

text \<open>
  An FTS5 query made of strings: a string stands in double quotes, a double quote inside it is
  doubled, and strings next to each other are combined with AND. Anything outside the quotes but a
  space is another construct of the query language.
\<close>

fun fts_string :: "utext \<Rightarrow> (utext \<times> utext) option" where
  "fts_string [] = None"
| "fts_string (c # s) =
     (if c = 34 then
        (case s of
           [] \<Rightarrow> Some ([], [])
         | d # s' \<Rightarrow> if d = 34 then map_option (map_prod (Cons 34) id) (fts_string s') else Some ([], s))
      else map_option (map_prod (Cons c) id) (fts_string s))"

lemma fts_string_shorter: "fts_string s = Some (t, rest) \<Longrightarrow> length rest < length s"
proof (induction s arbitrary: t rest rule: fts_string.induct)
  case (2 c s)
  show ?case using 2 by (cases s) (fastforce split: if_splits)+
qed simp

function fts_strings :: "utext \<Rightarrow> utext list option" where
  "fts_strings s =
     (case s of
        [] \<Rightarrow> Some []
      | c # s' \<Rightarrow>
          if c = 32 then fts_strings s'
          else if c = 34 then
            (case fts_string s' of None \<Rightarrow> None | Some (t, rest) \<Rightarrow> map_option (Cons t) (fts_strings rest))
          else None)"
  by auto
termination
  by (relation "measure length") (auto dest: fts_string_shorter)

declare fts_strings.simps [simp del]

text \<open>SQL's \<open>LIKE\<close> with the escape character \<^verbatim>\<open>\\<close>.\<close>

fun sql_like :: "utext \<Rightarrow> utext \<Rightarrow> bool" where
  "sql_like [] t = (t = [])"
| "sql_like (c # p) t =
     (if c = 37 then (case t of [] \<Rightarrow> sql_like p [] | _ # t' \<Rightarrow> sql_like p t \<or> sql_like (c # p) t')
      else if c = 95 then (case t of [] \<Rightarrow> False | _ # t' \<Rightarrow> sql_like p t')
      else if c = 92 then
        (case p of [] \<Rightarrow> False | d # p' \<Rightarrow> (case t of [] \<Rightarrow> False | e # t' \<Rightarrow> e = d \<and> sql_like p' t'))
      else (case t of [] \<Rightarrow> False | e # t' \<Rightarrow> e = c \<and> sql_like p t'))"

section \<open>Quoting is exact\<close>

lemma fts_string_quoted:
  "fts_string (replace_char 34 [34, 34] t @ 34 # rest) = (if rest \<noteq> [] \<and> hd rest = 34 then fts_string (replace_char 34 [34, 34] t @ 34 # rest) else Some (t, rest))"
proof (induction t)
  case Nil
  then show ?case by (cases rest) (auto simp: replace_char_def)
next
  case (Cons c t)
  then show ?case by (auto simp: replace_char_def)
qed

lemma fts_strings_quoted:
  "ts \<noteq> [] \<Longrightarrow> fts_strings (join_spaces (map quote_term ts)) = Some ts"
proof (induction ts rule: join_spaces.induct)
  case (2 t)
  show ?case
    using fts_string_quoted [of t "[]"] by (simp add: quote_term_def fts_strings.simps)
next
  case (3 t t' ts)
  have "fts_strings (32 # join_spaces (map quote_term (t' # ts))) = Some (t' # ts)"
    using 3 by (subst fts_strings.simps) simp
  then show ?case
    using fts_string_quoted [of t "32 # join_spaces (map quote_term (t' # ts))"]
    by (subst fts_strings.simps) (simp add: quote_term_def)
qed simp

text \<open>
  No query reaches FTS5's query language: the \<open>MATCH\<close> argument built for a phrase, whatever it
  contains, is read back as strings only, the phrase's words for full text and the phrase itself
  for trigrams.
\<close>

theorem match_expression_is_literal:
  "fts_strings (bm25_match_expression p) = Some (if usplit p = [] then [[]] else usplit p)
   \<and> fts_strings (trigram_match_expression p) = Some [p]"
proof
  show "fts_strings (bm25_match_expression p) = Some (if usplit p = [] then [[]] else usplit p)"
  proof (cases "usplit p = []")
    case True
    then show ?thesis by (simp add: bm25_match_expression_def fts_strings.simps)
  next
    case False
    then show ?thesis using fts_strings_quoted [OF False] by (simp add: bm25_match_expression_def)
  qed
  show "fts_strings (trigram_match_expression p) = Some [p]"
    using fts_strings_quoted [of "[p]"] by (simp add: trigram_match_expression_def)
qed

definition like_escape :: "nat \<Rightarrow> utext" where
  "like_escape c = (if c \<in> {92, 37, 95} then [92, c] else [c])"

lemma like_pattern_eq: "like_pattern p = 37 # concat (map like_escape p) @ [37]"
proof -
  have "replace_char 95 [92, 95] (replace_char 37 [92, 37] (replace_char 92 [92, 92] p)) = concat (map like_escape p)"
    by (induction p) (auto simp: replace_char_def like_escape_def)
  then show ?thesis by (simp add: like_pattern_def)
qed

lemma like_escaped: "sql_like (concat (map like_escape p) @ q) t \<longleftrightarrow> (\<exists>t'. t = p @ t' \<and> sql_like q t')"
proof (induction p arbitrary: t)
  case (Cons c p)
  show ?case
  proof (cases t)
    case Nil
    then show ?thesis by (auto simp: like_escape_def)
  next
    case (Cons d t')
    then show ?thesis using Cons.IH [of t'] by (auto simp: like_escape_def)
  qed
qed simp

lemma like_any: "sql_like (37 # q) t \<longleftrightarrow> (\<exists>a b. t = a @ b \<and> sql_like q b)"
proof (induction t)
  case (Cons d t)
  have "(\<exists>a b. d # t = a @ b \<and> sql_like q b) \<longleftrightarrow> sql_like q (d # t) \<or> (\<exists>a b. t = a @ b \<and> sql_like q b)"
    by (metis append_Cons append_Nil list.exhaust list.inject)
  then show ?case using Cons by simp
qed simp

lemma like_finds_substrings: "sql_like (like_pattern p) t \<longleftrightarrow> (\<exists>a b. t = a @ p @ b)"
proof -
  have "sql_like [37] b" for b by (induction b) auto
  then show ?thesis unfolding like_pattern_eq like_any like_escaped by auto
qed

text \<open>
  The emoji path is a plain substring search: the pattern built for a phrase matches exactly the
  texts that contain the phrase, its percent signs, underscores and backslashes taken literally.
\<close>

theorem like_pattern_is_substring:
  "sql_like (like_pattern p) t \<longleftrightarrow> (\<exists>a b. t = a @ p @ b)"
  by (rule like_finds_substrings)

section \<open>Normalized text\<close>

text \<open>White space as single spaces only.\<close>

fun tidy :: "bool \<Rightarrow> utext \<Rightarrow> bool" where
  "tidy inside [] = True"
| "tidy inside (c # s) = (if uspace c then c = 32 \<and> \<not> inside \<and> tidy True s else tidy False s)"

lemma uspace_32 [simp]: "uspace 32"
  by (simp add: uspace_def)

lemma squeeze_tidy: "tidy inside (squeeze inside s)"
  by (induction inside s rule: squeeze.induct) auto

lemma tidy_squeeze: "tidy inside s \<Longrightarrow> squeeze inside s = s"
  by (induction inside s rule: tidy.induct) (auto split: if_splits)

lemma tidy_weaken: "tidy True s \<Longrightarrow> tidy False s"
  by (cases s) auto

lemma tidy_append: "tidy inside (s @ t) \<Longrightarrow> tidy inside s"
  by (induction inside s rule: tidy.induct) (auto split: if_splits)

lemma tidy_dropWhile: "tidy inside s \<Longrightarrow> tidy False (dropWhile uspace s)"
  by (induction inside s rule: tidy.induct) (auto split: if_splits)

lemma ustrip_prefix: "\<exists>t. dropWhile uspace s = ustrip s @ t"
proof -
  have "dropWhile uspace s = rev (dropWhile uspace (rev (dropWhile uspace s))) @ rev (takeWhile uspace (rev (dropWhile uspace s)))"
    by (metis rev_append rev_rev_ident takeWhile_dropWhile_id)
  then show ?thesis unfolding ustrip_def by blast
qed

lemma ustrip_subset: "set (ustrip s) \<subseteq> set s"
  by (auto simp: ustrip_def dest!: set_dropWhileD)

lemma tidy_ustrip: "tidy inside s \<Longrightarrow> tidy False (ustrip s)"
  using ustrip_prefix [of s] tidy_dropWhile [of inside s] tidy_append by metis

lemma ustrip_ends: "ustrip s \<noteq> [] \<Longrightarrow> \<not> uspace (hd (ustrip s)) \<and> \<not> uspace (last (ustrip s))"
proof -
  assume ne: "ustrip s \<noteq> []"
  obtain t where t: "dropWhile uspace s = ustrip s @ t" using ustrip_prefix by blast
  have "hd (dropWhile uspace s) = hd (ustrip s)" using ne by (simp add: t)
  moreover have "\<not> uspace (hd (dropWhile uspace s))" using ne t hd_dropWhile [of uspace s] by simp
  moreover have "last (ustrip s) = hd (dropWhile uspace (rev (dropWhile uspace s)))"
    using ne by (simp add: ustrip_def last_rev)
  moreover have "dropWhile uspace (rev (dropWhile uspace s)) \<noteq> []" using ne by (simp add: ustrip_def)
  ultimately show ?thesis using hd_dropWhile [of uspace "rev (dropWhile uspace s)"] by metis
qed

lemma ustrip_id:
  assumes "s \<noteq> [] \<longrightarrow> \<not> uspace (hd s) \<and> \<not> uspace (last s)"
  shows "ustrip s = s"
proof (cases "s = []")
  case False
  then have "dropWhile uspace s = s" using assms by (cases s) auto
  moreover have "dropWhile uspace (rev s) = rev s" using assms False by (cases "rev s") (auto simp: last_rev)
  ultimately show ?thesis by (simp add: ustrip_def)
qed (simp add: ustrip_def)

lemma ustrip_idem: "ustrip (ustrip s) = ustrip s"
  by (rule ustrip_id) (use ustrip_ends in blast)

lemma fold_curly_idem: "fold_curly (fold_curly c) = fold_curly c"
  by (simp add: fold_curly_def CURLY_TO_ASCII_def)

lemma fold_curly_positive: "0 < c \<Longrightarrow> 0 < fold_curly c"
  by (simp add: fold_curly_def CURLY_TO_ASCII_def)

lemma squeeze_subset: "set (squeeze inside s) \<subseteq> insert 32 (set s)"
  by (induction inside s rule: squeeze.induct) auto

definition normal_char :: "nat \<Rightarrow> bool" where
  "normal_char c \<longleftrightarrow> 0 < c \<and> \<not> variation_selector c \<and> fold_curly c = c"

lemma normalized_chars:
  assumes "\<And>t. 0 \<notin> set t \<Longrightarrow> 0 \<notin> set (nfc t)" and "c \<in> set (normalize_text nfc s)"
  shows "normal_char c"
proof -
  have no_nul: "0 \<notin> set (nfc (strip_nul s))"
    by (rule assms(1)) (auto simp: strip_nul_def replace_char_def split: if_splits)
  have "c = 32 \<or> c \<in> set (filter (\<lambda>c. \<not> variation_selector c) (map fold_curly (nfc (strip_nul s))))"
    using assms(2) ustrip_subset squeeze_subset unfolding normalize_text_def by (metis insertE subsetD)
  moreover have "normal_char 32" by (simp add: normal_char_def variation_selector_def fold_curly_def CURLY_TO_ASCII_def)
  moreover have "normal_char (fold_curly d)" if "d \<in> set (nfc (strip_nul s))" "\<not> variation_selector (fold_curly d)" for d
  proof -
    have "d \<noteq> 0" using no_nul that(1) by (metis (no_types))
    then show ?thesis using that(2) by (simp add: normal_char_def fold_curly_idem fold_curly_positive)
  qed
  ultimately show ?thesis by auto
qed

text \<open>
  Normalized text is clean: it has no NUL, no variation selector and no curly quote, its white
  space is single inner spaces, and normalizing it again changes nothing provided it is still in NFC.
\<close>

theorem normalized_text_is_stable:
  assumes "\<And>t. 0 \<notin> set t \<Longrightarrow> 0 \<notin> set (nfc t)" and "n = normalize_text nfc s"
  shows "(\<forall>c \<in> set n. normal_char c) \<and> tidy False n \<and> ustrip n = n \<and> (nfc n = n \<longrightarrow> normalize_text nfc n = n)"
proof -
  have chars: "\<forall>c \<in> set n. normal_char c" using normalized_chars [of nfc _ s] assms by blast
  have t: "tidy False n" unfolding assms(2) normalize_text_def by (rule tidy_ustrip [OF squeeze_tidy])
  have u: "ustrip n = n" unfolding assms(2) normalize_text_def by (rule ustrip_idem)
  have "normalize_text nfc n = n" if "nfc n = n"
  proof -
    have "strip_nul n = n" using chars
      by (induction n) (auto simp: strip_nul_def replace_char_def normal_char_def)
    moreover have "map fold_curly n = n" using chars by (simp add: map_idI normal_char_def)
    moreover have "filter (\<lambda>c. \<not> variation_selector c) n = n" using chars by (simp add: filter_id_conv normal_char_def)
    ultimately show ?thesis using that tidy_squeeze [OF t] u by (simp add: normalize_text_def)
  qed
  then show ?thesis using chars t u by blast
qed

theorem normalized_text_is_stable_witness:
  "normalize_text id [0, 32, 0x2019, 9, 0xFE0F, 10, 65, 32] = [39, 32, 65]
   \<and> normalize_text id [39, 32, 65] = [39, 32, 65] \<and> tidy False [39, 32, 65]"
proof -
  have n: "normalize_text id [0, 32, 0x2019, 9, 0xFE0F, 10, 65, 32] = [39, 32, 65]" by code_simp
  have "(\<forall>c \<in> set [39, 32, 65]. normal_char c) \<and> tidy False [39, 32, 65] \<and> ustrip [39, 32, 65] = [39, 32, 65]
      \<and> (id [39, 32, 65] = [39, 32, 65 :: nat] \<longrightarrow> normalize_text id [39, 32, 65] = [39, 32, 65])"
    by (rule normalized_text_is_stable [where s = "[0, 32, 0x2019, 9, 0xFE0F, 10, 65, 32]"]) (simp, rule n [symmetric])
  then show ?thesis using n by (simp del: tidy.simps)
qed

text \<open>
  The proviso matters, and the module's claim that normalizing twice is normalizing once fails: a
  variation selector between a letter and its combining accent keeps NFC from composing them, its
  removal brings them together, and the second pass composes them.
\<close>

theorem normalize_text_twice_differs:
  assumes "nfc [0x65, 0xFE0F, 0x301] = [0x65, 0xFE0F, 0x301]" and "nfc [0x65, 0x301] = [0xE9]"
  shows "normalize_text nfc (normalize_text nfc [0x65, 0xFE0F, 0x301]) \<noteq> normalize_text nfc [0x65, 0xFE0F, 0x301]"
proof -
  have "strip_nul [0x65, 0xFE0F, 0x301] = [0x65, 0xFE0F, 0x301]" "strip_nul [0x65, 0x301] = [0x65, 0x301]"
    by code_simp+
  moreover have "ustrip (squeeze False (filter (\<lambda>c. \<not> variation_selector c) (map fold_curly [0x65, 0xFE0F, 0x301]))) = [0x65, 0x301]"
    "ustrip (squeeze False (filter (\<lambda>c. \<not> variation_selector c) (map fold_curly [0xE9]))) = [0xE9]" by code_simp+
  ultimately show ?thesis using assms by (simp add: normalize_text_def)
qed

definition sample_nfc :: "utext \<Rightarrow> utext" where
  "sample_nfc s = (if s = [0x65, 0x301] then [0xE9] else s)"

theorem normalize_text_twice_differs_witness:
  "normalize_text sample_nfc (normalize_text sample_nfc [0x65, 0xFE0F, 0x301]) \<noteq> normalize_text sample_nfc [0x65, 0xFE0F, 0x301]"
  by (rule normalize_text_twice_differs) (simp_all add: sample_nfc_def)

lemma set_tl_subset: "set (tl s) \<subseteq> set s"
  by (cases s) auto

text \<open>
  Queries are routed so that nothing is lost: exactly the queries with an emoji go to the substring
  search, so full text and trigrams, which cannot see emoji, never get one, and a trigram search
  always has the three characters it needs.
\<close>

theorem routing_is_sound:
  "(query_mode (analyze_query nfc raw) = Emoji \<longleftrightarrow> contains_emoji (normalize_text nfc raw))
   \<and> (query_mode (analyze_query nfc raw) \<noteq> Emoji \<longrightarrow> \<not> contains_emoji (phrase (analyze_query nfc raw)))
   \<and> (query_mode (analyze_query nfc raw) = Trigram \<longrightarrow> 3 \<le> length (phrase (analyze_query nfc raw)))"
proof -
  let ?n = "normalize_text nfc raw"
  have "set (ustrip (butlast (tl ?n))) \<subseteq> set ?n"
    using ustrip_subset [of "butlast (tl ?n)"] set_tl_subset [of ?n] by (fastforce dest: in_set_butlastD)
  then have "contains_emoji (ustrip (butlast (tl ?n))) \<Longrightarrow> contains_emoji ?n"
    by (auto simp: contains_emoji_def list_ex_iff)
  then show ?thesis by (auto simp: analyze_query_def Let_def TRIGRAM_MIN_CHARS_def)
qed

theorem routing_is_sound_witness:
  "query_mode (analyze_query id [34, 97, 98, 99, 34]) = Trigram \<and> 3 \<le> length (phrase (analyze_query id [34, 97, 98, 99, 34]))"
proof -
  have "query_mode (analyze_query id [34, 97, 98, 99, 34]) = Trigram" by code_simp
  then show ?thesis using routing_is_sound [of id "[34, 97, 98, 99, 34]"] by simp
qed

end
