(* ===== verification/Embed_Batching.thy ===== *)
theory Embed_Batching
  imports Prelude
begin

text \<open>
  Batches for a right-padded encoder (\<^verbatim>\<open>embed/batching.py\<close>): rows longest first, filled greedily up to
  a row count and a padded token budget.
\<close>

definition batch_fits :: "int \<Rightarrow> int \<Rightarrow> nat list \<Rightarrow> int \<Rightarrow> bool" where
  "batch_fits max_size max_tokens current width \<longleftrightarrow>
     int (length current) < max_size \<and> (int (length current) + 1) * width \<le> max_tokens"

fun fill_batches :: "int list \<Rightarrow> int \<Rightarrow> int \<Rightarrow> nat list \<Rightarrow> int \<Rightarrow> nat list \<Rightarrow> nat list list" where
  "fill_batches lengths max_size max_tokens current width [] = (if current = [] then [] else [current])"
| "fill_batches lengths max_size max_tokens current width (i # order) =
     (if current \<noteq> [] \<and> batch_fits max_size max_tokens current width
      then fill_batches lengths max_size max_tokens (current @ [i]) width order
      else (if current \<noteq> [] then [current] else [])
           @ fill_batches lengths max_size max_tokens [i] (lengths ! i) order)"

datatype batch_error = Batch_Size int | Batch_Tokens int | Row_Length nat int

definition plan_batches :: "int list \<Rightarrow> int \<Rightarrow> int \<Rightarrow> batch_error + nat list list" where
  "plan_batches lengths max_size max_tokens =
     (if max_size < 1 then Inl (Batch_Size max_size)
      else if max_tokens < 1 then Inl (Batch_Tokens max_tokens)
      else case find (\<lambda>i. lengths ! i < 1) [0..<length lengths] of
        Some i \<Rightarrow> Inl (Row_Length i (lengths ! i))
      | None \<Rightarrow>
          Inr (fill_batches lengths max_size max_tokens [] 0
                 (sort_desc (\<lambda>i. lengths ! i) [0..<length lengths])))"

definition padded_tokens :: "int list \<Rightarrow> nat list list \<Rightarrow> int" where
  "padded_tokens lengths batches =
     sum_list (map (\<lambda>b. int (length b) * Max ((!) lengths ` set b)) (filter (\<lambda>b. b \<noteq> []) batches))"

section \<open>What a batch is\<close>

text \<open>
  A full batch: longest row first, within both bounds unless it is a single row. \<open>next_row\<close>, the row
  after it, would have broken one of them.
\<close>

definition batch_ok :: "int list \<Rightarrow> int \<Rightarrow> int \<Rightarrow> nat list \<Rightarrow> bool" where
  "batch_ok lengths max_size max_tokens b \<longleftrightarrow>
     b \<noteq> [] \<and> (\<forall>i \<in> set b. lengths ! i \<le> lengths ! hd b) \<and> int (length b) \<le> max_size
     \<and> (length b = 1 \<or> int (length b) * (lengths ! hd b) \<le> max_tokens)"

fun greedy :: "int list \<Rightarrow> int \<Rightarrow> int \<Rightarrow> nat list list \<Rightarrow> bool" where
  "greedy lengths max_size max_tokens (b # c # bs) =
     (\<not> batch_fits max_size max_tokens b (lengths ! hd b) \<and> greedy lengths max_size max_tokens (c # bs))"
| "greedy lengths max_size max_tokens bs = True"

lemma fill_concat: "concat (fill_batches lengths ms mt current width order) = current @ order"
  by (induction lengths ms mt current width order rule: fill_batches.induct) auto

lemma fill_ok:
  assumes "current \<noteq> []" and "width = lengths ! hd current" and "batch_ok lengths ms mt current"
    and "sorted_wrt (\<lambda>i j. lengths ! j \<le> lengths ! i) (current @ order)" and "1 \<le> ms"
  shows "(\<forall>b \<in> set (fill_batches lengths ms mt current width order). batch_ok lengths ms mt b)
       \<and> greedy lengths ms mt (fill_batches lengths ms mt current width order)
       \<and> fill_batches lengths ms mt current width order \<noteq> []"
  using assms
proof (induction order arbitrary: current width)
  case (Cons i order)
  show ?case
  proof (cases "batch_fits ms mt current width")
    case True
    have "\<forall>j \<in> set current. lengths ! i \<le> lengths ! j" using Cons.prems(4) by (simp add: sorted_wrt_append)
    then have "lengths ! i \<le> lengths ! hd current" using Cons.prems(1) by simp
    moreover have "int (length (current @ [i])) * (lengths ! hd current) \<le> mt"
      using True Cons.prems(2) by (simp add: batch_fits_def algebra_simps)
    ultimately have "batch_ok lengths ms mt (current @ [i])"
      using Cons.prems(1,3) True by (simp add: batch_ok_def batch_fits_def)
    then show ?thesis using Cons.IH [of "current @ [i]" width] Cons.prems True by simp
  next
    case False
    have one: "batch_ok lengths ms mt [i]" using Cons.prems(5) by (simp add: batch_ok_def)
    note rest = Cons.IH [of "[i]" "lengths ! i", OF _ _ one _ Cons.prems(5)]
    have sorted: "sorted_wrt (\<lambda>i j. lengths ! j \<le> lengths ! i) ([i] @ order)"
      using Cons.prems(4) by (simp add: sorted_wrt_append)
    have "greedy lengths ms mt (current # fill_batches lengths ms mt [i] (lengths ! i) order)"
      using rest sorted False Cons.prems(2) by (cases "fill_batches lengths ms mt [i] (lengths ! i) order") auto
    then show ?thesis using rest sorted False Cons.prems(1,3) by simp
  qed
qed simp

lemma find_short: "find (\<lambda>i. lengths ! i < (1::int)) [0..<length lengths] = None \<longleftrightarrow> (\<forall>l \<in> set lengths. 1 \<le> l)"
  by (auto simp: find_None_iff all_set_conv_all_nth linorder_not_less) (metis linorder_not_less)

lemma plan_batches_shape:
  assumes "1 \<le> max_size" and "1 \<le> max_tokens" and "\<forall>l \<in> set lengths. 1 \<le> l"
  shows "\<exists>bs. plan_batches lengths max_size max_tokens = Inr bs
     \<and> mset (concat bs) = mset [0..<length lengths]
     \<and> (\<forall>b \<in> set bs. batch_ok lengths max_size max_tokens b)
     \<and> sorted_wrt (\<lambda>i j. lengths ! j \<le> lengths ! i) (concat bs)
     \<and> greedy lengths max_size max_tokens bs"
proof -
  define order where "order = sort_desc (\<lambda>i. lengths ! i) [0..<length lengths]"
  have sorted: "sorted_wrt (\<lambda>i j. lengths ! j \<le> lengths ! i) order" unfolding order_def by (rule sort_desc_sorted)
  define bs where "bs = fill_batches lengths max_size max_tokens [] 0 order"
  have "plan_batches lengths max_size max_tokens = Inr bs"
    using assms find_short [of lengths] by (simp add: plan_batches_def bs_def order_def)
  moreover have "concat bs = order" by (simp add: bs_def fill_concat)
  moreover have "(\<forall>b \<in> set bs. batch_ok lengths max_size max_tokens b) \<and> greedy lengths max_size max_tokens bs"
  proof (cases order)
    case Nil
    then show ?thesis by (simp add: bs_def)
  next
    case (Cons i rest)
    have one: "batch_ok lengths max_size max_tokens [i]" using assms(1) by (simp add: batch_ok_def)
    show ?thesis using fill_ok [of "[i]" "lengths ! i", OF _ _ one _ assms(1)] sorted by (simp add: bs_def Cons)
  qed
  ultimately show ?thesis using sorted by (simp add: order_def)
qed

text \<open>
  The batches partition the rows: every index is in exactly one batch, a batch keeps the row bound
  and, unless it is a single row, the padded token bound, its first row is its longest, batches
  come longest first, and none could have taken one row more.
\<close>

theorem batches_partition_rows:
  assumes "1 \<le> max_size" and "1 \<le> max_tokens" and "\<forall>l \<in> set lengths. 1 \<le> l"
  shows "\<exists>bs. plan_batches lengths max_size max_tokens = Inr bs
     \<and> mset (concat bs) = mset [0..<length lengths]
     \<and> (\<forall>b \<in> set bs. batch_ok lengths max_size max_tokens b)
     \<and> sorted_wrt (\<lambda>i j. lengths ! j \<le> lengths ! i) (concat bs)
     \<and> greedy lengths max_size max_tokens bs"
  by (rule plan_batches_shape [OF assms])

theorem batches_partition_rows_witness:
  "plan_batches [5, 9, 3, 9, 30] 3 20 = Inr [[4], [1, 3], [0, 2]]
   \<and> sorted_wrt (\<lambda>i j. [5, 9, 3, 9, 30 :: int] ! j \<le> [5, 9, 3, 9, 30] ! i) (concat [[4], [1, 3], [0, 2]])"
proof -
  have p: "plan_batches [5, 9, 3, 9, 30] 3 20 = Inr [[4], [1, 3], [0, 2]]" by code_simp
  then show ?thesis using batches_partition_rows [of 3 20 "[5, 9, 3, 9, 30]"] by auto
qed

text \<open>
  The padding of a batch is bounded by the batches, not by the corpus: the tokens the encoder
  computes are at most the token budget for each batch, but for the rows longer than the budget,
  which cost exactly their own length.
\<close>

theorem padding_is_bounded:
  assumes "plan_batches lengths max_size max_tokens = Inr bs"
  shows "padded_tokens lengths bs
     \<le> sum_list (map (\<lambda>b. if length b = 1 then lengths ! hd b else max_tokens) bs)"
proof -
  have valid: "1 \<le> max_size" "1 \<le> max_tokens" "\<forall>l \<in> set lengths. 1 \<le> l"
    using assms find_short by (auto simp: plan_batches_def split: if_splits option.splits)
  have ok: "\<forall>b \<in> set bs. batch_ok lengths max_size max_tokens b"
    using plan_batches_shape [OF valid] assms by auto
  have "int (length b) * Max ((!) lengths ` set b) \<le> (if length b = 1 then lengths ! hd b else max_tokens)"
    if "batch_ok lengths max_size max_tokens b" for b
  proof -
    have "Max ((!) lengths ` set b) = lengths ! hd b"
      using that by (intro Max_eqI) (auto simp: batch_ok_def)
    then show ?thesis using that by (auto simp: batch_ok_def)
  qed
  then have "sum_list (map (\<lambda>b. int (length b) * Max ((!) lengths ` set b)) bs)
      \<le> sum_list (map (\<lambda>b. if length b = 1 then lengths ! hd b else max_tokens) bs)"
    using ok by (intro sum_list_mono) blast
  moreover have "filter (\<lambda>b. b \<noteq> []) bs = bs" using ok by (auto simp: filter_id_conv batch_ok_def)
  ultimately show ?thesis by (simp add: padded_tokens_def)
qed

theorem padding_is_bounded_witness:
  "padded_tokens [5, 9, 3, 9, 30] [[4], [1, 3], [0, 2]] \<le> 30 + 20 + 20"
proof -
  have p: "plan_batches [5, 9, 3, 9, 30] 3 20 = Inr [[4], [1, 3], [0, 2]]" by code_simp
  from padding_is_bounded [OF this] show ?thesis by simp
qed

end
