(* ===== verification/Text_Chunking.thy ===== *)
theory Text_Chunking
  imports Query_Analysis
begin

text \<open>
  Splitting enrichment text into chunks (\<^verbatim>\<open>enrich/chunking.py\<close>) and the token estimate it counts by
  (\<^verbatim>\<open>tokens.py\<close>). Text is a list of code points; the two regular expressions are written out.
\<close>

definition CHUNK_TARGET_TOKENS :: nat where "CHUNK_TARGET_TOKENS = 1500"
definition CHUNK_OVERLAP_TOKENS :: nat where "CHUNK_OVERLAP_TOKENS = 150"

text \<open>\<open>max(1, ceil(len(text) / 4.0))\<close>.\<close>

definition text_tokens :: "utext \<Rightarrow> nat" where
  "text_tokens s = (if s = [] then 0 else max 1 ((length s + 3) div 4))"

section \<open>Units\<close>

text \<open>
  \<^verbatim>\<open>\n\s*\n\<close> at the start of \<open>s\<close>: from a newline to the last newline of the white space after it.
  What is left is what follows the match.
\<close>

definition paragraph_break :: "utext \<Rightarrow> utext option" where
  "paragraph_break s =
     (case s of
        [] \<Rightarrow> None
      | c # s' \<Rightarrow>
          (let run = takeWhile uspace s'
           in if c = 10 \<and> 10 \<in> set run
              then Some (drop (length (dropWhile (\<lambda>d. d \<noteq> 10) (rev run))) s') else None))"

lemma paragraph_break_shorter: "paragraph_break s = Some rest \<Longrightarrow> length rest < length s"
  by (auto simp: paragraph_break_def Let_def split: list.splits if_splits)

function split_paragraphs :: "utext \<Rightarrow> utext \<Rightarrow> utext list" where
  "split_paragraphs piece s =
     (case paragraph_break s of
        Some rest \<Rightarrow> rev piece # split_paragraphs [] rest
      | None \<Rightarrow> (case s of [] \<Rightarrow> [rev piece] | c # s' \<Rightarrow> split_paragraphs (c # piece) s'))"
  by auto
termination
  by (relation "measure (\<lambda>(piece, s). length s)") (auto dest: paragraph_break_shorter)

declare split_paragraphs.simps [simp del]

text \<open>\<^verbatim>\<open>(?<=[.!?])\s+\<close>: the white space after a full stop, an exclamation or a question mark.\<close>

definition ends_sentence :: "nat \<Rightarrow> bool" where
  "ends_sentence c \<longleftrightarrow> c = 46 \<or> c = 33 \<or> c = 63"

fun split_sentences :: "bool \<Rightarrow> utext \<Rightarrow> utext \<Rightarrow> utext list" where
  "split_sentences skipping piece [] = [rev piece]"
| "split_sentences skipping piece (c # s) =
     (if skipping \<and> uspace c then split_sentences True piece s
      else if uspace c \<and> piece \<noteq> [] \<and> ends_sentence (hd piece) then rev piece # split_sentences True [] s
      else split_sentences False (c # piece) s)"

definition stripped_pieces :: "utext list \<Rightarrow> utext list" where
  "stripped_pieces ps = map ustrip (filter (\<lambda>p. ustrip p \<noteq> []) ps)"

definition split_into_units :: "utext \<Rightarrow> utext list" where
  "split_into_units s =
     (let paragraphs = stripped_pieces (split_paragraphs [] s);
          sentences = stripped_pieces (split_sentences False [] s)
      in if 1 < length paragraphs then paragraphs
         else if sentences = [] then [ustrip s] else sentences)"

function slices :: "nat \<Rightarrow> utext \<Rightarrow> utext list" where
  "slices n s = (if s = [] \<or> n = 0 then [] else take n s # slices n (drop n s))"
  by auto
termination
  by (relation "measure (\<lambda>(n, s). length s)") auto

declare slices.simps [simp del]

definition hard_slice :: "utext \<Rightarrow> nat \<Rightarrow> utext list" where
  "hard_slice u max_tokens = (if length u \<le> max_tokens * 4 then [u] else slices (max_tokens * 4) u)"

definition sized_units :: "nat \<Rightarrow> utext \<Rightarrow> utext list" where
  "sized_units target s =
     concat (map (\<lambda>u. if target < text_tokens u then hard_slice u target else [u]) (split_into_units s))"

section \<open>Chunks\<close>

definition unit_tokens :: "utext list \<Rightarrow> nat" where
  "unit_tokens us = sum_list (map text_tokens us)"

text \<open>The trailing units of the closed chunk, read backwards while they fit the overlap.\<close>

fun take_overlap :: "nat \<Rightarrow> utext list \<Rightarrow> nat \<Rightarrow> utext list \<Rightarrow> utext list" where
  "take_overlap overlap acc n [] = acc"
| "take_overlap overlap acc n (prev # before) =
     (if overlap < n + text_tokens prev then acc
      else take_overlap overlap (prev # acc) (n + text_tokens prev) before)"

definition overlap_of :: "nat \<Rightarrow> utext list \<Rightarrow> utext list" where
  "overlap_of overlap current = take_overlap overlap [] 0 (rev current)"

text \<open>The chunks as lists of units, \<open>current\<close> the one being filled.\<close>

fun fill_chunks :: "nat \<Rightarrow> nat \<Rightarrow> utext list \<Rightarrow> utext list \<Rightarrow> utext list list" where
  "fill_chunks target overlap current [] = (if current = [] then [] else [current])"
| "fill_chunks target overlap current (u # us) =
     (if current \<noteq> [] \<and> target < unit_tokens current + text_tokens u
      then current # fill_chunks target overlap (overlap_of overlap current @ [u]) us
      else fill_chunks target overlap (current @ [u]) us)"

fun join_paragraphs :: "utext list \<Rightarrow> utext" where
  "join_paragraphs [] = []"
| "join_paragraphs [u] = u"
| "join_paragraphs (u # us) = u @ [10, 10] @ join_paragraphs us"

text \<open>\<open>range(0, n, 0)\<close> is a \<open>ValueError\<close>: with no target at all a text that has to be sliced raises.\<close>

definition chunk_text :: "nat \<Rightarrow> nat \<Rightarrow> utext \<Rightarrow> value_error + utext list" where
  "chunk_text target overlap s =
     (let stripped = ustrip s
      in if stripped = [] then Inr []
         else if target = 0 then Inl (ValueError ''range() arg 3 must not be zero'')
         else Inr (map join_paragraphs (fill_chunks target overlap [] (sized_units target stripped))))"

section \<open>Sizes\<close>

lemma unit_tokens_simps [simp]:
  "unit_tokens [] = 0" "unit_tokens (u # us) = text_tokens u + unit_tokens us"
  "unit_tokens (us @ vs) = unit_tokens us + unit_tokens vs" "unit_tokens (rev us) = unit_tokens us"
  by (simp_all add: unit_tokens_def rev_map [symmetric])

lemma take_overlap_tokens:
  "n = unit_tokens acc \<Longrightarrow> n \<le> overlap \<Longrightarrow> unit_tokens (take_overlap overlap acc n us) \<le> overlap"
proof (induction us arbitrary: acc n)
  case (Cons u us)
  then show ?case using Cons.IH [of "n + text_tokens u" "u # acc"] by (simp add: add.commute)
qed simp

lemma overlap_tokens: "unit_tokens (overlap_of overlap current) \<le> overlap"
  unfolding overlap_of_def by (rule take_overlap_tokens) simp_all

lemma take_overlap_suffix:
  "\<exists>before. rev us @ acc = before @ take_overlap overlap acc n us"
proof (induction us arbitrary: acc n)
  case (Cons u us)
  show ?case using Cons.IH [of "u # acc" "n + text_tokens u"] by auto
qed simp

lemma overlap_suffix: "\<exists>before. current = before @ overlap_of overlap current"
  using take_overlap_suffix [of "rev current" "[]" overlap 0] by (simp add: overlap_of_def)

lemma fill_chunks_tokens:
  assumes "\<forall>u \<in> set us. text_tokens u \<le> target" and "unit_tokens current \<le> target + overlap"
  shows "\<forall>c \<in> set (fill_chunks target overlap current us). unit_tokens c \<le> target + overlap"
  using assms
proof (induction us arbitrary: current)
  case (Cons u us)
  have u: "text_tokens u \<le> target" and us: "\<forall>u \<in> set us. text_tokens u \<le> target"
    using Cons.prems(1) by simp_all
  show ?case
  proof (cases "current \<noteq> [] \<and> target < unit_tokens current + text_tokens u")
    case True
    have "unit_tokens (overlap_of overlap current @ [u]) \<le> target + overlap"
      using overlap_tokens [of overlap current] u by simp
    from Cons.IH [OF us this] show ?thesis using True Cons.prems(2) by simp
  next
    case False
    have "unit_tokens (current @ [u]) \<le> target + overlap" using False u by (cases "current = []") auto
    from Cons.IH [OF us this] show ?thesis unfolding fill_chunks.simps if_not_P [OF False] .
  qed
qed simp

lemma slices_le: "u \<in> set (slices n s) \<Longrightarrow> length u \<le> n \<and> u \<noteq> []"
proof (induction n s rule: slices.induct)
  case (1 n s)
  show ?case
  proof (cases "s = [] \<or> n = 0")
    case True
    then show ?thesis using 1(2) by (subst (asm) slices.simps) simp
  next
    case False
    then have "u = take n s \<or> u \<in> set (slices n (drop n s))" using 1(2) by (subst (asm) slices.simps) simp
    then show ?thesis using 1(1) False by auto
  qed
qed

lemma slices_concat: "0 < n \<Longrightarrow> concat (slices n s) = s"
proof (induction n s rule: slices.induct)
  case (1 n s)
  show ?case
  proof (cases "s = []")
    case True
    then show ?thesis by (subst slices.simps) simp
  next
    case False
    then show ?thesis using 1 by (subst slices.simps) simp
  qed
qed

lemma sized_units_tokens: "0 < target \<Longrightarrow> u \<in> set (sized_units target s) \<Longrightarrow> text_tokens u \<le> target"
proof -
  assume t: "0 < target" and "u \<in> set (sized_units target s)"
  then have "\<exists>v. u \<in> set (if target < text_tokens v then hard_slice v target else [v])"
    unfolding sized_units_def set_concat set_map by blast
  then obtain v where v: "u \<in> set (if target < text_tokens v then hard_slice v target else [v])" by blast
  show ?thesis
  proof (cases "target < text_tokens v")
    case True
    then have long: "\<not> length v \<le> target * 4" using t by (auto simp: text_tokens_def max_def split: if_splits)
    then have "u \<in> set (slices (target * 4) v)" using v True by (simp add: hard_slice_def)
    from slices_le [OF this] show ?thesis using t by (auto simp: text_tokens_def)
  qed (use v in simp)
qed

lemma estimate_length: "length u \<le> 4 * text_tokens u"
  by (auto simp: text_tokens_def max_def)

lemma estimate_positive: "u \<noteq> [] \<Longrightarrow> 1 \<le> text_tokens u"
  by (simp add: text_tokens_def)

lemma join_length: "us \<noteq> [] \<Longrightarrow> length (join_paragraphs us) + 2 = sum_list (map length us) + 2 * length us"
  by (induction us rule: join_paragraphs.induct) auto

section \<open>Nothing is lost\<close>

definition solid :: "utext \<Rightarrow> utext" where
  "solid s = filter (\<lambda>c. \<not> uspace c) s"

lemma solid_simps [simp]:
  "solid [] = []" "solid (s @ t) = solid s @ solid t" "solid (c # s) = (if uspace c then solid s else c # solid s)"
  by (simp_all add: solid_def)

lemma solid_spaces: "\<forall>c \<in> set s. uspace c \<Longrightarrow> solid s = []"
  by (simp add: solid_def filter_empty_conv)

lemma solid_dropWhile: "solid (dropWhile uspace s) = solid s"
  by (induction s) auto

lemma solid_rev: "solid (rev s) = rev (solid s)"
  by (simp add: solid_def rev_filter)

lemma solid_ustrip: "solid (ustrip s) = solid s"
  by (simp add: ustrip_def solid_rev solid_dropWhile)

lemma paragraph_break_solid: "paragraph_break s = Some rest \<Longrightarrow> solid s = solid rest"
proof -
  assume b: "paragraph_break s = Some rest"
  then obtain s' where s: "s = 10 # s'" by (auto simp: paragraph_break_def Let_def split: list.splits if_splits)
  let ?run = "takeWhile uspace s'"
  let ?n = "length (dropWhile (\<lambda>d. d \<noteq> 10) (rev ?run))"
  have rest: "rest = drop ?n s'" using b by (auto simp: s paragraph_break_def Let_def split: if_splits)
  have "?n \<le> length ?run" by (metis length_dropWhile_le length_rev)
  then have "set (take ?n s') \<subseteq> set ?run"
    by (metis set_take_subset takeWhile_eq_take take_take min.absorb1)
  then have "solid (take ?n s') = []" by (intro solid_spaces) (auto dest: set_takeWhileD)
  moreover have "solid s' = solid (take ?n s') @ solid (drop ?n s')" by (metis append_take_drop_id solid_simps(2))
  ultimately show ?thesis using rest by (simp add: s uspace_def)
qed

lemma solid_paragraphs: "solid (concat (split_paragraphs piece s)) = solid (rev piece) @ solid s"
proof (induction piece s rule: split_paragraphs.induct)
  case (1 piece s)
  show ?case
  proof (cases "paragraph_break s")
    case (Some rest)
    then show ?thesis using 1(2) [OF Some] paragraph_break_solid [OF Some] by (subst split_paragraphs.simps) simp
  next
    case None
    then show ?thesis using 1(1) [OF None] by (subst split_paragraphs.simps) (cases s; simp)
  qed
qed

lemma solid_sentences: "solid (concat (split_sentences skipping piece s)) = solid (rev piece) @ solid s"
  by (induction skipping piece s rule: split_sentences.induct) auto

lemma solid_stripped: "solid (concat (stripped_pieces ps)) = solid (concat ps)"
proof (induction ps)
  case (Cons p ps)
  then show ?case using solid_ustrip [of p] by (auto simp: stripped_pieces_def)
qed (simp add: stripped_pieces_def)

lemma solid_units: "solid (concat (split_into_units s)) = solid s"
  by (auto simp: split_into_units_def Let_def solid_stripped solid_paragraphs solid_sentences solid_ustrip)

lemma hard_slice_concat: "0 < target \<Longrightarrow> concat (hard_slice u target) = u"
  by (simp add: hard_slice_def slices_concat)

lemma sized_units_concat: "0 < target \<Longrightarrow> concat (sized_units target s) = concat (split_into_units s)"
proof -
  assume "0 < target"
  then have "concat (concat (map (\<lambda>u. if target < text_tokens u then hard_slice u target else [u]) us)) = concat us" for us
    by (induction us) (auto simp: hard_slice_concat)
  then show ?thesis by (simp add: sized_units_def)
qed

lemma stripped_nonempty: "u \<in> set (stripped_pieces ps) \<Longrightarrow> u \<noteq> []"
  by (auto simp: stripped_pieces_def)

lemma sized_units_nonempty:
  assumes "ustrip s \<noteq> []" and "u \<in> set (sized_units target s)"
  shows "u \<noteq> []"
proof -
  have "\<exists>v \<in> set (split_into_units s). u \<in> set (if target < text_tokens v then hard_slice v target else [v])"
    using assms(2) unfolding sized_units_def set_concat set_map by blast
  then obtain v where v: "v \<in> set (split_into_units s)"
    "u \<in> set (if target < text_tokens v then hard_slice v target else [v])" by blast
  have "v \<noteq> []" using v(1) assms(1) stripped_nonempty by (auto simp: split_into_units_def Let_def split: if_splits)
  then show ?thesis using v(2) slices_le by (auto simp: hard_slice_def split: if_splits)
qed

text \<open>
  Chunks that carry a unit list on, each but the first opening with a tail of the one before of at
  most \<open>overlap\<close> tokens and then at least one unit of its own.
\<close>

inductive overlapping :: "nat \<Rightarrow> utext list \<Rightarrow> utext list \<Rightarrow> utext list list \<Rightarrow> bool" for overlap where
  finished: "overlapping overlap prev [] []"
| chunk: "own \<noteq> [] \<Longrightarrow> prev = before @ shared \<Longrightarrow> unit_tokens shared \<le> overlap
    \<Longrightarrow> overlapping overlap (shared @ own) us cs \<Longrightarrow> overlapping overlap prev (own @ us) ((shared @ own) # cs)"

lemma fill_chunks_overlapping:
  assumes "own \<noteq> []" and "prev = before @ shared" and "unit_tokens shared \<le> overlap"
  shows "overlapping overlap prev (own @ us) (fill_chunks target overlap (shared @ own) us)"
  using assms
proof (induction us arbitrary: own prev before shared)
  case Nil
  then show ?case using chunk [OF Nil.prems finished] by simp
next
  case (Cons u us)
  show ?case
  proof (cases "target < unit_tokens (shared @ own) + text_tokens u")
    case True
    obtain before' where b: "shared @ own = before' @ overlap_of overlap (shared @ own)" using overlap_suffix by blast
    have "overlapping overlap (shared @ own) ([u] @ us)
        (fill_chunks target overlap (overlap_of overlap (shared @ own) @ [u]) us)"
      by (rule Cons.IH [OF _ b overlap_tokens]) simp
    from chunk [OF Cons.prems this] show ?thesis using True Cons.prems(1) by simp
  next
    case False
    have "overlapping overlap prev ((own @ [u]) @ us) (fill_chunks target overlap (shared @ (own @ [u])) us)"
      by (rule Cons.IH [OF _ Cons.prems(2,3)]) simp
    then show ?thesis using False by simp
  qed
qed

lemma fill_chunks_from_nothing: "overlapping overlap [] us (fill_chunks target overlap [] us)"
proof (cases us)
  case Nil
  then show ?thesis using finished by simp
next
  case (Cons u us')
  have "overlapping overlap [] ([u] @ us') (fill_chunks target overlap ([] @ [u]) us')"
    by (rule fill_chunks_overlapping [where before = "[]"]) simp_all
  then show ?thesis by (simp add: Cons)
qed

text \<open>
  Chunking loses nothing: with a positive target every character of the text that is not white
  space is in the chunks' units in order, each unit belongs to one chunk as its own, and what a
  chunk repeats is a tail of the chunk before it within the overlap budget.
\<close>

theorem chunks_carry_the_text:
  assumes "0 < target"
  shows "\<exists>units chunks. chunk_text target overlap s = Inr (map join_paragraphs chunks)
     \<and> overlapping overlap [] units chunks \<and> solid (concat units) = solid s"
proof (cases "ustrip s = []")
  case True
  then have "solid s = []" using solid_ustrip [of s] by simp
  moreover have "overlapping overlap [] [] []" by (rule finished)
  moreover have "chunk_text target overlap s = Inr (map join_paragraphs [])" using True by (simp add: chunk_text_def)
  ultimately show ?thesis by (intro exI [of _ "[]"]) simp
next
  case False
  let ?units = "sized_units target (ustrip s)"
  have "solid (concat ?units) = solid s" using assms by (simp add: sized_units_concat solid_units solid_ustrip)
  moreover have "chunk_text target overlap s = Inr (map join_paragraphs (fill_chunks target overlap [] ?units))"
    using False assms by (simp add: chunk_text_def Let_def)
  ultimately show ?thesis using fill_chunks_from_nothing by blast
qed

definition sample_text :: utext where
  "sample_text = [65, 66, 67, 68, 46, 32, 69, 70, 71, 46, 32, 72, 73, 74, 75, 76, 77, 78, 79, 80, 81]"

theorem chunks_carry_the_text_witness:
  "\<exists>units chunks. chunk_text 2 1 sample_text = Inr (map join_paragraphs chunks)
     \<and> overlapping 1 [] units chunks \<and> solid (concat units) = solid sample_text"
  using chunks_carry_the_text [of 2 1 sample_text] by simp

text \<open>
  C32: No chunk is unbounded: whatever the text, a paragraph without a break included, a chunk has at
  least one and at most \<open>6 (target + overlap)\<close> characters, the separators counted.
\<close>

theorem chunks_are_bounded:
  assumes "chunk_text target overlap s = Inr cs" and "c \<in> set cs"
  shows "0 < length c \<and> length c \<le> 6 * (target + overlap)"
proof -
  let ?units = "sized_units target (ustrip s)"
  have ne: "ustrip s \<noteq> []" and t: "0 < target" and cs: "cs = map join_paragraphs (fill_chunks target overlap [] ?units)"
    using assms by (auto simp: chunk_text_def Let_def split: if_splits)
  obtain us where us: "us \<in> set (fill_chunks target overlap [] ?units)" "c = join_paragraphs us"
    using assms(2) cs by auto
  have tokens: "unit_tokens us \<le> target + overlap"
    using fill_chunks_tokens [of ?units target "[]" overlap] sized_units_tokens [OF t] us(1) by auto
  have "set us' \<subseteq> set current \<union> set vs" if "us' \<in> set (fill_chunks target overlap current vs)" for us' current vs
    using that
  proof (induction vs arbitrary: current)
    case (Cons v vs)
    have "set (overlap_of overlap current) \<subseteq> set current"
      using overlap_suffix [of current overlap] by (metis set_append sup_ge2)
    then show ?case using Cons by (fastforce split: if_splits)
  qed (auto split: if_splits)
  from this [OF us(1)] have units: "\<forall>u \<in> set us. u \<noteq> []"
    using sized_units_nonempty [of "ustrip s"] ne ustrip_idem [of s] by auto
  have "us \<noteq> []" using us(1)
  proof -
    have "us' \<noteq> []" if "us' \<in> set (fill_chunks target overlap current vs)" for us' current vs
      using that by (induction vs arbitrary: current) (auto split: if_splits)
    then show ?thesis using us(1) by blast
  qed
  have "sum_list (map length us) \<le> 4 * unit_tokens us \<and> length us \<le> unit_tokens us"
    using units
  proof (induction us)
    case (Cons u us)
    then show ?case using estimate_length [of u] estimate_positive [of u] by auto
  qed simp
  moreover have "length us \<le> sum_list (map length us)"
    using units
  proof (induction us)
    case (Cons u us)
    then show ?case by (cases u) auto
  qed simp
  moreover have "length c + 2 = sum_list (map length us) + 2 * length us"
    using join_length [OF \<open>us \<noteq> []\<close>] us(2) by simp
  moreover have "1 \<le> length us" using \<open>us \<noteq> []\<close> by (cases us) auto
  ultimately have "0 < length c" and "length c \<le> 6 * unit_tokens us" by linarith+
  then show ?thesis using mult_le_mono2 [OF tokens, of 6] by (meson order_trans)
qed

theorem chunks_are_bounded_witness:
  "\<exists>cs. chunk_text 2 1 sample_text = Inr cs \<and> list_all (\<lambda>c. length c \<le> 18) cs \<and> length cs = 4"
proof -
  have c: "length (projr (chunk_text 2 1 sample_text)) = 4 \<and> isl (chunk_text 2 1 sample_text) = False" by code_simp
  then obtain cs where cs: "chunk_text 2 1 sample_text = Inr cs" "length cs = 4"
    by (cases "chunk_text 2 1 sample_text") auto
  then show ?thesis using chunks_are_bounded [OF cs(1)] by (auto simp: list_all_iff)
qed

end
