(* ===== verification/Request_Scope.thy ===== *)
theory Request_Scope
  imports Export_Plan
begin

text \<open>
  What one request may read (\<^verbatim>\<open>retrieval/access.py\<close>): the access context of the surface, the scope
  resolved from it once per request, the people the caller may learn of and the attachment gate. The
  chat rule and the pair rule are the export's (\<open>Eligibility\<close>). A SQL predicate is a function on the
  value it is put on; a frozen set is a list read by membership.
\<close>

section \<open>The access context\<close>

record access_context =
  ctx_surface :: string
  ctx_scope :: string
  ctx_subject :: "string option"

text \<open>The constructor with its checks.\<close>

definition access_context_of :: "string \<Rightarrow> string \<Rightarrow> string option \<Rightarrow> value_error + access_context" where
  "access_context_of surface scope subject =
     (if surface \<notin> {''local'', ''public''} then Inl (ValueError ''unknown surface'')
      else if scope \<notin> {''full'', ''allowlist''} then Inl (ValueError ''unknown scope'')
      else if surface = ''local'' \<and> scope \<noteq> ''full'' then Inl (ValueError ''the local surface is always full-corpus scope'')
      else Inr \<lparr>ctx_surface = surface, ctx_scope = scope, ctx_subject = subject\<rparr>)"

definition LOCAL_FULL_ACCESS :: access_context where
  "LOCAL_FULL_ACCESS = \<lparr>ctx_surface = ''local'', ctx_scope = ''full'', ctx_subject = None\<rparr>"

section \<open>The scope of a request\<close>

record request_scope =
  sc_context :: access_context
  sc_chats :: "int list option"
  sc_owner :: "int option"

definition is_full :: "request_scope \<Rightarrow> bool" where
  "is_full sc \<longleftrightarrow> sc_chats sc = None"

definition admits_nothing :: "request_scope \<Rightarrow> bool" where
  "admits_nothing sc \<longleftrightarrow> sc_chats sc = Some []"

definition withholds_ineligible_content :: "request_scope \<Rightarrow> bool" where
  "withholds_ineligible_content sc \<longleftrightarrow> \<not> is_full sc"

definition admits_chat :: "request_scope \<Rightarrow> int \<Rightarrow> bool" where
  "admits_chat sc chat \<longleftrightarrow> (case sc_chats sc of None \<Rightarrow> True | Some cs \<Rightarrow> chat \<in> set cs)"

definition chat_predicate :: "request_scope \<Rightarrow> int \<Rightarrow> bool" where
  "chat_predicate sc chat = (case sc_chats sc of None \<Rightarrow> True | Some cs \<Rightarrow> chat \<in> set (sort cs))"

definition shows_unsent :: "request_scope \<Rightarrow> bool \<Rightarrow> bool" where
  "shows_unsent sc policy \<longleftrightarrow> policy \<and> is_full sc"

definition shows_edit_history :: "request_scope \<Rightarrow> bool \<Rightarrow> bool" where
  "shows_edit_history sc policy \<longleftrightarrow> policy \<and> is_full sc"

definition shows_deleted :: "request_scope \<Rightarrow> bool" where
  "shows_deleted sc \<longleftrightarrow> is_full sc"

definition resolve_request_scope ::
  "db option \<Rightarrow> access_context \<Rightarrow> int list option \<Rightarrow> value_error + request_scope" where
  "resolve_request_scope conn ctx among =
     (if ctx_scope ctx = ''full'' then Inr \<lparr>sc_context = ctx, sc_chats = None, sc_owner = None\<rparr>
      else case conn of
        None \<Rightarrow> Inl (ValueError ''allowlist scope needs a database connection'')
      | Some d \<Rightarrow>
          Inr \<lparr>sc_context = ctx, sc_chats = Some (eligible_chat_ids d among), sc_owner = owner_person_id d\<rparr>)"

text \<open>\<open>None\<close>: everyone.\<close>

definition visible_person_ids :: "db \<Rightarrow> request_scope \<Rightarrow> int list option" where
  "visible_person_ids d sc =
     (case sc_chats sc of
        None \<Rightarrow> None
      | Some cs \<Rightarrow>
          if cs = [] then Some []
          else Some (remdups (
            map part_person (filter (\<lambda>cp. part_chat cp \<in> set cs) (participants d))
            @ List.map_filter (message_sender (sc_owner sc))
                (filter (\<lambda>m. msg_chat m \<in> set cs \<and> exportable_message m) (messages d)))))"

section \<open>The attachment gate of a request\<close>

text \<open>\<open>allowed_pairs\<close>; \<open>None\<close>: every pair.\<close>

type_synonym gate = "(int \<times> int) list option"

definition gate_allows :: "gate \<Rightarrow> int option \<Rightarrow> int \<Rightarrow> bool" where
  "gate_allows g segment a =
     (case g of
        None \<Rightarrow> True
      | Some pairs \<Rightarrow> (case segment of None \<Rightarrow> False | Some s \<Rightarrow> (s, a) \<in> set pairs))"

definition request_gate :: "corpus \<Rightarrow> request_scope \<Rightarrow> int list \<Rightarrow> gate" where
  "request_gate c sc segment_ids =
     (if is_full sc then None
      else
        (let requested = sort (remdups segment_ids)
         in if requested = [] \<or> admits_nothing sc then Some []
            else
              (let admitted = sort (map sg_key
                     (filter (\<lambda>g. sg_key g \<in> set requested \<and> admits_chat sc (sg_chat g)) (segments c)))
               in Some (map fst (filter snd (compute_attachment_eligibility (base c) admitted))))))"

section \<open>What a scope lets through\<close>

lemmas scope_simps = is_full_def admits_nothing_def withholds_ineligible_content_def admits_chat_def
  shows_unsent_def shows_edit_history_def shows_deleted_def

lemma chat_predicate_admits: "chat_predicate sc = admits_chat sc"
  by (rule ext) (simp add: chat_predicate_def admits_chat_def split: option.split)

text \<open>The scope of an allowlist request on \<open>d\<close>, over the chats \<open>among\<close>.\<close>

definition allowlist_scope :: "db \<Rightarrow> int list option \<Rightarrow> request_scope \<Rightarrow> bool" where
  "allowlist_scope d among sc \<longleftrightarrow>
     (\<exists>ctx. ctx_scope ctx \<noteq> ''full'' \<and> resolve_request_scope (Some d) ctx among = Inr sc)"

lemma allowlist_scopeD:
  assumes "allowlist_scope d among sc"
  shows "sc_chats sc = Some (eligible_chat_ids d among)" "sc_owner sc = owner_person_id d" "\<not> is_full sc"
  using assms by (auto simp: allowlist_scope_def resolve_request_scope_def is_full_def)

lemma allowlist_admits:
  assumes "wf_db d" and "allowlist_scope d among sc"
  shows "admits_chat sc chat \<longleftrightarrow> asked among chat \<and> thread_open d chat"
  using eligible_is_open_thread_iff [OF assms(1)] allowlist_scopeD [OF assms(2)] by (simp add: admits_chat_def)

lemma open_thread_people:
  assumes "thread_open d chat"
  shows "cp \<in> set (participants d) \<Longrightarrow> part_chat cp = chat \<Longrightarrow> text_ok d (Some (part_person cp))"
    and "m \<in> set (messages d) \<Longrightarrow> msg_chat m = chat \<Longrightarrow> text_ok d (message_sender (owner_person_id d) m)"
  using assms by (auto simp: thread_open_def)

lemma in_map_filter: "y \<in> set (List.map_filter f xs) \<longleftrightarrow> (\<exists>x \<in> set xs. f x = Some y)"
  by (induction xs) (auto simp: List.map_filter_def split: option.splits)

lemma visible_people_iff:
  assumes "wf_db d" and "allowlist_scope d among sc" and "visible_person_ids d sc = Some ps"
  shows "p \<in> set ps \<longleftrightarrow>
     (\<exists>chat. asked among chat \<and> thread_open d chat
        \<and> ((\<exists>cp \<in> set (participants d). part_chat cp = chat \<and> part_person cp = p)
           \<or> (\<exists>m \<in> set (messages d). msg_chat m = chat \<and> exportable_message m
                \<and> message_sender (owner_person_id d) m = Some p)))"
proof -
  let ?cs = "eligible_chat_ids d among"
  have cs: "chat \<in> set ?cs \<longleftrightarrow> asked among chat \<and> thread_open d chat" for chat
    by (rule eligible_is_open_thread_iff [OF assms(1)])
  show ?thesis
  proof (cases "?cs = []")
    case True
    then have "ps = []" using assms(3) allowlist_scopeD [OF assms(2)] by (simp add: visible_person_ids_def)
    moreover have "\<not> (asked among chat \<and> thread_open d chat)" for chat using cs [of chat] True by simp
    ultimately show ?thesis by auto
  next
    case False
    then have "ps = remdups (map part_person (filter (\<lambda>cp. part_chat cp \<in> set ?cs) (participants d))
        @ List.map_filter (message_sender (owner_person_id d))
            (filter (\<lambda>m. msg_chat m \<in> set ?cs \<and> exportable_message m) (messages d)))"
      using assms(3) allowlist_scopeD [OF assms(2)] by (simp add: visible_person_ids_def)
    then show ?thesis using cs by (auto simp: in_map_filter)
  qed
qed

lemma request_gate_iff:
  assumes "wf_db (base c)" and "allowlist_scope (base c) among sc"
  shows "gate_allows (request_gate c sc segs) (Some s) a \<longleftrightarrow>
     s \<in> set segs
     \<and> (\<exists>g \<in> set (segments c). sg_key g = s \<and> asked among (sg_chat g) \<and> thread_open (base c) (sg_chat g)
          \<and> (\<exists>m \<in> set (messages (base c)). links_in c g a m)
          \<and> (\<forall>m \<in> set (messages (base c)). links_in c g a m
               \<longrightarrow> attachment_ok (base c) (message_sender (owner_person_id (base c)) m)))"
proof -
  note sc = allowlist_scopeD [OF assms(2)]
  have adm: "admits_chat sc chat \<longleftrightarrow> asked among chat \<and> thread_open (base c) chat" for chat
    by (rule allowlist_admits [OF assms])
  have none: "\<not> admits_chat sc chat" if "admits_nothing sc" for chat
    using that by (simp add: scope_simps)
  let ?adm = "sort (map sg_key (filter (\<lambda>g. sg_key g \<in> set (sort (remdups segs)) \<and> admits_chat sc (sg_chat g)) (segments c)))"
  have in_adm: "x \<in> set ?adm \<longleftrightarrow> x \<in> set segs \<and> (\<exists>g \<in> set (segments c). sg_key g = x \<and> admits_chat sc (sg_chat g))" for x
    by auto
  have in_elig: "(s, a) \<in> set (map fst (filter snd e)) \<longleftrightarrow> ((s, a), True) \<in> set e" for e :: "((int \<times> int) \<times> bool) list"
    by force
  show ?thesis
  proof (cases "segs = [] \<or> admits_nothing sc")
    case True
    then have "request_gate c sc segs = Some []" using sc(3) by (auto simp: request_gate_def)
    then show ?thesis using True none adm by (auto simp: gate_allows_def)
  next
    case False
    have "sort (remdups segs) \<noteq> []"
      using False by (metis list.set(1) set_empty set_remdups set_sort)
    then have "request_gate c sc segs = Some (map fst (filter snd (compute_attachment_eligibility (base c) ?adm)))"
      using False sc(3) by (simp add: request_gate_def Let_def)
    then have "gate_allows (request_gate c sc segs) (Some s) a
        \<longleftrightarrow> ((s, a), True) \<in> set (compute_attachment_eligibility (base c) ?adm)"
      by (simp only: gate_allows_def option.case in_elig)
    note gate = this [unfolded attachment_gate_iff [OF assms(1)] in_adm]
    show ?thesis unfolding gate by (simp only: links_in_def adm) blast
  qed
qed

lemma gate_needs_segment: "\<not> is_full sc \<Longrightarrow> \<not> gate_allows (request_gate c sc segs) None a"
  by (simp add: request_gate_def gate_allows_def Let_def)

text \<open>
  Under the allowlist scope a request learns of a person exactly when that person is in an open
  thread or sent an exportable message there, and every such person is text-allowed.
\<close>

theorem visible_people_are_allowed:
  assumes "wf_db d" and "allowlist_scope d None sc" and "visible_person_ids d sc = Some ps"
  shows "set ps = {p. \<exists>chat. thread_open d chat
        \<and> ((\<exists>cp \<in> set (participants d). part_chat cp = chat \<and> part_person cp = p)
           \<or> (\<exists>m \<in> set (messages d). msg_chat m = chat \<and> exportable_message m
                \<and> message_sender (owner_person_id d) m = Some p))}
     \<and> (\<forall>p \<in> set ps. text_ok d (Some p))"
proof (intro conjI)
  note iff = visible_people_iff [OF assms]
  show "set ps = {p. \<exists>chat. thread_open d chat
        \<and> ((\<exists>cp \<in> set (participants d). part_chat cp = chat \<and> part_person cp = p)
           \<or> (\<exists>m \<in> set (messages d). msg_chat m = chat \<and> exportable_message m
                \<and> message_sender (owner_person_id d) m = Some p))}"
    unfolding set_eq_iff mem_Collect_eq iff asked_def by simp
  show "\<forall>p \<in> set ps. text_ok d (Some p)"
  proof
    fix p
    assume "p \<in> set ps"
    then show "text_ok d (Some p)" unfolding iff using open_thread_people by metis
  qed
qed

definition public_context :: access_context where
  "public_context = \<lparr>ctx_surface = ''public'', ctx_scope = ''allowlist'', ctx_subject = Some ''1''\<rparr>"

definition sample_scope :: request_scope where
  "sample_scope = \<lparr>sc_context = public_context, sc_chats = Some [10], sc_owner = Some 1\<rparr>"

lemma sample_scope_allowlist: "allowlist_scope sample_db None sample_scope"
proof -
  have "resolve_request_scope (Some sample_db) public_context None = Inr sample_scope" by code_simp
  moreover have "ctx_scope public_context \<noteq> ''full''" by (simp add: public_context_def)
  ultimately show ?thesis unfolding allowlist_scope_def by blast
qed

theorem visible_people_are_allowed_witness:
  "visible_person_ids sample_db sample_scope = Some [1, 2] \<and> text_ok sample_db (Some 1) \<and> text_ok sample_db (Some 2)"
proof -
  have v: "visible_person_ids sample_db sample_scope = Some [1, 2]" by code_simp
  from visible_people_are_allowed [OF sample_db_wf sample_scope_allowlist v] v show ?thesis by simp
qed

end
