(* ===== verification/Archive.thy ===== *)
theory Archive
  imports Request_Scope
begin

text \<open>
  The tables the retrieval service reads: the corpus of the export planner with the further columns
  of the same rows, as lines by key, and the errors the service raises (\<^verbatim>\<open>retrieval/errors.py\<close>).
\<close>

record person_line =
  pl_id :: int
  pl_short :: string
  pl_display :: string
  pl_organization :: "string option"

record thread_line =
  tl_chat :: int
  tl_key :: string

record message_line =
  ml_id :: int
  ml_key :: string
  ml_guid :: string
  ml_edited :: bool
  ml_attached :: bool

record segment_line =
  gl_id :: int
  gl_count :: int
  gl_text :: string

record version_row =
  vr_message :: int
  vr_idx :: int
  vr_text :: string
  vr_edited_at :: "instant option"

record archive =
  stored :: corpus
  person_lines :: "person_line list"
  thread_lines :: "thread_line list"
  message_lines :: "message_line list"
  segment_lines :: "segment_line list"
  version_rows :: "version_row list"
  attachment_keys :: "(int \<times> string) list"
  enrichment_models :: "((int \<times> string) \<times> string option) list"
  handle_values :: "(int \<times> string) list"

abbreviation db_of :: "archive \<Rightarrow> db" where
  "db_of ar \<equiv> base (stored ar)"

text \<open>What the schema's keys guarantee: the lines are the rows of their tables.\<close>

definition wf_archive :: "archive \<Rightarrow> bool" where
  "wf_archive ar \<longleftrightarrow>
     wf_corpus (stored ar)
     \<and> map pl_id (person_lines ar) = map person_id (persons (db_of ar)) \<and> distinct (map pl_id (person_lines ar))
     \<and> distinct (map pl_short (person_lines ar))
     \<and> short_names (stored ar) = map (\<lambda>p. (pl_id p, pl_short p)) (person_lines ar)
     \<and> map tl_chat (thread_lines ar) = map chat_key (chats (db_of ar)) \<and> distinct (map tl_key (thread_lines ar))
     \<and> map fst (chat_details (stored ar)) = map chat_key (chats (db_of ar))
     \<and> map ml_id (message_lines ar) = map message_key (messages (db_of ar)) \<and> distinct (map ml_key (message_lines ar))
     \<and> map gl_id (segment_lines ar) = map sg_key (segments (stored ar))
     \<and> map fst (attachment_keys ar) = map at_key (attachments (stored ar)) \<and> distinct (map snd (attachment_keys ar))
     \<and> distinct (map (\<lambda>e. (en_attachment e, en_kind e)) (enrichments (stored ar)))"

text \<open>The first row with a key, which a lookup by a unique column returns.\<close>

definition message_line_of :: "archive \<Rightarrow> int \<Rightarrow> message_line option" where
  "message_line_of ar m = find (\<lambda>l. ml_id l = m) (message_lines ar)"

definition person_line_of :: "archive \<Rightarrow> int \<Rightarrow> person_line option" where
  "person_line_of ar p = find (\<lambda>l. pl_id l = p) (person_lines ar)"

definition thread_key_of :: "archive \<Rightarrow> int \<Rightarrow> string" where
  "thread_key_of ar chat = (case find (\<lambda>l. tl_chat l = chat) (thread_lines ar) of None \<Rightarrow> [] | Some l \<Rightarrow> tl_key l)"

definition attachment_key_of :: "archive \<Rightarrow> int \<Rightarrow> string" where
  "attachment_key_of ar a = (case map_of (attachment_keys ar) a of None \<Rightarrow> [] | Some k \<Rightarrow> k)"

section \<open>Errors of the service\<close>

text \<open>The codes the retrieval modules raise themselves, with the text or the candidates they carry.\<close>

type_synonym candidate = "string \<times> string"

datatype retrieval_error =
  Invalid_Argument string
| Date_Range_Invalid string
| Person_Not_Found string "candidate list"
| Person_Ambiguous string "candidate list"
| Not_Found string
| Not_Enriched string
| Internal_Error string

definition error_code :: "retrieval_error \<Rightarrow> string" where
  "error_code e =
     (case e of
        Invalid_Argument _ \<Rightarrow> ''INVALID_ARGUMENT''
      | Date_Range_Invalid _ \<Rightarrow> ''DATE_RANGE_INVALID''
      | Person_Not_Found _ _ \<Rightarrow> ''PERSON_NOT_FOUND''
      | Person_Ambiguous _ _ \<Rightarrow> ''PERSON_AMBIGUOUS''
      | Not_Found _ \<Rightarrow> ''NOT_FOUND''
      | Not_Enriched _ \<Rightarrow> ''NOT_ENRICHED''
      | Internal_Error _ \<Rightarrow> ''INTERNAL'')"

text \<open>Calls in sequence: the first error is the result.\<close>

fun bind_result :: "'e + 'a \<Rightarrow> ('a \<Rightarrow> 'e + 'b) \<Rightarrow> 'e + 'b" where
  "bind_result (Inl e) f = Inl e"
| "bind_result (Inr x) f = f x"

fun map_results :: "('a \<Rightarrow> 'e + 'b) \<Rightarrow> 'a list \<Rightarrow> 'e + 'b list" where
  "map_results f [] = Inr []"
| "map_results f (x # xs) = bind_result (f x) (\<lambda>y. bind_result (map_results f xs) (\<lambda>ys. Inr (y # ys)))"

lemma bind_result_Inr: "bind_result r f = Inr y \<longleftrightarrow> (\<exists>x. r = Inr x \<and> f x = Inr y)"
  by (cases r) auto

lemma bind_result_cong: "r = r' \<Longrightarrow> (\<And>x. r' = Inr x \<Longrightarrow> f x = g x) \<Longrightarrow> bind_result r f = bind_result r' g"
  by (cases r') auto

lemma bind_result_Inl: "bind_result r f = Inl e \<longleftrightarrow> r = Inl e \<or> (\<exists>x. r = Inr x \<and> f x = Inl e)"
  by (cases r) auto

lemma map_results_Inr: "map_results f xs = Inr ys \<longleftrightarrow> list_all2 (\<lambda>x y. f x = Inr y) xs ys"
  by (induction xs arbitrary: ys) (auto simp: bind_result_Inr list_all2_Cons1)

lemma map_results_cong: "(\<And>x. x \<in> set xs \<Longrightarrow> f x = g x) \<Longrightarrow> map_results f xs = map_results g xs"
  by (induction xs) auto

lemma map_results_same_length: "map_results f xs = Inr ys \<Longrightarrow> length ys = length xs"
  unfolding map_results_Inr by (rule list_all2_lengthD [symmetric])

section \<open>A small archive\<close>

text \<open>
  The sample corpus with a deleted message in the open thread, and a closed thread with somebody who
  is on no allowlist. The deleted message is a grinning face, in UTF-8.
\<close>

definition grin :: string where "grin = [CHR 0xF0, CHR 0x9F, CHR 0x98, CHR 0x80]"

definition sample_archive_db :: db where
  "sample_archive_db = sample_db\<lparr>
     persons := persons sample_db @ [\<lparr>person_id = 3, is_owner = False\<rparr>],
     participants := participants sample_db @ [\<lparr>part_chat = 11, part_person = 3\<rparr>],
     messages := messages sample_db @
       [\<lparr>message_key = 102, msg_chat = 10, sender_person = Some 2, from_me = False, is_unsent = False,
         deleted_at = Some 9, row_sent_at = 7\<rparr>,
        \<lparr>message_key = 103, msg_chat = 11, sender_person = Some 3, from_me = False, is_unsent = False,
         deleted_at = None, row_sent_at = 8\<rparr>],
     segment_messages := segment_messages sample_db @ [(1000, 102), (1001, 103)]\<rparr>"

definition sample_archive_corpus :: corpus where
  "sample_archive_corpus = sample_corpus\<lparr>
     base := sample_archive_db, short_names := [(1, ''me''), (2, ''ann''), (3, ''bob'')],
     message_texts := message_texts sample_corpus @ [(102, Some grin), (103, Some ''psst'')],
     segments := segments sample_corpus @
       [\<lparr>sg_key = 1001, sg_stable_key = ''k2'', sg_chat = 11, sg_started = 8, sg_ended = 8\<rparr>]\<rparr>"

definition sample_archive :: archive where
  "sample_archive =
     \<lparr>stored = sample_archive_corpus,
      person_lines = [\<lparr>pl_id = 1, pl_short = ''me'', pl_display = ''Me'', pl_organization = None\<rparr>,
                      \<lparr>pl_id = 2, pl_short = ''ann'', pl_display = ''Ann'', pl_organization = None\<rparr>,
                      \<lparr>pl_id = 3, pl_short = ''bob'', pl_display = ''Bob'', pl_organization = None\<rparr>],
      thread_lines = [\<lparr>tl_chat = 10, tl_key = ''t10''\<rparr>, \<lparr>tl_chat = 11, tl_key = ''t11''\<rparr>],
      message_lines = [\<lparr>ml_id = 100, ml_key = ''m100'', ml_guid = ''g100'', ml_edited = False, ml_attached = True\<rparr>,
                       \<lparr>ml_id = 101, ml_key = ''m101'', ml_guid = ''g101'', ml_edited = True, ml_attached = True\<rparr>,
                       \<lparr>ml_id = 102, ml_key = ''m102'', ml_guid = ''g102'', ml_edited = False, ml_attached = False\<rparr>,
                       \<lparr>ml_id = 103, ml_key = ''m103'', ml_guid = ''g103'', ml_edited = False, ml_attached = False\<rparr>],
      segment_lines = [\<lparr>gl_id = 1000, gl_count = 3, gl_text = ''hi look ''  @ grin\<rparr>,
                       \<lparr>gl_id = 1001, gl_count = 1, gl_text = ''psst''\<rparr>],
      version_rows = [\<lparr>vr_message = 101, vr_idx = 0, vr_text = ''lok'', vr_edited_at = None\<rparr>],
      attachment_keys = [(500, ''aaaaaaaaaaaaaaaa''), (501, ''bbbbbbbbbbbbbbbb'')],
      enrichment_models = [((500, ''pdf_text''), Some ''pdftotext''), ((501, ''ocr''), None)],
      handle_values = [(70, ''+15550100'')]\<rparr>"

lemma sample_archive_corpus_wf: "wf_corpus sample_archive_corpus"
  by (simp add: wf_corpus_def wf_db_def sample_archive_corpus_def sample_archive_db_def sample_corpus_def sample_db_def)

lemma sample_archive_wf: "wf_archive sample_archive"
  using sample_archive_corpus_wf
  by (simp add: wf_archive_def sample_archive_def)
     (simp add: sample_archive_corpus_def sample_archive_db_def sample_corpus_def sample_db_def)

lemma sample_archive_scope: "allowlist_scope (db_of sample_archive) None sample_scope"
proof -
  have "resolve_request_scope (Some (db_of sample_archive)) public_context None = Inr sample_scope" by code_simp
  moreover have "ctx_scope public_context \<noteq> ''full''" by (simp add: public_context_def)
  ultimately show ?thesis unfolding allowlist_scope_def by blast
qed

end
