(* ===== verification/Segment_View.thy ===== *)
theory Segment_View
  imports Archive Sessionize
begin

text \<open>
  What a caller reads of a message and of a segment: the renderer (\<^verbatim>\<open>segment/render.py\<close>) and the rows
  it is given by the retrieval service (\<^verbatim>\<open>retrieval/segments.py\<close>), each attachment through the gate of
  the request. The spellings of an instant in the reader's zone are arguments.
\<close>

section \<open>The renderer\<close>

record view_config =
  vw_zone :: string
  vw_snippet :: nat
  vw_clock :: "instant \<Rightarrow> string"
  vw_day :: "instant \<Rightarrow> string"
  vw_iso :: "instant \<Rightarrow> string"

definition DELETED_LABEL :: string where "DELETED_LABEL = ''[deleted]''"
definition WITHHELD_ATTACHMENT :: string where "WITHHELD_ATTACHMENT = ''[attachment withheld]''"

definition truncate_snippet :: "nat \<Rightarrow> string option \<Rightarrow> string" where
  "truncate_snippet n t =
     (case t of
        None \<Rightarrow> EM_DASH
      | Some s \<Rightarrow> if text_strip s = [] then EM_DASH else shortened n s)"

definition format_snippet :: "nat \<Rightarrow> attachment_snippet \<Rightarrow> string" where
  "format_snippet n att =
     (if withheld att then WITHHELD_ATTACHMENT
      else
        (let trunc = (\<lambda>t. quoted (truncate_snippet n t)); kind = att_kind att;
             hint = '' '' @ EM_DASH @ '' full text via get_attachment_text('' @ quoted (attachment_key att) @ '')]''
         in if kind = ''pdf'' then
              ''[pdf '' @ quoted (or_else (filename att) ''attachment.pdf'') @ '': '' @ trunc (pdf_text att) @ hint
            else if kind = ''image'' then
              ''[image: caption '' @ trunc (caption att) @ '' | ocr '' @ trunc (ocr_text att) @ '']''
            else if kind = ''audio'' then ''[audio: transcript '' @ trunc (transcript att) @ '']''
            else if kind = ''video'' then
              ''[video: caption '' @ trunc (caption att) @ '' | ocr '' @ trunc (ocr_text att)
                @ '' | transcript '' @ trunc (transcript att) @ '']''
            else
              (let label = quoted (or_else (filename att) (attachment_key att))
               in case document_text att of
                    Some d \<Rightarrow>
                      if text_strip d \<noteq> [] then ''[attachment '' @ label @ '': '' @ trunc (Some d) @ hint
                      else ''[attachment '' @ label @ '']''
                  | None \<Rightarrow> ''[attachment '' @ label @ '']'')))"

text \<open>\<open>f"{body} {suffix}" if body else suffix\<close>.\<close>

definition append_part :: "string \<Rightarrow> string \<Rightarrow> string" where
  "append_part body s = (if body = [] then s else body @ '' '' @ s)"

definition message_body :: "nat \<Rightarrow> message \<Rightarrow> string" where
  "message_body n m =
     (let parts = (case msg_text m of None \<Rightarrow> [] | Some s \<Rightarrow> if s = [] then [] else [s])
                  @ map (format_snippet n) (Sessionize.attachments m);
          body = py_join '' '' parts;
          history = py_join '' -> '' (map (\<lambda>v. quoted (ev_text v)) (edit_history m));
          edited = (if is_edited m \<and> edit_history m \<noteq> []
                    then append_part body (''[edited from: '' @ history @ '']'') else body);
          reacted = foldl append_part edited (Sessionize.tapback_suffixes m)
      in if is_deleted m then (if reacted = [] then DELETED_LABEL else DELETED_LABEL @ '' '' @ reacted)
         else reacted)"

definition render_message_line :: "view_config \<Rightarrow> message \<Rightarrow> string" where
  "render_message_line vw m =
     ''['' @ vw_clock vw (sent_at m) @ ''] '' @ sender_short_name m @ '': '' @ message_body (vw_snippet vw) m"

text \<open>The text of a segment whose messages, at least one, are \<open>ms\<close>.\<close>

definition render_segment ::
  "view_config \<Rightarrow> message list \<Rightarrow> string list \<Rightarrow> string \<Rightarrow> string option \<Rightarrow> bool \<Rightarrow> string" where
  "render_segment vw ms people kind dname unfiled =
     (let started = sent_at (hd ms); ended = sent_at (last ms);
          name = or_else dname [];
          title = (if kind = ''group'' then (if name \<noteq> [] then '' (group '' @ quoted name @ '')'' else '' (group)'')
                   else if unfiled \<and> name \<noteq> [] then '' ('' @ name @ '')''
                   else []);
          stamp = (\<lambda>t. vw_day vw t @ '' '' @ vw_clock vw t);
          until = (if vw_day vw started = vw_day vw ended then vw_clock vw ended else stamp ended)
      in py_join newline
           ([''Chat: '' @ py_join '', '' people @ title,
             ''Time: '' @ stamp started @ '' '' @ EN_DASH @ '' '' @ until @ '' '' @ vw_zone vw,
             ''---''] @ map (render_message_line vw) ms))"

section \<open>Rows to messages\<close>

definition withheld_placeholder :: attachment_snippet where
  "withheld_placeholder =
     \<lparr>attachment_key = [], att_kind = ''other'', filename = None, caption = None, ocr_text = None,
      transcript = None, pdf_text = None, document_text = None, withheld = True\<rparr>"

definition snippet_order :: "link_row \<Rightarrow> int \<times> bool \<times> int" where
  "snippet_order l = (ln_message l, (case ln_ordinal l of None \<Rightarrow> (True, 0) | Some i \<Rightarrow> (False, i)))"

definition snippet_rows ::
  "corpus \<Rightarrow> int list \<Rightarrow> ((link_row \<times> attachment_row) \<times> enrichment_row option) list" where
  "snippet_rows c message_ids =
     left_join (\<lambda>(l, a) e. en_attachment e = at_key a \<and> en_state e = ''done'')
       (inner_join (\<lambda>l a. at_key a = ln_attachment l)
         (sort_key snippet_order (filter (\<lambda>l. ln_message l \<in> set message_ids) (links c)))
         (Export_Plan.attachments c))
       (enrichments c)"

definition new_snippet :: "string \<Rightarrow> attachment_row \<Rightarrow> attachment_snippet" where
  "new_snippet key a =
     \<lparr>attachment_key = key, att_kind = classify_mime (at_mime a), filename = at_filename a, caption = None,
      ocr_text = None, transcript = None, pdf_text = None, document_text = None, withheld = False\<rparr>"

definition add_snippet_text :: "enrichment_row option \<Rightarrow> attachment_snippet \<Rightarrow> attachment_snippet" where
  "add_snippet_text er x =
     (case er of
        None \<Rightarrow> x
      | Some e \<Rightarrow>
          if en_kind e = ''pdf_text'' then x\<lparr>pdf_text := en_text e\<rparr>
          else if en_kind e = ''caption'' then x\<lparr>caption := en_text e\<rparr>
          else if en_kind e \<in> {''ocr'', ''frame_ocr''} then x\<lparr>ocr_text := en_text e\<rparr>
          else if en_kind e = ''transcript'' then x\<lparr>transcript := en_text e\<rparr>
          else if en_kind e = ''doc_text'' then x\<lparr>document_text := en_text e\<rparr>
          else x)"

type_synonym snippets = "((int \<times> string) \<times> attachment_snippet) list"

text \<open>
  \<open>by_key\<close>, \<open>order\<close> and \<open>withheld\<close> in one list, in the order the keys are first met: a denied pair is
  there as the placeholder, and nothing is added to it.
\<close>

definition collect_snippet ::
  "archive \<Rightarrow> gate \<Rightarrow> (int \<times> int) list \<Rightarrow> snippets
     \<Rightarrow> (link_row \<times> attachment_row) \<times> enrichment_row option \<Rightarrow> snippets" where
  "collect_snippet ar g seg_of collected row =
     (let ((l, a), er) = row; name = attachment_key_of ar (at_key a); key = (ln_message l, name)
      in case map_of collected key of
           Some x \<Rightarrow> if withheld x then collected else AList.update key (add_snippet_text er x) collected
         | None \<Rightarrow>
             if gate_allows g (map_of seg_of (ln_message l)) (at_key a)
             then collected @ [(key, add_snippet_text er (new_snippet name a))]
             else collected @ [(key, withheld_placeholder)])"

definition fetch_snippets :: "archive \<Rightarrow> int list \<Rightarrow> gate \<Rightarrow> (int \<times> int) list \<Rightarrow> snippets" where
  "fetch_snippets ar message_ids g seg_of = foldl (collect_snippet ar g seg_of) [] (snippet_rows (stored ar) message_ids)"

definition snippets_of :: "snippets \<Rightarrow> int \<Rightarrow> attachment_snippet list" where
  "snippets_of collected m = map snd (filter (\<lambda>e. fst (fst e) = m) collected)"

text \<open>\<open>"owner" if is_from_me else (short_name or "unknown")\<close>.\<close>

definition shown_name :: "corpus \<Rightarrow> bool \<Rightarrow> int option \<Rightarrow> string" where
  "shown_name c me p =
     (if me then ''owner'' else case short_name_of c p of None \<Rightarrow> ''unknown'' | Some s \<Rightarrow> if s = [] then ''unknown'' else s)"

definition shown_suffixes :: "corpus \<Rightarrow> int \<Rightarrow> string list" where
  "shown_suffixes c m =
     map (\<lambda>t. ''('' @ tapback_symbol (rx_kind t) @ '' '' @ shown_name c (rx_from_me t) (rx_sender t) @ '')'')
       (sort_key (\<lambda>t. case rx_acted_at t of None \<Rightarrow> (True, 0) | Some i \<Rightarrow> (False, i))
         (filter (\<lambda>t. rx_target t = Some m \<and> \<not> rx_removed t) (reactions c)))"

definition shown_versions :: "archive \<Rightarrow> int \<Rightarrow> edit_version list" where
  "shown_versions ar m =
     map (\<lambda>v. \<lparr>version_idx = vr_idx v, ev_text = vr_text v, edited_at = vr_edited_at v\<rparr>)
       (sort_key vr_idx (filter (\<lambda>v. vr_message v = m) (version_rows ar)))"

definition row_to_message :: "archive \<Rightarrow> bool \<Rightarrow> snippets \<Rightarrow> message_row \<Rightarrow> message" where
  "row_to_message ar history collected m =
     (let line = message_line_of ar (message_key m);
          key = (case line of None \<Rightarrow> [] | Some l \<Rightarrow> ml_key l)
      in \<lparr>message_id = message_key m,
          source_guid = (if key \<noteq> [] then key else case line of None \<Rightarrow> [] | Some l \<Rightarrow> ml_guid l),
          msg_chat_id = msg_chat m, sent_at = row_sent_at m, is_from_me = from_me m,
          sender_short_name = shown_name (stored ar) (from_me m) (sender_person m),
          msg_text = Option.bind (map_of (message_texts (stored ar)) (message_key m)) id,
          is_unsent = Eligibility.is_unsent m,
          is_edited = (case line of None \<Rightarrow> False | Some l \<Rightarrow> ml_edited l),
          has_attachments = (case line of None \<Rightarrow> False | Some l \<Rightarrow> ml_attached l),
          attachments = snippets_of collected (message_key m),
          tapback_suffixes = shown_suffixes (stored ar) (message_key m),
          edit_history = (if history then shown_versions ar (message_key m) else []),
          is_deleted = (deleted_at m \<noteq> None)\<rparr>)"

definition rows_to_messages ::
  "archive \<Rightarrow> bool \<Rightarrow> gate \<Rightarrow> (int \<times> int) list \<Rightarrow> message_row list \<Rightarrow> message list" where
  "rows_to_messages ar history g seg_of rows =
     map (row_to_message ar history (fetch_snippets ar (map message_key rows) g seg_of)) rows"

section \<open>Segments rendered now\<close>

definition chat_header :: "archive \<Rightarrow> int \<Rightarrow> (string \<times> string option \<times> string list \<times> bool) option" where
  "chat_header ar chat =
     (case map_of (chat_details (stored ar)) chat of
        None \<Rightarrow> None
      | Some (kind, dname) \<Rightarrow>
          Some (kind, dname,
            map pl_display (sort_key pl_display
              (map snd
                (filter (\<lambda>(cp, p). list_ex (\<lambda>r. person_id r = pl_id p \<and> \<not> is_owner r) (persons (db_of ar)))
                  (inner_join (\<lambda>cp p. pl_id p = part_person cp)
                    (filter (\<lambda>cp. part_chat cp = chat) (participants (db_of ar)))
                    (person_lines ar))))),
            list_ex (\<lambda>ch. chat_key ch = chat \<and> unfiled_key ch \<noteq> None) (chats (db_of ar))))"

definition render_segment_texts :: "view_config \<Rightarrow> archive \<Rightarrow> request_scope \<Rightarrow> int list \<Rightarrow> (int \<times> string) list" where
  "render_segment_texts vw ar sc segment_ids =
     (let c = stored ar;
          srows = filter (\<lambda>g. sg_key g \<in> set segment_ids \<and> admits_chat sc (sg_chat g)) (segments c);
          admitted = map sg_key srows;
          mrows = message_rows c admitted;
          seg_of = rev (map (\<lambda>(s, m). (message_key m, s)) mrows);
          g = request_gate c sc admitted
      in List.map_filter
           (\<lambda>r. let rows = map snd (filter (\<lambda>(s, m). s = sg_key r) mrows)
                in case chat_header ar (sg_chat r) of
                     None \<Rightarrow> None
                   | Some (kind, dname, others, unfiled) \<Rightarrow>
                       if rows = [] then None
                       else Some (sg_key r,
                         render_segment vw (rows_to_messages ar False g seg_of rows) others kind dname unfiled))
           srows)"

end
