(* ===== verification/View_Secrecy.thy ===== *)
theory View_Secrecy
  imports Segment_View
begin

text \<open>
  What a request under the allowlist scope cannot see: two archives that agree on everything the
  scope lets through render the same segments. The relation is carried through the fetches one by
  one; a gated pair collapses to the placeholder before any of its columns is read.
\<close>

section \<open>The snippets, link by link\<close>

definition snippet_links :: "corpus \<Rightarrow> int list \<Rightarrow> (link_row \<times> attachment_row) list" where
  "snippet_links c message_ids =
     inner_join (\<lambda>l a. at_key a = ln_attachment l)
       (sort_key snippet_order (filter (\<lambda>l. ln_message l \<in> set message_ids) (links c)))
       (Export_Plan.attachments c)"

definition snippet_key :: "archive \<Rightarrow> link_row \<times> attachment_row \<Rightarrow> int \<times> string" where
  "snippet_key ar p = (ln_message (fst p), attachment_key_of ar (at_key (snd p)))"

definition snippet_entry ::
  "archive \<Rightarrow> gate \<Rightarrow> (int \<times> int) list \<Rightarrow> link_row \<times> attachment_row \<Rightarrow> (int \<times> string) \<times> attachment_snippet" where
  "snippet_entry ar g seg_of p =
     (snippet_key ar p,
      if gate_allows g (map_of seg_of (ln_message (fst p))) (at_key (snd p))
      then foldl (\<lambda>x er. add_snippet_text er x) (new_snippet (snd (snippet_key ar p)) (snd p))
             (done_enrichments (stored ar) (snd p))
      else withheld_placeholder)"

lemma snippet_rows_eq:
  "snippet_rows c ids = concat (map (\<lambda>p. map (Pair p) (done_enrichments c (snd p))) (snippet_links c ids))"
  unfolding snippet_rows_def left_join_def snippet_links_def
proof (rule arg_cong [where f = concat], rule map_cong [OF refl])
  fix p :: "link_row \<times> attachment_row"
  obtain l a where [simp]: "p = (l, a)" by fastforce
  show "(case filter ((\<lambda>(l, a) e. en_attachment e = at_key a \<and> en_state e = ''done'') p) (enrichments c) of
           [] \<Rightarrow> [(p, None)] | y # ys \<Rightarrow> map (\<lambda>y. (p, Some y)) (y # ys)) = map (Pair p) (done_enrichments c (snd p))"
    by (simp add: done_enrichments_def split: list.split)
qed

lemma withheld_placeholder [simp]: "withheld withheld_placeholder"
  by (simp add: withheld_placeholder_def)

lemma added_text_shown [simp]: "withheld (add_snippet_text er x) = withheld x"
  by (simp add: add_snippet_text_def split: option.split)

lemma new_snippet_shown [simp]: "\<not> withheld (new_snippet k a)"
  by (simp add: new_snippet_def)

lemma collect_more_snippets:
  assumes "k = snippet_key ar p" and "k \<notin> fst ` set acc" and "\<not> withheld x"
  shows "foldl (collect_snippet ar g seg_of) (acc @ [(k, x)]) (map (Pair p) es)
     = acc @ [(k, foldl (\<lambda>x er. add_snippet_text er x) x es)]"
  using assms(3)
proof (induction es arbitrary: x)
  case (Cons er es)
  obtain l a where p: "p = (l, a)" by fastforce
  have key: "(ln_message l, attachment_key_of ar (at_key a)) = k" using assms(1) by (simp add: p snippet_key_def)
  have "collect_snippet ar g seg_of (acc @ [(k, x)]) (p, er) = acc @ [(k, add_snippet_text er x)]"
    using Cons.prems
    by (simp add: p collect_snippet_def Let_def key map_of_append_fresh [OF assms(2)] update_last [OF assms(2)])
  moreover have "foldl (collect_snippet ar g seg_of) (acc @ [(k, add_snippet_text er x)]) (map (Pair p) es)
      = acc @ [(k, foldl (\<lambda>x er. add_snippet_text er x) (add_snippet_text er x) es)]"
    by (rule Cons.IH) (simp add: Cons.prems)
  ultimately show ?case by simp
qed simp

lemma collect_withheld:
  assumes "k = snippet_key ar p" and "k \<notin> fst ` set acc"
  shows "foldl (collect_snippet ar g seg_of) (acc @ [(k, withheld_placeholder)]) (map (Pair p) es)
     = acc @ [(k, withheld_placeholder)]"
proof (induction es)
  case (Cons er es)
  obtain l a where p: "p = (l, a)" by fastforce
  have key: "(ln_message l, attachment_key_of ar (at_key a)) = k" using assms(1) by (simp add: p snippet_key_def)
  have "collect_snippet ar g seg_of (acc @ [(k, withheld_placeholder)]) (p, er) = acc @ [(k, withheld_placeholder)]"
    by (simp add: p collect_snippet_def Let_def key map_of_append_fresh [OF assms(2)])
  then show ?case using Cons.IH by simp
qed simp

lemma collect_link:
  assumes "snippet_key ar p \<notin> fst ` set acc"
  shows "foldl (collect_snippet ar g seg_of) acc (map (Pair p) (done_enrichments (stored ar) (snd p)))
     = acc @ [snippet_entry ar g seg_of p]"
proof -
  obtain l a where p: "p = (l, a)" by fastforce
  obtain er es where d: "done_enrichments (stored ar) (snd p) = er # es"
    by (cases "done_enrichments (stored ar) (snd p)") (auto simp: done_enrichments_def split: list.splits)
  have "map_of acc (snippet_key ar p) = None" using assms by (simp add: map_of_eq_None_iff)
  then have first: "collect_snippet ar g seg_of acc (p, er) = acc @ [(snippet_key ar p,
      if gate_allows g (map_of seg_of (ln_message l)) (at_key a)
      then add_snippet_text er (new_snippet (snd (snippet_key ar p)) a) else withheld_placeholder)]"
    by (simp add: collect_snippet_def p snippet_key_def Let_def)
  show ?thesis
  proof (cases "gate_allows g (map_of seg_of (ln_message l)) (at_key a)")
    case True
    then show ?thesis
      using collect_more_snippets [OF refl assms, of "add_snippet_text er (new_snippet (snd (snippet_key ar p)) a)" g seg_of es]
      by (simp add: d first snippet_entry_def) (simp add: p)
  next
    case False
    then show ?thesis using collect_withheld [OF refl assms, of g seg_of es]
      by (simp add: d first snippet_entry_def) (simp add: p)
  qed
qed

lemma collect_links:
  "distinct (map fst acc @ map (snippet_key ar) ps) \<Longrightarrow>
     foldl (collect_snippet ar g seg_of) acc (concat (map (\<lambda>p. map (Pair p) (done_enrichments (stored ar) (snd p))) ps))
       = acc @ map (snippet_entry ar g seg_of) ps"
proof (induction ps arbitrary: acc)
  case (Cons p ps)
  have "snippet_key ar p \<notin> fst ` set acc" using Cons.prems by auto
  note step = collect_link [OF this, of g seg_of]
  have "distinct (map fst (acc @ [snippet_entry ar g seg_of p]) @ map (snippet_key ar) ps)"
    using Cons.prems by (simp add: snippet_entry_def)
  from Cons.IH [OF this] show ?case by (simp add: step)
qed simp

lemma attachment_key_inj:
  assumes "wf_archive ar" and "a \<in> set (Export_Plan.attachments (stored ar))" "b \<in> set (Export_Plan.attachments (stored ar))"
    and "attachment_key_of ar (at_key a) = attachment_key_of ar (at_key b)"
  shows "at_key a = at_key b"
proof -
  have keys: "map fst (attachment_keys ar) = map at_key (Export_Plan.attachments (stored ar))"
    and names: "distinct (map snd (attachment_keys ar))" and "distinct (map fst (attachment_keys ar))"
    using assms(1) by (simp_all add: wf_archive_def wf_corpus_def)
  have found: "(at_key x, attachment_key_of ar (at_key x)) \<in> set (attachment_keys ar)"
    if "x \<in> set (Export_Plan.attachments (stored ar))" for x
  proof -
    have "at_key x \<in> fst ` set (attachment_keys ar)" using that keys by (metis image_eqI list.set_map)
    then obtain k where "map_of (attachment_keys ar) (at_key x) = Some k" by (meson map_of_eq_None_iff not_Some_eq)
    then show ?thesis by (simp add: attachment_key_of_def map_of_SomeD)
  qed
  have "inj_on snd (set (attachment_keys ar))" using names by (simp add: distinct_map)
  from inj_onD [OF this, of "(at_key a, _)" "(at_key b, _)"] show ?thesis
    using found [OF assms(2)] found [OF assms(3)] assms(4) by auto
qed

lemma distinct_snippet_keys:
  assumes "wf_archive ar"
  shows "distinct (map (snippet_key ar) (snippet_links (stored ar) ids))"
proof -
  let ?c = "stored ar"
  have wf: "wf_corpus ?c" using assms by (simp add: wf_archive_def)
  have "distinct (map (\<lambda>p. (ln_message (fst p), at_key (snd p))) (snippet_links ?c ids))"
    unfolding snippet_links_def by (rule distinct_joined_links) (use wf in \<open>simp_all add: wf_corpus_def distinct_map inj_on_def\<close>)
  then have d: "distinct (snippet_links ?c ids)" "inj_on (\<lambda>p. (ln_message (fst p), at_key (snd p))) (set (snippet_links ?c ids))"
    by (simp_all add: distinct_map)
  have "inj_on (snippet_key ar) (set (snippet_links ?c ids))"
  proof (rule inj_onI)
    fix p q
    assume pq: "p \<in> set (snippet_links ?c ids)" "q \<in> set (snippet_links ?c ids)" "snippet_key ar p = snippet_key ar q"
    have joined: "snd x \<in> set (Export_Plan.attachments ?c)" if "x \<in> set (snippet_links ?c ids)" for x
      using that unfolding snippet_links_def by (metis prod.collapse set_inner_join)
    have "ln_message (fst p) = ln_message (fst q)"
      and "attachment_key_of ar (at_key (snd p)) = attachment_key_of ar (at_key (snd q))"
      using pq(3) by (simp_all add: snippet_key_def)
    moreover have "at_key (snd p) = at_key (snd q)"
      by (rule attachment_key_inj [OF assms joined [OF pq(1)] joined [OF pq(2)] calculation(2)])
    ultimately show "p = q" using inj_onD [OF d(2) _ pq(1,2)] by simp
  qed
  then show ?thesis using d(1) by (simp add: distinct_map)
qed

lemma fetch_snippets_eq:
  assumes "wf_archive ar"
  shows "fetch_snippets ar ids g seg_of = map (snippet_entry ar g seg_of) (snippet_links (stored ar) ids)"
  using collect_links [of "[]" ar "snippet_links (stored ar) ids"] distinct_snippet_keys [OF assms]
  by (simp add: fetch_snippets_def snippet_rows_eq)

section \<open>What the scope lets through\<close>

text \<open>A message the scope shows: exportable, and in an open thread or a segment of one.\<close>

definition message_is_shown :: "corpus \<Rightarrow> message_row \<Rightarrow> bool" where
  "message_is_shown c m \<longleftrightarrow> exportable_message m \<and> (thread_open (base c) (msg_chat m) \<or> message_may_leave c m)"

text \<open>
  Two archives with the same people, threads, membership, segments and links, that may differ in the
  text of every message the scope hides, in every column and every enrichment of an attachment no
  segment of an open thread may show, in edit histories, chunks and stored renderings, and in the
  details of closed threads.
\<close>

definition same_shown :: "archive \<Rightarrow> archive \<Rightarrow> bool" where
  "same_shown ar ar' \<longleftrightarrow>
     (let c = stored ar; c' = stored ar'
      in base c' = base c \<and> short_names c' = short_names c \<and> segments c' = segments c
         \<and> links c' = links c \<and> reactions c' = reactions c
         \<and> (\<forall>chat. thread_open (base c) chat \<longrightarrow> map_of (chat_details c') chat = map_of (chat_details c) chat)
         \<and> (\<forall>m \<in> set (messages (base c)). message_is_shown c m
              \<longrightarrow> map_of (message_texts c') (message_key m) = map_of (message_texts c) (message_key m))
         \<and> list_all2 (same_visible_attachment c) (Export_Plan.attachments c) (Export_Plan.attachments c')
         \<and> (\<forall>a. attachment_may_leave c a
              \<longrightarrow> filter (\<lambda>e. en_attachment e = a) (enrichments c') = filter (\<lambda>e. en_attachment e = a) (enrichments c)))
     \<and> person_lines ar' = person_lines ar \<and> thread_lines ar' = thread_lines ar
     \<and> message_lines ar' = message_lines ar \<and> attachment_keys ar' = attachment_keys ar"

lemma same_shownD:
  assumes "same_shown ar ar'"
  shows "db_of ar' = db_of ar" "short_names (stored ar') = short_names (stored ar)"
    "segments (stored ar') = segments (stored ar)" "links (stored ar') = links (stored ar)"
    "reactions (stored ar') = reactions (stored ar)" "person_lines ar' = person_lines ar"
    "thread_lines ar' = thread_lines ar" "message_lines ar' = message_lines ar"
    "attachment_keys ar' = attachment_keys ar"
  using assms by (simp_all add: same_shown_def Let_def)

lemma request_gate_same: "same_shown ar ar' \<Longrightarrow> request_gate (stored ar') sc segs = request_gate (stored ar) sc segs"
  unfolding request_gate_def by (simp only: same_shownD)

lemma gate_shows_only_leaving:
  assumes "wf_archive ar" and "allowlist_scope (db_of ar) among sc"
    and "gate_allows (request_gate (stored ar) sc segs) s a"
  shows "attachment_may_leave (stored ar) a"
proof -
  have db: "wf_db (db_of ar)" using assms(1) by (simp add: wf_archive_def wf_corpus_def)
  obtain s' where s: "s = Some s'"
    using assms(3) gate_needs_segment [OF allowlist_scopeD(3) [OF assms(2)]] by (cases s) auto
  show ?thesis
    using assms(3) unfolding s request_gate_iff [OF db assms(2)] attachment_may_leave_def by blast
qed

lemma snippet_entry_same:
  assumes "same_shown ar ar'" and "same_visible_attachment (stored ar) a a'"
    and "gate_allows g (map_of seg_of (ln_message l)) (at_key a) \<Longrightarrow> attachment_may_leave (stored ar) (at_key a)"
  shows "snippet_entry ar g seg_of (l, a) = snippet_entry ar' g seg_of (l, a')"
proof -
  have key: "at_key a' = at_key a" using assms(2) by (simp add: same_visible_attachment_def)
  have names: "attachment_key_of ar' = attachment_key_of ar"
    by (rule ext) (simp add: attachment_key_of_def same_shownD [OF assms(1)])
  show ?thesis
  proof (cases "gate_allows g (map_of seg_of (ln_message l)) (at_key a)")
    case True
    then have leave: "attachment_may_leave (stored ar) (at_key a)" by (rule assms(3))
    then have "a' = a" using assms(2) by (simp add: same_visible_attachment_def)
    moreover have "filter (\<lambda>e. en_attachment e = at_key a \<and> en_state e = ''done'') (enrichments (stored ar'))
        = filter (\<lambda>e. en_attachment e = at_key a \<and> en_state e = ''done'') (enrichments (stored ar))"
    proof -
      have split: "filter (\<lambda>e. en_attachment e = at_key a \<and> en_state e = ''done'') es
          = filter (\<lambda>e. en_state e = ''done'') (filter (\<lambda>e. en_attachment e = at_key a) es)" for es :: "enrichment_row list"
        by (simp add: conj_commute)
      have "filter (\<lambda>e. en_attachment e = at_key a) (enrichments (stored ar'))
          = filter (\<lambda>e. en_attachment e = at_key a) (enrichments (stored ar))"
        using assms(1) leave unfolding same_shown_def Let_def by blast
      then show ?thesis unfolding split by (simp only:)
    qed
    ultimately show ?thesis by (simp add: snippet_entry_def snippet_key_def done_enrichments_def names)
  next
    case False
    then show ?thesis by (simp add: snippet_entry_def snippet_key_def names key)
  qed
qed

lemma fetch_snippets_same:
  assumes "wf_archive ar" "wf_archive ar'" and "same_shown ar ar'"
    and "\<And>s a. gate_allows g s a \<Longrightarrow> attachment_may_leave (stored ar) a"
  shows "fetch_snippets ar' ids g seg_of = fetch_snippets ar ids g seg_of"
proof -
  have v: "list_all2 (same_visible_attachment (stored ar)) (Export_Plan.attachments (stored ar)) (Export_Plan.attachments (stored ar'))"
    using assms(3) unfolding same_shown_def Let_def by blast
  have "list_all2 (\<lambda>p q. fst p = fst q \<and> same_visible_attachment (stored ar) (snd p) (snd q))
      (snippet_links (stored ar) ids) (snippet_links (stored ar') ids)"
    unfolding snippet_links_def same_shownD(4) [OF assms(3)]
    by (rule inner_join_rel [OF v]) (simp add: same_visible_attachment_def)
  then have "list_all2 (\<lambda>p q. snippet_entry ar g seg_of p = snippet_entry ar' g seg_of q)
      (snippet_links (stored ar) ids) (snippet_links (stored ar') ids)"
  proof (rule list_all2_mono)
    fix p q :: "link_row \<times> attachment_row"
    assume pq: "fst p = fst q \<and> same_visible_attachment (stored ar) (snd p) (snd q)"
    obtain l a l' a' where "p = (l, a)" "q = (l', a')" by fastforce
    then show "snippet_entry ar g seg_of p = snippet_entry ar' g seg_of q"
      using pq snippet_entry_same [OF assms(3), of a a' g seg_of l] assms(4) by simp
  qed
  from map_eq_rel [OF this] show ?thesis
    by (simp add: fetch_snippets_eq [OF assms(1)] fetch_snippets_eq [OF assms(2)])
qed

lemma row_to_message_same:
  assumes "same_shown ar ar'" and "m \<in> set (messages (db_of ar))" and "message_is_shown (stored ar) m"
  shows "row_to_message ar' False coll m = row_to_message ar False coll m"
proof -
  have "map_of (message_texts (stored ar')) (message_key m) = map_of (message_texts (stored ar)) (message_key m)"
    using assms unfolding same_shown_def Let_def by blast
  moreover have "shown_name (stored ar') = shown_name (stored ar)"
    by (intro ext) (simp add: shown_name_def short_name_of_def same_shownD [OF assms(1)])
  moreover from this have "shown_suffixes (stored ar') k = shown_suffixes (stored ar) k" for k
    by (simp add: shown_suffixes_def same_shownD [OF assms(1)])
  moreover have "message_line_of ar' k = message_line_of ar k" for k
    by (simp add: message_line_of_def same_shownD [OF assms(1)])
  ultimately show ?thesis by (simp add: row_to_message_def)
qed

lemma rows_to_messages_same:
  assumes "wf_archive ar" "wf_archive ar'" and "same_shown ar ar'"
    and "allowlist_scope (db_of ar) among sc" and "g = request_gate (stored ar) sc segs"
    and "\<forall>m \<in> set rows. m \<in> set (messages (db_of ar)) \<and> message_is_shown (stored ar) m"
  shows "rows_to_messages ar' False g seg_of rows = rows_to_messages ar False g seg_of rows"
proof -
  have "fetch_snippets ar' (map message_key rows) g seg_of = fetch_snippets ar (map message_key rows) g seg_of"
    using gate_shows_only_leaving [OF assms(1,4)] assms(5) by (intro fetch_snippets_same [OF assms(1-3)]) blast
  then show ?thesis using assms(6) row_to_message_same [OF assms(3)] by (simp add: rows_to_messages_def)
qed

lemma chat_header_same:
  assumes "same_shown ar ar'" and "thread_open (db_of ar) chat"
  shows "chat_header ar' chat = chat_header ar chat"
proof -
  have "map_of (chat_details (stored ar')) chat = map_of (chat_details (stored ar)) chat"
    using assms unfolding same_shown_def Let_def by blast
  then show ?thesis unfolding chat_header_def same_shownD [OF assms(1)] by (rule arg_cong)
qed

lemma map_filter_cong: "(\<And>x. x \<in> set xs \<Longrightarrow> f x = g x) \<Longrightarrow> List.map_filter f xs = List.map_filter g xs"
  by (induction xs) (simp_all add: List.map_filter_def)

lemma segment_texts_same:
  assumes "wf_archive ar" "wf_archive ar'" and "same_shown ar ar'" and "allowlist_scope (db_of ar) among sc"
  shows "render_segment_texts vw ar' sc ids = render_segment_texts vw ar sc ids"
proof -
  let ?c = "stored ar"
  let ?srows = "filter (\<lambda>g. sg_key g \<in> set ids \<and> admits_chat sc (sg_chat g)) (segments ?c)"
  let ?mrows = "message_rows ?c (map sg_key ?srows)"
  let ?segof = "rev (map (\<lambda>(s, m). (message_key m, s)) ?mrows)"
  let ?g = "request_gate ?c sc (map sg_key ?srows)"
  have db: "wf_db (db_of ar)" using assms(1) by (simp add: wf_archive_def wf_corpus_def)
  have mrows: "message_rows (stored ar') segs = message_rows ?c segs" for segs
    by (simp add: message_rows_def same_shownD [OF assms(3)])
  have opened: "thread_open (db_of ar) (sg_chat r)" "r \<in> set (segments ?c)" if "r \<in> set ?srows" for r
    using that allowlist_admits [OF db assms(4)] by simp_all
  have shown: "rows_to_messages ar' False ?g ?segof rows = rows_to_messages ar False ?g ?segof rows"
    if r: "r \<in> set ?srows" and rows: "rows = map snd (filter (\<lambda>(s, m). s = sg_key r) ?mrows)" for r rows
  proof (rule rows_to_messages_same [OF assms(1-4) refl], rule ballI)
    fix m
    assume "m \<in> set rows"
    then have "(sg_key r, m) \<in> set ?mrows" using rows by auto
    then have m: "m \<in> set (messages (db_of ar))" "exportable_message m"
        "(sg_key r, message_key m) \<in> set (segment_messages (db_of ar))"
      unfolding in_message_rows by blast+
    then have "message_may_leave ?c m" using opened [OF r] unfolding message_may_leave_def by blast
    then show "m \<in> set (messages (db_of ar)) \<and> message_is_shown ?c m"
      using m unfolding message_is_shown_def by blast
  qed
  show ?thesis
    unfolding render_segment_texts_def same_shownD(3) [OF assms(3)] mrows request_gate_same [OF assms(3)] Let_def
  proof (rule map_filter_cong)
    fix r
    assume r: "r \<in> set ?srows"
    show "(case chat_header ar' (sg_chat r) of
             None \<Rightarrow> None
           | Some (kind, dname, others, unfiled) \<Rightarrow>
               if map snd (filter (\<lambda>(s, m). s = sg_key r) ?mrows) = [] then None
               else Some (sg_key r, render_segment vw
                 (rows_to_messages ar' False ?g ?segof (map snd (filter (\<lambda>(s, m). s = sg_key r) ?mrows))) others kind dname unfiled))
        = (case chat_header ar (sg_chat r) of
             None \<Rightarrow> None
           | Some (kind, dname, others, unfiled) \<Rightarrow>
               if map snd (filter (\<lambda>(s, m). s = sg_key r) ?mrows) = [] then None
               else Some (sg_key r, render_segment vw
                 (rows_to_messages ar False ?g ?segof (map snd (filter (\<lambda>(s, m). s = sg_key r) ?mrows))) others kind dname unfiled))"
      unfolding chat_header_same [OF assms(3) opened(1) [OF r]] shown [OF r refl] ..
  qed
qed

end
