(* ===== verification/Sequence_Matcher.thy ===== *)
theory Sequence_Matcher
  imports Binary64
begin

text \<open>
  \<^verbatim>\<open>difflib.SequenceMatcher(None, a, b).ratio()\<close> of Python's standard library, which ranks the near
  matches of a name. There is no junk function; the automatic one drops from the index of \<open>b\<close> the
  elements that make up more than a hundredth of a sequence of at least two hundred.
\<close>

section \<open>The longest match\<close>

definition popular :: "'a list \<Rightarrow> 'a \<Rightarrow> bool" where
  "popular b x \<longleftrightarrow> 200 \<le> length b \<and> length b div 100 + 1 < count_list b x"

text \<open>\<open>b2j\<close>: the positions of an element in \<open>b\<close> inside the window.\<close>

definition b2j :: "'a list \<Rightarrow> nat \<Rightarrow> nat \<Rightarrow> 'a \<Rightarrow> nat list" where
  "b2j b blo bhi x = (if popular b x then [] else filter (\<lambda>j. b ! j = x) [blo..<min bhi (length b)])"

type_synonym match = "nat \<times> nat \<times> nat"

text \<open>One row: \<open>j2len\<close> holds the length of the match ending at \<open>j\<close> in the row before.\<close>

fun match_row :: "nat \<Rightarrow> (nat \<times> nat) list \<Rightarrow> nat list \<Rightarrow> (nat \<times> nat) list \<Rightarrow> match \<Rightarrow> (nat \<times> nat) list \<times> match" where
  "match_row i j2len [] newj2len best = (newj2len, best)"
| "match_row i j2len (j # js) newj2len (bi, bj, bs) =
     (let k = (if j = 0 then 0 else case map_of j2len (j - 1) of None \<Rightarrow> 0 | Some n \<Rightarrow> n) + 1
      in match_row i j2len js ((j, k) # newj2len)
           (if bs < k then (i + 1 - k, j + 1 - k, k) else (bi, bj, bs)))"

fun match_rows :: "'a list \<Rightarrow> 'a list \<Rightarrow> nat \<Rightarrow> nat \<Rightarrow> nat list \<Rightarrow> (nat \<times> nat) list \<Rightarrow> match \<Rightarrow> match" where
  "match_rows a b blo bhi [] j2len best = best"
| "match_rows a b blo bhi (i # is) j2len best =
     (let (j2len', best') = match_row i j2len (b2j b blo bhi (a ! i)) [] best
      in match_rows a b blo bhi is j2len' best')"

text \<open>The elements left out of the index still extend a match, first to the left.\<close>

fun extend_left :: "'a list \<Rightarrow> 'a list \<Rightarrow> nat \<Rightarrow> nat \<Rightarrow> nat \<Rightarrow> nat \<Rightarrow> nat \<Rightarrow> match" where
  "extend_left a b alo blo 0 j k = (0, j, k)"
| "extend_left a b alo blo (Suc i) j k =
     (if alo < Suc i \<and> blo < j \<and> a ! i = b ! (j - 1) then extend_left a b alo blo i (j - 1) (k + 1)
      else (Suc i, j, k))"

function extend_right :: "'a list \<Rightarrow> 'a list \<Rightarrow> nat \<Rightarrow> nat \<Rightarrow> match \<Rightarrow> match" where
  "extend_right a b ahi bhi (i, j, k) =
     (if i + k < ahi \<and> j + k < bhi \<and> a ! (i + k) = b ! (j + k) then extend_right a b ahi bhi (i, j, k + 1)
      else (i, j, k))"
  by pat_completeness auto
termination
  by (relation "measure (\<lambda>(a, b, ahi, bhi, i, j, k). ahi - (i + k))") auto

declare extend_right.simps [simp del]

definition find_longest_match :: "'a list \<Rightarrow> 'a list \<Rightarrow> nat \<Rightarrow> nat \<Rightarrow> nat \<Rightarrow> nat \<Rightarrow> match" where
  "find_longest_match a b alo ahi blo bhi =
     (let (i, j, k) = match_rows a b blo bhi [alo..<ahi] [] (alo, blo, 0)
      in extend_right a b ahi bhi (extend_left a b alo blo i j k))"

section \<open>A match lies in its window\<close>

definition in_window :: "nat \<Rightarrow> nat \<Rightarrow> nat \<Rightarrow> nat \<Rightarrow> match \<Rightarrow> bool" where
  "in_window alo ahi blo bhi m = (case m of (i, j, k) \<Rightarrow> alo \<le> i \<and> i + k \<le> ahi \<and> blo \<le> j \<and> j + k \<le> bhi)"

definition lengths_ok :: "nat \<Rightarrow> nat \<Rightarrow> nat \<Rightarrow> (nat \<times> nat) list \<Rightarrow> bool" where
  "lengths_ok alo blo i j2len \<longleftrightarrow> (\<forall>(j, n) \<in> set j2len. n \<le> i - alo \<and> n + blo \<le> j + 1)"

lemma match_row_window:
  assumes "lengths_ok alo blo i j2len" and "alo \<le> i" and "i < ahi" and "\<forall>j \<in> set js. blo \<le> j \<and> j < bhi"
    and "lengths_ok alo blo (Suc i) new" and "in_window alo ahi blo bhi best"
  shows "lengths_ok alo blo (Suc i) (fst (match_row i j2len js new best))
     \<and> in_window alo ahi blo bhi (snd (match_row i j2len js new best))"
  using assms(4-6)
proof (induction js arbitrary: new best)
  case (Cons j js)
  obtain bi bj bs where best: "best = (bi, bj, bs)" by (cases best) auto
  define k where "k = (if j = 0 then 0 else case map_of j2len (j - 1) of None \<Rightarrow> 0 | Some n \<Rightarrow> n) + 1"
  have j: "blo \<le> j" "j < bhi" using Cons.prems(1) by auto
  have k: "k \<le> Suc i - alo \<and> k + blo \<le> j + 1"
  proof (cases "j = 0 \<or> map_of j2len (j - 1) = None")
    case True
    then have "k = 1" by (auto simp: k_def)
    then show ?thesis using assms(2) j by simp
  next
    case False
    then obtain n where n: "map_of j2len (j - 1) = Some n" by auto
    then have "(j - 1, n) \<in> set j2len" by (rule map_of_SomeD)
    then have "n \<le> i - alo \<and> n + blo \<le> j - 1 + 1" using assms(1) by (auto simp: lengths_ok_def)
    then show ?thesis using False n assms(2) by (auto simp: k_def)
  qed
  have "lengths_ok alo blo (Suc i) ((j, k) # new)" using Cons.prems(2) k by (simp add: lengths_ok_def)
  moreover have "in_window alo ahi blo bhi (if bs < k then (i + 1 - k, j + 1 - k, k) else best)"
    using Cons.prems(3) k assms(2,3) j by (auto simp: in_window_def)
  moreover have "match_row i j2len (j # js) new best
      = match_row i j2len js ((j, k) # new) (if bs < k then (i + 1 - k, j + 1 - k, k) else best)"
    by (simp add: best k_def Let_def)
  moreover have "\<forall>j \<in> set js. blo \<le> j \<and> j < bhi" using Cons.prems(1) by simp
  ultimately show ?case using Cons.IH by (simp only:)
qed simp

lemma match_rows_window:
  assumes "lengths_ok alo blo i j2len" and "alo \<le> i" and "in_window alo ahi blo bhi best"
  shows "in_window alo ahi blo bhi (match_rows a b blo bhi [i..<ahi] j2len best)"
  using assms
proof (induction "ahi - i" arbitrary: i j2len best)
  case 0
  then show ?case by simp
next
  case (Suc n)
  then have i: "i < ahi" by simp
  let ?js = "b2j b blo bhi (a ! i)"
  have js: "\<forall>j \<in> set ?js. blo \<le> j \<and> j < bhi" by (auto simp: b2j_def)
  obtain j2len' best' where r: "match_row i j2len ?js [] best = (j2len', best')"
    by (cases "match_row i j2len ?js [] best") blast
  have "lengths_ok alo blo (Suc i) j2len' \<and> in_window alo ahi blo bhi best'"
    using match_row_window [OF Suc.prems(1,2) i js, of "[]" best] Suc.prems(3) r by (simp add: lengths_ok_def)
  then have "in_window alo ahi blo bhi (match_rows a b blo bhi [Suc i..<ahi] j2len' best')"
    using Suc.hyps Suc.prems(2) by (intro Suc.hyps(1)) auto
  then show ?case by (simp add: upt_conv_Cons [OF i] r)
qed

lemma extend_left_window:
  "in_window alo ahi blo bhi (i, j, k) \<Longrightarrow> in_window alo ahi blo bhi (extend_left a b alo blo i j k)"
  by (induction a b alo blo i j k rule: extend_left.induct) (auto simp: in_window_def)

lemma extend_right_window:
  "in_window alo ahi blo bhi m \<Longrightarrow> in_window alo ahi blo bhi (extend_right a b ahi bhi m)"
proof (induction a b ahi bhi m rule: extend_right.induct)
  case (1 a b ahi bhi i j k)
  then show ?case by (subst extend_right.simps) (auto simp: in_window_def)
qed

lemma longest_match_window:
  assumes "alo \<le> ahi" and "blo \<le> bhi"
  shows "in_window alo ahi blo bhi (find_longest_match a b alo ahi blo bhi)"
proof -
  have "in_window alo ahi blo bhi (match_rows a b blo bhi [alo..<ahi] [] (alo, blo, 0))"
    by (rule match_rows_window) (use assms in \<open>auto simp: lengths_ok_def in_window_def\<close>)
  then show ?thesis
    unfolding find_longest_match_def
    by (auto simp: Let_def split: prod.split intro!: extend_right_window extend_left_window)
qed

section \<open>The ratio\<close>

text \<open>
  The sizes of the matching blocks: the longest match, then the same to its left and to its right.
\<close>

function matched :: "'a list \<Rightarrow> 'a list \<Rightarrow> nat \<Rightarrow> nat \<Rightarrow> nat \<Rightarrow> nat \<Rightarrow> nat" where
  "matched a b alo ahi blo bhi =
     (if ahi \<le> alo \<or> bhi \<le> blo then 0
      else
        (let (i, j, k) = find_longest_match a b alo ahi blo bhi
         in if k = 0 then 0 else k + matched a b alo i blo j + matched a b (i + k) ahi (j + k) bhi))"
  by pat_completeness auto
termination
proof (relation "measure (\<lambda>(a, b, alo, ahi, blo, bhi). ahi - alo)", goal_cases)
  case (2 a b alo ahi blo bhi x i y j k)
  then have "in_window alo ahi blo bhi (i, j, k)"
    using longest_match_window [of alo ahi blo bhi a b] by (auto simp: not_le)
  then show ?case using 2 by (auto simp: in_window_def)
next
  case (3 a b alo ahi blo bhi x i y j k)
  then have "in_window alo ahi blo bhi (i, j, k)"
    using longest_match_window [of alo ahi blo bhi a b] by (auto simp: not_le)
  then show ?case using 3 by (auto simp: in_window_def)
qed simp

declare matched.simps [simp del]

definition sequence_ratio :: "'a list \<Rightarrow> 'a list \<Rightarrow> rat" where
  "sequence_ratio a b =
     (if length a + length b = 0 then 1
      else fl (2 * of_nat (matched a b 0 (length a) 0 (length b)) / of_nat (length a + length b)))"

lemma matched_le: "matched a b alo ahi blo bhi \<le> min (ahi - alo) (bhi - blo)"
proof (induction a b alo ahi blo bhi rule: matched.induct)
  case (1 a b alo ahi blo bhi)
  show ?case
  proof (cases "ahi \<le> alo \<or> bhi \<le> blo")
    case True
    then show ?thesis by (subst matched.simps) simp
  next
    case False
    obtain i j k where m: "find_longest_match a b alo ahi blo bhi = (i, j, k)" by (metis prod_cases3)
    have w: "in_window alo ahi blo bhi (i, j, k)"
      using longest_match_window [of alo ahi blo bhi a b] False m by simp
    show ?thesis
    proof (cases "k = 0")
      case True
      then show ?thesis using False by (subst matched.simps) (simp add: m)
    next
      case nz: False
      have "matched a b alo i blo j \<le> min (i - alo) (j - blo)"
        "matched a b (i + k) ahi (j + k) bhi \<le> min (ahi - (i + k)) (bhi - (j + k))"
        using 1(1) [OF False m [symmetric] refl refl nz] 1(2) [OF False m [symmetric] refl refl nz] by simp_all
      moreover have "matched a b alo ahi blo bhi
          = k + matched a b alo i blo j + matched a b (i + k) ahi (j + k) bhi"
        using False nz by (subst matched.simps) (simp add: m)
      moreover have "alo \<le> i" "i + k \<le> ahi" "blo \<le> j" "j + k \<le> bhi"
        using w by (simp_all add: in_window_def)
      ultimately show ?thesis by linarith
    qed
  qed
qed

lemma sequence_ratio_bounds: "0 \<le> sequence_ratio a b \<and> sequence_ratio a b \<le> 1"
proof (cases "length a + length b = 0")
  case False
  let ?m = "matched a b 0 (length a) 0 (length b)"
  have "2 * ?m \<le> length a + length b" using matched_le [of a b 0 "length a" 0 "length b"] by simp
  then have "(2 * of_nat ?m :: rat) \<le> of_nat (length a + length b)"
    by (metis of_nat_le_iff of_nat_mult of_nat_numeral)
  then have q: "2 * of_nat ?m / of_nat (length a + length b) \<le> (1 :: rat)"
    using False by (simp add: divide_le_eq del: of_nat_add)
  have "sequence_ratio a b = fl (2 * of_nat ?m / of_nat (length a + length b))"
    using False by (simp add: sequence_ratio_def)
  moreover have "fl (2 * of_nat ?m / of_nat (length a + length b)) \<le> fl 1" by (rule fl_mono [OF _ q]) simp
  moreover have "fl 1 = 1" using fl_of_nat [of 1] by simp
  ultimately show ?thesis using fl_nonneg by simp
qed (simp add: sequence_ratio_def)

end
