(* ===== verification/People_Filter.thy ===== *)
theory People_Filter
  imports Archive Sequence_Matcher
begin

text \<open>
  Person names and the filters of a search: \<^verbatim>\<open>retrieval/people.py\<close> and \<^verbatim>\<open>retrieval/filters.py\<close>.
  \<open>str.lower\<close>, which reads the Unicode tables, and the instant of a day's local midnight, which reads
  the calendar and the time zone, are arguments.
\<close>

section \<open>Resolving a person\<close>

definition MAX_CANDIDATES :: nat where "MAX_CANDIDATES = 5"
definition FUZZY_MIN_SCORE :: rat where "FUZZY_MIN_SCORE = 1 / 2"

definition may_see :: "int list option \<Rightarrow> person_line \<Rightarrow> bool" where
  "may_see visible p \<longleftrightarrow> (case visible of None \<Rightarrow> True | Some ids \<Rightarrow> pl_id p \<in> set ids)"

definition candidate_of :: "person_line \<Rightarrow> candidate" where
  "candidate_of p = (pl_short p, pl_display p)"

definition fuzzy_score :: "(string \<Rightarrow> string) \<Rightarrow> string \<Rightarrow> person_line \<Rightarrow> rat" where
  "fuzzy_score lower query p =
     (let ratio = (\<lambda>s. sequence_ratio (code_points (lower query)) (code_points (lower s)))
      in max (ratio (pl_short p)) (ratio (pl_display p)))"

definition fuzzy_candidates ::
  "(string \<Rightarrow> string) \<Rightarrow> archive \<Rightarrow> string \<Rightarrow> int list option \<Rightarrow> candidate list" where
  "fuzzy_candidates lower ar query visible =
     (let pool = filter (may_see visible) (person_lines ar);
          scored = filter (\<lambda>(s, _). FUZZY_MIN_SCORE \<le> s) (map (\<lambda>p. (fuzzy_score lower query p, candidate_of p)) pool)
      in map snd (take MAX_CANDIDATES (sort_key (\<lambda>t. - fst t) scored)))"

definition resolve_one ::
  "(string \<Rightarrow> string) \<Rightarrow> archive \<Rightarrow> int list option \<Rightarrow> string \<Rightarrow> retrieval_error + int" where
  "resolve_one lower ar visible query =
     (let stripped = text_strip query
      in if stripped = [] then Inl (Invalid_Argument ''a 'people' filter entry must not be empty'')
         else case filter (\<lambda>p. pl_short p = stripped \<and> may_see visible p) (person_lines ar) of
           p # _ \<Rightarrow> Inr (pl_id p)
         | [] \<Rightarrow>
             (case filter (\<lambda>p. pl_display p = stripped \<and> may_see visible p) (person_lines ar) of
                [p] \<Rightarrow> Inr (pl_id p)
              | p # q # ps \<Rightarrow>
                  Inl (Person_Ambiguous stripped
                    (map candidate_of (take MAX_CANDIDATES (sort_key pl_short (p # q # ps)))))
              | [] \<Rightarrow>
                  (case fuzzy_candidates lower ar stripped visible of
                     [] \<Rightarrow> Inl (Person_Not_Found stripped [])
                   | c # cs \<Rightarrow> Inl (Person_Ambiguous stripped (c # cs)))))"

definition resolve_people ::
  "(string \<Rightarrow> string) \<Rightarrow> archive \<Rightarrow> request_scope \<Rightarrow> string list \<Rightarrow> retrieval_error + int list" where
  "resolve_people lower ar sc queries =
     (if queries = [] then Inr []
      else map_results (resolve_one lower ar (visible_person_ids (db_of ar) sc)) queries)"

section \<open>Filters\<close>

definition MAX_PEOPLE_FILTER :: nat where "MAX_PEOPLE_FILTER = 20"

record search_filters =
  f_people :: "int list"
  f_after :: "instant option"
  f_before :: "instant option"
  f_has_attachment :: "bool option"

text \<open>\<open>_parse_local_midnight(value) if value else None\<close>.\<close>

definition parse_bound ::
  "(string \<Rightarrow> instant option) \<Rightarrow> string option \<Rightarrow> retrieval_error + instant option" where
  "parse_bound midnight v =
     (case v of
        None \<Rightarrow> Inr None
      | Some s \<Rightarrow>
          if s = [] then Inr None
          else case midnight s of
            None \<Rightarrow> Inl (Invalid_Argument (''not a valid date (expected YYYY-MM-DD): '' @ s))
          | Some t \<Rightarrow> Inr (Some t))"

definition resolve_filters ::
  "(string \<Rightarrow> string) \<Rightarrow> (string \<Rightarrow> instant option) \<Rightarrow> archive \<Rightarrow> request_scope \<Rightarrow> string list option
     \<Rightarrow> string option \<Rightarrow> string option \<Rightarrow> bool option \<Rightarrow> retrieval_error + search_filters" where
  "resolve_filters lower midnight ar sc people after before has_attachment =
     (let names = (case people of None \<Rightarrow> [] | Some ns \<Rightarrow> ns)
      in if MAX_PEOPLE_FILTER < length names
         then Inl (Invalid_Argument ''people accepts at most 20 entries'')
         else
           bind_result (resolve_people lower ar sc names) (\<lambda>ids.
           bind_result (parse_bound midnight after) (\<lambda>a.
           bind_result (parse_bound midnight before) (\<lambda>b.
             (case (a, b) of
                (Some x, Some y) \<Rightarrow>
                  if y \<le> x then Inl (Date_Range_Invalid ''after must be strictly before before'')
                  else Inr \<lparr>f_people = ids, f_after = a, f_before = b, f_has_attachment = has_attachment\<rparr>
              | _ \<Rightarrow> Inr \<lparr>f_people = ids, f_after = a, f_before = b, f_has_attachment = has_attachment\<rparr>)))))"

text \<open>The compiled predicate, on a segment row: the scope's clause first, then each filter's.\<close>

definition segment_has_attachments :: "archive \<Rightarrow> int \<Rightarrow> bool" where
  "segment_has_attachments ar s \<longleftrightarrow>
     list_ex (\<lambda>(g, m). g = s \<and> list_ex (\<lambda>l. ml_id l = m \<and> ml_attached l) (message_lines ar)) (segment_messages (db_of ar))"

definition in_chat :: "archive \<Rightarrow> int \<Rightarrow> int \<Rightarrow> bool" where
  "in_chat ar chat p \<longleftrightarrow> list_ex (\<lambda>cp. part_chat cp = chat \<and> part_person cp = p) (participants (db_of ar))"

definition compile_predicate :: "archive \<Rightarrow> search_filters \<Rightarrow> request_scope \<Rightarrow> segment_row \<Rightarrow> bool" where
  "compile_predicate ar f sc g \<longleftrightarrow>
     chat_predicate sc (sg_chat g)
     \<and> (case f_after f of None \<Rightarrow> True | Some t \<Rightarrow> t \<le> sg_started g)
     \<and> (case f_before f of None \<Rightarrow> True | Some t \<Rightarrow> sg_started g < t)
     \<and> (case f_has_attachment f of None \<Rightarrow> True | Some b \<Rightarrow> segment_has_attachments ar (sg_key g) = b)
     \<and> list_all (in_chat ar (sg_chat g)) (f_people f)"

section \<open>A name nobody may see is a name nobody has\<close>

text \<open>The archive without the people a request may not learn of.\<close>

definition only_visible :: "int list \<Rightarrow> archive \<Rightarrow> archive" where
  "only_visible ids ar = ar\<lparr>person_lines := filter (\<lambda>p. pl_id p \<in> set ids) (person_lines ar)\<rparr>"

lemma filter_may_see:
  "filter (\<lambda>p. P p \<and> may_see (Some ids) p) ps = filter (\<lambda>p. P p \<and> may_see None p) (filter (\<lambda>p. pl_id p \<in> set ids) ps)"
  unfolding filter_filter by (rule filter_cong) (auto simp: may_see_def)

lemma fuzzy_only_visible:
  "fuzzy_candidates lower ar q (Some ids) = fuzzy_candidates lower (only_visible ids ar) q None"
  using filter_may_see [of "\<lambda>_. True" ids "person_lines ar"]
  by (simp add: fuzzy_candidates_def only_visible_def)

lemma resolve_one_only_visible:
  "resolve_one lower ar (Some ids) q = resolve_one lower (only_visible ids ar) None q"
proof -
  have lines: "person_lines (only_visible ids ar) = filter (\<lambda>p. pl_id p \<in> set ids) (person_lines ar)"
    by (simp add: only_visible_def)
  show ?thesis unfolding resolve_one_def filter_may_see fuzzy_only_visible lines ..
qed

lemma resolve_one_Inr:
  assumes "wf_archive ar"
  shows "resolve_one lower ar visible q = Inr p \<longleftrightarrow>
     text_strip q \<noteq> []
     \<and> ((\<exists>l \<in> set (person_lines ar). pl_id l = p \<and> may_see visible l \<and> pl_short l = text_strip q)
        \<or> (\<forall>l \<in> set (person_lines ar). may_see visible l \<longrightarrow> pl_short l \<noteq> text_strip q)
          \<and> (\<exists>l \<in> set (person_lines ar). pl_id l = p \<and> may_see visible l \<and> pl_display l = text_strip q
               \<and> (\<forall>l' \<in> set (person_lines ar). may_see visible l' \<and> pl_display l' = text_strip q \<longrightarrow> l' = l)))"
proof -
  let ?s = "text_strip q"
  let ?short = "filter (\<lambda>p. pl_short p = ?s \<and> may_see visible p) (person_lines ar)"
  let ?disp = "filter (\<lambda>p. pl_display p = ?s \<and> may_see visible p) (person_lines ar)"
  have d: "distinct (map pl_short (person_lines ar))" "distinct (person_lines ar)"
    using assms by (auto simp: wf_archive_def distinct_map)
  show ?thesis
  proof (cases "?s = []")
    case True
    then show ?thesis by (simp add: resolve_one_def)
  next
    case ne: False
    show ?thesis
    proof (cases ?short)
      case (Cons l ls)
      have l: "l \<in> set (person_lines ar)" "pl_short l = ?s" "may_see visible l"
        using Cons by (auto simp: filter_eq_Cons_iff)
      have uniq: "l' = l" if "l' \<in> set (person_lines ar)" "pl_short l' = ?s" for l'
        using d(1) l that by (auto simp: distinct_map inj_on_def)
      have r: "resolve_one lower ar visible q = Inr (pl_id l)" using ne Cons by (simp add: resolve_one_def)
      show ?thesis unfolding r sum.inject using l ne uniq by blast
    next
      case Nil
      then have none: "\<forall>l \<in> set (person_lines ar). may_see visible l \<longrightarrow> pl_short l \<noteq> ?s"
        by (auto simp: filter_empty_conv)
      have set_disp: "l \<in> set ?disp \<longleftrightarrow> l \<in> set (person_lines ar) \<and> may_see visible l \<and> pl_display l = ?s" for l
        by auto
      have "distinct ?disp" using d(2) by simp
      consider "?disp = []" | l where "?disp = [l]" | l m ls where "?disp = l # m # ls"
        by (rule remdups_adj.cases [of ?disp]) blast+
      then show ?thesis
      proof cases
        case 1
        then have "resolve_one lower ar visible q \<noteq> Inr p" using ne Nil by (auto simp: resolve_one_def Let_def split: list.split)
        moreover have "\<not> (\<exists>l. l \<in> set ?disp)" by (simp only: 1) simp
        ultimately show ?thesis using none unfolding set_disp by blast
      next
        case (2 l)
        then have r: "resolve_one lower ar visible q = Inr (pl_id l)" using ne Nil by (simp add: resolve_one_def)
        have "x \<in> set ?disp \<longleftrightarrow> x = l" for x by (simp only: 2) simp
        then have in_disp: "x \<in> set (person_lines ar) \<and> may_see visible x \<and> pl_display x = ?s \<longleftrightarrow> x = l" for x
          unfolding set_disp .
        show ?thesis unfolding r sum.inject using ne none in_disp by blast
      next
        case (3 l m ls)
        then have r: "resolve_one lower ar visible q \<noteq> Inr p" using ne Nil by (simp add: resolve_one_def)
        have "l \<in> set ?disp" "m \<in> set ?disp" "l \<noteq> m"
          using 3 \<open>distinct ?disp\<close> by (simp_all only: 3) simp_all
        then show ?thesis using r none unfolding set_disp by blast
      qed
    qed
  qed
qed

lemma compile_predicate_scope: "compile_predicate ar f sc g \<Longrightarrow> admits_chat sc (sg_chat g)"
  by (simp add: compile_predicate_def chat_predicate_admits)

lemma resolve_filters_Inr:
  assumes "resolve_filters lower midnight ar sc people after before att = Inr f"
  shows "f_has_attachment f = att"
    and "case (f_after f, f_before f) of (Some a, Some b) \<Rightarrow> a < b | _ \<Rightarrow> True"
    and "resolve_people lower ar sc (case people of None \<Rightarrow> [] | Some ns \<Rightarrow> ns) = Inr (f_people f)"
  using assms by (auto simp: resolve_filters_def Let_def bind_result_Inr split: if_splits option.splits)

text \<open>
  No silent pick: a name resolves exactly when it is one visible person's short name, or, where
  it is nobody's short name, the display name of exactly one visible person; every other name, a
  single near match included, is an error.
\<close>

theorem person_resolution_is_exact:
  assumes "wf_archive ar"
  shows "resolve_one lower ar visible q = Inr p \<longleftrightarrow>
     text_strip q \<noteq> []
     \<and> ((\<exists>l \<in> set (person_lines ar). pl_id l = p \<and> may_see visible l \<and> pl_short l = text_strip q)
        \<or> (\<forall>l \<in> set (person_lines ar). may_see visible l \<longrightarrow> pl_short l \<noteq> text_strip q)
          \<and> (\<exists>l \<in> set (person_lines ar). pl_id l = p \<and> may_see visible l \<and> pl_display l = text_strip q
               \<and> (\<forall>l' \<in> set (person_lines ar). may_see visible l' \<and> pl_display l' = text_strip q \<longrightarrow> l' = l)))"
  using assms by (rule resolve_one_Inr)

text \<open>
  C30: Names are no oracle: resolving names in a scope that sees some people gives, error, candidates
  and all, what resolving them without restriction gives in an archive where nobody else exists.
\<close>

theorem unseen_people_do_not_exist:
  "visible_person_ids (db_of ar) sc = Some ids \<Longrightarrow>
     resolve_people lower ar sc names =
       (if names = [] then Inr [] else map_results (resolve_one lower (only_visible ids ar) None) names)"
  by (simp add: resolve_people_def resolve_one_only_visible cong: map_results_cong)

theorem person_resolution_is_exact_witness:
  "resolve_one id sample_archive None ''Bob'' = Inr 3 \<and> resolve_one id sample_archive None ''an'' \<noteq> Inr 2"
proof
  have stripped: "text_strip ''Bob'' = ''Bob''" "text_strip ''an'' = ''an''" by code_simp+
  show "resolve_one id sample_archive None ''Bob'' = Inr 3"
    unfolding person_resolution_is_exact [OF sample_archive_wf]
    by (simp add: sample_archive_def may_see_def stripped)
  show "resolve_one id sample_archive None ''an'' \<noteq> Inr 2"
    unfolding person_resolution_is_exact [OF sample_archive_wf]
    by (simp add: sample_archive_def may_see_def stripped)
qed

theorem unseen_people_do_not_exist_witness:
  "resolve_people id sample_archive sample_scope [''bob''] = Inl (Person_Not_Found ''bob'' [])
   \<and> resolve_people id sample_archive sample_scope [''zed''] = Inl (Person_Not_Found ''zed'' [])"
proof -
  have v: "visible_person_ids (db_of sample_archive) sample_scope = Some [1, 2]" by code_simp
  have "map_results (resolve_one id (only_visible [1, 2] sample_archive) None) [''bob''] = Inl (Person_Not_Found ''bob'' [])"
    "map_results (resolve_one id (only_visible [1, 2] sample_archive) None) [''zed''] = Inl (Person_Not_Found ''zed'' [])"
    by code_simp+
  then show ?thesis unfolding unseen_people_do_not_exist [OF v] by simp
qed

end
