(* ===== verification/Conversation.thy ===== *)
theory Conversation
  imports View_Secrecy People_Filter
begin

text \<open>
  The message-granular reads of the retrieval service: \<open>get_conversation\<close> and \<open>get_recent_messages\<close>
  (\<^verbatim>\<open>retrieval/service.py\<close>) with the thread, anchor and window queries of \<^verbatim>\<open>retrieval/segments.py\<close>.
  Reading an ISO-8601 time, in the reader's zone when it names none, is an argument.
\<close>

record service_config =
  sv_view :: view_config
  sv_lower :: "string \<Rightarrow> string"
  sv_midnight :: "string \<Rightarrow> instant option"
  sv_instant :: "string \<Rightarrow> instant option"
  sv_index_unsent :: bool
  sv_index_edit_history :: bool

section \<open>Threads and anchors\<close>

definition MAX_CONVERSATION_WINDOW :: int where "MAX_CONVERSATION_WINDOW = 200"

definition THREAD_NOT_FOUND_MESSAGE :: string where
  "THREAD_NOT_FOUND_MESSAGE = ''no thread found for the given thread_id''"

record thread_resolution =
  tr_chat :: int
  tr_key :: string
  tr_anchor :: "instant option"

definition resolve_thread :: "archive \<Rightarrow> string \<Rightarrow> retrieval_error + thread_resolution" where
  "resolve_thread ar thread_id =
     (case find (\<lambda>g. sg_stable_key g = thread_id) (segments (stored ar)) of
        Some g \<Rightarrow> Inr \<lparr>tr_chat = sg_chat g, tr_key = thread_key_of ar (sg_chat g), tr_anchor = Some (sg_started g)\<rparr>
      | None \<Rightarrow>
          (case find (\<lambda>l. tl_key l = thread_id) (thread_lines ar) of
             Some l \<Rightarrow> Inr \<lparr>tr_chat = tl_chat l, tr_key = tl_key l, tr_anchor = None\<rparr>
           | None \<Rightarrow> Inl (Not_Found THREAD_NOT_FOUND_MESSAGE)))"

definition latest_segment_start :: "archive \<Rightarrow> int \<Rightarrow> instant option" where
  "latest_segment_start ar chat =
     (case sort_desc sg_started (filter (\<lambda>g. sg_chat g = chat) (segments (stored ar))) of
        [] \<Rightarrow> None | g # _ \<Rightarrow> Some (sg_started g))"

definition resolve_anchor ::
  "(string \<Rightarrow> instant option) \<Rightarrow> archive \<Rightarrow> thread_resolution \<Rightarrow> string option \<Rightarrow> retrieval_error + instant" where
  "resolve_anchor parse ar res anchor =
     (case anchor of
        None \<Rightarrow>
          (case tr_anchor res of
             Some t \<Rightarrow> Inr t
           | None \<Rightarrow>
               (case latest_segment_start ar (tr_chat res) of
                  Some t \<Rightarrow> Inr t
                | None \<Rightarrow> Inl (Not_Found (''thread '' @ tr_key res @ '' has no segments to anchor on''))))
      | Some s \<Rightarrow>
          (case parse s of
             Some t \<Rightarrow> Inr t
           | None \<Rightarrow>
               (case find (\<lambda>m. msg_chat m = tr_chat res
                        \<and> map_option ml_key (message_line_of ar (message_key m)) = Some s) (messages (db_of ar)) of
                  Some m \<Rightarrow> Inr (row_sent_at m)
                | None \<Rightarrow> Inl (Invalid_Argument
                    (''anchor '' @ s @ '' is neither a valid ISO-8601 timestamp nor a known message_key within this thread'')))))"

section \<open>Windows\<close>

definition message_order :: "message_row \<Rightarrow> int \<times> int" where
  "message_order m = (row_sent_at m, message_key m)"

definition shown_row :: "bool \<Rightarrow> bool \<Rightarrow> message_row \<Rightarrow> bool" where
  "shown_row unsent deleted m \<longleftrightarrow> (unsent \<or> \<not> Eligibility.is_unsent m) \<and> (deleted \<or> deleted_at m = None)"

definition window_rows :: "archive \<Rightarrow> int \<Rightarrow> instant \<Rightarrow> nat \<Rightarrow> bool \<Rightarrow> bool \<Rightarrow> message_row list" where
  "window_rows ar chat anchor w unsent deleted =
     (let rows = filter (\<lambda>m. msg_chat m = chat \<and> shown_row unsent deleted m) (messages (db_of ar));
          before = rev (sort_key message_order (filter (\<lambda>m. row_sent_at m < anchor) rows));
          after = sort_key message_order (filter (\<lambda>m. anchor \<le> row_sent_at m) rows)
      in rev (take w before) @ take (w + 1) after)"

record window_line =
  wl_key :: string
  wl_sent_at :: string
  wl_sender :: string
  wl_from_me :: bool
  wl_unsent :: bool
  wl_edited :: bool
  wl_deleted :: bool
  wl_text :: string

definition line_of :: "view_config \<Rightarrow> archive \<Rightarrow> message_row \<Rightarrow> message \<Rightarrow> window_line" where
  "line_of vw ar row m =
     \<lparr>wl_key = (case message_line_of ar (message_key row) of None \<Rightarrow> [] | Some l \<Rightarrow> ml_key l),
      wl_sent_at = vw_iso vw (sent_at m), wl_sender = sender_short_name m, wl_from_me = is_from_me m,
      wl_unsent = Sessionize.is_unsent m, wl_edited = is_edited m, wl_deleted = is_deleted m,
      wl_text = render_message_line vw m\<rparr>"

definition segment_by_message :: "archive \<Rightarrow> int list \<Rightarrow> (int \<times> int) list" where
  "segment_by_message ar ids =
     rev (map (\<lambda>(s, m). (m, s)) (filter (\<lambda>(s, m). m \<in> set ids) (segment_messages (db_of ar))))"

definition fetch_conversation_window ::
  "service_config \<Rightarrow> archive \<Rightarrow> request_scope \<Rightarrow> int \<Rightarrow> instant \<Rightarrow> nat \<Rightarrow> window_line list" where
  "fetch_conversation_window cfg ar sc chat anchor w =
     (let rows = window_rows ar chat anchor w (shows_unsent sc (sv_index_unsent cfg)) (shows_deleted sc);
          seg_of = (if is_full sc then [] else segment_by_message ar (map message_key rows));
          g = request_gate (stored ar) sc (map snd seg_of);
          ms = rows_to_messages ar (shows_edit_history sc (sv_index_edit_history cfg)) g seg_of rows
      in map (\<lambda>(row, m). line_of (sv_view cfg) ar row m) (zip rows ms))"

definition of_value_error :: "value_error + 'a \<Rightarrow> retrieval_error + 'a" where
  "of_value_error r = (case r of Inl (ValueError s) \<Rightarrow> Inl (Internal_Error s) | Inr x \<Rightarrow> Inr x)"

record conversation =
  cv_thread :: string
  cv_lines :: "window_line list"

definition get_conversation ::
  "service_config \<Rightarrow> archive \<Rightarrow> access_context \<Rightarrow> string \<Rightarrow> string option \<Rightarrow> int \<Rightarrow> retrieval_error + conversation" where
  "get_conversation cfg ar ctx thread_id anchor w =
     (if w < 1 \<or> MAX_CONVERSATION_WINDOW < w
      then Inl (Invalid_Argument ''window must be between 1 and 200'')
      else
        bind_result (resolve_thread ar thread_id) (\<lambda>res.
        bind_result (of_value_error (resolve_request_scope (Some (db_of ar)) ctx (Some [tr_chat res]))) (\<lambda>sc.
          if \<not> admits_chat sc (tr_chat res) then Inl (Not_Found THREAD_NOT_FOUND_MESSAGE)
          else bind_result (resolve_anchor (sv_instant cfg) ar res anchor) (\<lambda>t.
            Inr \<lparr>cv_thread = tr_key res,
                 cv_lines = fetch_conversation_window cfg ar sc (tr_chat res) t (nat w)\<rparr>))))"

section \<open>The newest messages\<close>

definition recent_rows ::
  "archive \<Rightarrow> request_scope \<Rightarrow> search_filters \<Rightarrow> int option \<Rightarrow> nat \<Rightarrow> bool \<Rightarrow> message_row list" where
  "recent_rows ar sc f chat limit unsent =
     take limit (rev (sort_key message_order (filter
       (\<lambda>m. chat_predicate sc (msg_chat m) \<and> shown_row unsent (shows_deleted sc) m
          \<and> (case chat of None \<Rightarrow> True | Some c \<Rightarrow> msg_chat m = c)
          \<and> (case f_after f of None \<Rightarrow> True | Some t \<Rightarrow> t \<le> row_sent_at m)
          \<and> (case f_before f of None \<Rightarrow> True | Some t \<Rightarrow> row_sent_at m < t)
          \<and> list_all (in_chat ar (msg_chat m)) (f_people f)) (messages (db_of ar)))))"

definition fetch_recent_messages ::
  "service_config \<Rightarrow> archive \<Rightarrow> request_scope \<Rightarrow> search_filters \<Rightarrow> int option \<Rightarrow> nat \<Rightarrow> (string \<times> window_line) list" where
  "fetch_recent_messages cfg ar sc f chat limit =
     (let rows = recent_rows ar sc f chat limit (shows_unsent sc (sv_index_unsent cfg));
          seg_of = (if is_full sc then [] else segment_by_message ar (map message_key rows));
          g = request_gate (stored ar) sc (map snd seg_of);
          history = shows_edit_history sc (sv_index_edit_history cfg)
      in map (\<lambda>row.
           let chat_rows = filter (\<lambda>r. msg_chat r = msg_chat row) rows;
               m = row_to_message ar history (fetch_snippets ar (map message_key chat_rows) g seg_of) row
           in (thread_key_of ar (msg_chat row), line_of (sv_view cfg) ar row m)) rows)"

definition get_recent_messages ::
  "service_config \<Rightarrow> archive \<Rightarrow> access_context \<Rightarrow> string list option \<Rightarrow> string option \<Rightarrow> string option
     \<Rightarrow> string option \<Rightarrow> int \<Rightarrow> retrieval_error + (string \<times> window_line) list" where
  "get_recent_messages cfg ar ctx people thread_id after before limit =
     (if limit < 1 \<or> MAX_CONVERSATION_WINDOW < limit
      then Inl (Invalid_Argument ''limit must be between 1 and 200'')
      else
        bind_result (of_value_error (resolve_request_scope (Some (db_of ar)) ctx None)) (\<lambda>sc.
        bind_result
          (case thread_id of
             None \<Rightarrow> Inr None
           | Some tid \<Rightarrow>
               bind_result (resolve_thread ar tid) (\<lambda>res.
                 if admits_chat sc (tr_chat res) then Inr (Some (tr_chat res))
                 else Inl (Not_Found THREAD_NOT_FOUND_MESSAGE))) (\<lambda>chat.
        bind_result (resolve_filters (sv_lower cfg) (sv_midnight cfg) ar sc people after before None) (\<lambda>f.
          Inr (fetch_recent_messages cfg ar sc f chat (nat limit))))))"

section \<open>The window\<close>





lemma length_rows_to_messages [simp]: "length (rows_to_messages ar h g s rows) = length rows"
  by (simp add: rows_to_messages_def)






lemma allowlist_resolves: "ctx_scope ctx \<noteq> ''full'' \<Longrightarrow>
    \<exists>sc. resolve_request_scope (Some d) ctx among = Inr sc \<and> allowlist_scope d among sc"
  by (auto simp: resolve_request_scope_def allowlist_scope_def)


definition sample_service :: service_config where
  "sample_service =
     \<lparr>sv_view = \<lparr>vw_zone = ''UTC'', vw_snippet = 20, vw_clock = py_str_int, vw_day = (\<lambda>_. ''d''), vw_iso = py_str_int\<rparr>,
      sv_lower = id, sv_midnight = py_int, sv_instant = py_int, sv_index_unsent = True, sv_index_edit_history = True\<rparr>"



text \<open>
  C7: Conversations are no existence oracle: under the allowlist scope the answer to an identifier of
  no thread and to one of a closed thread is the same error, word for word, and only those two get it.
\<close>

theorem closed_thread_is_no_thread:
  assumes "wf_archive ar" and "ctx_scope ctx \<noteq> ''full''" and "1 \<le> w" and "w \<le> MAX_CONVERSATION_WINDOW"
  shows "get_conversation cfg ar ctx thread_id anchor w = Inl (Not_Found THREAD_NOT_FOUND_MESSAGE)
     \<longleftrightarrow> \<not> (\<exists>res. resolve_thread ar thread_id = Inr res \<and> thread_open (db_of ar) (tr_chat res))"
proof (cases "resolve_thread ar thread_id")
  case (Inl e)
  then have "e = Not_Found THREAD_NOT_FOUND_MESSAGE" by (auto simp: resolve_thread_def split: option.splits)
  then show ?thesis using Inl assms(3,4) by (simp add: get_conversation_def)
next
  case (Inr res)
  have db: "wf_db (db_of ar)" using assms(1) by (simp add: wf_archive_def wf_corpus_def)
  obtain sc where sc: "resolve_request_scope (Some (db_of ar)) ctx (Some [tr_chat res]) = Inr sc"
    "allowlist_scope (db_of ar) (Some [tr_chat res]) sc"
    using allowlist_resolves [OF assms(2)] by blast
  have adm: "admits_chat sc (tr_chat res) \<longleftrightarrow> thread_open (db_of ar) (tr_chat res)"
    using allowlist_admits [OF db sc(2)] by (simp add: asked_def)
  have "resolve_anchor p ar res anchor \<noteq> Inl (Not_Found THREAD_NOT_FOUND_MESSAGE)" for p
    by (auto simp: resolve_anchor_def THREAD_NOT_FOUND_MESSAGE_def split: option.splits)
  then show ?thesis using Inr sc(1) adm assms(3,4)
    by (simp add: get_conversation_def of_value_error_def bind_result_Inl)
qed

theorem closed_thread_is_no_thread_witness:
  "get_conversation sample_service sample_archive public_context ''t11'' None 5 = Inl (Not_Found THREAD_NOT_FOUND_MESSAGE)
   \<and> get_conversation sample_service sample_archive public_context ''zz'' None 5 = Inl (Not_Found THREAD_NOT_FOUND_MESSAGE)"
proof -
  have ctx: "ctx_scope public_context \<noteq> ''full''" and w: "(1::int) \<le> 5" "(5::int) \<le> MAX_CONVERSATION_WINDOW"
    by (simp_all add: public_context_def MAX_CONVERSATION_WINDOW_def)
  have "resolve_thread sample_archive ''t11'' = Inr \<lparr>tr_chat = 11, tr_key = ''t11'', tr_anchor = None\<rparr>"
    "resolve_thread sample_archive ''zz'' = Inl (Not_Found THREAD_NOT_FOUND_MESSAGE)"
    by code_simp+
  moreover have "\<not> thread_open (db_of sample_archive) 11"
    by (simp add: thread_open_def text_ok_def sample_archive_def sample_archive_corpus_def sample_archive_db_def sample_db_def)
  ultimately show ?thesis
    unfolding closed_thread_is_no_thread [OF sample_archive_wf ctx w] by simp
qed

section \<open>Withheld content does not show\<close>

lemma window_rows_shown:
  "m \<in> set (window_rows ar chat t w unsent deleted)
     \<Longrightarrow> m \<in> set (messages (db_of ar)) \<and> msg_chat m = chat \<and> shown_row unsent deleted m"
  by (auto simp: window_rows_def Let_def dest!: in_set_takeD)

lemma shown_row_exportable: "shown_row False False m = exportable_message m"
  by (simp add: shown_row_def exportable_message_def)

lemma allowlist_flags:
  assumes "\<not> is_full sc"
  shows "shows_unsent sc p = False" "shows_edit_history sc p = False" "shows_deleted sc = False" "is_full sc = False"
  using assms by (simp_all add: shows_unsent_def shows_edit_history_def shows_deleted_def)

lemma window_same:
  assumes "wf_archive ar" "wf_archive ar'" and "same_shown ar ar'"
    and "allowlist_scope (db_of ar) among sc" and "thread_open (db_of ar) chat"
  shows "fetch_conversation_window cfg ar' sc chat t w = fetch_conversation_window cfg ar sc chat t w"
proof -
  note same = same_shownD [OF assms(3)]
  have full: "\<not> is_full sc" by (rule allowlist_scopeD(3) [OF assms(4)])
  let ?rows = "window_rows ar chat t w False False"
  have rows: "window_rows ar' chat t w False False = ?rows" by (simp add: window_rows_def same)
  have seg: "segment_by_message ar' = segment_by_message ar" by (rule ext) (simp add: segment_by_message_def same)
  have lines: "line_of vw ar' = line_of vw ar" for vw
    by (intro ext) (simp add: line_of_def message_line_of_def same)
  have "\<forall>m \<in> set ?rows. m \<in> set (messages (db_of ar)) \<and> message_is_shown (stored ar) m"
    using window_rows_shown [of _ ar chat t w False False] assms(5)
    by (auto simp: shown_row_exportable message_is_shown_def)
  note ms = rows_to_messages_same [OF assms(1-4) refl this]
  show ?thesis
    unfolding fetch_conversation_window_def Let_def
    by (simp add: allowlist_flags [OF full] rows seg lines ms request_gate_same [OF assms(3)])
qed

lemma conversation_same:
  assumes "wf_archive ar" "wf_archive ar'" and "same_shown ar ar'" and "ctx_scope ctx \<noteq> ''full''"
  shows "get_conversation cfg ar' ctx tid anchor w = get_conversation cfg ar ctx tid anchor w"
proof -
  note same = same_shownD [OF assms(3)]
  have db: "wf_db (db_of ar)" using assms(1) by (simp add: wf_archive_def wf_corpus_def)
  have threads: "resolve_thread ar' tid = resolve_thread ar tid"
    by (simp add: resolve_thread_def thread_key_of_def same cong: option.case_cong)
  have anchors: "resolve_anchor p ar' res anchor = resolve_anchor p ar res anchor" for p res
    by (simp add: resolve_anchor_def latest_segment_start_def message_line_of_def same cong: option.case_cong)
  show ?thesis
  proof (cases "resolve_thread ar tid")
    case (Inr res)
    obtain sc where sc: "resolve_request_scope (Some (db_of ar)) ctx (Some [tr_chat res]) = Inr sc"
      "allowlist_scope (db_of ar) (Some [tr_chat res]) sc"
      using allowlist_resolves [OF assms(4)] by blast
    have "fetch_conversation_window cfg ar' sc (tr_chat res) t n = fetch_conversation_window cfg ar sc (tr_chat res) t n"
      if "admits_chat sc (tr_chat res)" for t n
      using that window_same [OF assms(1-3) sc(2)] allowlist_admits [OF db sc(2)] by blast
    then show ?thesis
      by (simp add: get_conversation_def threads Inr anchors same(1) sc(1) of_value_error_def)
  qed (simp add: get_conversation_def threads)
qed

lemma recent_rows_shown:
  "m \<in> set (recent_rows ar sc f chat n unsent) \<Longrightarrow>
     m \<in> set (messages (db_of ar)) \<and> admits_chat sc (msg_chat m) \<and> shown_row unsent (shows_deleted sc) m"
  by (auto simp: recent_rows_def chat_predicate_admits dest!: in_set_takeD)

lemma recents_same:
  assumes "wf_archive ar" "wf_archive ar'" and "same_shown ar ar'" and "allowlist_scope (db_of ar) among sc"
  shows "fetch_recent_messages cfg ar' sc f chat n = fetch_recent_messages cfg ar sc f chat n"
proof -
  note same = same_shownD [OF assms(3)]
  have db: "wf_db (db_of ar)" using assms(1) by (simp add: wf_archive_def wf_corpus_def)
  have full: "\<not> is_full sc" by (rule allowlist_scopeD(3) [OF assms(4)])
  let ?rows = "recent_rows ar sc f chat n False"
  let ?segof = "segment_by_message ar (map message_key ?rows)"
  let ?g = "request_gate (stored ar) sc (map snd ?segof)"
  have chat: "in_chat ar' = in_chat ar" by (intro ext) (simp add: in_chat_def same)
  have rows: "recent_rows ar' sc f chat n False = ?rows"
    unfolding recent_rows_def chat same(1) ..
  have seg: "segment_by_message ar' = segment_by_message ar" by (rule ext) (simp add: segment_by_message_def same)
  have lines: "line_of vw ar' = line_of vw ar" for vw
    by (intro ext) (simp add: line_of_def message_line_of_def same)
  have snips: "fetch_snippets ar' ids ?g s = fetch_snippets ar ids ?g s" for ids s
    by (rule fetch_snippets_same [OF assms(1-3)]) (rule gate_shows_only_leaving [OF assms(1,4)])
  have msgs: "row_to_message ar' False coll row = row_to_message ar False coll row" if "row \<in> set ?rows" for coll row
  proof (rule row_to_message_same [OF assms(3)])
    have r: "row \<in> set (messages (db_of ar))" "admits_chat sc (msg_chat row)" "shown_row False (shows_deleted sc) row"
      using recent_rows_shown [OF that] by blast+
    then show "row \<in> set (messages (db_of ar))" "message_is_shown (stored ar) row"
      using allowlist_admits [OF db assms(4)]
      by (auto simp: allowlist_flags [OF full] shown_row_exportable message_is_shown_def)
  qed
  have "fetch_recent_messages cfg ar' sc f chat n
      = map (\<lambda>row. (thread_key_of ar' (msg_chat row), line_of (sv_view cfg) ar' row
          (row_to_message ar' False (fetch_snippets ar' (map message_key (filter (\<lambda>r. msg_chat r = msg_chat row) ?rows)) ?g ?segof) row))) ?rows"
    by (simp add: fetch_recent_messages_def Let_def allowlist_flags [OF full] rows seg request_gate_same [OF assms(3)])
  also have "\<dots> = map (\<lambda>row. (thread_key_of ar (msg_chat row), line_of (sv_view cfg) ar row
          (row_to_message ar False (fetch_snippets ar (map message_key (filter (\<lambda>r. msg_chat r = msg_chat row) ?rows)) ?g ?segof) row))) ?rows"
    using msgs by (intro map_cong refl) (simp add: lines snips thread_key_of_def same)
  also have "\<dots> = fetch_recent_messages cfg ar sc f chat n"
    by (simp add: fetch_recent_messages_def Let_def allowlist_flags [OF full])
  finally show ?thesis .
qed

lemma resolve_filters_same:
  assumes "person_lines ar' = person_lines ar" and "db_of ar' = db_of ar"
  shows "resolve_filters l md ar' sc p a b h = resolve_filters l md ar sc p a b h"
proof -
  have fuzzy: "fuzzy_candidates l ar' = fuzzy_candidates l ar"
    by (intro ext) (simp add: fuzzy_candidates_def assms(1))
  have "resolve_one l ar' v = resolve_one l ar v" for v
    by (rule ext) (simp only: resolve_one_def fuzzy assms(1))
  then have "resolve_people l ar' sc = resolve_people l ar sc"
    by (intro ext) (simp only: resolve_people_def assms(2))
  then show ?thesis by (simp only: resolve_filters_def)
qed

lemma recent_same:
  assumes "wf_archive ar" "wf_archive ar'" and "same_shown ar ar'" and "ctx_scope ctx \<noteq> ''full''"
  shows "get_recent_messages cfg ar' ctx people tid after before limit = get_recent_messages cfg ar ctx people tid after before limit"
proof -
  note same = same_shownD [OF assms(3)]
  have threads: "resolve_thread ar' tid = resolve_thread ar tid" for tid
    by (simp add: resolve_thread_def thread_key_of_def same cong: option.case_cong)
  note flt = resolve_filters_same [OF same(6) same(1)]
  obtain sc where sc: "resolve_request_scope (Some (db_of ar)) ctx None = Inr sc" "allowlist_scope (db_of ar) None sc"
    using allowlist_resolves [OF assms(4)] by blast
  show ?thesis
    unfolding get_recent_messages_def threads same(1) sc(1) flt
    by (simp add: of_value_error_def recents_same [OF assms(1-3) sc(2)])
qed

text \<open>
  C6: The content of what is withheld has no influence on what the public surface reads: two archives with
  the same rows of messages, people, threads and links, that differ only in the text of hidden messages,
  in edit histories, in the names, types and enrichments of attachments no open segment may show, and in
  stored renderings, answer every conversation and every recent-messages request alike. That a hidden
  message exists, when it was sent and by whom is the same in both.
\<close>

theorem withheld_content_is_not_read:
  assumes "wf_archive ar" "wf_archive ar'" and "same_shown ar ar'" and "ctx_scope ctx \<noteq> ''full''"
  shows "get_conversation cfg ar' ctx tid anchor w = get_conversation cfg ar ctx tid anchor w
     \<and> get_recent_messages cfg ar' ctx people thread after before limit
         = get_recent_messages cfg ar ctx people thread after before limit"
  using conversation_same [OF assms] recent_same [OF assms] by (rule conjI)

text \<open>The sample with another deleted message and another denied attachment.\<close>

definition other_archive :: archive where
  "other_archive = sample_archive\<lparr>stored := sample_archive_corpus\<lparr>
     message_texts := [(100, Some ''hi''), (101, Some ''look''), (102, Some ''never mind''), (103, None)],
     Export_Plan.attachments := [\<lparr>at_key = 500, at_guid = ''g0'', at_filename = Some ''plan.doc'', at_mime = None\<rparr>,
                     \<lparr>at_key = 501, at_guid = ''g1'', at_filename = Some ''cat.png'', at_mime = Some ''image/png''\<rparr>]\<rparr>,
     version_rows := []\<rparr>"

lemma other_archive_wf: "wf_archive other_archive"
  using sample_archive_wf by (simp add: wf_archive_def wf_corpus_def other_archive_def sample_archive_def)
    (simp add: sample_archive_corpus_def sample_archive_db_def sample_corpus_def sample_db_def)

lemma sample_salary_stays: "\<not> attachment_may_leave sample_archive_corpus 500"
  by (simp add: attachment_may_leave_def links_in_def attachment_ok_def exportable_message_def message_sender_def
    effective_sender_def coalesce_def owner_person_id_def sample_archive_corpus_def sample_archive_db_def sample_corpus_def sample_db_def)

lemma sample_same_shown: "same_shown sample_archive other_archive"
proof -
  have closed: "\<not> thread_open sample_archive_db 11"
    by (simp add: thread_open_def text_ok_def sample_archive_db_def sample_db_def)
  have hidden: "\<not> message_is_shown sample_archive_corpus m" if "m \<in> set (messages sample_archive_db)" "message_key m \<in> {102, 103}" for m
    using that closed
    by (auto simp: message_is_shown_def exportable_message_def message_may_leave_def sample_archive_corpus_def
      sample_archive_db_def sample_corpus_def sample_db_def)
  have "map_of (message_texts (stored other_archive)) (message_key m) = map_of (message_texts sample_archive_corpus) (message_key m)"
    if "m \<in> set (messages sample_archive_db)" "message_is_shown sample_archive_corpus m" for m
    using hidden [OF that(1)] that
    by (auto simp: other_archive_def sample_archive_corpus_def sample_corpus_def sample_archive_db_def sample_db_def)
  moreover have "list_all2 (same_visible_attachment sample_archive_corpus)
      (Export_Plan.attachments sample_archive_corpus) (Export_Plan.attachments (stored other_archive))"
  proof -
    have refl: "same_visible_attachment sample_archive_corpus x x" for x by (simp add: same_visible_attachment_def)
    have atts: "Export_Plan.attachments sample_archive_corpus = Export_Plan.attachments sample_corpus"
      by (simp add: sample_archive_corpus_def)
    show ?thesis unfolding atts using sample_salary_stays
      by (simp add: other_archive_def sample_corpus_def refl) (simp add: same_visible_attachment_def)
  qed
  moreover have "base sample_archive_corpus = sample_archive_db" by (simp add: sample_archive_corpus_def)
  moreover have "stored sample_archive = sample_archive_corpus" by (simp add: sample_archive_def)
  ultimately show ?thesis unfolding same_shown_def Let_def by (simp add: other_archive_def)
qed

theorem withheld_content_is_not_read_witness:
  "get_conversation sample_service other_archive public_context ''k1'' None 5
     = get_conversation sample_service sample_archive public_context ''k1'' None 5
   \<and> message_texts (stored other_archive) \<noteq> message_texts (stored sample_archive)"
proof -
  have "ctx_scope public_context \<noteq> ''full''" by (simp add: public_context_def)
  note withheld_content_is_not_read [OF sample_archive_wf other_archive_wf sample_same_shown this,
    of sample_service "''k1''" None 5 None None None None 1]
  moreover have "message_texts (stored other_archive) \<noteq> message_texts (stored sample_archive)" by code_simp
  ultimately show ?thesis by blast
qed

end
