(* ===== verification/Search_Service.thy ===== *)
theory Search_Service
  imports Conversation Rank_Fusion Vector_Collapse Query_Analysis
begin

text \<open>
  The hybrid search: the candidate channels (\<^verbatim>\<open>retrieval/fts_search.py\<close>, \<^verbatim>\<open>retrieval/vector_search.py\<close>)
  and \<open>RetrievalService._search_messages\<close> (\<^verbatim>\<open>retrieval/service.py\<close>). What the code does not decide
  itself is an argument: the ranked hits of an FTS5 match, the order in which an HNSW index yields its
  rows and their distances, the embeddings and the reranker's scores. The \<open>WHERE\<close>, \<open>LIMIT\<close> and joins
  put on those rows are the model's.
\<close>

record engine =
  en_nfc :: "utext \<Rightarrow> utext"
  en_segment_hits :: "query_mode \<Rightarrow> utext \<Rightarrow> int list"
  en_chunk_hits :: "query_mode \<Rightarrow> utext \<Rightarrow> int list"
  en_embed :: "utext \<Rightarrow> rat list"
  en_multimodal :: "(utext \<Rightarrow> rat list) option"
  en_near_segments :: "rat list \<Rightarrow> int list"
  en_near_chunks :: "rat list \<Rightarrow> (int \<times> rat) list"
  en_near_attachments :: "rat list \<Rightarrow> (int \<times> rat) list"
  en_rerank :: "utext \<Rightarrow> string list \<Rightarrow> rat list"
  en_k_fts :: nat
  en_k_vector :: nat
  en_rrf_k :: int
  en_rerank_top :: nat
  en_default_limit :: int

section \<open>Full text\<close>

definition SCAN_CAP_MULTIPLIER :: nat where "SCAN_CAP_MULTIPLIER = 10"
definition MIN_SCAN_CAP :: nat where "MIN_SCAN_CAP = 200"

definition scan_cap :: "nat \<Rightarrow> nat" where "scan_cap k = max (k * SCAN_CAP_MULTIPLIER) MIN_SCAN_CAP"

definition fts_match_query :: "analyzed_query \<Rightarrow> utext option" where
  "fts_match_query q =
     (case query_mode q of
        Bm25 \<Rightarrow> Some (bm25_match_expression (phrase q))
      | Trigram \<Rightarrow> Some (trigram_match_expression (phrase q))
      | Emoji \<Rightarrow> None)"

text \<open>The rows of a table the query matches, best rank first, as far as \<open>LIMIT\<close> lets them.\<close>

definition raw_candidates :: "(query_mode \<Rightarrow> utext \<Rightarrow> int list) \<Rightarrow> analyzed_query \<Rightarrow> nat \<Rightarrow> int list" where
  "raw_candidates hits q limit =
     (case fts_match_query q of None \<Rightarrow> [] | Some m \<Rightarrow> take limit (hits (query_mode q) m))"

type_synonym predicate = "segment_row \<Rightarrow> bool"

definition authorize_segment_ids :: "archive \<Rightarrow> predicate \<Rightarrow> int list \<Rightarrow> int list" where
  "authorize_segment_ids ar pred ids =
     map sg_key (filter (\<lambda>g. sg_key g \<in> set ids \<and> pred g) (segments (stored ar)))"

text \<open>The parents of an attachment: \<open>message_attachment\<close>, \<open>segment_message\<close> and \<open>segment\<close> joined.\<close>

definition parent_segments :: "archive \<Rightarrow> predicate \<Rightarrow> int \<Rightarrow> int list" where
  "parent_segments ar pred a =
     map (sg_key \<circ> snd)
       (inner_join (\<lambda>(l, sm) g. sg_key g = fst sm)
         (inner_join (\<lambda>l sm. snd sm = ln_message l)
           (filter (\<lambda>l. ln_attachment l = a) (links (stored ar))) (segment_messages (db_of ar)))
         (filter pred (segments (stored ar))))"

definition chunk_parents :: "archive \<Rightarrow> predicate \<Rightarrow> int \<Rightarrow> int list" where
  "chunk_parents ar pred k =
     concat (map (\<lambda>ck. parent_segments ar pred (ck_attachment ck)) (filter (\<lambda>ck. ck_key ck = k) (chunks (stored ar))))"

definition map_chunks_to_segments :: "archive \<Rightarrow> predicate \<Rightarrow> int list \<Rightarrow> int list" where
  "map_chunks_to_segments ar pred ids =
     (if ids = [] then []
      else best_rank_per_segment
        (concat (map (\<lambda>(rnk, k). map (Pair rnk) (chunk_parents ar pred k)) (enumerate 0 ids))))"

definition text_matches :: "utext \<Rightarrow> string option \<Rightarrow> bool" where
  "text_matches p t \<longleftrightarrow> (case t of None \<Rightarrow> False | Some s \<Rightarrow> sql_like (like_pattern p) (code_points s))"

text \<open>
  \<open>DISTINCT ON (segment_id) \<dots> ORDER BY segment_id, sent_at\<close>: each segment once, with its first
  matching message.
\<close>

definition matching_times :: "archive \<Rightarrow> utext \<Rightarrow> int \<Rightarrow> instant list" where
  "matching_times ar p s =
     map row_sent_at (filter (\<lambda>m. (s, message_key m) \<in> set (segment_messages (db_of ar))
         \<and> text_matches p (Option.bind (map_of (message_texts (stored ar)) (message_key m)) id)) (messages (db_of ar)))"

definition emoji_segment_candidates :: "archive \<Rightarrow> utext \<Rightarrow> predicate \<Rightarrow> nat \<Rightarrow> int list" where
  "emoji_segment_candidates ar p pred k =
     (let rows = List.map_filter
            (\<lambda>g. case sort (matching_times ar p (sg_key g)) of [] \<Rightarrow> None | t # _ \<Rightarrow> Some (sg_key g, t))
            (sort_key sg_key (filter pred (segments (stored ar))))
      in map fst (take k (sort_desc snd rows)))"

definition emoji_chunk_candidates :: "archive \<Rightarrow> utext \<Rightarrow> predicate \<Rightarrow> nat \<Rightarrow> int list" where
  "emoji_chunk_candidates ar p pred k =
     take k (sort (remdups (concat
       (map (\<lambda>ck. parent_segments ar pred (ck_attachment ck))
         (filter (\<lambda>ck. text_matches p (Some (ck_text ck))) (chunks (stored ar)))))))"

definition search_segment_fts :: "engine \<Rightarrow> archive \<Rightarrow> analyzed_query \<Rightarrow> predicate \<Rightarrow> nat \<Rightarrow> channel_result" where
  "search_segment_fts eng ar q pred k =
     (if query_mode q = Emoji
      then \<lparr>segment_ids = emoji_segment_candidates ar (phrase q) pred k, scan_cap_reached = False\<rparr>
      else
        (let cap = scan_cap k; raw = raw_candidates (en_segment_hits eng) q cap;
             admitted = authorize_segment_ids ar pred raw;
             ordered = take k (filter (\<lambda>s. s \<in> set admitted) raw)
         in \<lparr>segment_ids = ordered, scan_cap_reached = length ordered < k \<and> cap \<le> length raw\<rparr>))"

definition search_attachment_chunk_fts :: "engine \<Rightarrow> archive \<Rightarrow> analyzed_query \<Rightarrow> predicate \<Rightarrow> nat \<Rightarrow> channel_result" where
  "search_attachment_chunk_fts eng ar q pred k =
     (if query_mode q = Emoji
      then \<lparr>segment_ids = emoji_chunk_candidates ar (phrase q) pred k, scan_cap_reached = False\<rparr>
      else
        (let cap = scan_cap k; raw = raw_candidates (en_chunk_hits eng) q cap;
             ordered = take k (map_chunks_to_segments ar pred raw)
         in \<lparr>segment_ids = ordered, scan_cap_reached = length ordered < k \<and> cap \<le> length raw\<rparr>))"

section \<open>Vectors\<close>

definition search_segment_vector :: "engine \<Rightarrow> archive \<Rightarrow> rat list \<Rightarrow> predicate \<Rightarrow> nat \<Rightarrow> channel_result" where
  "search_segment_vector eng ar v pred k =
     (let ids = take k (concat (map
            (\<lambda>s. map sg_key (filter (\<lambda>g. sg_key g = s \<and> pred g) (segments (stored ar)))) (en_near_segments eng v)))
      in \<lparr>segment_ids = ids, scan_cap_reached = length ids < k\<rparr>)"

definition row_limit :: "nat \<Rightarrow> nat" where "row_limit k = max (k * 5) 50"

definition distances :: "(int \<Rightarrow> int list) \<Rightarrow> (int \<times> rat) list \<Rightarrow> (int \<times> rat) list" where
  "distances parents rows = concat (map (\<lambda>(x, d). map (\<lambda>s. (s, d)) (parents x)) rows)"

definition search_attachment_chunk_vector :: "engine \<Rightarrow> archive \<Rightarrow> rat list \<Rightarrow> predicate \<Rightarrow> nat \<Rightarrow> channel_result" where
  "search_attachment_chunk_vector eng ar v pred k =
     collapsed_nearest_segments (take (row_limit k) (distances (chunk_parents ar pred) (en_near_chunks eng v))) k"

definition search_multimodal_vector :: "engine \<Rightarrow> archive \<Rightarrow> rat list \<Rightarrow> predicate \<Rightarrow> nat \<Rightarrow> channel_result" where
  "search_multimodal_vector eng ar v pred k =
     collapsed_nearest_segments (take (row_limit k) (distances (parent_segments ar pred) (en_near_attachments eng v))) k"

section \<open>The search\<close>

definition MAX_QUERY_CHARS :: nat where "MAX_QUERY_CHARS = 1000"
definition MAX_SEARCH_LIMIT :: int where "MAX_SEARCH_LIMIT = 50"

text \<open>What a result says of a segment, and the stored text the summary row has beside it.\<close>

record segment_facts =
  su_segment :: int
  su_key :: string
  su_thread :: string
  su_kind :: string
  su_name :: "string option"
  su_people :: "string list"
  su_started :: instant
  su_ended :: instant
  su_count :: int
  su_attached :: bool

record segment_summary = segment_facts +
  su_text :: string

text \<open>One row per id that still exists; the chat row is joined, so it must exist too.\<close>

definition participant_names :: "archive \<Rightarrow> int \<Rightarrow> string list" where
  "participant_names ar chat =
     sort (map (pl_short \<circ> snd)
       (inner_join (\<lambda>cp p. pl_id p = part_person cp)
         (filter (\<lambda>cp. part_chat cp = chat) (participants (db_of ar))) (person_lines ar)))"

definition summary_of :: "archive \<Rightarrow> segment_row \<Rightarrow> segment_summary option" where
  "summary_of ar g =
     (case map_of (chat_details (stored ar)) (sg_chat g) of
        None \<Rightarrow> None
      | Some (kind, dname) \<Rightarrow>
          (let line = find (\<lambda>l. gl_id l = sg_key g) (segment_lines ar)
           in Some \<lparr>su_segment = sg_key g, su_key = sg_stable_key g, su_thread = thread_key_of ar (sg_chat g),
                su_kind = kind, su_name = dname, su_people = participant_names ar (sg_chat g),
                su_started = sg_started g, su_ended = sg_ended g,
                su_count = (case line of None \<Rightarrow> 0 | Some l \<Rightarrow> gl_count l),
                su_attached = segment_has_attachments ar (sg_key g),
                su_text = (case line of None \<Rightarrow> [] | Some l \<Rightarrow> gl_text l)\<rparr>))"

definition fetch_segment_summaries :: "archive \<Rightarrow> int list \<Rightarrow> (int \<times> segment_summary) list" where
  "fetch_segment_summaries ar ids =
     List.map_filter (\<lambda>g. map_option (Pair (sg_key g)) (summary_of ar g))
       (filter (\<lambda>g. sg_key g \<in> set ids) (segments (stored ar)))"

record search_hit =
  h_summary :: segment_facts
  h_score :: rat
  h_text :: string

record search_result =
  r_hits :: "search_hit list"
  r_lists :: "(string \<times> nat) list"
  r_scan_cap :: bool

definition no_channel :: channel_result where "no_channel = \<lparr>segment_ids = [], scan_cap_reached = False\<rparr>"

record channels =
  ch_segment_fts :: channel_result
  ch_attachment_fts :: channel_result
  ch_segment_vector :: channel_result
  ch_attachment_vector :: channel_result
  ch_multimodal :: "channel_result option"

definition run_channels :: "engine \<Rightarrow> archive \<Rightarrow> analyzed_query \<Rightarrow> predicate \<Rightarrow> bool \<Rightarrow> channels" where
  "run_channels eng ar q pred hybrid =
     (let v = en_embed eng (phrase q)
      in \<lparr>ch_segment_fts = search_segment_fts eng ar q pred (en_k_fts eng),
          ch_attachment_fts = search_attachment_chunk_fts eng ar q pred (en_k_fts eng),
          ch_segment_vector = (if hybrid then search_segment_vector eng ar v pred (en_k_vector eng) else no_channel),
          ch_attachment_vector = (if hybrid then search_attachment_chunk_vector eng ar v pred (en_k_vector eng) else no_channel),
          ch_multimodal = (if hybrid then
             map_option (\<lambda>embed. search_multimodal_vector eng ar (embed (phrase q)) pred (en_k_vector eng)) (en_multimodal eng)
             else None)\<rparr>)"

definition channel_lists :: "channels \<Rightarrow> rank_lists" where
  "channel_lists ch =
     [(''segment_fts'', segment_ids (ch_segment_fts ch)), (''attachment_fts'', segment_ids (ch_attachment_fts ch)),
      (''segment_vector'', segment_ids (ch_segment_vector ch)), (''attachment_vector'', segment_ids (ch_attachment_vector ch))]
     @ (case ch_multimodal ch of None \<Rightarrow> [] | Some r \<Rightarrow> [(''multimodal_vector'', segment_ids r)])"

definition candidate_counts :: "channels \<Rightarrow> (string \<times> nat) list" where
  "candidate_counts ch =
     [(''segment_fts'', length (segment_ids (ch_segment_fts ch))), (''attachment_fts'', length (segment_ids (ch_attachment_fts ch))),
      (''segment_vector'', length (segment_ids (ch_segment_vector ch))),
      (''attachment_vector'', length (segment_ids (ch_attachment_vector ch))),
      (''multimodal_vector'', case ch_multimodal ch of None \<Rightarrow> 0 | Some r \<Rightarrow> length (segment_ids r))]"

definition any_scan_cap :: "channels \<Rightarrow> bool" where
  "any_scan_cap ch \<longleftrightarrow>
     scan_cap_reached (ch_segment_fts ch) \<or> scan_cap_reached (ch_attachment_fts ch)
     \<or> scan_cap_reached (ch_segment_vector ch) \<or> scan_cap_reached (ch_attachment_vector ch)
     \<or> (case ch_multimodal ch of None \<Rightarrow> False | Some r \<Rightarrow> scan_cap_reached r)"

text \<open>The pool with its texts: under a scope that withholds content every text is rendered now.\<close>

definition pool_of :: "archive \<Rightarrow> fused_result list \<Rightarrow> nat \<Rightarrow> fused_result list" where
  "pool_of ar fused n =
     (let top = take n fused; summaries = fetch_segment_summaries ar (map fused_segment top)
      in filter (\<lambda>r. map_of summaries (fused_segment r) \<noteq> None) top)"

definition texts_of :: "service_config \<Rightarrow> archive \<Rightarrow> request_scope \<Rightarrow> int list \<Rightarrow> (int \<times> string) list" where
  "texts_of cfg ar sc ids =
     (if withholds_ineligible_content sc then render_segment_texts (sv_view cfg) ar sc ids
      else map (\<lambda>(s, su). (s, su_text su)) (fetch_segment_summaries ar ids))"

text \<open>\<open>zip(pool, scores, strict=True)\<close> raises when the reranker returns another number of scores.\<close>

definition rerank_pool ::
  "engine \<Rightarrow> bool \<Rightarrow> utext \<Rightarrow> (int \<times> string) list \<Rightarrow> fused_result list \<Rightarrow> retrieval_error + (int \<times> rat) list" where
  "rerank_pool eng hybrid p texts pool =
     (if pool = [] then Inr []
      else if \<not> hybrid then Inr (map (\<lambda>r. (fused_segment r, fused_score r)) pool)
      else
        (let scores = en_rerank eng p (map (\<lambda>r. the (map_of texts (fused_segment r))) pool)
         in if length scores \<noteq> length pool then Inl (Internal_Error ''zip() argument 2 has another length'')
            else Inr (sort_key (\<lambda>t. - snd t) (zip (map fused_segment pool) scores))))"

definition run_search ::
  "engine \<Rightarrow> service_config \<Rightarrow> archive \<Rightarrow> request_scope \<Rightarrow> search_filters \<Rightarrow> utext \<Rightarrow> nat \<Rightarrow> bool
     \<Rightarrow> retrieval_error + search_result" where
  "run_search eng cfg ar sc f q many hybrid =
     (let a = analyze_query (en_nfc eng) q;
          ch = run_channels eng ar a (compile_predicate ar f sc) hybrid;
          fused = reciprocal_rank_fusion (en_rrf_k eng) (channel_lists ch);
          pool0 = pool_of ar fused (max (en_rerank_top eng) many);
          texts = texts_of cfg ar sc (map fused_segment pool0);
          pool = filter (\<lambda>r. map_of texts (fused_segment r) \<noteq> None) pool0;
          summaries = fetch_segment_summaries ar (map fused_segment pool0)
      in bind_result (rerank_pool eng hybrid (phrase a) texts pool) (\<lambda>ranked.
         Inr \<lparr>r_hits = map (\<lambda>(s, score). \<lparr>h_summary = segment_facts.truncate (the (map_of summaries s)), h_score = score,
                                h_text = the (map_of texts s)\<rparr>) (take many ranked),
              r_lists = candidate_counts ch, r_scan_cap = any_scan_cap ch\<rparr>))"

definition search_messages ::
  "engine \<Rightarrow> service_config \<Rightarrow> archive \<Rightarrow> access_context \<Rightarrow> utext \<Rightarrow> string list option \<Rightarrow> string option
     \<Rightarrow> string option \<Rightarrow> bool option \<Rightarrow> int option \<Rightarrow> string \<Rightarrow> retrieval_error + search_result" where
  "search_messages eng cfg ar ctx q people after before has_attachment limit mode =
     (let many = (case limit of None \<Rightarrow> en_default_limit eng | Some l \<Rightarrow> l)
      in if mode \<notin> {''hybrid'', ''keyword''} then Inl (Invalid_Argument ''mode must be hybrid or keyword'')
         else if q = [] \<or> ustrip q = [] then Inl (Invalid_Argument ''query must not be empty'')
         else if MAX_QUERY_CHARS < length q then Inl (Invalid_Argument ''query exceeds 1000 characters'')
         else if many < 1 \<or> MAX_SEARCH_LIMIT < many then Inl (Invalid_Argument ''limit must be between 1 and 50'')
         else
           bind_result (of_value_error (resolve_request_scope (Some (db_of ar)) ctx None)) (\<lambda>sc.
           bind_result (resolve_filters (sv_lower cfg) (sv_midnight cfg) ar sc people after before has_attachment) (\<lambda>f.
             if admits_nothing sc then
               Inr \<lparr>r_hits = [],
                    r_lists = map (\<lambda>n. (n, 0)) [''segment_fts'', ''attachment_fts'', ''segment_vector'',
                      ''attachment_vector'', ''multimodal_vector''],
                    r_scan_cap = False\<rparr>
             else run_search eng cfg ar sc f q (nat many) (mode = ''hybrid''))))"

section \<open>Every candidate satisfies the predicate\<close>

definition admitted :: "archive \<Rightarrow> predicate \<Rightarrow> int \<Rightarrow> bool" where
  "admitted ar pred s \<longleftrightarrow> (\<exists>g \<in> set (segments (stored ar)). sg_key g = s \<and> pred g)"

lemma parents_admitted: "s \<in> set (parent_segments ar pred a) \<Longrightarrow> admitted ar pred s"
  by (force simp: parent_segments_def admitted_def inner_join_def)

lemma chunk_parents_admitted: "s \<in> set (chunk_parents ar pred k) \<Longrightarrow> admitted ar pred s"
  by (auto simp: chunk_parents_def dest: parents_admitted)

lemma distances_admitted:
  assumes "\<And>x s. s \<in> set (parents x) \<Longrightarrow> admitted ar pred s"
    and "s \<in> set (segment_ids (collapsed_nearest_segments (take n (distances parents rows)) k))"
  shows "admitted ar pred s"
proof -
  have "s \<in> fst ` set (take n (distances parents rows))" using assms(2) collapsed_from by blast
  then have "s \<in> fst ` set (distances parents rows)" using set_take_subset by fast
  then show ?thesis using assms(1) by (auto simp: distances_def)
qed

lemma mapped_chunks_admitted: "s \<in> set (map_chunks_to_segments ar pred ids) \<Longrightarrow> admitted ar pred s"
proof -
  let ?rows = "concat (map (\<lambda>(rnk, k). map (Pair rnk) (chunk_parents ar pred k)) (enumerate 0 ids))"
  assume "s \<in> set (map_chunks_to_segments ar pred ids)"
  then have "s \<in> snd ` set ?rows"
    using best_rank_from [of ?rows] by (auto simp: map_chunks_to_segments_def split: if_splits)
  then show ?thesis by (auto intro: chunk_parents_admitted)
qed

lemma emoji_segments_admitted: "s \<in> set (emoji_segment_candidates ar p pred k) \<Longrightarrow> admitted ar pred s"
proof -
  let ?row = "\<lambda>g. case sort (matching_times ar p (sg_key g)) of [] \<Rightarrow> None | t # _ \<Rightarrow> Some (sg_key g, t)"
  let ?rows = "List.map_filter ?row (sort_key sg_key (filter pred (segments (stored ar))))"
  assume "s \<in> set (emoji_segment_candidates ar p pred k)"
  then have "s \<in> fst ` set (take k (sort_desc snd ?rows))" by (simp add: emoji_segment_candidates_def Let_def)
  then have "s \<in> fst ` set ?rows" using set_take_subset [of k "sort_desc snd ?rows"] by auto
  then obtain t where "(s, t) \<in> set ?rows" by auto
  then obtain g where "g \<in> set (filter pred (segments (stored ar)))" "?row g = Some (s, t)"
    unfolding in_map_filter set_sort by blast
  then show ?thesis by (auto simp: admitted_def split: list.splits)
qed

lemma emoji_chunks_admitted: "s \<in> set (emoji_chunk_candidates ar p pred k) \<Longrightarrow> admitted ar pred s"
  by (auto simp: emoji_chunk_candidates_def dest!: in_set_takeD intro: parents_admitted)

lemma segment_fts_admitted: "s \<in> set (segment_ids (search_segment_fts eng ar q pred k)) \<Longrightarrow> admitted ar pred s"
  by (auto simp: search_segment_fts_def Let_def authorize_segment_ids_def admitted_def [of ar pred s, symmetric]
      split: if_splits dest!: in_set_takeD intro: emoji_segments_admitted)
     (auto simp: admitted_def)

lemma attachment_fts_admitted: "s \<in> set (segment_ids (search_attachment_chunk_fts eng ar q pred k)) \<Longrightarrow> admitted ar pred s"
  by (auto simp: search_attachment_chunk_fts_def Let_def split: if_splits
      dest!: in_set_takeD intro: emoji_chunks_admitted mapped_chunks_admitted)

lemma segment_vector_admitted: "s \<in> set (segment_ids (search_segment_vector eng ar v pred k)) \<Longrightarrow> admitted ar pred s"
  by (auto simp: search_segment_vector_def Let_def admitted_def dest!: in_set_takeD)

lemma attachment_vector_admitted:
  "s \<in> set (segment_ids (search_attachment_chunk_vector eng ar v pred k)) \<Longrightarrow> admitted ar pred s"
  unfolding search_attachment_chunk_vector_def by (rule distances_admitted [OF chunk_parents_admitted])

lemma multimodal_admitted:
  "s \<in> set (segment_ids (search_multimodal_vector eng ar v pred k)) \<Longrightarrow> admitted ar pred s"
  unfolding search_multimodal_vector_def by (rule distances_admitted [OF parents_admitted])

lemmas channels_admitted = segment_fts_admitted attachment_fts_admitted segment_vector_admitted
  attachment_vector_admitted multimodal_admitted

lemma lists_admitted:
  assumes "(n, ids) \<in> set (channel_lists (run_channels eng ar q pred hybrid))" and "s \<in> set ids"
  shows "admitted ar pred s"
  using assms
  by (cases "en_multimodal eng")
     (auto simp: channel_lists_def run_channels_def Let_def no_channel_def split: if_splits option.splits
      dest: channels_admitted)

section \<open>From the pool to the hits\<close>

lemma ranking_facts:
  "set (map fused_segment (reciprocal_rank_fusion k rls)) = \<Union> (set ` snd ` set rls)"
  "distinct (map fused_segment (reciprocal_rank_fusion k rls))"
  "sorted_wrt (\<lambda>r r'. fused_score r' \<le> fused_score r) (reciprocal_rank_fusion k rls)"
proof -
  note r = ranking_of_fused [of k rls]
  show "set (map fused_segment (reciprocal_rank_fusion k rls)) = \<Union> (set ` snd ` set rls)"
    "distinct (map fused_segment (reciprocal_rank_fusion k rls))"
    using r by blast+
  have "sorted_wrt (\<lambda>x y. (- fused_score x, fused_segment x) \<le> (- fused_score y, fused_segment y)) (reciprocal_rank_fusion k rls)"
    using r unfolding sorted_map by blast
  then show "sorted_wrt (\<lambda>r r'. fused_score r' \<le> fused_score r) (reciprocal_rank_fusion k rls)"
    by (rule sorted_wrt_mono_rel [rotated]) (auto simp: less_eq_prod_def)
qed

text \<open>A list cut from a ranking: filters and prefixes of it.\<close>

definition cut_of :: "fused_result list \<Rightarrow> fused_result list \<Rightarrow> bool" where
  "cut_of rs pool \<longleftrightarrow> subseq pool rs"

lemma pool_cut: "cut_of fused (filter P (pool_of ar fused n))"
proof -
  have "subseq (take n fused) fused" by (metis append_take_drop_id subseq_order.refl subseq_rev_drop_many list_emb_append2 prefix_imp_subseq take_is_prefix)
  then show ?thesis
    unfolding cut_of_def pool_of_def Let_def by (meson subseq_filter_left subseq_order.trans)
qed

lemma sorted_wrt_cut: "subseq ys xs \<Longrightarrow> sorted_wrt P xs \<Longrightarrow> sorted_wrt P ys"
proof (induction rule: list_emb.induct)
  case (list_emb_Cons2 x y xs ys)
  then show ?case using list_emb_set [OF list_emb_Cons2(2)] by (auto simp: sorted_wrt.simps)
qed auto

lemma distinct_as_sorted_wrt: "distinct (map f xs) \<longleftrightarrow> sorted_wrt (\<lambda>x y. f x \<noteq> f y) xs"
  by (induction xs) auto

lemma cut_distinct: "cut_of rs pool \<Longrightarrow> distinct (map fused_segment rs) \<Longrightarrow> distinct (map fused_segment pool)"
  unfolding cut_of_def distinct_as_sorted_wrt by (rule sorted_wrt_cut)

lemma zip_scores: "length scores = length xs \<Longrightarrow> map fst (zip xs scores) = xs"
  by simp

lemma rerank_pool_Inr:
  assumes "rerank_pool eng hybrid p texts pool = Inr ranked" and "distinct (map fused_segment pool)"
    and "sorted_wrt (\<lambda>r r'. fused_score r' \<le> fused_score r) pool"
  shows "set (map fst ranked) = set (map fused_segment pool)" "distinct (map fst ranked)"
    "sorted_wrt (\<lambda>t t'. snd t' \<le> snd t) ranked"
proof -
  consider "pool = []" "ranked = []"
    | "ranked = map (\<lambda>r. (fused_segment r, fused_score r)) pool"
    | scores where "length scores = length pool" "ranked = sort_key (\<lambda>t. - snd t) (zip (map fused_segment pool) scores)"
    using assms(1) by (auto simp: rerank_pool_def Let_def split: if_splits)
  then have "mset (map fst ranked) = mset (map fused_segment pool) \<and> sorted_wrt (\<lambda>t t'. snd t' \<le> snd t) ranked"
  proof cases
    case 2
    then show ?thesis using assms(3) by (simp add: comp_def sorted_wrt_map)
  next
    case (3 scores)
    have "sorted_wrt (\<lambda>t t'. - snd t \<le> - snd t') ranked"
      using sorted_sort_key [of "\<lambda>t. - snd t" "zip (map fused_segment pool) scores"] by (simp add: 3 sorted_map)
    moreover have "mset (map fst ranked) = mset (map fused_segment pool)"
    proof -
      have "mset (map fst ranked) = mset (map fst (zip (map fused_segment pool) scores))"
        unfolding 3(2) mset_map mset_sort ..
      then show ?thesis using zip_scores [of scores "map fused_segment pool"] 3(1) by simp
    qed
    ultimately show ?thesis by simp
  qed simp
  then show "set (map fst ranked) = set (map fused_segment pool)" "distinct (map fst ranked)"
    "sorted_wrt (\<lambda>t t'. snd t' \<le> snd t) ranked"
    using assms(2) by (metis mset_eq_setD, metis mset_eq_imp_distinct_iff, blast)
qed

lemma summary_found:
  assumes "map_of (fetch_segment_summaries ar ids) s = Some su"
  shows "su_segment su = s \<and> (\<exists>g \<in> set (segments (stored ar)). sg_key g = s \<and> su_key su = sg_stable_key g)"
proof -
  have "(s, su) \<in> set (fetch_segment_summaries ar ids)" using assms by (rule map_of_SomeD)
  then obtain g where "g \<in> set (segments (stored ar))" "summary_of ar g = Some su" "sg_key g = s"
    unfolding fetch_segment_summaries_def in_map_filter by auto
  then show ?thesis by (auto simp: summary_of_def Let_def split: option.splits)
qed

lemma text_found:
  assumes "map_of (texts_of cfg ar sc ids) s = Some t"
  shows "if withholds_ineligible_content sc then (s, t) \<in> set (render_segment_texts (sv_view cfg) ar sc ids)
         else \<exists>su. map_of (fetch_segment_summaries ar ids) s = Some su \<and> t = su_text su"
proof (cases "withholds_ineligible_content sc")
  case True
  then show ?thesis using map_of_SomeD [OF assms] by (simp add: texts_of_def)
next
  case False
  have m: "map_of (map (\<lambda>(s, su). (s, su_text su)) xs) s = map_option su_text (map_of xs s)" for xs :: "(int \<times> segment_summary) list"
    by (induction xs) auto
  have "texts_of cfg ar sc ids = map (\<lambda>(s, su). (s, su_text su)) (fetch_segment_summaries ar ids)"
    using False by (simp add: texts_of_def)
  then have "map_option su_text (map_of (fetch_segment_summaries ar ids) s) = Some t" using assms by (simp only: m)
  then show ?thesis using False by auto
qed

text \<open>What a hit is: a segment the request's predicate admits, with its summary and its text.\<close>

definition hit_ok :: "service_config \<Rightarrow> archive \<Rightarrow> request_scope \<Rightarrow> search_filters \<Rightarrow> search_hit \<Rightarrow> bool" where
  "hit_ok cfg ar sc f h \<longleftrightarrow>
     (\<exists>g \<in> set (segments (stored ar)). sg_key g = su_segment (h_summary h) \<and> compile_predicate ar f sc g)
     \<and> (\<exists>g \<in> set (segments (stored ar)). sg_key g = su_segment (h_summary h) \<and> su_key (h_summary h) = sg_stable_key g)
     \<and> (if is_full sc then
          \<exists>ids su. map_of (fetch_segment_summaries ar ids) (su_segment (h_summary h)) = Some su \<and> h_text h = su_text su
        else \<exists>ids. (su_segment (h_summary h), h_text h) \<in> set (render_segment_texts (sv_view cfg) ar sc ids))"

lemma run_search_Inr:
  assumes "run_search eng cfg ar sc f q many hybrid = Inr res"
  shows "length (r_hits res) \<le> many" "distinct (map (su_segment \<circ> h_summary) (r_hits res))"
    "sorted_wrt (\<lambda>h h'. h_score h' \<le> h_score h) (r_hits res)" "\<forall>h \<in> set (r_hits res). hit_ok cfg ar sc f h"
proof -
  define a where "a = analyze_query (en_nfc eng) q"
  define ch where "ch = run_channels eng ar a (compile_predicate ar f sc) hybrid"
  define fused where "fused = reciprocal_rank_fusion (en_rrf_k eng) (channel_lists ch)"
  define n where "n = max (en_rerank_top eng) many"
  define ids where "ids = map fused_segment (pool_of ar fused n)"
  define texts where "texts = texts_of cfg ar sc ids"
  define pool where "pool = filter (\<lambda>r. map_of texts (fused_segment r) \<noteq> None) (pool_of ar fused n)"
  obtain ranked where ranked: "rerank_pool eng hybrid (phrase a) texts pool = Inr ranked"
    and hits: "r_hits res = map (\<lambda>(s, score). \<lparr>h_summary = segment_facts.truncate (the (map_of (fetch_segment_summaries ar ids) s)),
        h_score = score, h_text = the (map_of texts s)\<rparr>) (take many ranked)"
    using assms unfolding run_search_def Let_def bind_result_Inr
    by (auto simp: a_def ch_def fused_def n_def ids_def texts_def pool_def)
  note facts = ranking_facts [of "en_rrf_k eng" "channel_lists ch", folded fused_def]
  have cut: "cut_of fused pool" unfolding pool_def by (rule pool_cut)
  note r = rerank_pool_Inr [OF ranked cut_distinct [OF cut facts(2)] sorted_wrt_cut [OF _ facts(3)]]
  have r: "set (map fst ranked) = set (map fused_segment pool)" "distinct (map fst ranked)"
      "sorted_wrt (\<lambda>t t'. snd t' \<le> snd t) ranked"
    using r cut by (simp_all only: cut_of_def)
  have in_pool: "\<exists>r \<in> set (pool_of ar fused n). fused_segment r = s \<and> map_of texts s \<noteq> None" if "(s, score) \<in> set ranked" for s score
  proof -
    have "s \<in> set (map fused_segment pool)" using that r(1) by force
    then show ?thesis by (auto simp: pool_def)
  qed
  have found: "\<exists>su. map_of (fetch_segment_summaries ar ids) s = Some su \<and> su_segment su = s" if mem: "(s, score) \<in> set ranked" for s score
  proof -
    obtain r where r: "r \<in> set (pool_of ar fused n)" "fused_segment r = s"
      using in_pool [OF mem] by blast
    obtain su0 where "map_of (fetch_segment_summaries ar (map fused_segment (take n fused))) s = Some su0"
      using r by (auto simp: pool_of_def Let_def)
    then obtain g where g: "g \<in> set (segments (stored ar))" "sg_key g = s" "summary_of ar g \<noteq> None"
      unfolding fetch_segment_summaries_def by (auto dest!: map_of_SomeD simp: in_map_filter)
    have "s \<in> set ids" using r by (auto simp: ids_def)
    then have "s \<in> fst ` set (fetch_segment_summaries ar ids)"
      using g by (force simp: fetch_segment_summaries_def in_map_filter image_iff)
    then obtain su where "map_of (fetch_segment_summaries ar ids) s = Some su" by (meson map_of_eq_None_iff not_Some_eq)
    then show ?thesis using summary_found by blast
  qed
  show "length (r_hits res) \<le> many" by (simp add: hits)
  have segs: "map (su_segment \<circ> h_summary) (r_hits res) = map fst (take many ranked)"
    unfolding hits map_map
  proof (rule map_cong [OF refl])
    fix t
    assume t: "t \<in> set (take many ranked)"
    obtain s score where st: "t = (s, score)" by fastforce
    then obtain su where "map_of (fetch_segment_summaries ar ids) s = Some su" "su_segment su = s"
      using found in_set_takeD t by metis
    then show "((su_segment \<circ> h_summary) \<circ> (\<lambda>(s, score). \<lparr>h_summary = segment_facts.truncate (the (map_of (fetch_segment_summaries ar ids) s)),
        h_score = score, h_text = the (map_of texts s)\<rparr>)) t = fst t" by (simp add: st segment_facts.truncate_def)
  qed
  show "distinct (map (su_segment \<circ> h_summary) (r_hits res))"
    unfolding segs take_map [symmetric] using r(2) by (rule distinct_take)
  show "sorted_wrt (\<lambda>h h'. h_score h' \<le> h_score h) (r_hits res)"
  proof -
    have "sorted_wrt (\<lambda>t t'. snd t' \<le> snd t) (take many ranked)" using r(3) by (rule sorted_wrt_take)
    then show ?thesis unfolding hits sorted_wrt_map by (rule sorted_wrt_mono_rel [rotated]) auto
  qed
  show "\<forall>h \<in> set (r_hits res). hit_ok cfg ar sc f h"
  proof
    fix h
    assume "h \<in> set (r_hits res)"
    then obtain s score where s: "(s, score) \<in> set ranked"
      and h: "h_summary h = segment_facts.truncate (the (map_of (fetch_segment_summaries ar ids) s))" "h_text h = the (map_of texts s)"
      by (auto simp: hits dest!: in_set_takeD)
    obtain su where su: "map_of (fetch_segment_summaries ar ids) s = Some su" "su_segment su = s" using found [OF s] by blast
    obtain t where t: "map_of texts s = Some t" using in_pool [OF s] by blast
    have "s \<in> set (map fused_segment fused)"
      using in_pool [OF s] set_take_subset [of n fused] by (auto simp: pool_of_def Let_def)
    then obtain name xs where "(name, xs) \<in> set (channel_lists ch)" "s \<in> set xs" using facts(1) by auto
    then have "admitted ar (compile_predicate ar f sc) s" unfolding ch_def by (rule lists_admitted)
    then show "hit_ok cfg ar sc f h"
      using summary_found [OF su(1)] text_found [of cfg ar sc ids s t] t su
      by (auto simp: hit_ok_def h admitted_def texts_def withholds_ineligible_content_def segment_facts.truncate_def
        split: if_splits)
  qed
qed

lemma search_messages_Inr:
  assumes "search_messages eng cfg ar ctx q people after before att limit mode = Inr res"
  shows "\<exists>sc f many. resolve_request_scope (Some (db_of ar)) ctx None = Inr sc
     \<and> resolve_filters (sv_lower cfg) (sv_midnight cfg) ar sc people after before att = Inr f
     \<and> many = (case limit of None \<Rightarrow> en_default_limit eng | Some l \<Rightarrow> l) \<and> 1 \<le> many \<and> many \<le> MAX_SEARCH_LIMIT
     \<and> (if admits_nothing sc then r_hits res = []
        else run_search eng cfg ar sc f q (nat many) (mode = ''hybrid'') = Inr res)"
proof -
  have "of_value_error r = Inr x \<longleftrightarrow> r = Inr x" for r :: "value_error + request_scope" and x
    by (auto simp: of_value_error_def split: sum.splits value_error.splits)
  then show ?thesis
    using assms unfolding search_messages_def Let_def
    by (auto simp: bind_result_Inr not_less split: if_splits)
qed

text \<open>
  C4: A search answers within its scope and its filters: at most \<open>limit\<close> hits, best score first, no
  segment twice, every hit a segment the compiled predicate admits; under the allowlist scope it is a
  segment of an open thread, and its text is not the stored one but the one rendered now, through the
  attachment gate and without hidden messages.
\<close>

theorem search_respects_scope_and_filters:
  assumes "wf_archive ar"
    and "search_messages eng cfg ar ctx q people after before att limit mode = Inr res"
  shows "\<exists>sc f. resolve_request_scope (Some (db_of ar)) ctx None = Inr sc
     \<and> resolve_filters (sv_lower cfg) (sv_midnight cfg) ar sc people after before att = Inr f
     \<and> int (length (r_hits res)) \<le> (case limit of None \<Rightarrow> en_default_limit eng | Some l \<Rightarrow> l)
     \<and> distinct (map (su_segment \<circ> h_summary) (r_hits res))
     \<and> sorted_wrt (\<lambda>h h'. h_score h' \<le> h_score h) (r_hits res)
     \<and> (\<forall>h \<in> set (r_hits res). \<exists>g \<in> set (segments (stored ar)).
          sg_key g = su_segment (h_summary h) \<and> sg_stable_key g = su_key (h_summary h)
          \<and> compile_predicate ar f sc g
          \<and> (ctx_scope ctx \<noteq> ''full'' \<longrightarrow> thread_open (db_of ar) (sg_chat g)
               \<and> (\<exists>ids. (sg_key g, h_text h) \<in> set (render_segment_texts (sv_view cfg) ar sc ids))))"
proof -
  obtain sc f many where s: "resolve_request_scope (Some (db_of ar)) ctx None = Inr sc"
      "resolve_filters (sv_lower cfg) (sv_midnight cfg) ar sc people after before att = Inr f"
    and many: "many = (case limit of None \<Rightarrow> en_default_limit eng | Some l \<Rightarrow> l)" "1 \<le> many"
    and r: "if admits_nothing sc then r_hits res = []
        else run_search eng cfg ar sc f q (nat many) (mode = ''hybrid'') = Inr res"
    using search_messages_Inr [OF assms(2)] by blast
  have hits: "length (r_hits res) \<le> nat many \<and> distinct (map (su_segment \<circ> h_summary) (r_hits res))
      \<and> sorted_wrt (\<lambda>h h'. h_score h' \<le> h_score h) (r_hits res) \<and> (\<forall>h \<in> set (r_hits res). hit_ok cfg ar sc f h)"
    using r run_search_Inr [of eng cfg ar sc f q "nat many" "mode = ''hybrid''" res] by (auto split: if_splits)
  have keys: "g = g'" if "g \<in> set (segments (stored ar))" "g' \<in> set (segments (stored ar))" "sg_key g = sg_key g'" for g g'
    using assms(1) that by (auto simp: wf_archive_def wf_corpus_def distinct_map dest: inj_onD)
  have db: "wf_db (db_of ar)" using assms(1) by (simp add: wf_archive_def wf_corpus_def)
  have open_thread: "thread_open (db_of ar) (sg_chat g) \<and> \<not> is_full sc"
    if "ctx_scope ctx \<noteq> ''full''" "compile_predicate ar f sc g" for g
  proof -
    have sc: "allowlist_scope (db_of ar) None sc" using that(1) s(1) by (auto simp: allowlist_scope_def)
    show ?thesis
      using compile_predicate_scope [OF that(2)] allowlist_admits [OF db sc] allowlist_scopeD(3) [OF sc] by blast
  qed
  have "\<exists>g \<in> set (segments (stored ar)).
          sg_key g = su_segment (h_summary h) \<and> sg_stable_key g = su_key (h_summary h)
          \<and> compile_predicate ar f sc g
          \<and> (ctx_scope ctx \<noteq> ''full'' \<longrightarrow> thread_open (db_of ar) (sg_chat g)
               \<and> (\<exists>ids. (sg_key g, h_text h) \<in> set (render_segment_texts (sv_view cfg) ar sc ids)))"
    if h: "h \<in> set (r_hits res)" for h
  proof -
    have ok: "hit_ok cfg ar sc f h" using hits h by blast
    then obtain g where g: "g \<in> set (segments (stored ar))" "sg_key g = su_segment (h_summary h)" "compile_predicate ar f sc g"
      unfolding hit_ok_def by blast
    moreover have "sg_stable_key g = su_key (h_summary h)"
      using ok keys [OF g(1)] g(2) unfolding hit_ok_def by metis
    ultimately show ?thesis using ok open_thread [OF _ g(3)] unfolding hit_ok_def by metis
  qed
  then show ?thesis using s hits many by (intro exI [of _ sc] exI [of _ f]) (simp add: le_nat_iff)
qed

end
