(* ===== verification/Search_Secrecy.thy ===== *)
theory Search_Secrecy
  imports Search_Service
begin

text \<open>
  What a public search can learn of withheld content. Its texts never carry any (\<open>View_Secrecy\<close>); what
  is left is the choice of the hits. Outside the emoji path that choice reads the indexes, which are
  arguments of the model, and no withheld column; the emoji path reads message text and chunk text
  directly, without the rule for hidden messages and without the attachment gate.
\<close>

section \<open>The summaries\<close>

lemma map_of_None_iff: "map_of xs s = None \<longleftrightarrow> (\<forall>v. (s, v) \<notin> set xs)"
  by (force simp: map_of_eq_None_iff)

lemma map_of_map_filter:
  assumes "distinct (map key gs)" and "g \<in> set gs"
  shows "map_of (List.map_filter (\<lambda>g. map_option (Pair (key g)) (F g)) gs) (key g) = F g"
  using assms
proof (induction gs)
  case (Cons x gs)
  let ?f = "\<lambda>g. map_option (Pair (key g)) (F g)"
  have step: "List.map_filter ?f (x # gs) = (case F x of None \<Rightarrow> List.map_filter ?f gs | Some y \<Rightarrow> (key x, y) # List.map_filter ?f gs)"
    by (simp add: List.map_filter_def split: option.split)
  show ?case
  proof (cases "g = x")
    case True
    have "map_of (List.map_filter ?f gs) (key x) = None"
      using Cons.prems(1) by (auto simp: map_of_None_iff in_map_filter) (metis image_eqI)
    then show ?thesis unfolding step by (simp add: True split: option.split)
  next
    case False
    then have "g \<in> set gs" "key g \<noteq> key x" using Cons.prems by (auto simp: image_iff)
    then show ?thesis using Cons unfolding step by (simp split: option.split)
  qed
qed simp

lemma summary_lookup:
  assumes "wf_archive ar" and "g \<in> set (segments (stored ar))" and "sg_key g \<in> set ids"
  shows "map_of (fetch_segment_summaries ar ids) (sg_key g) = summary_of ar g"
proof -
  have "distinct (map sg_key (filter (\<lambda>g. sg_key g \<in> set ids) (segments (stored ar))))"
    using assms(1) by (auto simp: wf_archive_def wf_corpus_def distinct_map inj_on_def)
  then show ?thesis unfolding fetch_segment_summaries_def by (rule map_of_map_filter) (use assms in simp)
qed

lemma summary_missing:
  assumes "\<forall>g \<in> set (segments (stored ar)). sg_key g \<noteq> s"
  shows "map_of (fetch_segment_summaries ar ids) s = None"
  using assms by (auto simp: map_of_None_iff fetch_segment_summaries_def in_map_filter)

section \<open>The same hits\<close>

text \<open>The rows of the index tables, and the counts stored with a segment, but no text.\<close>

definition same_index :: "archive \<Rightarrow> archive \<Rightarrow> bool" where
  "same_index ar ar' \<longleftrightarrow>
     map (\<lambda>k. (ck_key k, ck_attachment k)) (chunks (stored ar')) = map (\<lambda>k. (ck_key k, ck_attachment k)) (chunks (stored ar))
     \<and> map (\<lambda>l. (gl_id l, gl_count l)) (segment_lines ar') = map (\<lambda>l. (gl_id l, gl_count l)) (segment_lines ar)"

lemma predicate_same:
  assumes "same_shown ar ar'"
  shows "compile_predicate ar' f sc = compile_predicate ar f sc"
proof -
  note same = same_shownD [OF assms]
  have "segment_has_attachments ar' = segment_has_attachments ar" "in_chat ar' = in_chat ar"
    by (intro ext; simp add: segment_has_attachments_def in_chat_def same)+
  then show ?thesis by (intro ext) (simp only: compile_predicate_def)
qed

lemma parents_same: "same_shown ar ar' \<Longrightarrow> parent_segments ar' pred a = parent_segments ar pred a"
  by (simp add: parent_segments_def same_shownD)

lemma chunk_parents_same:
  assumes "same_shown ar ar'" and "same_index ar ar'"
  shows "chunk_parents ar' pred k = chunk_parents ar pred k"
proof -
  have form: "chunk_parents x pred k = concat (map (\<lambda>(_, a). parent_segments x pred a)
      (filter (\<lambda>(i, _). i = k) (map (\<lambda>c. (ck_key c, ck_attachment c)) (chunks (stored x)))))" for x
    by (simp add: chunk_parents_def filter_map comp_def)
  have "map (\<lambda>k. (ck_key k, ck_attachment k)) (chunks (stored ar')) = map (\<lambda>k. (ck_key k, ck_attachment k)) (chunks (stored ar))"
    using assms(2) unfolding same_index_def by blast
  then show ?thesis unfolding form parents_same [OF assms(1)] by (simp only:)
qed

lemma channels_same:
  assumes "same_shown ar ar'" and "same_index ar ar'" and "query_mode q \<noteq> Emoji"
  shows "run_channels eng ar' q pred hybrid = run_channels eng ar q pred hybrid"
proof -
  have parents: "parent_segments ar' pred = parent_segments ar pred" "chunk_parents ar' pred = chunk_parents ar pred"
    using parents_same [OF assms(1)] chunk_parents_same [OF assms(1,2)] by (intro ext; simp)+
  note same = same_shownD [OF assms(1)]
  have funs: "authorize_segment_ids ar' pred = authorize_segment_ids ar pred"
    "map_chunks_to_segments ar' pred = map_chunks_to_segments ar pred"
    by (intro ext; simp only: authorize_segment_ids_def map_chunks_to_segments_def parents same)+
  have "search_segment_fts eng ar' q pred k = search_segment_fts eng ar q pred k"
    "search_attachment_chunk_fts eng ar' q pred k = search_attachment_chunk_fts eng ar q pred k" for k
    by (simp_all only: search_segment_fts_def search_attachment_chunk_fts_def assms(3) if_False funs)
  moreover have "search_segment_vector eng ar' v pred k = search_segment_vector eng ar v pred k"
    "search_attachment_chunk_vector eng ar' v pred k = search_attachment_chunk_vector eng ar v pred k"
    "search_multimodal_vector eng ar' v pred k = search_multimodal_vector eng ar v pred k" for k v
    by (simp_all only: search_segment_vector_def search_attachment_chunk_vector_def search_multimodal_vector_def
      parents same)
  ultimately show ?thesis by (simp only: run_channels_def)
qed

lemma details_exist:
  assumes "wf_archive ar" "wf_archive ar'" and "same_shown ar ar'"
  shows "map_of (chat_details (stored ar')) chat = None \<longleftrightarrow> map_of (chat_details (stored ar)) chat = None"
proof -
  have "map fst (chat_details (stored x)) = map chat_key (chats (db_of x))" if "wf_archive x" for x
    using that by (simp add: wf_archive_def)
  then have "map fst (chat_details (stored ar')) = map fst (chat_details (stored ar))"
    using assms(1,2) by (simp only: same_shownD(1) [OF assms(3)])
  then show ?thesis by (metis map_of_eq_None_iff set_map)
qed

lemma summary_exists_same:
  assumes "wf_archive ar" "wf_archive ar'" and "same_shown ar ar'"
  shows "map_of (fetch_segment_summaries ar' ids) s = None \<longleftrightarrow> map_of (fetch_segment_summaries ar ids) s = None"
proof -
  have none: "summary_of x g = None \<longleftrightarrow> map_of (chat_details (stored x)) (sg_chat g) = None" for x g
    by (auto simp: summary_of_def Let_def split: option.split)
  have "map_of (fetch_segment_summaries x ids) s = None \<longleftrightarrow>
      (\<forall>g \<in> set (segments (stored x)). sg_key g = s \<longrightarrow> s \<in> set ids \<longrightarrow> summary_of x g = None)" for x
    unfolding map_of_None_iff fetch_segment_summaries_def
    by (auto simp: in_map_filter) (metis option.exhaust)
  then show ?thesis by (simp only: none details_exist [OF assms] same_shownD(3) [OF assms(3)])
qed

lemma facts_same:
  assumes "same_shown ar ar'" and "same_index ar ar'" and "thread_open (db_of ar) (sg_chat g)"
  shows "map_option segment_facts.truncate (summary_of ar' g) = map_option segment_facts.truncate (summary_of ar g)"
proof -
  note same = same_shownD [OF assms(1)]
  have details: "map_of (chat_details (stored ar')) (sg_chat g) = map_of (chat_details (stored ar)) (sg_chat g)"
    using assms(1,3) unfolding same_shown_def Let_def by blast
  have count: "map_option gl_count (find (\<lambda>l. gl_id l = s) ls) = map_of (map (\<lambda>l. (gl_id l, gl_count l)) ls) s" for s ls
    by (induction ls) auto
  have "map (\<lambda>l. (gl_id l, gl_count l)) (segment_lines ar') = map (\<lambda>l. (gl_id l, gl_count l)) (segment_lines ar)"
    using assms(2) unfolding same_index_def by blast
  then have "map_option gl_count (find (\<lambda>l. gl_id l = s) (segment_lines ar'))
      = map_option gl_count (find (\<lambda>l. gl_id l = s) (segment_lines ar))" for s
    unfolding count by (simp only:)
  then have counts: "(case find (\<lambda>l. gl_id l = s) (segment_lines ar') of None \<Rightarrow> 0 | Some l \<Rightarrow> gl_count l)
      = (case find (\<lambda>l. gl_id l = s) (segment_lines ar) of None \<Rightarrow> 0 | Some l \<Rightarrow> gl_count l)" for s
    by (metis (mono_tags, lifting) option.case_eq_if option.map_disc_iff option.map_sel)
  have "participant_names ar' c = participant_names ar c" "thread_key_of ar' c = thread_key_of ar c"
    "segment_has_attachments ar' s = segment_has_attachments ar s" for c s
    by (simp_all add: participant_names_def thread_key_of_def segment_has_attachments_def same)
  then show ?thesis
    by (simp add: summary_of_def Let_def details segment_facts.truncate_def counts split: option.split)
qed

lemma run_search_same:
  assumes "wf_archive ar" "wf_archive ar'" and "same_shown ar ar'" and "same_index ar ar'"
    and "allowlist_scope (db_of ar) None sc" and "query_mode (analyze_query (en_nfc eng) q) \<noteq> Emoji"
  shows "run_search eng cfg ar' sc f q n hybrid = run_search eng cfg ar sc f q n hybrid"
proof -
  define a where "a = analyze_query (en_nfc eng) q"
  define pred where "pred = compile_predicate ar f sc"
  define ch where "ch = run_channels eng ar a pred hybrid"
  define fused where "fused = reciprocal_rank_fusion (en_rrf_k eng) (channel_lists ch)"
  have db: "wf_db (db_of ar)" using assms(1) by (simp add: wf_archive_def wf_corpus_def)
  have ch': "run_channels eng ar' a (compile_predicate ar' f sc) hybrid = ch"
    unfolding ch_def pred_def predicate_same [OF assms(3)]
    by (rule channels_same [OF assms(3,4)]) (use assms(6) in \<open>simp add: a_def\<close>)
  have pools: "pool_of ar' fused m = pool_of ar fused m" for m
    unfolding pool_of_def Let_def summary_exists_same [OF assms(1-3)] ..
  have texts: "texts_of cfg ar' sc ids = texts_of cfg ar sc ids" for ids
    using allowlist_scopeD(3) [OF assms(5)]
    by (simp add: texts_of_def withholds_ineligible_content_def segment_texts_same [OF assms(1-3,5)])
  let ?pool0 = "pool_of ar fused (max (en_rerank_top eng) n)"
  let ?ids = "map fused_segment ?pool0"
  have facts: "segment_facts.truncate (the (map_of (fetch_segment_summaries ar' ?ids) s))
      = segment_facts.truncate (the (map_of (fetch_segment_summaries ar ?ids) s))" if s: "s \<in> set ?ids" for s
  proof -
    have "s \<in> set (map fused_segment fused)"
      using s set_take_subset [of "max (en_rerank_top eng) n" fused] by (auto simp: pool_of_def Let_def)
    then obtain name xs where "(name, xs) \<in> set (channel_lists ch)" "s \<in> set xs"
      using ranking_facts(1) [of "en_rrf_k eng" "channel_lists ch", folded fused_def] by auto
    then have "admitted ar pred s" unfolding ch_def by (rule lists_admitted)
    then obtain g where g: "g \<in> set (segments (stored ar))" "sg_key g = s" "pred g" unfolding admitted_def by blast
    then have "thread_open (db_of ar) (sg_chat g)"
      using compile_predicate_scope allowlist_admits [OF db assms(5)] unfolding pred_def by blast
    note t = facts_same [OF assms(3,4) this]
    have look: "map_of (fetch_segment_summaries ar ?ids) s = summary_of ar g"
      "map_of (fetch_segment_summaries ar' ?ids) s = summary_of ar' g"
      using summary_lookup [OF assms(1) g(1)] summary_lookup [OF assms(2), of g] g(1,2) s
      by (simp_all add: same_shownD(3) [OF assms(3)])
    let ?top = "map fused_segment (take (max (en_rerank_top eng) n) fused)"
    have "s \<in> set ?top \<and> map_of (fetch_segment_summaries ar ?top) s \<noteq> None"
      using s by (auto simp: pool_of_def Let_def)
    then have "summary_of ar g \<noteq> None" using summary_lookup [OF assms(1) g(1), of ?top] g(2) by simp
    then show ?thesis using t unfolding look by (cases "summary_of ar' g"; cases "summary_of ar g") simp_all
  qed
  have ranked: "set (map fst ranked) \<subseteq> set ?ids" if "rerank_pool eng hybrid p ts (filter P ?pool0) = Inr ranked" for p ts P ranked
  proof -
    have "distinct (map fused_segment fused)" "sorted_wrt (\<lambda>r r'. fused_score r' \<le> fused_score r) fused"
      unfolding fused_def by (rule ranking_facts)+
    note r = rerank_pool_Inr(1) [OF that cut_distinct [OF pool_cut this(1)]
      sorted_wrt_cut [OF pool_cut [unfolded cut_of_def] this(2)]]
    show ?thesis unfolding r by auto
  qed
  show ?thesis
    unfolding run_search_def a_def [symmetric] Let_def ch' fused_def [symmetric] pools texts
      pred_def [symmetric] ch_def [symmetric] fused_def [symmetric]
  proof (rule bind_result_cong [OF refl])
    fix ranked
    assume "rerank_pool eng hybrid (phrase a) (texts_of cfg ar sc ?ids)
        (filter (\<lambda>r. map_of (texts_of cfg ar sc ?ids) (fused_segment r) \<noteq> None) ?pool0) = Inr ranked"
    from ranked [OF this] have "s \<in> set ?ids" if "(s, sc) \<in> set (take n ranked)" for s sc
      using that in_set_takeD by fastforce
    then show "Inr \<lparr>r_hits = map (\<lambda>(s, score). \<lparr>h_summary = segment_facts.truncate (the (map_of (fetch_segment_summaries ar' ?ids) s)),
            h_score = score, h_text = the (map_of (texts_of cfg ar sc ?ids) s)\<rparr>) (take n ranked),
          r_lists = candidate_counts ch, r_scan_cap = any_scan_cap ch\<rparr>
      = Inr \<lparr>r_hits = map (\<lambda>(s, score). \<lparr>h_summary = segment_facts.truncate (the (map_of (fetch_segment_summaries ar ?ids) s)),
            h_score = score, h_text = the (map_of (texts_of cfg ar sc ?ids) s)\<rparr>) (take n ranked),
          r_lists = candidate_counts ch, r_scan_cap = any_scan_cap ch\<rparr>"
      using facts by auto
  qed
qed

lemma search_same:
  assumes "wf_archive ar" "wf_archive ar'" and "same_shown ar ar'" and "same_index ar ar'" and "ctx_scope ctx \<noteq> ''full''"
    and "query_mode (analyze_query (en_nfc eng) q) \<noteq> Emoji"
  shows "search_messages eng cfg ar' ctx q people after before att limit mode
       = search_messages eng cfg ar ctx q people after before att limit mode"
proof -
  note same = same_shownD [OF assms(3)]
  obtain sc where sc: "resolve_request_scope (Some (db_of ar)) ctx None = Inr sc" "allowlist_scope (db_of ar) None sc"
    using allowlist_resolves [OF assms(5)] by blast
  note run = run_search_same [OF assms(1-4) sc(2) assms(6)]
  have ok: "of_value_error (Inr sc) = Inr sc" by (simp add: of_value_error_def)
  show ?thesis
    unfolding search_messages_def same(1) sc(1) resolve_filters_same [OF same(6) same(1)] ok bind_result.simps run ..
qed

text \<open>
  C5: Outside the emoji path a public search tells nothing of withheld columns: over the same indexes
  and stored counts, archives that differ only in hidden messages' text, edit histories, gated
  attachments' columns and stored renderings get the same answer, hits, scores and texts, to every
  query, filter and limit.
\<close>

theorem search_reads_no_withheld_text:
  assumes "wf_archive ar" "wf_archive ar'" and "same_shown ar ar'" and "same_index ar ar'" and "ctx_scope ctx \<noteq> ''full''"
    and "query_mode (analyze_query (en_nfc eng) q) \<noteq> Emoji"
  shows "search_messages eng cfg ar' ctx q people after before att limit mode
       = search_messages eng cfg ar ctx q people after before att limit mode"
  using assms by (rule search_same)

definition sample_engine :: engine where
  "sample_engine =
     \<lparr>en_nfc = id, en_segment_hits = (\<lambda>_ _. [1001, 1000]), en_chunk_hits = (\<lambda>_ _. []), en_embed = (\<lambda>_. []),
      en_multimodal = None, en_near_segments = (\<lambda>_. [1000, 1001]), en_near_chunks = (\<lambda>_. []),
      en_near_attachments = (\<lambda>_. []), en_rerank = (\<lambda>_ ds. map (\<lambda>_. 0) ds), en_k_fts = 5, en_k_vector = 5,
      en_rrf_k = 1, en_rerank_top = 2, en_default_limit = 10\<rparr>"

definition sample_search :: "archive \<Rightarrow> utext \<Rightarrow> retrieval_error + search_result" where
  "sample_search ar q = search_messages sample_engine sample_service ar public_context q None None None None None ''keyword''"

definition hit_keys :: "retrieval_error + search_result \<Rightarrow> string list" where
  "hit_keys r = (case r of Inl _ \<Rightarrow> [''error''] | Inr res \<Rightarrow> map (su_key \<circ> h_summary) (r_hits res))"

lemma sample_searches:
  "hit_keys (sample_search sample_archive [104, 105]) = [''k1'']"
  "hit_keys (sample_search sample_archive (code_points grin)) = [''k1'']"
  "hit_keys (sample_search other_archive (code_points grin)) = []"
  by code_simp+

theorem search_reads_no_withheld_text_witness:
  "sample_search other_archive [104, 105] = sample_search sample_archive [104, 105]
   \<and> hit_keys (sample_search sample_archive [104, 105]) = [''k1'']"
proof -
  have index: "same_index sample_archive other_archive"
    by (simp add: same_index_def other_archive_def sample_archive_def)
  have ctx: "ctx_scope public_context \<noteq> ''full''" by (simp add: public_context_def)
  have mode: "query_mode (analyze_query (en_nfc sample_engine) [104, 105]) \<noteq> Emoji" by code_simp
  show ?thesis
    using search_reads_no_withheld_text [OF sample_archive_wf other_archive_wf sample_same_shown index ctx mode,
      of sample_service None None None None None "''keyword''"] sample_searches(1)
    unfolding sample_search_def by blast
qed

theorem search_respects_scope_and_filters_witness:
  "\<exists>res. sample_search sample_archive [104, 105] = Inr res \<and> length (r_hits res) \<le> 10
     \<and> (\<forall>h \<in> set (r_hits res). \<exists>g \<in> set (segments (stored sample_archive)).
          sg_key g = su_segment (h_summary h) \<and> thread_open (db_of sample_archive) (sg_chat g))"
proof -
  obtain res where res: "sample_search sample_archive [104, 105] = Inr res"
    using sample_searches(1) by (auto simp: hit_keys_def split: sum.splits)
  have ctx: "ctx_scope public_context \<noteq> ''full''" by (simp add: public_context_def)
  show ?thesis
    using search_respects_scope_and_filters [OF sample_archive_wf res [unfolded sample_search_def]] res ctx
    by (force simp: sample_engine_def)
qed

text \<open>
  On the emoji path a public search does tell of hidden text: of two archives that show the same, the one
  whose deleted message holds the queried emoji answers with the segment and the other with nothing.
\<close>

lemma emoji_search_reveals_deleted_text:
  "same_shown sample_archive other_archive
   \<and> hit_keys (sample_search sample_archive (code_points grin)) = [''k1'']
   \<and> hit_keys (sample_search other_archive (code_points grin)) = []"
  using sample_same_shown sample_searches(2,3) by blast

text \<open>
  The emoji path misses messages that hold the query word for word: it looks for the normalized
  phrase in the text as it was written, so a message with a typographic apostrophe, or with a
  variation selector inside the phrase, is never a match for its own text.
\<close>

theorem emoji_search_misses_its_own_text:
  assumes "map_of CURLY_TO_ASCII c \<noteq> None \<or> variation_selector c"
  shows "query_mode (analyze_query id [97, c, 98, 128512]) = Emoji
     \<and> \<not> sql_like (like_pattern (phrase (analyze_query id [97, c, 98, 128512]))) [97, c, 98, 128512]"
proof -
  let ?q = "[97, c, 98, 128512]"
  have c: "c \<in> {0x2018, 0x2019, 0x201A, 0x201B, 0x201C, 0x201D, 0x201E, 0x201F} \<or> 0xFE00 \<le> c \<and> c \<le> 0xFE0F"
    using assms(1) by (auto simp: CURLY_TO_ASCII_def variation_selector_def split: if_splits)
  have normal: "normalize_text id ?q = (if variation_selector c then [97, 98, 128512] else [97, fold_curly c, 98, 128512])"
  proof (cases "variation_selector c")
    case True
    then have "fold_curly c = c" "0xFE00 \<le> c" "c \<le> 0xFE0F" by (auto simp: fold_curly_def CURLY_TO_ASCII_def variation_selector_def)
    then show ?thesis using True
      by (simp add: normalize_text_def strip_nul_def replace_char_def ustrip_def uspace_def fold_curly_def CURLY_TO_ASCII_def
        variation_selector_def)
  next
    case False
    then have "c \<in> {0x2018, 0x2019, 0x201A, 0x201B, 0x201C, 0x201D, 0x201E, 0x201F}"
      using c by (auto simp: variation_selector_def)
    then show ?thesis using False
      by (auto simp: normalize_text_def strip_nul_def replace_char_def ustrip_def uspace_def fold_curly_def
        CURLY_TO_ASCII_def variation_selector_def)
  qed
  have e: "is_emoji 128512" by (simp add: is_emoji_def EMOJI_RANGES_def)
  have a: "analyze_query id ?q = \<lparr>raw_query = ?q, query_mode = Emoji, phrase = normalize_text id ?q\<rparr>"
  proof -
    have "contains_emoji (normalize_text id ?q)" using e by (simp add: normal contains_emoji_def)
    then show ?thesis by (simp add: analyze_query_def)
  qed
  have "\<not> (\<exists>x y. ?q = x @ normalize_text id ?q @ y)"
    using c unfolding normal
    by (auto simp: variation_selector_def fold_curly_def CURLY_TO_ASCII_def Cons_eq_append_conv split: if_splits)
  then show ?thesis by (simp add: a like_finds_substrings)
qed

theorem emoji_search_misses_its_own_text_witness:
  "\<not> sql_like (like_pattern (phrase (analyze_query id [97, 0x2019, 98, 128512]))) [97, 0x2019, 98, 128512]"
  using emoji_search_misses_its_own_text [of "0x2019"] by (simp add: CURLY_TO_ASCII_def)

end
