(* ===== verification/Directory.thy ===== *)
theory Directory
  imports Search_Service
begin

text \<open>
  The lookups that do not search (\<^verbatim>\<open>retrieval/directory.py\<close>): \<open>list_people\<close> and \<open>get_attachment_text\<close>,
  with the service methods that call them. The case folding of \<open>ILIKE\<close> and the ISO spelling of an instant
  in the database session's zone are arguments.
\<close>

section \<open>The people a caller may list\<close>

definition MAX_LIST_PEOPLE_LIMIT :: int where "MAX_LIST_PEOPLE_LIMIT = 500"

record person_listing =
  pe_short :: string
  pe_display :: string
  pe_organization :: "string option"
  pe_count :: nat
  pe_first :: "string option"
  pe_last :: "string option"
  pe_handles :: "string list option"

text \<open>\<open>ILIKE '%query%'\<close>: what the caller wrote is part of the pattern, its own wildcards included.\<close>

definition name_matches :: "(utext \<Rightarrow> utext) \<Rightarrow> string option \<Rightarrow> person_line \<Rightarrow> bool" where
  "name_matches casefold query p \<longleftrightarrow>
     (case query of
        None \<Rightarrow> True
      | Some q \<Rightarrow>
          q = [] \<or>
          (let like = (\<lambda>s. sql_like (casefold (37 # code_points q @ [37])) (casefold (code_points s)))
           in like (pl_short p) \<or> like (pl_display p)))"

text \<open>The messages of a person the request counts.\<close>

definition counted_messages :: "archive \<Rightarrow> request_scope \<Rightarrow> int \<Rightarrow> message_row list" where
  "counted_messages ar sc p =
     filter
       (\<lambda>m. if sc_chats sc = None then sender_person m = Some p
            else message_sender (sc_owner sc) m = Some p \<and> chat_predicate sc (msg_chat m) \<and> exportable_message m)
       (messages (db_of ar))"

definition person_handles :: "archive \<Rightarrow> int \<Rightarrow> string list" where
  "person_handles ar p =
     sort (List.map_filter (\<lambda>h. map_of (handle_values ar) (handle_key h))
       (filter (\<lambda>h. handle_person h = p) (handles (db_of ar))))"

definition listing_of :: "(instant \<Rightarrow> string) \<Rightarrow> archive \<Rightarrow> request_scope \<Rightarrow> bool \<Rightarrow> person_line \<Rightarrow> person_listing" where
  "listing_of spell ar sc include_handles p =
     (let times = sort (map row_sent_at (counted_messages ar sc (pl_id p)))
      in \<lparr>pe_short = pl_short p, pe_display = pl_display p, pe_organization = pl_organization p,
          pe_count = length times,
          pe_first = (if times = [] then None else Some (spell (hd times))),
          pe_last = (if times = [] then None else Some (spell (last times))),
          pe_handles = (if include_handles then Some (person_handles ar (pl_id p)) else None)\<rparr>)"

definition listings ::
  "(instant \<Rightarrow> string) \<Rightarrow> (utext \<Rightarrow> utext) \<Rightarrow> archive \<Rightarrow> request_scope \<Rightarrow> string option \<Rightarrow> nat \<Rightarrow> bool \<Rightarrow> person_listing list" where
  "listings spell casefold ar sc query limit include_handles =
     (let visible = visible_person_ids (db_of ar) sc
      in if visible = Some [] then []
         else map (listing_of spell ar sc include_handles)
           (take limit (sort_key pl_display
             (filter (\<lambda>p. name_matches casefold query p \<and> may_see visible p) (person_lines ar)))))"

definition list_people ::
  "(instant \<Rightarrow> string) \<Rightarrow> (utext \<Rightarrow> utext) \<Rightarrow> archive \<Rightarrow> access_context \<Rightarrow> string option \<Rightarrow> int \<Rightarrow> bool
     \<Rightarrow> retrieval_error + person_listing list" where
  "list_people spell casefold ar ctx query limit include_handles =
     (if limit < 1 \<or> MAX_LIST_PEOPLE_LIMIT < limit
      then Inl (Invalid_Argument ''limit must be between 1 and 500'')
      else if include_handles \<and> ctx_surface ctx \<noteq> ''local''
      then Inl (Invalid_Argument '''include_handles' is available on the local surface only'')
      else bind_result (of_value_error (resolve_request_scope (Some (db_of ar)) ctx None)) (\<lambda>sc.
        Inr (listings spell casefold ar sc query (nat limit) include_handles)))"

section \<open>The text of an attachment\<close>

record attachment_text =
  ax_key :: string
  ax_filename :: "string option"
  ax_mime :: "string option"
  ax_texts :: "(string \<times> string \<times> string) list"

definition no_attachment :: "string \<Rightarrow> retrieval_error" where
  "no_attachment k = Not_Found (''no attachment found for attachment_key '' @ k)"

text \<open>The segments that hold a message linking the attachment, each with its chat.\<close>

definition attachment_parents :: "archive \<Rightarrow> int \<Rightarrow> (int \<times> int) list" where
  "attachment_parents ar a =
     remdups (map (\<lambda>(_, g). (sg_key g, sg_chat g))
       (inner_join (\<lambda>(l, sm) g. sg_key g = fst sm)
         (inner_join (\<lambda>l sm. snd sm = ln_message l)
           (filter (\<lambda>l. ln_attachment l = a) (links (stored ar))) (segment_messages (db_of ar)))
         (segments (stored ar))))"

definition done_texts :: "archive \<Rightarrow> int \<Rightarrow> enrichment_row list \<Rightarrow> (string \<times> string \<times> string) list" where
  "done_texts ar a rows =
     map (\<lambda>e. (en_kind e,
            or_else (Option.bind (map_of (enrichment_models ar) (a, en_kind e)) id) [],
            or_else (en_text e) []))
       (filter (\<lambda>e. en_state e = ''done'') rows)"

definition read_attachment_text :: "archive \<Rightarrow> access_context \<Rightarrow> string \<Rightarrow> retrieval_error + attachment_text" where
  "read_attachment_text ar ctx k =
     (case find (\<lambda>r. attachment_key_of ar (at_key r) = k) (Export_Plan.attachments (stored ar)) of
        None \<Rightarrow> Inl (no_attachment k)
      | Some r \<Rightarrow>
          (let a = at_key r; parents = attachment_parents ar a
           in bind_result (of_value_error (resolve_request_scope (Some (db_of ar)) ctx (Some (map snd parents)))) (\<lambda>sc.
             let admitted = map fst (filter (\<lambda>(_, chat). admits_chat sc chat) parents);
                 g = request_gate (stored ar) sc admitted
             in if \<not> list_ex (\<lambda>s. gate_allows g (Some s) a) admitted then Inl (no_attachment k)
                else
                  (let rows = sort_key (kind_rank \<circ> en_kind) (filter (\<lambda>e. en_attachment e = a) (enrichments (stored ar)));
                       texts = done_texts ar a rows
                   in if texts \<noteq> [] then
                        Inr \<lparr>ax_key = k, ax_filename = at_filename r, ax_mime = at_mime r, ax_texts = texts\<rparr>
                      else if rows = [] then
                        Inl (Not_Enriched (''attachment '' @ k @ '' has no enrichment queued yet''))
                      else
                        Inl (Not_Enriched (''attachment '' @ k @ '' exists but is not enriched yet (state(s): ''
                          @ py_join '', '' (sort (remdups (map en_state rows))) @ '')'')))))) "

definition get_attachment_text :: "archive \<Rightarrow> access_context \<Rightarrow> string \<Rightarrow> retrieval_error + attachment_text" where
  "get_attachment_text ar ctx k =
     (if k = [] \<or> text_len k < 16 \<or> 128 < text_len k
      then Inl (Invalid_Argument '''attachment_key' must be between 16 and 128 characters'')
      else read_attachment_text ar ctx k)"

section \<open>Text leaves through an open segment only\<close>

lemma attachment_parents_iff:
  assumes "wf_corpus (stored ar)"
  shows "(s, chat) \<in> set (attachment_parents ar a) \<longleftrightarrow>
     (\<exists>g \<in> set (segments (stored ar)). s = sg_key g \<and> chat = sg_chat g
        \<and> (\<exists>m. (sg_key g, m) \<in> set (segment_messages (db_of ar)) \<and> (m, a) \<in> set (message_attachments (db_of ar))))"
proof -
  have links: "set (message_attachments (db_of ar)) = (\<lambda>l. (ln_message l, ln_attachment l)) ` set (links (stored ar))"
    using assms by (simp add: wf_corpus_def)
  have "(s, chat) \<in> set (attachment_parents ar a) \<longleftrightarrow>
     (\<exists>l \<in> set (links (stored ar)). \<exists>sm \<in> set (segment_messages (db_of ar)). \<exists>g \<in> set (segments (stored ar)).
        ln_attachment l = a \<and> snd sm = ln_message l \<and> sg_key g = fst sm \<and> s = sg_key g \<and> chat = sg_chat g)"
    unfolding attachment_parents_def set_remdups set_map image_iff Bex_def split_paired_Ex set_inner_join
    by auto
  then show ?thesis unfolding links by (force simp: image_iff)
qed

lemma gate_of_parents:
  assumes "wf_corpus (stored ar)" and "allowlist_scope (db_of ar) (Some (map snd (attachment_parents ar a))) sc"
  shows "list_ex (\<lambda>s. gate_allows (request_gate (stored ar) sc
             (map fst (filter (\<lambda>(_, chat). admits_chat sc chat) (attachment_parents ar a)))) (Some s) a)
           (map fst (filter (\<lambda>(_, chat). admits_chat sc chat) (attachment_parents ar a)))
         \<longleftrightarrow> attachment_may_leave (stored ar) a"
proof -
  have db: "wf_db (db_of ar)" using assms(1) by (simp add: wf_corpus_def)
  let ?adm = "map fst (filter (\<lambda>(_, chat). admits_chat sc chat) (attachment_parents ar a))"
  note gate = request_gate_iff [OF db assms(2)]
  have parent: "sg_key g \<in> set ?adm \<and> asked (Some (map snd (attachment_parents ar a))) (sg_chat g)"
    if g: "g \<in> set (segments (stored ar))" "thread_open (db_of ar) (sg_chat g)" "links_in (stored ar) g a m" for g m
  proof -
    have p: "(sg_key g, sg_chat g) \<in> set (attachment_parents ar a)"
      unfolding attachment_parents_iff [OF assms(1)] using g by (auto simp: links_in_def)
    then have "asked (Some (map snd (attachment_parents ar a))) (sg_chat g)" by (force simp: asked_def)
    moreover from this g have "admits_chat sc (sg_chat g)" by (simp add: allowlist_admits [OF db assms(2)])
    ultimately show ?thesis using p by force
  qed
  show ?thesis
  proof
    assume "list_ex (\<lambda>s. gate_allows (request_gate (stored ar) sc ?adm) (Some s) a) ?adm"
    then obtain s where "gate_allows (request_gate (stored ar) sc ?adm) (Some s) a" by (auto simp: list_ex_iff)
    then show "attachment_may_leave (stored ar) a" unfolding gate attachment_may_leave_def by blast
  next
    assume "attachment_may_leave (stored ar) a"
    then obtain g m where g: "g \<in> set (segments (stored ar))" "thread_open (db_of ar) (sg_chat g)"
        "m \<in> set (messages (db_of ar))" "links_in (stored ar) g a m"
        "\<forall>m \<in> set (messages (db_of ar)). links_in (stored ar) g a m
           \<longrightarrow> attachment_ok (db_of ar) (message_sender (owner_person_id (db_of ar)) m)"
      unfolding attachment_may_leave_def by blast
    from parent [OF g(1,2,4)] g have "gate_allows (request_gate (stored ar) sc ?adm) (Some (sg_key g)) a"
      unfolding gate by blast
    then show "list_ex (\<lambda>s. gate_allows (request_gate (stored ar) sc ?adm) (Some s) a) ?adm"
      unfolding list_ex_iff using parent [OF g(1,2,4)] by blast
  qed
qed


text \<open>A key names one attachment, so the search for one that may leave is that for one with the key.\<close>

lemma find_leaving:
  assumes "wf_archive ar" and "find (\<lambda>r. attachment_key_of ar (at_key r) = k) (Export_Plan.attachments (stored ar)) = Some r"
  shows "find (\<lambda>r. attachment_key_of ar (at_key r) = k \<and> attachment_may_leave (stored ar) (at_key r))
           (Export_Plan.attachments (stored ar))
       = (if attachment_may_leave (stored ar) (at_key r) then Some r else None)"
proof -
  let ?rows = "Export_Plan.attachments (stored ar)"
  let ?may = "\<lambda>r. attachment_key_of ar (at_key r) = k \<and> attachment_may_leave (stored ar) (at_key r)"
  have r: "r \<in> set ?rows" "attachment_key_of ar (at_key r) = k" using assms(2) by (auto simp: find_Some_iff)
  have corpus: "wf_corpus (stored ar)" using assms(1) by (simp add: wf_archive_def)
  have one: "q = r" if "q \<in> set ?rows" "attachment_key_of ar (at_key q) = k" for q
    using attachment_key_inj [OF assms(1) r(1) that(1)] r that corpus distinct_key_eq unfolding wf_corpus_def by metis
  show ?thesis
  proof (cases "attachment_may_leave (stored ar) (at_key r)")
    case True
    then have "find ?may ?rows \<noteq> None" using r by (auto simp: find_None_iff)
    then obtain q where q: "find ?may ?rows = Some q" by blast
    then have "q \<in> set ?rows" "attachment_key_of ar (at_key q) = k" by (auto simp: find_Some_iff)
    then show ?thesis using one q True by simp
  next
    case False
    then have "find ?may ?rows = None" using one by (auto simp: find_None_iff)
    then show ?thesis using False by simp
  qed
qed

text \<open>The answer for a key of an attachment.\<close>

lemma attachment_answer:
  assumes "wf_archive ar" and "ctx_scope ctx \<noteq> ''full''" and "16 \<le> text_len k" and "text_len k \<le> 128"
    and "find (\<lambda>r. attachment_key_of ar (at_key r) = k) (Export_Plan.attachments (stored ar)) = Some r"
    and rows: "es = sort_key (kind_rank \<circ> en_kind) (filter (\<lambda>e. en_attachment e = at_key r) (enrichments (stored ar)))"
  shows "get_attachment_text ar ctx k =
        (if \<not> attachment_may_leave (stored ar) (at_key r) then Inl (no_attachment k)
         else if done_texts ar (at_key r) es \<noteq> [] then
           Inr \<lparr>ax_key = k, ax_filename = at_filename r, ax_mime = at_mime r, ax_texts = done_texts ar (at_key r) es\<rparr>
         else Inl (Not_Enriched (if es = [] then ''attachment '' @ k @ '' has no enrichment queued yet''
           else ''attachment '' @ k @ '' exists but is not enriched yet (state(s): ''
             @ py_join '', '' (sort (remdups (map en_state es))) @ '')'')))"
proof -
  have corpus: "wf_corpus (stored ar)" and k: "k \<noteq> []"
    using assms(1,3) by (auto simp: wf_archive_def text_len_def)
  obtain sc where sc: "resolve_request_scope (Some (db_of ar)) ctx (Some (map snd (attachment_parents ar (at_key r)))) = Inr sc"
    "allowlist_scope (db_of ar) (Some (map snd (attachment_parents ar (at_key r)))) sc"
    using allowlist_resolves [OF assms(2)] by blast
  show ?thesis
    using k assms(3,4) unfolding rows
    by (simp add: get_attachment_text_def read_attachment_text_def assms(5) Let_def sc(1) of_value_error_def
      gate_of_parents [OF corpus sc(2)])
qed

text \<open>
  C8: Under the allowlist scope an attachment's text is read through the export's own rule: the answer is
  the error of a key nobody has, word for word, unless the key is that of an attachment some segment of an
  open thread shows and all who sent it there allow. For such an attachment it is its name, type and the
  texts of its finished enrichments in the order of their kinds, or that it is not enriched yet when none is
  finished.
\<close>

theorem attachment_text_follows_export:
  assumes "wf_archive ar" and "ctx_scope ctx \<noteq> ''full''" and "16 \<le> text_len k" and "text_len k \<le> 128"
  shows "case find (\<lambda>r. attachment_key_of ar (at_key r) = k \<and> attachment_may_leave (stored ar) (at_key r))
           (Export_Plan.attachments (stored ar)) of
      None \<Rightarrow> get_attachment_text ar ctx k = Inl (no_attachment k)
    | Some r \<Rightarrow>
        let rows = sort_key (kind_rank \<circ> en_kind) (filter (\<lambda>e. en_attachment e = at_key r) (enrichments (stored ar)));
            texts = done_texts ar (at_key r) rows
        in if list_ex (\<lambda>e. en_state e = ''done'') rows
           then get_attachment_text ar ctx k
             = Inr \<lparr>ax_key = k, ax_filename = at_filename r, ax_mime = at_mime r, ax_texts = texts\<rparr>
           else \<exists>why. get_attachment_text ar ctx k = Inl (Not_Enriched why)"
proof -
  have finished: "list_ex (\<lambda>e. en_state e = ''done'') es \<longleftrightarrow> done_texts ar a es \<noteq> []" for es a
    by (auto simp: done_texts_def list_ex_iff filter_empty_conv)
  show ?thesis
  proof (cases "find (\<lambda>r. attachment_key_of ar (at_key r) = k) (Export_Plan.attachments (stored ar))")
    case None
    then have "find (\<lambda>r. attachment_key_of ar (at_key r) = k \<and> attachment_may_leave (stored ar) (at_key r))
        (Export_Plan.attachments (stored ar)) = None" by (auto simp: find_None_iff)
    moreover have "k \<noteq> []" using assms(3) by (auto simp: text_len_def)
    ultimately show ?thesis using None assms(3,4) by (simp add: get_attachment_text_def read_attachment_text_def)
  next
    case (Some r)
    show ?thesis
      unfolding find_leaving [OF assms(1) Some] attachment_answer [OF assms Some refl] Let_def finished [where a = "at_key r"] by simp
  qed
qed


text \<open>Who an allowlist request may learn of, over the contract of the threads.\<close>

definition in_open_thread :: "db \<Rightarrow> int \<Rightarrow> bool" where
  "in_open_thread d p \<longleftrightarrow>
     (\<exists>chat. thread_open d chat
        \<and> ((\<exists>cp \<in> set (participants d). part_chat cp = chat \<and> part_person cp = p)
           \<or> (\<exists>m \<in> set (messages d). msg_chat m = chat \<and> exportable_message m
                \<and> message_sender (owner_person_id d) m = Some p)))"

lemma in_open_thread_allowed: "in_open_thread d p \<Longrightarrow> text_ok d (Some p)"
  unfolding in_open_thread_def using open_thread_people by metis

lemma may_see_open:
  assumes "wf_db d" and "allowlist_scope d None sc"
  shows "may_see (visible_person_ids d sc) p \<longleftrightarrow> in_open_thread d (pl_id p)"
proof -
  obtain ps where ps: "visible_person_ids d sc = Some ps"
    using allowlist_scopeD [OF assms(2)] by (cases "eligible_chat_ids d None = []") (simp_all add: visible_person_ids_def)
  show ?thesis using visible_people_iff [OF assms ps] by (simp add: ps may_see_def in_open_thread_def asked_def)
qed

lemma counted_in_open_threads:
  assumes "wf_db (db_of ar)" and "allowlist_scope (db_of ar) None sc"
  shows "counted_messages ar sc p =
     filter (\<lambda>m. exportable_message m \<and> thread_open (db_of ar) (msg_chat m)
       \<and> message_sender (owner_person_id (db_of ar)) m = Some p) (messages (db_of ar))"
  using allowlist_admits [OF assms] allowlist_scopeD [OF assms(2)]
  by (auto simp: counted_messages_def chat_predicate_admits asked_def intro!: filter_cong)

lemma list_people_allowlist:
  assumes "wf_db (db_of ar)" and "ctx_scope ctx \<noteq> ''full''"
    and "list_people spell casefold ar ctx query limit h = Inr ls"
  shows "\<exists>sc. allowlist_scope (db_of ar) None sc \<and> (h \<longrightarrow> ctx_surface ctx = ''local'')
     \<and> ls = map (listing_of spell ar sc h) (take (nat limit) (sort_key pl_display
         (filter (\<lambda>p. name_matches casefold query p \<and> in_open_thread (db_of ar) (pl_id p)) (person_lines ar))))"
proof -
  obtain sc where sc: "resolve_request_scope (Some (db_of ar)) ctx None = Inr sc" "allowlist_scope (db_of ar) None sc"
    using allowlist_resolves [OF assms(2)] by blast
  note see = may_see_open [OF assms(1) sc(2)]
  have "ls = listings spell casefold ar sc query (nat limit) h \<and> (h \<longrightarrow> ctx_surface ctx = ''local'')"
    using assms(3) by (simp add: list_people_def sc(1) of_value_error_def split: if_splits)
  moreover have "\<not> in_open_thread (db_of ar) (pl_id p)" if "visible_person_ids (db_of ar) sc = Some []" for p :: person_line
    using see [of p] that by (simp add: may_see_def)
  ultimately show ?thesis using sc(2) by (auto simp: listings_def Let_def see)
qed

text \<open>
  C9: The directory of the public surface shows open threads only: it lists, by display name and up to
  the limit, exactly the matching people of open threads, each text-allowed, with the number of
  exportable messages sent there and no handles.
\<close>

theorem directory_shows_open_threads:
  assumes "wf_archive ar" and "ctx_scope ctx \<noteq> ''full''" and "ctx_surface ctx \<noteq> ''local''"
    and "list_people spell casefold ar ctx query limit h = Inr ls"
  shows "(\<forall>e \<in> set ls. pe_handles e = None
        \<and> (\<exists>p \<in> set (person_lines ar). pe_short e = pl_short p \<and> name_matches casefold query p
             \<and> in_open_thread (db_of ar) (pl_id p) \<and> text_ok (db_of ar) (Some (pl_id p))
             \<and> pe_count e = length (filter (\<lambda>m. exportable_message m \<and> thread_open (db_of ar) (msg_chat m)
                  \<and> message_sender (owner_person_id (db_of ar)) m = Some (pl_id p)) (messages (db_of ar)))))
     \<and> sorted (map pe_display ls) \<and> length ls \<le> nat limit
     \<and> (\<forall>p \<in> set (person_lines ar). name_matches casefold query p \<and> in_open_thread (db_of ar) (pl_id p)
          \<longrightarrow> pl_short p \<in> pe_short ` set ls \<or> length ls = nat limit)"
proof -
  have db: "wf_db (db_of ar)" using assms(1) by (simp add: wf_archive_def wf_corpus_def)
  let ?ps = "sort_key pl_display
      (filter (\<lambda>p. name_matches casefold query p \<and> in_open_thread (db_of ar) (pl_id p)) (person_lines ar))"
  obtain sc where sc: "allowlist_scope (db_of ar) None sc" and no: "\<not> h"
    and ls: "ls = map (listing_of spell ar sc h) (take (nat limit) ?ps)"
    using list_people_allowlist [OF db assms(2,4)] assms(3) by blast
  have shorts: "pe_short ` set ls = pl_short ` set (take (nat limit) ?ps)"
    and displays: "map pe_display ls = take (nat limit) (map pl_display ?ps)"
    unfolding ls by (force simp: listing_of_def Let_def image_iff, simp add: listing_of_def Let_def comp_def take_map)
  have listed: "pe_handles e = None \<and> (\<exists>p \<in> set (person_lines ar). pe_short e = pl_short p \<and> name_matches casefold query p
       \<and> in_open_thread (db_of ar) (pl_id p) \<and> text_ok (db_of ar) (Some (pl_id p))
       \<and> pe_count e = length (filter (\<lambda>m. exportable_message m \<and> thread_open (db_of ar) (msg_chat m)
            \<and> message_sender (owner_person_id (db_of ar)) m = Some (pl_id p)) (messages (db_of ar))))"
    if e: "e \<in> set ls" for e
  proof -
    obtain p where p: "p \<in> set (take (nat limit) ?ps)" "e = listing_of spell ar sc h p" using e unfolding ls by auto
    from p(1) have "p \<in> set ?ps" by (rule in_set_takeD)
    then show ?thesis using p(2) no in_open_thread_allowed
      by (auto simp: listing_of_def Let_def counted_in_open_threads [OF db sc])
  qed
  have every: "pl_short p \<in> pe_short ` set ls \<or> length ls = nat limit" if "p \<in> set ?ps" for p
  proof (cases "length ?ps \<le> nat limit")
    case True
    then show ?thesis using that by (simp add: shorts)
  qed (simp add: ls)
  show ?thesis using listed every by (auto simp: displays sorted_wrt_take) (simp_all add: ls)
qed


lemma sample_attachment_texts:
  "get_attachment_text sample_archive public_context ''bbbbbbbbbbbbbbbb'' =
     Inr \<lparr>ax_key = ''bbbbbbbbbbbbbbbb'', ax_filename = Some ''cat.png'', ax_mime = Some ''image/png'',
          ax_texts = [(''ocr'', [], ''meow'')]\<rparr>"
  "get_attachment_text sample_archive public_context ''aaaaaaaaaaaaaaaa'' = Inl (no_attachment ''aaaaaaaaaaaaaaaa'')"
  by code_simp+

theorem attachment_text_follows_export_witness:
  "attachment_may_leave (stored sample_archive) 501 \<and> \<not> attachment_may_leave (stored sample_archive) 500"
proof -
  have ctx: "ctx_scope public_context \<noteq> ''full''" by (simp add: public_context_def)
  have lens: "text_len ''bbbbbbbbbbbbbbbb'' = 16" "text_len ''aaaaaaaaaaaaaaaa'' = 16" by code_simp+
  have rows: "Export_Plan.attachments (stored sample_archive)
      = [\<lparr>at_key = 500, at_guid = ''g0'', at_filename = Some ''salary.pdf'', at_mime = Some ''application/pdf''\<rparr>,
         \<lparr>at_key = 501, at_guid = ''g1'', at_filename = Some ''cat.png'', at_mime = Some ''image/png''\<rparr>]"
    by (simp add: sample_archive_def sample_archive_corpus_def sample_corpus_def)
  have keys: "attachment_key_of sample_archive 500 = ''aaaaaaaaaaaaaaaa''" "attachment_key_of sample_archive 501 = ''bbbbbbbbbbbbbbbb''"
    by code_simp+
  note follows = attachment_text_follows_export [OF sample_archive_wf ctx]
  have "\<not> attachment_may_leave (stored sample_archive) 500"
  proof
    assume "attachment_may_leave (stored sample_archive) 500"
    then show False
      using follows [of "''aaaaaaaaaaaaaaaa''"]
      by (simp add: lens rows keys sample_attachment_texts no_attachment_def Let_def split: if_splits)
  qed
  moreover have "attachment_may_leave (stored sample_archive) 501"
  proof (rule ccontr)
    assume "\<not> attachment_may_leave (stored sample_archive) 501"
    then show False
      using follows [of "''bbbbbbbbbbbbbbbb''"]
      by (simp add: lens rows keys sample_attachment_texts)
  qed
  ultimately show ?thesis by simp
qed

lemma sample_listing:
  "list_people py_str_int id sample_archive public_context (Some ''an'') 10 False =
     Inr [\<lparr>pe_short = ''ann'', pe_display = ''Ann'', pe_organization = None, pe_count = 1, pe_first = Some ''5'',
           pe_last = Some ''5'', pe_handles = None\<rparr>]"
  by code_simp

theorem directory_shows_open_threads_witness:
  "length (filter (\<lambda>m. exportable_message m \<and> thread_open (db_of sample_archive) (msg_chat m)
      \<and> message_sender (owner_person_id (db_of sample_archive)) m = Some 2) (messages (db_of sample_archive))) = 1"
proof -
  have ctx: "ctx_scope public_context \<noteq> ''full''" "ctx_surface public_context \<noteq> ''local''" by (simp_all add: public_context_def)
  let ?e = "\<lparr>pe_short = ''ann'', pe_display = ''Ann'', pe_organization = None, pe_count = 1, pe_first = Some ''5'',
    pe_last = Some ''5'', pe_handles = None\<rparr>"
  have "?e \<in> set [?e]" by simp
  note listed = bspec [OF conjunct1 [OF directory_shows_open_threads [OF sample_archive_wf ctx sample_listing]] this]
  from conjunct2 [OF listed] obtain p where p: "p \<in> set (person_lines sample_archive)" "pe_short ?e = pl_short p"
    and n: "pe_count ?e = length (filter (\<lambda>m. exportable_message m \<and> thread_open (db_of sample_archive) (msg_chat m)
      \<and> message_sender (owner_person_id (db_of sample_archive)) m = Some (pl_id p)) (messages (db_of sample_archive)))"
    by (elim bexE conjE)
  have "l \<in> set (person_lines sample_archive) \<Longrightarrow> pl_short l = ''ann'' \<Longrightarrow> pl_id l = 2" for l :: person_line
    by (cases l) (auto simp: sample_archive_def)
  from this [OF p(1)] p(2) have "pl_id p = 2" by simp
  then show ?thesis using n by simp
qed

end
