(* ===== verification/Handle_Names.thy ===== *)
theory Handle_Names
  imports Query_Analysis
begin

text \<open>
  Handles and the cards that name them (\<^verbatim>\<open>stages/identity.py\<close>): the filter tags of a raw handle, its
  normal form, the agreement of several contact cards on one person, and the slug of a name. Reading a
  phone number, lower case, case folding, the \<^verbatim>\<open>\w\<close> class and NFKD are arguments.
\<close>

section \<open>Filter tags\<close>

text \<open>The letter a character is to a case-insensitive pattern of ASCII letters.\<close>

definition letter_of :: "nat \<Rightarrow> nat" where
  "letter_of c =
     (if 65 \<le> c \<and> c \<le> 90 then c + 32
      else if c = 0x130 \<or> c = 0x131 then 105
      else if c = 0x17F then 115
      else if c = 0x212A then 107
      else c)"

definition is_a_to_z :: "nat \<Rightarrow> bool" where
  "is_a_to_z c \<longleftrightarrow> 97 \<le> letter_of c \<and> letter_of c \<le> 122"

definition FILTERED :: utext where "FILTERED = [102, 105, 108, 116, 101, 114, 101, 100]"
definition SMSFT :: utext where "SMSFT = [115, 109, 115, 102, 116]"

definition eat_word :: "utext \<Rightarrow> utext \<Rightarrow> utext option" where
  "eat_word w s = (if map letter_of (take (length w) s) = w then Some (drop (length w) s) else None)"

text \<open>\<^verbatim>\<open>filtered|smsft(?:_[a-z]+)?\<close>; what follows a tag is no letter, so the run is taken whole.\<close>

definition eat_tag_name :: "utext \<Rightarrow> utext option" where
  "eat_tag_name s =
     (case eat_word FILTERED s of
        Some r \<Rightarrow> Some r
      | None \<Rightarrow>
          (case eat_word SMSFT s of
             None \<Rightarrow> None
           | Some r \<Rightarrow>
               (case r of
                  c # r' \<Rightarrow> if c = 95 \<and> r' \<noteq> [] \<and> is_a_to_z (hd r') then Some (dropWhile is_a_to_z r') else Some r
                | [] \<Rightarrow> Some r)))"

text \<open>\<^verbatim>\<open>\s*\(\s*(?:...)\s*\)\<close> at the head of a text: what is left of it.\<close>

definition eat_tag :: "utext \<Rightarrow> utext option" where
  "eat_tag s =
     (case dropWhile uspace s of
        c # r \<Rightarrow>
          if c = 40 then
            (case eat_tag_name (dropWhile uspace r) of
               Some r' \<Rightarrow>
                 (case dropWhile uspace r' of
                    d # rest \<Rightarrow> if d = 41 then Some rest else None
                  | [] \<Rightarrow> None)
             | None \<Rightarrow> None)
          else None
      | [] \<Rightarrow> None)"

lemma eat_word_shorter: "eat_word w s = Some r \<Longrightarrow> length r \<le> length s"
  by (auto simp: eat_word_def split: if_splits)

lemma eat_tag_name_shorter: "eat_tag_name s = Some r \<Longrightarrow> length r \<le> length s"
proof -
  have "length (dropWhile is_a_to_z x) \<le> length x" for x by (rule length_dropWhile_le)
  then show "eat_tag_name s = Some r \<Longrightarrow> length r \<le> length s"
    by (auto simp: eat_tag_name_def dest!: eat_word_shorter split: option.splits list.splits if_splits)
      (meson le_SucI le_trans Suc_leD)+
qed

lemma eat_tag_shorter: "eat_tag s = Some r \<Longrightarrow> length r < length s"
proof -
  assume "eat_tag s = Some r"
  then obtain x r' rest where "dropWhile uspace s = 40 # x" "eat_tag_name (dropWhile uspace x) = Some r'"
      "dropWhile uspace r' = 41 # r"
    by (auto simp: eat_tag_def split: list.splits if_splits option.splits)
  then show ?thesis
    using length_dropWhile_le [of uspace s] length_dropWhile_le [of uspace x] length_dropWhile_le [of uspace r']
      eat_tag_name_shorter by fastforce
qed

text \<open>One or more tags, then white space up to the end.\<close>

function tags_only :: "utext \<Rightarrow> bool" where
  "tags_only s = (case eat_tag s of None \<Rightarrow> False | Some r \<Rightarrow> list_all uspace r \<or> tags_only r)"
  by pat_completeness auto
termination by (relation "measure length") (auto dest: eat_tag_shorter)

declare tags_only.simps [simp del]

text \<open>\<open>sub("", s)\<close>: the leftmost place from which only tags follow is cut off.\<close>

fun cut_tags :: "utext \<Rightarrow> utext" where
  "cut_tags [] = []"
| "cut_tags (c # s) = (if tags_only (c # s) then [] else c # cut_tags s)"

definition strip_ios_filter_suffix :: "utext \<Rightarrow> utext" where
  "strip_ios_filter_suffix raw =
     (let stripped = ustrip (cut_tags raw) in if stripped \<noteq> [] then stripped else ustrip raw)"

definition has_ios_filter_suffix :: "utext \<Rightarrow> bool" where
  "has_ios_filter_suffix raw \<longleftrightarrow> strip_ios_filter_suffix raw \<noteq> ustrip raw"

section \<open>Normal form\<close>

datatype handle_kind = Phone | Email | Unknown

definition normalize_handle ::
  "(utext \<Rightarrow> utext option) \<Rightarrow> (utext \<Rightarrow> utext) \<Rightarrow> utext \<Rightarrow> utext \<times> handle_kind" where
  "normalize_handle phone lower raw =
     (let stripped = strip_ios_filter_suffix (ustrip raw)
      in case phone stripped of
           Some e164 \<Rightarrow> (e164, Phone)
         | None \<Rightarrow> if 64 \<in> set stripped then (lower stripped, Email) else (stripped, Unknown))"

section \<open>A tag changes nothing\<close>

lemma dropWhile_solid: "T \<noteq> [] \<Longrightarrow> \<not> P (hd T) \<Longrightarrow> dropWhile P (z @ T) = dropWhile P z @ T"
  by (cases T) (simp_all add: dropWhile_append3 dropWhile_append)

lemma eat_word_solid: "40 \<notin> set w \<Longrightarrow> eat_word w (y @ 40 # t) = map_option (\<lambda>r. r @ 40 # t) (eat_word w y)"
proof (induction w arbitrary: y)
  case Nil
  then show ?case by (simp add: eat_word_def)
next
  case (Cons a w)
  have step: "eat_word (a # w) (c # z) = (if letter_of c = a then eat_word w z else None)" for c z
    by (simp add: eat_word_def)
  show ?case
  proof (cases y)
    case Nil
    have "letter_of 40 = 40" by (simp add: letter_of_def)
    then show ?thesis using Cons.prems Nil by (simp add: step) (simp add: eat_word_def)
  qed (use Cons in \<open>simp add: step\<close>)
qed

lemma eat_tag_name_solid: "eat_tag_name (y @ 40 # t) = map_option (\<lambda>r. r @ 40 # t) (eat_tag_name y)"
proof -
  have letters: "dropWhile is_a_to_z (z @ 40 # t) = dropWhile is_a_to_z z @ 40 # t" for z
    by (rule dropWhile_solid) (simp_all add: is_a_to_z_def letter_of_def)
  have paren: "\<not> is_a_to_z 40" by (simp add: is_a_to_z_def letter_of_def)
  have names: "40 \<notin> set FILTERED" "40 \<notin> set SMSFT" by (simp_all add: FILTERED_def SMSFT_def)
  have suffix: "(case r @ 40 # t of
        c # r' \<Rightarrow> if c = 95 \<and> r' \<noteq> [] \<and> is_a_to_z (hd r') then Some (dropWhile is_a_to_z r') else Some (r @ 40 # t)
      | [] \<Rightarrow> Some (r @ 40 # t))
    = map_option (\<lambda>r. r @ 40 # t) (case r of
        c # r' \<Rightarrow> if c = 95 \<and> r' \<noteq> [] \<and> is_a_to_z (hd r') then Some (dropWhile is_a_to_z r') else Some r
      | [] \<Rightarrow> Some r)" for r
  proof (cases r)
    case (Cons c r')
    then show ?thesis by (cases r') (simp_all add: letters paren)
  qed simp
  show ?thesis
    unfolding eat_tag_name_def eat_word_solid [OF names(1)] eat_word_solid [OF names(2)]
    by (cases "eat_word FILTERED y"; cases "eat_word SMSFT y") (simp_all add: suffix)
qed

lemma all_spaces: "list_all uspace s \<longleftrightarrow> dropWhile uspace s = []"
  by (auto simp: dropWhile_eq_Nil_conv list_all_iff)

lemma eat_tag_solid:
  "eat_tag (s @ 40 # t) = (if list_all uspace s then eat_tag (40 # t) else map_option (\<lambda>r. r @ 40 # t) (eat_tag s))"
proof -
  have spaces: "dropWhile uspace (z @ 40 # t) = dropWhile uspace z @ 40 # t" for z
    by (rule dropWhile_solid) (simp_all add: uspace_def)
  show ?thesis
  proof (cases "dropWhile uspace s")
    case Nil
    have "dropWhile uspace (40 # t) = 40 # t" by (simp add: uspace_def)
    then have "eat_tag (s @ 40 # t) = eat_tag (40 # t)" by (simp only: eat_tag_def spaces Nil append_Nil)
    then show ?thesis using Nil unfolding all_spaces by simp
  next
    case (Cons c x)
    have close: "(case z @ 40 # t of d # rest \<Rightarrow> if d = 41 then Some rest else None | [] \<Rightarrow> None)
        = map_option (\<lambda>r. r @ 40 # t) (case z of d # rest \<Rightarrow> if d = 41 then Some rest else None | [] \<Rightarrow> None)" for z
      by (cases z) simp_all
    show ?thesis
      using Cons unfolding all_spaces
      by (cases "eat_tag_name (dropWhile uspace x)") (simp_all add: eat_tag_def spaces eat_tag_name_solid close)
  qed
qed

lemma tags_only_solid:
  assumes "eat_tag (40 # t) = Some []"
  shows "tags_only (s @ 40 # t) \<longleftrightarrow> list_all uspace s \<or> tags_only s"
proof (induction "length s" arbitrary: s rule: less_induct)
  case less
  have "\<not> uspace 40" by (simp add: uspace_def)
  then have solid: "\<not> list_all uspace (r @ 40 # t)" for r by simp
  show ?case
  proof (cases "list_all uspace s")
    case True
    then show ?thesis using assms by (simp add: tags_only.simps [of "s @ 40 # t"] eat_tag_solid)
  next
    case False
    show ?thesis
    proof (cases "eat_tag s")
      case None
      then show ?thesis using False by (simp add: tags_only.simps [of "s @ 40 # t"] tags_only.simps [of s] eat_tag_solid)
    next
      case (Some r)
      then show ?thesis
        using False less [OF eat_tag_shorter [OF Some]] solid [of r]
        by (simp add: tags_only.simps [of "s @ 40 # t"] tags_only.simps [of s] eat_tag_solid del: list_all_append)
    qed
  qed
qed

lemma urstrip_Cons: "urstrip (c # s) = (if urstrip s = [] then (if uspace c then [] else [c]) else c # urstrip s)"
  by (auto simp: urstrip_def dropWhile_append dropWhile_eq_Nil_conv)

lemma ustrip_urstrip: "ustrip s = urstrip (dropWhile uspace s)"
  by (simp add: ustrip_def urstrip_def)

lemma urstrip_spaces: "urstrip s = [] \<longleftrightarrow> list_all uspace s"
  by (simp add: urstrip_def all_spaces dropWhile_eq_Nil_conv)

lemma urstrip_drop: "urstrip (dropWhile uspace s) = dropWhile uspace (urstrip s)"
proof (induction s)
  case (Cons c s)
  have "list_all uspace s \<Longrightarrow> dropWhile uspace s = []" by (simp add: all_spaces)
  then show ?case using Cons urstrip_spaces [of s] by (auto simp: urstrip_Cons)
qed (simp add: urstrip_def)

lemma urstrip_cut_tags:
  assumes "eat_tag (40 # t) = Some []"
  shows "urstrip (cut_tags (s @ 40 # t)) = urstrip (cut_tags s)"
proof (induction s)
  case Nil
  then show ?case using tags_only_solid [OF assms, of "[]"] by simp
next
  case (Cons c s)
  have blank: "cut_tags x = x" if "list_all uspace x" for x
    using that
  proof (induction x)
    case (Cons d x)
    have "dropWhile uspace (d # x) = []" using Cons.prems unfolding all_spaces .
    then have "eat_tag (d # x) = None" by (simp only: eat_tag_def list.case)
    then show ?case using Cons by (simp add: tags_only.simps)
  qed simp
  show ?case
  proof (cases "list_all uspace (c # s)")
    case True
    then have "cut_tags ((c # s) @ 40 # t) = []" using tags_only_solid [OF assms, of "c # s"] by simp
    moreover have "urstrip (cut_tags (c # s)) = []" using blank [OF True] True urstrip_spaces by simp
    ultimately show ?thesis by (simp add: urstrip_def)
  next
    case False
    then show ?thesis using tags_only_solid [OF assms, of "c # s"] Cons by (simp add: urstrip_Cons)
  qed
qed

lemma eat_word_suffix: "eat_word w s = Some r \<Longrightarrow> \<exists>p. s = p @ r"
  by (auto simp: eat_word_def split: if_splits) (metis append_take_drop_id)

lemma eat_tag_name_suffix: "eat_tag_name s = Some r \<Longrightarrow> \<exists>p. s = p @ r"
proof -
  have "\<exists>p. x = p @ dropWhile is_a_to_z x" for x by (metis takeWhile_dropWhile_id)
  then show "eat_tag_name s = Some r \<Longrightarrow> \<exists>p. s = p @ r"
    by (auto simp: eat_tag_name_def dest!: eat_word_suffix split: option.splits list.splits if_splits)
      (metis append_Cons append_Nil append_assoc)+
qed

lemma eat_tag_ends: "eat_tag s = Some [] \<Longrightarrow> last s = 41"
proof -
  assume "eat_tag s = Some []"
  then obtain x r' where x: "dropWhile uspace s = 40 # x" and r: "eat_tag_name (dropWhile uspace x) = Some r'"
      "dropWhile uspace r' = [41]"
    by (auto simp: eat_tag_def split: list.splits if_splits option.splits)
  have drop: "\<exists>p. y = p @ dropWhile uspace y" for y by (metis takeWhile_dropWhile_id)
  obtain p q v w where "s = p @ 40 # x" "x = q @ dropWhile uspace x" "dropWhile uspace x = v @ r'" "r' = w @ [41]"
    using drop [of s] drop [of x] drop [of r'] eat_tag_name_suffix [OF r(1)] x r(2) by metis
  then have "s = (p @ 40 # q @ v @ w) @ [41]" by (metis append_Cons append_assoc)
  then show "last s = 41" by (metis last_snoc)
qed

text \<open>
  C13: A tag of iOS's message filter changes no identity: a handle, free of surrounding white space and not
  itself tags only, has the normal form of the same handle with a tag behind it.
\<close>

theorem filtered_sender_is_same_sender:
  assumes "ustrip raw = raw" and "raw \<noteq> []" and "\<not> tags_only raw" and "eat_tag (40 # t) = Some []"
  shows "normalize_handle phone lower (raw @ 40 # t) = normalize_handle phone lower raw"
proof -
  obtain c s where raw: "raw = c # s" using assms(2) by (cases raw) auto
  have c: "\<not> uspace c" using assms(1) ustrip_ends(1) [of raw] raw by (metis hd_Cons_tl list.sel(1) list.simps(3))
  have cut: "ustrip (cut_tags (raw @ 40 # t)) = ustrip (cut_tags raw)"
    unfolding ustrip_urstrip urstrip_drop by (simp only: urstrip_cut_tags [OF assms(4)])
  have "cut_tags raw = c # cut_tags s" using assms(3) raw by simp
  then have ne: "ustrip (cut_tags raw) \<noteq> []" using c by (simp add: ustrip_urstrip urstrip_Cons)
  have "ustrip (raw @ 40 # t) = raw @ 40 # t"
    using c raw eat_tag_ends [OF assms(4)] by (intro ustrip_id) (simp add: uspace_def)
  then show ?thesis using ne cut assms(1)
    by (simp add: normalize_handle_def strip_ios_filter_suffix_def)
qed

theorem filtered_sender_is_same_sender_witness:
  "normalize_handle (\<lambda>s. if list_all (\<lambda>c. c < 58) s then Some s else None) id ([43, 49, 53] @ 40 # SMSFT @ [95, 70, 105, 41])
     = ([43, 49, 53], Phone)"
proof -
  let ?phone = "\<lambda>s :: utext. if list_all (\<lambda>c. c < 58) s then Some s else None"
  have "ustrip [43, 49, 53] = [43, 49, 53]" "\<not> tags_only [43, 49, 53]"
    "eat_tag (40 # SMSFT @ [95, 70, 105, 41]) = Some []" "normalize_handle ?phone id [43, 49, 53] = ([43, 49, 53], Phone)"
    by code_simp+
  then show ?thesis
    using filtered_sender_is_same_sender [of "[43, 49, 53]" "SMSFT @ [95, 70, 105, 41]" ?phone id] by simp
qed

section \<open>Contacts\<close>

record contact_record =
  cr_identifier :: utext
  cr_name :: utext
  cr_organization :: "utext option"
  cr_identifiers :: "(utext \<times> handle_kind) list"

definition UNNAMED_CONTACT_DISPLAY_NAME :: utext where
  "UNNAMED_CONTACT_DISPLAY_NAME = map ord ''Unnamed Contact''"

text \<open>The classes of \<^verbatim>\<open>\w\<close> and the case folding of names.\<close>

record name_rules =
  word_char :: "nat \<Rightarrow> bool"
  casefold :: "utext \<Rightarrow> utext"

definition name_key :: "name_rules \<Rightarrow> utext \<Rightarrow> utext" where
  "name_key nr name =
     casefold nr (join_spaces (usplit (map (\<lambda>c. if word_char nr c \<or> uspace c then c else 32) name)))"

text \<open>\<open>by_name\<close>: the first card of each name, in the order the names are met.\<close>

definition add_name :: "name_rules \<Rightarrow> (utext \<times> contact_record) list \<Rightarrow> contact_record \<Rightarrow> (utext \<times> contact_record) list" where
  "add_name nr named m =
     (let k = name_key nr (cr_name m) in if map_of named k = None then named @ [(k, m)] else named)"

definition tokens :: "utext \<Rightarrow> utext set" where "tokens k = set (usplit k)"

text \<open>The search for the name that contains all others; \<open>None\<close> of the loop is \<open>return None\<close>.\<close>

fun winner_loop :: "utext list \<Rightarrow> utext list \<Rightarrow> utext option \<Rightarrow> utext option option" where
  "winner_loop keys [] winner = Some winner"
| "winner_loop keys (cand # rest) winner =
     (if list_all (\<lambda>other. tokens other \<subseteq> tokens cand) keys then
        (case winner of
           Some w \<Rightarrow> if tokens cand \<noteq> tokens w then None else winner_loop keys rest (Some cand)
         | None \<Rightarrow> winner_loop keys rest (Some cand))
      else winner_loop keys rest winner)"

definition unique_by_name :: "name_rules \<Rightarrow> contact_record list \<Rightarrow> contact_record option" where
  "unique_by_name nr matches =
     (if matches = [] then None
      else
        (let by_name = foldl (add_name nr) [] matches
         in if length by_name = 1 then Some (snd (hd by_name))
            else case winner_loop (map fst by_name) (map fst by_name) None of
              Some (Some w) \<Rightarrow> map_of by_name w
            | _ \<Rightarrow> None))"

text \<open>The cards filed under an identifier, once for each time a card lists it.\<close>

definition cards_of :: "contact_record list \<Rightarrow> utext \<times> handle_kind \<Rightarrow> contact_record list" where
  "cards_of contacts ident = concat (map (\<lambda>c. map (\<lambda>_. c) (filter (\<lambda>i. i = ident) (cr_identifiers c))) contacts)"

datatype match_status = Unmatched | Ambiguous | Matched contact_record

definition contacts_lookup :: "name_rules \<Rightarrow> contact_record list \<Rightarrow> utext \<times> handle_kind \<Rightarrow> match_status" where
  "contacts_lookup nr contacts ident =
     (let matches = cards_of contacts ident
      in if matches = [] then Unmatched
         else case unique_by_name nr matches of None \<Rightarrow> Ambiguous | Some c \<Rightarrow> Matched c)"

definition contact_of :: "match_status \<Rightarrow> contact_record option" where
  "contact_of l = (case l of Matched c \<Rightarrow> Some c | _ \<Rightarrow> None)"

definition find_unique :: "name_rules \<Rightarrow> contact_record list \<Rightarrow> utext \<times> handle_kind \<Rightarrow> contact_record option" where
  "find_unique nr contacts ident = contact_of (contacts_lookup nr contacts ident)"

definition lookup_all :: "name_rules \<Rightarrow> contact_record list \<Rightarrow> (utext \<times> handle_kind) list \<Rightarrow> match_status" where
  "lookup_all nr contacts idents =
     (let lookups = map (contacts_lookup nr contacts) idents; found = List.map_filter contact_of lookups
      in if lookups = [] then Unmatched
         else if Ambiguous \<in> set lookups then Ambiguous
         else if length found < length lookups then Unmatched
         else case unique_by_name nr found of None \<Rightarrow> Ambiguous | Some c \<Rightarrow> Matched c)"

section \<open>Agreement on one person\<close>

definition name_tokens :: "name_rules \<Rightarrow> contact_record \<Rightarrow> utext set" where
  "name_tokens nr c = tokens (name_key nr (cr_name c))"

lemma add_names:
  "map_of (foldl (add_name nr) named matches) k =
     (case map_of named k of Some c \<Rightarrow> Some c | None \<Rightarrow> find (\<lambda>m. name_key nr (cr_name m) = k) matches)"
proof (induction matches arbitrary: named)
  case (Cons m matches)
  then show ?case by (auto simp: add_name_def Let_def map_add_def split: option.split)
qed (simp split: option.split)

lemma named_keys: "fst ` set (foldl (add_name nr) [] matches) = (\<lambda>m. name_key nr (cr_name m)) ` set matches"
proof -
  have "k \<in> fst ` set (foldl (add_name nr) [] matches) \<longleftrightarrow> map_of (foldl (add_name nr) [] matches) k \<noteq> None" for k
    by (simp add: map_of_eq_None_iff)
  then show ?thesis unfolding set_eq_iff by (auto simp: add_names find_None_iff image_iff)
qed

definition containing :: "utext list \<Rightarrow> utext \<Rightarrow> bool" where
  "containing keys v \<longleftrightarrow> v \<in> set keys \<and> (\<forall>k \<in> set keys. tokens k \<subseteq> tokens v)"

lemma winner_exists:
  assumes "set rest \<subseteq> set keys" and "\<forall>v. w = Some v \<longrightarrow> containing keys v"
  shows "\<exists>r. winner_loop keys rest w = Some r \<and> (\<forall>v. r = Some v \<longrightarrow> containing keys v)
     \<and> (r = None \<longleftrightarrow> w = None \<and> \<not> (\<exists>v \<in> set rest. containing keys v))"
  using assms
proof (induction rest arbitrary: w)
  case (Cons c rest)
  show ?case
  proof (cases "containing keys c")
    case True
    then have all: "list_all (\<lambda>other. tokens other \<subseteq> tokens c) keys" by (simp add: containing_def list_all_iff)
    have "tokens c = tokens v" if "w = Some v" for v
      using True Cons.prems(2) that unfolding containing_def by blast
    then have "winner_loop keys (c # rest) w = winner_loop keys rest (Some c)" using all by (cases w) auto
    then show ?thesis using Cons.IH [of "Some c"] Cons.prems(1) True by auto
  next
    case False
    then have "\<not> list_all (\<lambda>other. tokens other \<subseteq> tokens c) keys"
      using Cons.prems(1) by (auto simp: containing_def list_all_iff)
    then have "winner_loop keys (c # rest) w = winner_loop keys rest w" by simp
    then show ?thesis using Cons.IH [of w] Cons.prems False by auto
  qed
qed (use assms in auto)

lemma containing_names:
  "(\<exists>v. containing (map fst (foldl (add_name nr) [] ms)) v)
     \<longleftrightarrow> (\<exists>c \<in> set ms. \<forall>m \<in> set ms. name_tokens nr m \<subseteq> name_tokens nr c)"
  unfolding containing_def set_map named_keys name_tokens_def by auto

lemma named_card:
  assumes "map_of (foldl (add_name nr) [] ms) k = Some c"
  shows "c \<in> set ms \<and> name_key nr (cr_name c) = k"
proof -
  have "find (\<lambda>m. name_key nr (cr_name m) = k) ms = Some c" using assms by (simp add: add_names)
  then show ?thesis by (auto simp: find_Some_iff)
qed

text \<open>
  C14: Cards name one person exactly when one of them carries every word of every other's name; the card
  chosen is such a card, so the order in which the address book yields them decides nothing but which of
  several spellings with the same words is taken.
\<close>

theorem contact_agreement:
  "(case unique_by_name nr ms of
      None \<Rightarrow> \<not> (\<exists>c \<in> set ms. \<forall>m \<in> set ms. name_tokens nr m \<subseteq> name_tokens nr c)
    | Some c \<Rightarrow> c \<in> set ms \<and> (\<forall>m \<in> set ms. name_tokens nr m \<subseteq> name_tokens nr c))"
proof (cases "ms = []")
  case True
  then show ?thesis by (simp add: unique_by_name_def)
next
  case False
  let ?named = "foldl (add_name nr) [] ms" and ?keys = "map fst (foldl (add_name nr) [] ms)"
  have keys: "set ?keys = (\<lambda>m. name_key nr (cr_name m)) ` set ms" by (simp only: set_map named_keys)
  have good: "c \<in> set ms \<and> (\<forall>m \<in> set ms. name_tokens nr m \<subseteq> name_tokens nr c)"
    if "map_of ?named v = Some c" "containing ?keys v" for v c
    using named_card [OF that(1)] that(2) unfolding containing_def keys name_tokens_def by auto
  show ?thesis
  proof (cases "length ?named = 1")
    case True
    then obtain k c where one: "?named = [(k, c)]" by (cases ?named) auto
    have c: "c \<in> set ms \<and> name_key nr (cr_name c) = k" by (rule named_card) (simp add: one)
    have "name_key nr (cr_name m) = k" if "m \<in> set ms" for m using keys that one by auto
    then have "\<forall>m \<in> set ms. name_tokens nr m \<subseteq> name_tokens nr c" using c by (simp add: name_tokens_def)
    then show ?thesis using False c by (simp add: unique_by_name_def one)
  next
    case many: False
    obtain r where r: "winner_loop ?keys ?keys None = Some r" "\<forall>v. r = Some v \<longrightarrow> containing ?keys v"
        "r = None \<longleftrightarrow> \<not> (\<exists>v \<in> set ?keys. containing ?keys v)"
      using winner_exists [of ?keys ?keys None] by auto
    show ?thesis
    proof (cases r)
      case None
      then have "\<not> (\<exists>v. containing ?keys v)" using r(3) by (auto simp: containing_def)
      then show ?thesis using False many r(1) None containing_names [of nr ms] by (simp add: unique_by_name_def Let_def)
    next
      case (Some v)
      then have v: "containing ?keys v" using r(2) by simp
      then have "map_of ?named v \<noteq> None" by (simp add: containing_def map_of_eq_None_iff)
      then obtain c where "map_of ?named v = Some c" by blast
      then show ?thesis using False many r(1) Some good [OF _ v] by (simp add: unique_by_name_def Let_def)
    qed
  qed
qed

theorem contact_agreement_witness:
  "let nr = \<lparr>word_char = (\<lambda>c. c \<noteq> 46), casefold = id\<rparr>;
       card = (\<lambda>name. \<lparr>cr_identifier = [1], cr_name = name, cr_organization = None, cr_identifiers = []\<rparr>);
       ms = [card [65], card [66, 46, 65]]
   in unique_by_name nr ms = Some (card [66, 46, 65])
      \<and> (\<forall>m \<in> set ms. name_tokens nr m \<subseteq> name_tokens nr (card [66, 46, 65]))"
proof -
  let ?nr = "\<lparr>word_char = (\<lambda>c. c \<noteq> 46), casefold = id\<rparr> :: name_rules"
  let ?card = "\<lambda>name. \<lparr>cr_identifier = [1], cr_name = name, cr_organization = None, cr_identifiers = []\<rparr>"
  have "unique_by_name ?nr [?card [65], ?card [66, 46, 65]] = Some (?card [66, 46, 65])" by code_simp
  then show ?thesis using contact_agreement [of "[?card [65], ?card [66, 46, 65]]" ?nr] by (simp add: Let_def)
qed

section \<open>Short names\<close>

text \<open>\<open>sub("-", s)\<close> of a run of characters outside the class, then \<open>strip("-")\<close>.\<close>

fun dashed :: "bool \<Rightarrow> utext \<Rightarrow> utext" where
  "dashed inside [] = []"
| "dashed inside (c # s) =
     (if 97 \<le> c \<and> c \<le> 122 \<or> 48 \<le> c \<and> c \<le> 57 then c # dashed False s
      else if inside then dashed True s else 45 # dashed True s)"

definition slugify :: "(utext \<Rightarrow> utext) \<Rightarrow> utext \<Rightarrow> utext" where
  "slugify nfkd value =
     (let ascii = filter (\<lambda>c. c < 128) (nfkd value);
          low = map (\<lambda>c. if 65 \<le> c \<and> c \<le> 90 then c + 32 else c) ascii;
          trim = dropWhile (\<lambda>c. c = 45);
          slug = rev (trim (rev (trim (dashed False low))))
      in if slug \<noteq> [] then slug else map ord ''person'')"

text \<open>The candidates of the loop: the slug, then \<open>slug-2\<close>, \<open>slug-3\<close> and so on.\<close>

definition slug_candidate :: "utext \<Rightarrow> nat \<Rightarrow> utext" where
  "slug_candidate slug n = (if n < 2 then slug else slug @ 45 # map ord (nat_str n))"

lemma slug_candidate_inj: "1 \<le> m \<Longrightarrow> 1 \<le> n \<Longrightarrow> slug_candidate slug m = slug_candidate slug n \<Longrightarrow> m = n"
proof -
  have "inj ord" by (rule injI) (simp add: ord_def)
  then have "map ord s = map ord t \<longleftrightarrow> s = t" for s t by (simp add: inj_map_eq_map)
  then show "1 \<le> m \<Longrightarrow> 1 \<le> n \<Longrightarrow> slug_candidate slug m = slug_candidate slug n \<Longrightarrow> m = n"
    by (auto simp: slug_candidate_def nat_str_inj split: if_splits)
qed

lemma taken_candidates_finite: "finite {m. 1 \<le> m \<and> slug_candidate slug m \<in> set taken}"
proof -
  have "inj_on (slug_candidate slug) {m. 1 \<le> m}"
    by (rule inj_onI) (rule slug_candidate_inj, simp_all only: mem_Collect_eq)
  then have "finite (slug_candidate slug -` set taken \<inter> {m. 1 \<le> m})" by (intro finite_vimage_IntI) simp_all
  moreover have "slug_candidate slug -` set taken \<inter> {m. 1 \<le> m} = {m. 1 \<le> m \<and> slug_candidate slug m \<in> set taken}" by auto
  ultimately show ?thesis by simp
qed

function free_slug :: "utext list \<Rightarrow> utext \<Rightarrow> nat \<Rightarrow> utext" where
  "free_slug taken slug n =
     (if slug_candidate slug (Suc n) \<in> set taken then free_slug taken slug (Suc n) else slug_candidate slug (Suc n))"
  by pat_completeness auto
termination
proof (relation "measure (\<lambda>(taken, slug, n). card {m. n < m \<and> slug_candidate slug m \<in> set taken})", simp, unfold in_measure split)
  fix taken slug n
  assume "slug_candidate slug (Suc n) \<in> set taken"
  then have "{m. Suc n < m \<and> slug_candidate slug m \<in> set taken} \<subset> {m. n < m \<and> slug_candidate slug m \<in> set taken}"
    by (auto simp: psubset_eq)
  moreover have "finite {m. n < m \<and> slug_candidate slug m \<in> set taken}"
    by (rule finite_subset [OF _ taken_candidates_finite [of slug taken]]) auto
  ultimately show "card {m. Suc n < m \<and> slug_candidate slug m \<in> set taken} < card {m. n < m \<and> slug_candidate slug m \<in> set taken}"
    by (simp add: psubset_card_mono)
qed

declare free_slug.simps [simp del]

lemma free_slug_is_free: "free_slug taken slug n \<notin> set taken"
  by (induction taken slug n rule: free_slug.induct) (subst free_slug.simps, simp)

definition unique_short_name :: "(utext \<Rightarrow> utext) \<Rightarrow> utext list \<Rightarrow> utext \<Rightarrow> utext" where
  "unique_short_name nfkd taken base = free_slug taken (slugify nfkd base) 0"

lemma unique_short_name_free: "unique_short_name nfkd taken base \<notin> set taken"
  by (simp add: unique_short_name_def free_slug_is_free)

end
