(* ===== verification/Identity.thy ===== *)
theory Identity
  imports Eligibility Handle_Names
begin

text \<open>
  Identity resolution (\<^verbatim>\<open>stages/identity.py\<close>): raw handles to canonical handles to people, the
  attribution of messages, tapbacks and chat members, the report segmentation waits for, and the manual
  curation: merge, rename and assign. The tables are those of the eligibility engine with the columns this
  stage reads besides; \<open>now\<close> is the time of the transaction, and every update of a message row sets its
  \<open>updated_at\<close> to it, as the trigger of migration 3 does.
\<close>

section \<open>The tables\<close>

record roster_person = person_row +
  pp_display :: utext
  pp_short :: utext
  pp_organization :: "utext option"
  pp_review :: bool
  pp_notes :: "utext option"

record roster_handle = handle_row +
  rh_value :: utext
  rh_kind :: handle_kind

record roster_message = message_row +
  rm_source :: "int option"
  rm_updated :: int

record roster_tapback = tapback_row +
  rt_source :: "int option"

record roster =
  people :: "roster_person list"
  raw_handles :: "(int \<times> utext) list"
  known_handles :: "roster_handle list"
  resolved :: "resolution_row list"
  posts :: "roster_message list"
  reacts :: "roster_tapback list"
  members :: "participant_row list"
  raw_members :: "source_participant_row list"
  allowed_people :: "allow_row list"
  rooms :: "chat_row list"
  next_person :: int
  next_handle :: int

text \<open>What the eligibility engine sees of it.\<close>

definition roster_db :: "roster \<Rightarrow> db" where
  "roster_db r =
     \<lparr>persons = map person_row.truncate (people r), chats = rooms r, participants = members r,
      source_participants = raw_members r, resolutions = resolved r,
      handles = map handle_row.truncate (known_handles r), allowlist = allowed_people r,
      messages = map message_row.truncate (posts r), tapbacks = map tapback_row.truncate (reacts r),
      segment_messages = [], message_attachments = [], classifications = []\<rparr>"

text \<open>The errors raised here, and the violation of \<^verbatim>\<open>UNIQUE (short_name)\<close> a rename may meet.\<close>

datatype identity_error = IdentityError string | UniqueViolation

section \<open>People and handles\<close>

definition lookup_handle :: "roster \<Rightarrow> utext \<times> handle_kind \<Rightarrow> (int \<times> int) option" where
  "lookup_handle r ident =
     map_option (\<lambda>h. (handle_key h, handle_person h))
       (find (\<lambda>h. (rh_value h, rh_kind h) = ident) (known_handles r))"

definition insert_person ::
  "(utext \<Rightarrow> utext) \<Rightarrow> roster \<Rightarrow> utext \<Rightarrow> utext \<Rightarrow> bool \<Rightarrow> utext option \<Rightarrow> utext option \<Rightarrow> bool \<Rightarrow> int \<times> roster" where
  "insert_person nfkd r base display owner organization note review =
     (next_person r,
      r\<lparr>people := people r @
          [\<lparr>person_id = next_person r, is_owner = owner, pp_display = display,
            pp_short = unique_short_name nfkd (map pp_short (people r)) base,
            pp_organization = organization, pp_review = review, pp_notes = note\<rparr>],
        next_person := next_person r + 1\<rparr>)"

definition create_person ::
  "(utext \<Rightarrow> utext) \<Rightarrow> roster \<Rightarrow> utext \<Rightarrow> utext option \<Rightarrow> utext option \<Rightarrow> bool \<Rightarrow> int \<times> roster" where
  "create_person nfkd r display organization note review =
     insert_person nfkd r display display False organization note review"

definition STUB_NOTE :: utext where
  "STUB_NOTE = map ord ''auto-created review stub '' @ [0x2014]
     @ map ord '' zero or multiple Contacts matches (or Contacts unavailable)''"

record identity_rules = name_rules +
  read_phone :: "utext \<Rightarrow> utext option"
  lower_text :: "utext \<Rightarrow> utext"
  nfkd_text :: "utext \<Rightarrow> utext"

text \<open>\<open>None\<close>: no contacts index.\<close>

definition find_or_create_person ::
  "identity_rules \<Rightarrow> contact_record list option \<Rightarrow> roster \<Rightarrow> utext \<times> handle_kind \<Rightarrow> int \<times> roster" where
  "find_or_create_person ir contacts r ident =
     (case Option.bind contacts (\<lambda>cs. find_unique (name_rules.truncate ir) cs ident) of
        Some c \<Rightarrow>
          (case List.map_filter (\<lambda>i. if i = ident then None else map_option snd (lookup_handle r i)) (cr_identifiers c) of
             p # _ \<Rightarrow> (p, r)
           | [] \<Rightarrow> create_person (nfkd_text ir) r (cr_name c) (cr_organization c) None False)
      | None \<Rightarrow> create_person (nfkd_text ir) r (fst ident) None (Some STUB_NOTE) True)"

definition resolve_owner_person :: "identity_rules \<Rightarrow> roster \<Rightarrow> int \<times> roster" where
  "resolve_owner_person ir r =
     (case filter is_owner (people r) of
        p # _ \<Rightarrow> (person_id p, r)
      | [] \<Rightarrow> insert_person (nfkd_text ir) r (map ord ''owner'') (map ord ''Me'') True None None False)"

definition put_resolution :: "int \<Rightarrow> int \<Rightarrow> roster \<Rightarrow> roster" where
  "put_resolution s h r =
     r\<lparr>resolved :=
         (if s \<in> res_source_handle ` set (resolved r)
          then map (\<lambda>x. if res_source_handle x = s then x\<lparr>res_handle := h\<rparr> else x) (resolved r)
          else resolved r @ [\<lparr>res_source_handle = s, res_handle = h\<rparr>])\<rparr>"

definition insert_handle :: "int \<Rightarrow> utext \<times> handle_kind \<Rightarrow> roster \<Rightarrow> int \<times> roster" where
  "insert_handle p ident r =
     (next_handle r,
      r\<lparr>known_handles := known_handles r @
          [\<lparr>handle_key = next_handle r, handle_person = p, rh_value = fst ident, rh_kind = snd ident\<rparr>],
        next_handle := next_handle r + 1\<rparr>)"

text \<open>One turn of the loop over the unresolved raw handles; the number counts the handles created.\<close>

definition resolve_raw_handle ::
  "identity_rules \<Rightarrow> contact_record list option \<Rightarrow> nat \<times> roster \<Rightarrow> int \<times> utext \<Rightarrow> nat \<times> roster" where
  "resolve_raw_handle ir contacts acc raw =
     (let (created, r) = acc; ident = normalize_handle (read_phone ir) (lower_text ir) (snd raw)
      in case lookup_handle r ident of
           Some (h, _) \<Rightarrow> (created, put_resolution (fst raw) h r)
         | None \<Rightarrow>
             (let (p, r1) = find_or_create_person ir contacts r ident; (h, r2) = insert_handle p ident r1
              in (Suc created, put_resolution (fst raw) h r2)))"

definition unresolved_raw :: "roster \<Rightarrow> (int \<times> utext) list" where
  "unresolved_raw r = filter (\<lambda>(s, _). s \<notin> res_source_handle ` set (resolved r)) (raw_handles r)"

section \<open>Attribution\<close>

text \<open>The person of a raw handle, through its resolution and its handle.\<close>

definition person_of_source :: "roster \<Rightarrow> int \<Rightarrow> int option" where
  "person_of_source r s =
     Option.bind (find (\<lambda>x. res_source_handle x = s) (resolved r))
       (\<lambda>x. map_option handle_person (find (\<lambda>h. handle_key h = res_handle x) (known_handles r)))"

definition attribute_message :: "roster \<Rightarrow> int \<Rightarrow> int \<Rightarrow> roster_message \<Rightarrow> roster_message" where
  "attribute_message r owner now m =
     (let m1 = (if from_me m \<and> sender_person m = None then m\<lparr>sender_person := Some owner, rm_updated := now\<rparr> else m)
      in case Option.bind (rm_source m1) (person_of_source r) of
           Some p \<Rightarrow> if sender_person m1 = None then m1\<lparr>sender_person := Some p, rm_updated := now\<rparr> else m1
         | None \<Rightarrow> m1)"

definition attribute_tapback :: "roster \<Rightarrow> int \<Rightarrow> roster_tapback \<Rightarrow> roster_tapback" where
  "attribute_tapback r owner t =
     (let t1 = (if tap_from_me t \<and> tap_sender t = None then t\<lparr>tap_sender := Some owner\<rparr> else t)
      in case Option.bind (rt_source t1) (person_of_source r) of
           Some p \<Rightarrow> if tap_sender t1 = None then t1\<lparr>tap_sender := Some p\<rparr> else t1
         | None \<Rightarrow> t1)"

text \<open>\<^verbatim>\<open>INSERT ... SELECT DISTINCT ... ON CONFLICT DO NOTHING\<close>: the rows that were not there.\<close>

definition new_members :: "participant_row list \<Rightarrow> participant_row list \<Rightarrow> participant_row list" where
  "new_members old rows = filter (\<lambda>x. x \<notin> set old) (remdups rows)"

definition source_members :: "roster \<Rightarrow> participant_row list" where
  "source_members r =
     List.map_filter
       (\<lambda>sp. map_option (\<lambda>p. \<lparr>part_chat = sp_chat sp, part_person = p\<rparr>) (person_of_source r (sp_source_handle sp)))
       (raw_members r)"

definition owner_members :: "roster \<Rightarrow> int \<Rightarrow> participant_row list" where
  "owner_members r owner =
     map (\<lambda>m. \<lparr>part_chat = msg_chat m, part_person = owner\<rparr>) (filter from_me (posts r))"

section \<open>The report\<close>

record invariant_report =
  unresolved_message_senders :: nat
  unresolved_tapback_senders :: nat
  unresolved_chat_participants :: nat
  owner_person_count :: nat

definition report_ok :: "invariant_report \<Rightarrow> bool" where
  "report_ok p \<longleftrightarrow>
     unresolved_message_senders p = 0 \<and> unresolved_tapback_senders p = 0
     \<and> unresolved_chat_participants p = 0 \<and> owner_person_count p = 1"

definition compute_invariant_report :: "roster \<Rightarrow> invariant_report" where
  "compute_invariant_report r =
     \<lparr>unresolved_message_senders = length (filter (\<lambda>m. sender_person m = None) (posts r)),
      unresolved_tapback_senders = length (filter (\<lambda>t. \<not> tap_from_me t \<and> tap_sender t = None) (reacts r)),
      unresolved_chat_participants =
        length (filter (\<lambda>sp. sp_source_handle sp \<notin> res_source_handle ` set (resolved r)) (raw_members r)),
      owner_person_count = length (filter is_owner (people r))\<rparr>"

fun join_problems :: "string list \<Rightarrow> string" where
  "join_problems [] = []"
| "join_problems [p] = p"
| "join_problems (p # ps) = p @ ''; '' @ join_problems ps"

definition assert_invariant_or_raise :: "invariant_report \<Rightarrow> identity_error + unit" where
  "assert_invariant_or_raise p =
     (if report_ok p then Inr ()
      else Inl (IdentityError
        (''identity resolution invariant failed '' @ utf8 [0x2014] @ '' S4 must not run until this is clean: ''
         @ join_problems
             ((if unresolved_message_senders p \<noteq> 0
               then [nat_str (unresolved_message_senders p) @ '' message(s) with unresolved sender_person_id''] else [])
              @ (if unresolved_tapback_senders p \<noteq> 0
                 then [nat_str (unresolved_tapback_senders p) @ '' non-owner tapback(s) with unresolved sender''] else [])
              @ (if unresolved_chat_participants p \<noteq> 0
                 then [nat_str (unresolved_chat_participants p) @ '' chat participant(s) with unresolved handle''] else [])
              @ (if owner_person_count p \<noteq> 1
                 then [''expected exactly one owner person, found '' @ nat_str (owner_person_count p)] else [])))))"

section \<open>The run\<close>

record contacts_outcome =
  co_attempted :: bool
  co_loaded :: nat
  co_degraded :: bool
  co_reason :: "string option"

record identity_result =
  handles_processed :: nat
  persons_created :: int
  handles_created :: nat
  messages_resolved :: nat
  tapbacks_resolved :: nat
  participants_resolved :: nat
  contacts_import :: contacts_outcome
  invariant :: invariant_report
  was_dry_run :: bool

definition attribute_all :: "int \<Rightarrow> int \<Rightarrow> roster \<Rightarrow> roster" where
  "attribute_all owner now r =
     r\<lparr>posts := map (attribute_message r owner now) (posts r), reacts := map (attribute_tapback r owner) (reacts r)\<rparr>"

definition run_identity_body ::
  "identity_rules \<Rightarrow> contact_record list option \<Rightarrow> contacts_outcome \<Rightarrow> int \<Rightarrow> roster \<Rightarrow> identity_result \<times> roster" where
  "run_identity_body ir contacts outcome now r =
     (let (owner, r0) = resolve_owner_person ir r;
          unresolved = unresolved_raw r0;
          before = length (people r0);
          (created, r1) = foldl (resolve_raw_handle ir contacts) (0, r0) unresolved;
          r2 = attribute_all owner now r1;
          joined = new_members (members r2) (source_members r2);
          r3 = r2\<lparr>members := members r2 @ joined\<rparr>;
          r4 = r3\<lparr>members := members r3 @ new_members (members r3) (owner_members r3 owner)\<rparr>
      in (\<lparr>handles_processed = length unresolved,
           persons_created = int (length (people r1)) - int before,
           handles_created = created,
           messages_resolved = length (filter (\<lambda>m. sender_person m \<noteq> None) (posts r4)),
           tapbacks_resolved = length (filter (\<lambda>t. tap_sender t \<noteq> None) (reacts r4)),
           participants_resolved = length joined,
           contacts_import = outcome, invariant = compute_invariant_report r4, was_dry_run = False\<rparr>,
          r4))"

text \<open>\<open>Inl\<close>: Contacts access is denied, with the reason. A dry run's transaction is rolled back.\<close>

definition run_identity ::
  "identity_rules \<Rightarrow> bool \<Rightarrow> string + contact_record list \<Rightarrow> bool \<Rightarrow> int \<Rightarrow> roster \<Rightarrow> identity_result \<times> roster" where
  "run_identity ir import importer dry now r =
     (let (contacts, outcome) =
            (if \<not> import then (None, \<lparr>co_attempted = False, co_loaded = 0, co_degraded = False, co_reason = None\<rparr>)
             else case importer of
               Inr cs \<Rightarrow> (Some cs, \<lparr>co_attempted = True, co_loaded = length cs, co_degraded = False, co_reason = None\<rparr>)
             | Inl why \<Rightarrow> (None, \<lparr>co_attempted = True, co_loaded = 0, co_degraded = True, co_reason = Some why\<rparr>));
          (result, r') = run_identity_body ir contacts outcome now r
      in if dry then (result\<lparr>was_dry_run := True\<rparr>, r) else (result, r'))"

section \<open>Curation\<close>

text \<open>The chats whose rendered segments name any of these people; all their messages are touched.\<close>

definition naming_chats :: "roster \<Rightarrow> int list \<Rightarrow> int list" where
  "naming_chats r ids =
     sort (remdups
       (map (part_chat \<circ> fst)
          (filter (\<lambda>(cp, p). part_person cp \<in> set ids \<and> \<not> is_owner p)
            (inner_join (\<lambda>cp p. person_id p = part_person cp) (members r) (people r)))
        @ map msg_chat (filter (\<lambda>m. (\<exists>p \<in> set ids. sender_person m = Some p) \<and> \<not> from_me m) (posts r))
        @ map (msg_chat \<circ> snd)
          (filter (\<lambda>(t, m). (\<exists>p \<in> set ids. tap_sender t = Some p) \<and> \<not> tap_from_me t)
            (inner_join (\<lambda>t m. target_message t = Some (message_key m)) (reacts r) (posts r)))))"

definition mark_chats_dirty :: "int \<Rightarrow> roster \<Rightarrow> int list \<Rightarrow> int list \<times> roster" where
  "mark_chats_dirty now r ids =
     (let chats = naming_chats r (sort (remdups ids))
      in (chats,
          r\<lparr>posts := map (\<lambda>m. if msg_chat m \<in> set chats \<and> rm_updated m < now then m\<lparr>rm_updated := now\<rparr> else m) (posts r)\<rparr>))"

definition merged_allowlist :: "int \<Rightarrow> int \<Rightarrow> allow_row list \<Rightarrow> allow_row list" where
  "merged_allowlist keep absorb rows =
     filter (\<lambda>a. allow_person a \<noteq> absorb)
       (map (\<lambda>a. case find (\<lambda>b. allow_person b = absorb) rows of
             Some b \<Rightarrow>
               if allow_person a = keep
               then a\<lparr>text_allowed := text_allowed a \<and> text_allowed b,
                       attachments_allowed := attachments_allowed a \<and> attachments_allowed b\<rparr>
               else a
           | None \<Rightarrow> a) rows)"

definition merge_rows :: "int \<Rightarrow> int \<Rightarrow> int \<Rightarrow> roster \<Rightarrow> roster" where
  "merge_rows now keep absorb r =
     r\<lparr>known_handles := map (\<lambda>h. if handle_person h = absorb then h\<lparr>handle_person := keep\<rparr> else h) (known_handles r),
       posts := map (\<lambda>m. if sender_person m = Some absorb then m\<lparr>sender_person := Some keep, rm_updated := now\<rparr> else m) (posts r),
       reacts := map (\<lambda>t. if tap_sender t = Some absorb then t\<lparr>tap_sender := Some keep\<rparr> else t) (reacts r),
       members := filter (\<lambda>cp. part_person cp \<noteq> absorb)
         (members r @ new_members (members r)
            (map (\<lambda>cp. \<lparr>part_chat = part_chat cp, part_person = keep\<rparr>)
              (filter (\<lambda>cp. part_person cp = absorb) (members r)))),
       allowed_people := merged_allowlist keep absorb (allowed_people r),
       people := filter (\<lambda>p. person_id p \<noteq> absorb) (people r)\<rparr>"

definition merge_persons :: "int \<Rightarrow> int \<Rightarrow> int \<Rightarrow> roster \<Rightarrow> identity_error + (int list \<times> roster)" where
  "merge_persons now keep absorb r =
     (let rows = filter (\<lambda>p. person_id p \<in> {keep, absorb}) (people r)
      in if keep = absorb then Inl (IdentityError ''cannot merge a person into themselves'')
         else if length rows \<noteq> 2 then
           Inl (IdentityError (''one or both person_ids not found: '' @ py_str_int keep @ '', '' @ py_str_int absorb))
         else if list_ex is_owner rows then
           Inl (IdentityError (''refusing to merge: one side is the singleton owner person '' @ utf8 [0x2014]
             @ '' the owner identity is not part of ordinary merge flow''))
         else Inr (mark_chats_dirty now (merge_rows now keep absorb r) [keep]))"

definition rename_rows :: "int \<Rightarrow> utext \<Rightarrow> utext option \<Rightarrow> bool \<Rightarrow> roster \<Rightarrow> roster" where
  "rename_rows p display short mark_reviewed r =
     r\<lparr>people := map
         (\<lambda>x. if person_id x = p
              then x\<lparr>pp_display := display, pp_short := (case short of None \<Rightarrow> pp_short x | Some s \<Rightarrow> s),
                     pp_review := (if mark_reviewed then False else pp_review x)\<rparr>
              else x) (people r)\<rparr>"

definition rename_person ::
  "int \<Rightarrow> int \<Rightarrow> utext \<Rightarrow> utext option \<Rightarrow> bool \<Rightarrow> bool \<Rightarrow> roster \<Rightarrow> identity_error + (int list \<times> roster)" where
  "rename_person now p display short mark_reviewed allow_owner r =
     (case find (\<lambda>x. person_id x = p) (people r) of
        None \<Rightarrow> Inl (IdentityError (''person_id '' @ py_str_int p @ '' not found''))
      | Some row \<Rightarrow>
          if is_owner row \<and> \<not> allow_owner then
            Inl (IdentityError (''refusing to rename person '' @ py_str_int p @ '': it is the singleton owner person, ''
              @ ''which merge, apply-overrides and rematch-stubs never touch '' @ utf8 [0x2014]
              @ '' pass --yes-owner (allow_owner=True) to rename it deliberately''))
          else if (\<exists>x \<in> set (people r). person_id x \<noteq> p \<and> short = Some (pp_short x)) then Inl UniqueViolation
          else Inr (mark_chats_dirty now (rename_rows p display short mark_reviewed r) [p]))"

definition assign_rows :: "int \<Rightarrow> int \<Rightarrow> int \<Rightarrow> roster \<Rightarrow> roster" where
  "assign_rows now h p r =
     (let sources = map res_source_handle (filter (\<lambda>x. res_handle x = h) (resolved r));
          from = (\<lambda>s. \<exists>x \<in> set sources. s = Some x)
      in r\<lparr>known_handles := map (\<lambda>x. if handle_key x = h then x\<lparr>handle_person := p\<rparr> else x) (known_handles r),
           posts := map (\<lambda>m. if from (rm_source m) then m\<lparr>sender_person := Some p, rm_updated := now\<rparr> else m) (posts r),
           reacts := map (\<lambda>t. if from (rt_source t) then t\<lparr>tap_sender := Some p\<rparr> else t) (reacts r),
           members := members r @ new_members (members r)
             (map (\<lambda>sp. \<lparr>part_chat = sp_chat sp, part_person = p\<rparr>)
               (filter (\<lambda>sp. sp_source_handle sp \<in> set sources) (raw_members r)))\<rparr>)"

definition assign_handle ::
  "int \<Rightarrow> utext \<times> handle_kind \<Rightarrow> int \<Rightarrow> roster \<Rightarrow> identity_error + (int list \<times> roster)" where
  "assign_handle now ident p r =
     (if p \<notin> person_id ` set (people r) then Inl (IdentityError (''person_id '' @ py_str_int p @ '' not found''))
      else case lookup_handle r ident of
        None \<Rightarrow> Inl (IdentityError (''no handle found for '' @ utf8 (fst ident)))
      | Some (h, previous) \<Rightarrow> Inr (mark_chats_dirty now (assign_rows now h p r) [previous, p]))"

end
