(* ===== verification/Attribution.thy ===== *)
theory Attribution
  imports Identity
begin

text \<open>
  What identity resolution keeps: the keys of its tables, that a raw handle is filed under its normal
  form, and that a message is attributed to the person its raw handle resolves to. Runs of extraction,
  resolution and curation are an inductive relation that carries the set of the messages whose raw handle or
  direction extraction replaced after they had a sender; the three are invariants of it, the last but for
  that set.
\<close>

section \<open>The invariants\<close>

definition wf_roster :: "roster \<Rightarrow> bool" where
  "wf_roster r \<longleftrightarrow>
     distinct (map person_id (people r)) \<and> (\<forall>p \<in> set (people r). person_id p < next_person r)
     \<and> distinct (map pp_short (people r)) \<and> length (filter is_owner (people r)) \<le> 1
     \<and> distinct (map handle_key (known_handles r)) \<and> (\<forall>h \<in> set (known_handles r). handle_key h < next_handle r)
     \<and> (\<forall>h \<in> set (known_handles r). handle_person h \<in> person_id ` set (people r))
     \<and> distinct (map (\<lambda>h. (rh_value h, rh_kind h)) (known_handles r))
     \<and> distinct (map res_source_handle (resolved r))
     \<and> (\<forall>x \<in> set (resolved r). res_handle x \<in> handle_key ` set (known_handles r))
     \<and> (\<forall>x \<in> set (resolved r). res_source_handle x \<in> fst ` set (raw_handles r))
     \<and> distinct (map fst (raw_handles r))"

definition normal_handles :: "identity_rules \<Rightarrow> roster \<Rightarrow> bool" where
  "normal_handles ir r \<longleftrightarrow>
     (\<forall>x \<in> set (resolved r). \<forall>raw. (res_source_handle x, raw) \<in> set (raw_handles r)
        \<longrightarrow> (\<exists>h \<in> set (known_handles r). handle_key h = res_handle x
              \<and> (rh_value h, rh_kind h) = normalize_handle (read_phone ir) (lower_text ir) raw))"

definition attributed :: "int set \<Rightarrow> roster \<Rightarrow> bool" where
  "attributed M r \<longleftrightarrow>
     (\<forall>m \<in> set (posts r). \<forall>s. message_key m \<notin> M \<and> \<not> from_me m \<and> rm_source m = Some s \<and> sender_person m \<noteq> None
        \<longrightarrow> person_of_source r s = sender_person m)"

lemma find_append: "find P (xs @ ys) = (case find P xs of None \<Rightarrow> find P ys | Some x \<Rightarrow> Some x)"
  by (induction xs) auto

lemma find_key:
  assumes "distinct (map f xs)" and "x \<in> set xs"
  shows "find (\<lambda>y. f y = f x) xs = Some x"
  using assms by (induction xs) (auto simp: rev_image_eqI)

lemma find_map_same: "(\<And>x. P (f x) = P x) \<Longrightarrow> find P (map f xs) = map_option f (find P xs)"
  by (induction xs) auto

text \<open>What a source's person depends on.\<close>

lemma person_of_source_cong:
  "resolved r' = resolved r \<Longrightarrow> known_handles r' = known_handles r \<Longrightarrow> person_of_source r' = person_of_source r"
  by (rule ext) (simp add: person_of_source_def)

lemma person_of_resolution:
  assumes "wf_roster r" and "x \<in> set (resolved r)" and "h \<in> set (known_handles r)" and "handle_key h = res_handle x"
  shows "person_of_source r (res_source_handle x) = Some (handle_person h)"
proof -
  have "find (\<lambda>y. res_source_handle y = res_source_handle x) (resolved r) = Some x"
    by (rule find_key) (use assms in \<open>simp_all add: wf_roster_def\<close>)
  moreover have "find (\<lambda>y. handle_key y = res_handle x) (known_handles r) = Some h"
    using find_key [of handle_key "known_handles r" h] assms by (simp add: wf_roster_def)
  ultimately show ?thesis by (simp add: person_of_source_def)
qed

lemma person_of_sourceD:
  assumes "wf_roster r" and "person_of_source r s = Some p"
  shows "\<exists>x \<in> set (resolved r). \<exists>h \<in> set (known_handles r).
     res_source_handle x = s \<and> handle_key h = res_handle x \<and> handle_person h = p"
  using assms(2) by (auto simp: person_of_source_def find_Some_iff bind_eq_Some_conv) (metis nth_mem)

section \<open>The loop over raw handles\<close>

text \<open>What a step of the run leaves alone.\<close>

definition same_rows :: "roster \<Rightarrow> roster \<Rightarrow> bool" where
  "same_rows r r' \<longleftrightarrow> raw_handles r' = raw_handles r \<and> posts r' = posts r \<and> reacts r' = reacts r \<and> members r' = members r
     \<and> raw_members r' = raw_members r \<and> allowed_people r' = allowed_people r \<and> rooms r' = rooms r"

definition grown :: "roster \<Rightarrow> roster \<Rightarrow> bool" where
  "grown r r' \<longleftrightarrow> same_rows r r' \<and> filter is_owner (people r') = filter is_owner (people r)
     \<and> (\<forall>s p. person_of_source r s = Some p \<longrightarrow> person_of_source r' s = Some p)"

lemma grown_refl: "grown r r"
  by (simp add: grown_def same_rows_def)

lemma grown_trans: "grown r r' \<Longrightarrow> grown r' r'' \<Longrightarrow> grown r r''"
  by (auto simp: grown_def same_rows_def)

lemma insert_person_wf:
  assumes "wf_roster r" and "insert_person nfkd r base display owner org note review = (p, r')"
    and "owner \<longrightarrow> filter is_owner (people r) = []"
  shows "wf_roster r'" "p \<in> person_id ` set (people r')" "same_rows r r'" "resolved r' = resolved r"
    "known_handles r' = known_handles r" "\<not> owner \<Longrightarrow> filter is_owner (people r') = filter is_owner (people r)"
    "owner \<Longrightarrow> map person_id (filter is_owner (people r')) = [p]"
proof -
  have "p = next_person r" and r': "r' = r\<lparr>people := people r @
          [\<lparr>person_id = next_person r, is_owner = owner, pp_display = display,
            pp_short = unique_short_name nfkd (map pp_short (people r)) base,
            pp_organization = org, pp_review = review, pp_notes = note\<rparr>],
        next_person := next_person r + 1\<rparr>"
    using assms(2) by (auto simp: insert_person_def)
  moreover have "next_person r \<notin> person_id ` set (people r)" using assms(1) by (auto simp: wf_roster_def)
  moreover have "unique_short_name nfkd (map pp_short (people r)) base \<notin> pp_short ` set (people r)"
    using unique_short_name_free [of nfkd "map pp_short (people r)" base] by simp
  ultimately show "wf_roster r'" using assms(1,3) by (fastforce simp: wf_roster_def)
  show "p \<in> person_id ` set (people r')" "same_rows r r'" "resolved r' = resolved r" "known_handles r' = known_handles r"
    "\<not> owner \<Longrightarrow> filter is_owner (people r') = filter is_owner (people r)"
    "owner \<Longrightarrow> map person_id (filter is_owner (people r')) = [p]"
    using \<open>p = next_person r\<close> assms(3) by (simp_all add: r' same_rows_def)
qed

lemma found_or_created:
  assumes "wf_roster r" and "find_or_create_person ir contacts r ident = (p, r')"
  shows "wf_roster r'" "p \<in> person_id ` set (people r')" "same_rows r r'" "resolved r' = resolved r"
    "known_handles r' = known_handles r" "filter is_owner (people r') = filter is_owner (people r)"
proof -
  consider (old) "r' = r" "p \<in> person_id ` set (people r)"
    | (new) dn og nt rv where "create_person (nfkd_text ir) r dn og nt rv = (p, r')"
  proof (cases "Option.bind contacts (\<lambda>cs. find_unique (name_rules.truncate ir) cs ident)")
    case None
    then show ?thesis using assms(2) new by (simp add: find_or_create_person_def)
  next
    case (Some c)
    let ?others = "List.map_filter (\<lambda>i. if i = ident then None else map_option snd (lookup_handle r i)) (cr_identifiers c)"
    show ?thesis
    proof (cases ?others)
      case Nil
      then show ?thesis using assms(2) Some new by (simp add: find_or_create_person_def)
    next
      case (Cons q qs)
      then have "q \<in> set ?others" by simp
      then obtain i h where "lookup_handle r i = Some (h, q)" by (auto simp: set_map_filter split: if_splits)
      then have "\<exists>x \<in> set (known_handles r). handle_person x = q"
        by (auto simp: lookup_handle_def find_Some_iff)
      then have "q \<in> person_id ` set (people r)" using assms(1) by (auto simp: wf_roster_def)
      moreover have "p = q" "r' = r" using assms(2) Some Cons by (simp_all add: find_or_create_person_def)
      ultimately show ?thesis using old by simp
    qed
  qed
  then have "wf_roster r' \<and> p \<in> person_id ` set (people r') \<and> same_rows r r' \<and> resolved r' = resolved r
      \<and> known_handles r' = known_handles r \<and> filter is_owner (people r') = filter is_owner (people r)"
  proof cases
    case old
    then show ?thesis using assms(1) by (simp add: same_rows_def)
  next
    case new
    note w = insert_person_wf [OF assms(1) new [unfolded create_person_def], simplified]
    show ?thesis by (intro conjI w)
  qed
  then show "wf_roster r'" "p \<in> person_id ` set (people r')" "same_rows r r'" "resolved r' = resolved r"
    "known_handles r' = known_handles r" "filter is_owner (people r') = filter is_owner (people r)" by simp_all
qed

lemma put_new_resolution:
  assumes "s \<notin> res_source_handle ` set (resolved r)"
  shows "put_resolution s h r = r\<lparr>resolved := resolved r @ [\<lparr>res_source_handle = s, res_handle = h\<rparr>]\<rparr>"
  using assms by (simp add: put_resolution_def)

lemma put_new_resolution_grown:
  assumes "s \<notin> res_source_handle ` set (resolved r)"
  shows "grown r (put_resolution s h r)"
  using put_new_resolution [OF assms, of h]
  by (auto simp: grown_def same_rows_def person_of_source_def find_append split: option.split)

lemma put_new_resolution_wf:
  assumes "wf_roster r" and "s \<notin> res_source_handle ` set (resolved r)" and "s \<in> fst ` set (raw_handles r)"
    and "h \<in> handle_key ` set (known_handles r)"
  shows "wf_roster (put_resolution s h r)"
  using assms put_new_resolution [OF assms(2), of h] by (simp add: wf_roster_def)

lemma insert_new_handle:
  assumes "wf_roster r" and "p \<in> person_id ` set (people r)" and "lookup_handle r ident = None"
    and "insert_handle p ident r = (h, r')"
  shows "wf_roster r'" "grown r r'" "resolved r' = resolved r"
    "\<exists>x \<in> set (known_handles r'). handle_key x = h \<and> (rh_value x, rh_kind x) = ident"
    "set (known_handles r) \<subseteq> set (known_handles r')"
proof -
  have h: "h = next_handle r" and r': "r' = r\<lparr>known_handles := known_handles r @
          [\<lparr>handle_key = next_handle r, handle_person = p, rh_value = fst ident, rh_kind = snd ident\<rparr>],
        next_handle := next_handle r + 1\<rparr>"
    using assms(4) by (auto simp: insert_handle_def)
  have fresh: "next_handle r \<notin> handle_key ` set (known_handles r)" using assms(1) by (auto simp: wf_roster_def)
  have "ident \<notin> (\<lambda>h. (rh_value h, rh_kind h)) ` set (known_handles r)"
    using assms(3) by (auto simp: lookup_handle_def find_None_iff)
  then show "wf_roster r'" using assms(1,2) fresh by (fastforce simp: wf_roster_def r')
  show "grown r r'"
    by (auto simp: grown_def same_rows_def r' person_of_source_def find_append bind_eq_Some_conv split: option.split)
  show "resolved r' = resolved r" "\<exists>x \<in> set (known_handles r'). handle_key x = h \<and> (rh_value x, rh_kind x) = ident"
    "set (known_handles r) \<subseteq> set (known_handles r')" by (auto simp: r' h)
qed


lemma resolve_step:
  assumes wf: "wf_roster r" and new: "s \<notin> res_source_handle ` set (resolved r)" and raw: "(s, raw) \<in> set (raw_handles r)"
    and step: "resolve_raw_handle ir contacts (n, r) (s, raw) = (n', r')"
  shows "wf_roster r'" "grown r r'"
    "\<exists>h \<in> set (known_handles r'). resolved r' = resolved r @ [\<lparr>res_source_handle = s, res_handle = handle_key h\<rparr>]
       \<and> (rh_value h, rh_kind h) = normalize_handle (read_phone ir) (lower_text ir) raw"
    "set (known_handles r) \<subseteq> set (known_handles r')"
proof -
  let ?ident = "normalize_handle (read_phone ir) (lower_text ir) raw"
  have s: "s \<in> fst ` set (raw_handles r)" using raw by force
  obtain h r2 where r2: "wf_roster r2" "grown r r2" "resolved r2 = resolved r" "set (known_handles r) \<subseteq> set (known_handles r2)"
      "\<exists>x \<in> set (known_handles r2). handle_key x = h \<and> (rh_value x, rh_kind x) = ?ident"
      "r' = put_resolution s h r2"
  proof (cases "lookup_handle r ?ident")
    case None
    obtain p r1 where c: "find_or_create_person ir contacts r ?ident = (p, r1)" by force
    obtain h r2 where i: "insert_handle p ?ident r1 = (h, r2)" by force
    note w = found_or_created [OF wf c]
    have "lookup_handle r1 ?ident = None" using None w(5) by (simp add: lookup_handle_def)
    note v = insert_new_handle [OF w(1,2) this i]
    have "grown r r1" using w person_of_source_cong [OF w(4,5)] by (simp add: grown_def)
    then show ?thesis
      using that [of r2 h] v w grown_trans step None c i
      by (simp add: resolve_raw_handle_def Let_def)
  next
    case (Some q)
    obtain h p where q: "q = (h, p)" by force
    have "\<exists>x \<in> set (known_handles r). handle_key x = h \<and> (rh_value x, rh_kind x) = ?ident"
      using Some q by (auto simp: lookup_handle_def find_Some_iff)
    then show ?thesis using that [of r h] wf grown_refl step Some q by (simp add: resolve_raw_handle_def Let_def)
  qed
  have new2: "s \<notin> res_source_handle ` set (resolved r2)" using new r2(3) by simp
  note put = put_new_resolution [OF new2, of h]
  have "h \<in> handle_key ` set (known_handles r2)" using r2(5) by auto
  moreover have "s \<in> fst ` set (raw_handles r2)" using s r2(2) by (simp add: grown_def same_rows_def)
  ultimately show "wf_roster r'" using put_new_resolution_wf [OF r2(1) new2] r2(6) by simp
  show "grown r r'" using grown_trans [OF r2(2) put_new_resolution_grown [OF new2, of h]] r2(6) by simp
  show "\<exists>h \<in> set (known_handles r'). resolved r' = resolved r @ [\<lparr>res_source_handle = s, res_handle = handle_key h\<rparr>]
       \<and> (rh_value h, rh_kind h) = ?ident" "set (known_handles r) \<subseteq> set (known_handles r')"
    using r2 put by auto
qed

lemma normal_handles_step:
  assumes "wf_roster r" and "normal_handles ir r" and "(s, raw) \<in> set (raw_handles r)"
    and "h \<in> set (known_handles r')" and "resolved r' = resolved r @ [\<lparr>res_source_handle = s, res_handle = handle_key h\<rparr>]"
    and "(rh_value h, rh_kind h) = normalize_handle (read_phone ir) (lower_text ir) raw"
    and "set (known_handles r) \<subseteq> set (known_handles r')" and "raw_handles r' = raw_handles r"
  shows "normal_handles ir r'"
  unfolding normal_handles_def
proof (intro ballI allI impI)
  fix x raw'
  assume x: "x \<in> set (resolved r')" "(res_source_handle x, raw') \<in> set (raw_handles r')"
  show "\<exists>h \<in> set (known_handles r'). handle_key h = res_handle x
      \<and> (rh_value h, rh_kind h) = normalize_handle (read_phone ir) (lower_text ir) raw'"
  proof (cases "x \<in> set (resolved r)")
    case True
    then show ?thesis using x(2) assms(2,7,8) unfolding normal_handles_def by (metis subsetD)
  next
    case False
    then have "res_source_handle x = s" "res_handle x = handle_key h" using x(1) assms(5) by auto
    moreover have "raw' = raw"
      using x(2) assms(1,3,8) calculation(1) eq_key_imp_eq_value [of "raw_handles r" s raw raw']
      by (simp add: wf_roster_def)
    ultimately show ?thesis using assms(4,6) by auto
  qed
qed

lemma resolve_loop:
  assumes "wf_roster r" and "normal_handles ir r" and "distinct (map fst raws)" and "set raws \<subseteq> set (raw_handles r)"
    and "\<forall>x \<in> set raws. fst x \<notin> res_source_handle ` set (resolved r)"
    and "foldl (resolve_raw_handle ir contacts) (n, r) raws = (n', r')"
  shows "wf_roster r' \<and> normal_handles ir r' \<and> grown r r'
    \<and> res_source_handle ` set (resolved r') = res_source_handle ` set (resolved r) \<union> fst ` set raws"
  using assms
proof (induction raws arbitrary: n r)
  case Nil
  then show ?case by (simp add: grown_refl)
next
  case (Cons x raws)
  obtain s raw where x: "x = (s, raw)" by force
  obtain m q where step: "resolve_raw_handle ir contacts (n, r) (s, raw) = (m, q)" by force
  have s: "s \<notin> res_source_handle ` set (resolved r)" "(s, raw) \<in> set (raw_handles r)" using Cons.prems x by simp_all
  note w = resolve_step [OF Cons.prems(1) s step]
  obtain h where h: "h \<in> set (known_handles q)"
      "resolved q = resolved r @ [\<lparr>res_source_handle = s, res_handle = handle_key h\<rparr>]"
      "(rh_value h, rh_kind h) = normalize_handle (read_phone ir) (lower_text ir) raw"
    using w(3) by blast
  have raws: "raw_handles q = raw_handles r" using w(2) by (simp add: grown_def same_rows_def)
  have "normal_handles ir q" by (rule normal_handles_step [OF Cons.prems(1,2) s(2) h w(4) raws])
  moreover have "\<forall>y \<in> set raws. fst y \<notin> res_source_handle ` set (resolved q)" using Cons.prems(3,5) x h(2) by force
  moreover have "foldl (resolve_raw_handle ir contacts) (m, q) raws = (n', r')" using Cons.prems(6) x step by simp
  ultimately have "wf_roster r' \<and> normal_handles ir r' \<and> grown q r'
      \<and> res_source_handle ` set (resolved r') = res_source_handle ` set (resolved q) \<union> fst ` set raws"
    using Cons.IH [OF w(1)] Cons.prems(3,4) raws x by simp
  then show ?case using grown_trans [OF w(2)] h(2) x by auto
qed


section \<open>The run\<close>

definition sound :: "identity_rules \<Rightarrow> int set \<Rightarrow> roster \<Rightarrow> bool" where
  "sound ir M r \<longleftrightarrow> wf_roster r \<and> normal_handles ir r \<and> attributed M r"

lemma owner_resolved:
  assumes "wf_roster r" and "resolve_owner_person ir r = (p, r')"
  shows "wf_roster r'" "same_rows r r'" "resolved r' = resolved r" "known_handles r' = known_handles r"
    "map person_id (filter is_owner (people r')) = [p]"
proof -
  have "wf_roster r' \<and> same_rows r r' \<and> resolved r' = resolved r \<and> known_handles r' = known_handles r
      \<and> map person_id (filter is_owner (people r')) = [p]"
  proof (cases "filter is_owner (people r)")
    case Nil
    then have ins: "insert_person (nfkd_text ir) r (map ord ''owner'') (map ord ''Me'') True None None False = (p, r')"
      using assms(2) by (simp add: resolve_owner_person_def)
    have none: "True \<longrightarrow> filter is_owner (people r) = []" using Nil by simp
    note w = insert_person_wf [OF assms(1) ins none]
    show ?thesis by (intro conjI w TrueI)
  next
    case (Cons q qs)
    moreover have "length (filter is_owner (people r)) \<le> 1" using assms(1) by (simp add: wf_roster_def)
    ultimately show ?thesis using assms by (simp add: resolve_owner_person_def same_rows_def)
  qed
  then show "wf_roster r'" "same_rows r r'" "resolved r' = resolved r" "known_handles r' = known_handles r"
    "map person_id (filter is_owner (people r')) = [p]" by simp_all
qed

lemma resolved_by_handle:
  assumes "wf_roster r" and "s \<in> res_source_handle ` set (resolved r)"
  shows "person_of_source r s \<noteq> None"
proof -
  obtain x where x: "x \<in> set (resolved r)" "res_source_handle x = s" using assms(2) by auto
  moreover have "res_handle x \<in> handle_key ` set (known_handles r)" using assms(1) x(1) by (simp add: wf_roster_def)
  then obtain h where "h \<in> set (known_handles r)" "handle_key h = res_handle x" by auto
  ultimately show ?thesis using person_of_resolution [OF assms(1)] by auto
qed

lemma attributed_message:
  "\<not> from_me m \<Longrightarrow> sender_person (attribute_message r owner now m)
     = (case sender_person m of Some p \<Rightarrow> Some p | None \<Rightarrow> Option.bind (rm_source m) (person_of_source r))"
  "rm_source (attribute_message r owner now m) = rm_source m" "from_me (attribute_message r owner now m) = from_me m"
  "from_me m \<Longrightarrow> sender_person (attribute_message r owner now m) \<noteq> None"
  "msg_chat (attribute_message r owner now m) = msg_chat m"
  "message_key (attribute_message r owner now m) = message_key m"
  by (auto simp: attribute_message_def Let_def split: option.split)

lemma attributed_tapback:
  "\<not> tap_from_me t \<Longrightarrow> tap_sender (attribute_tapback r owner t)
     = (case tap_sender t of Some p \<Rightarrow> Some p | None \<Rightarrow> Option.bind (rt_source t) (person_of_source r))"
  "tap_from_me (attribute_tapback r owner t) = tap_from_me t"
  by (auto simp: attribute_tapback_def Let_def split: option.split)

text \<open>The result of a run, read off its steps.\<close>

lemma run_parts:
  assumes sound: "sound ir M r" and run: "run_identity_body ir contacts outcome now r = (result, r')"
  obtains owner r1 where "wf_roster r'" "normal_handles ir r'" "map person_id (filter is_owner (people r')) = [owner]"
    "resolved r' = resolved r1" "known_handles r' = known_handles r1" "raw_handles r' = raw_handles r"
    "raw_members r' = raw_members r" "rooms r' = rooms r" "allowed_people r' = allowed_people r"
    "posts r' = map (attribute_message r1 owner now) (posts r)" "reacts r' = map (attribute_tapback r1 owner) (reacts r)"
    "\<And>s p. person_of_source r s = Some p \<Longrightarrow> person_of_source r1 s = Some p"
    "fst ` set (raw_handles r) \<subseteq> res_source_handle ` set (resolved r')"
    "invariant result = compute_invariant_report r'"
    "set (source_members r') \<subseteq> set (members r')" "set (owner_members r' owner) \<subseteq> set (members r')"
proof -
  have wf: "wf_roster r" "normal_handles ir r" using sound by (simp_all add: sound_def)
  obtain owner r0 where o: "resolve_owner_person ir r = (owner, r0)" by force
  note w = owner_resolved [OF wf(1) o]
  obtain n r1 where l: "foldl (resolve_raw_handle ir contacts) (0, r0) (unresolved_raw r0) = (n, r1)" by force
  have normal: "normal_handles ir r0" using wf(2) w by (simp add: normal_handles_def same_rows_def)
  have "distinct (map fst (unresolved_raw r0))"
    using w(1) by (simp add: unresolved_raw_def wf_roster_def distinct_map_filter)
  then have v: "wf_roster r1 \<and> normal_handles ir r1 \<and> grown r0 r1
      \<and> res_source_handle ` set (resolved r1) = res_source_handle ` set (resolved r0) \<union> fst ` set (unresolved_raw r0)"
    by (intro resolve_loop [OF w(1) normal _ _ _ l]) (auto simp: unresolved_raw_def)
  have all_raw: "fst ` set (raw_handles r) \<subseteq> res_source_handle ` set (resolved r0) \<union> fst ` set (unresolved_raw r0)"
  proof (intro subsetI)
    fix s
    assume "s \<in> fst ` set (raw_handles r)"
    then obtain raw where "(s, raw) \<in> set (raw_handles r0)" using w(2) by (auto simp: same_rows_def)
    then show "s \<in> res_source_handle ` set (resolved r0) \<union> fst ` set (unresolved_raw r0)"
      by (cases "s \<in> res_source_handle ` set (resolved r0)") (force simp: unresolved_raw_def)+
  qed
  have rows: "same_rows r r1" using w(2) v by (simp add: same_rows_def grown_def)
  let ?run = "run_identity_body ir contacts outcome now r"
  let ?r2 = "attribute_all owner now r1"
  let ?r3 = "?r2\<lparr>members := members ?r2 @ new_members (members ?r2) (source_members ?r2)\<rparr>"
  have "snd ?run = ?r3\<lparr>members := members ?r3 @ new_members (members ?r3) (owner_members ?r3 owner)\<rparr>"
    by (simp add: run_identity_body_def o l Let_def)
  then have r4: "r' = ?r3\<lparr>members := members ?r3 @ new_members (members ?r3) (owner_members ?r3 owner)\<rparr>"
    using run by simp
  then have r': "r' = r1\<lparr>posts := map (attribute_message r1 owner now) (posts r1),
        reacts := map (attribute_tapback r1 owner) (reacts r1), members := members r'\<rparr>"
    by (simp add: attribute_all_def)
  have "invariant (fst ?run) = compute_invariant_report (snd ?run)"
    by (simp add: run_identity_body_def o l Let_def)
  then have report: "invariant result = compute_invariant_report r'" using run by simp
  note same = arg_cong [OF r', of people, simplified] arg_cong [OF r', of resolved, simplified]
    arg_cong [OF r', of known_handles, simplified] arg_cong [OF r', of raw_handles, simplified]
    arg_cong [OF r', of raw_members, simplified] arg_cong [OF r', of rooms, simplified]
    arg_cong [OF r', of allowed_people, simplified] arg_cong [OF r', of next_person, simplified]
    arg_cong [OF r', of next_handle, simplified] arg_cong [OF r', of posts, simplified]
    arg_cong [OF r', of reacts, simplified]
  show thesis
  proof (rule that [of owner r1])
    show "wf_roster r'" using v same by (simp add: wf_roster_def)
    show "normal_handles ir r'" using v same by (simp add: normal_handles_def)
    show "map person_id (filter is_owner (people r')) = [owner]" using w(5) v same by (simp add: grown_def)
    show "fst ` set (raw_handles r) \<subseteq> res_source_handle ` set (resolved r')"
      unfolding same(2) conjunct2 [OF conjunct2 [OF conjunct2 [OF v]]] by (rule all_raw)
    show "person_of_source r1 s = Some p" if "person_of_source r s = Some p" for s p
      using that v person_of_source_cong [OF w(3,4)] by (simp add: grown_def)
    have sources: "source_members r' = source_members ?r2" "owner_members r' owner = owner_members ?r3 owner"
      using person_of_source_cong [of r' ?r2] unfolding r4 by (simp_all add: source_members_def owner_members_def)
    have added: "set xs \<subseteq> set (ys @ new_members ys xs)" for xs ys :: "participant_row list"
      by (auto simp: new_members_def)
    have members: "members r' = members ?r3 @ new_members (members ?r3) (owner_members ?r3 owner)"
      "members ?r3 = members ?r2 @ new_members (members ?r2) (source_members ?r2)"
      by (subst r4, simp) simp
    show "set (owner_members r' owner) \<subseteq> set (members r')"
      unfolding sources members(1) by (rule added)
    show "set (source_members r') \<subseteq> set (members r')"
      using added [of "source_members ?r2" "members ?r2"] unfolding sources members by auto
  qed (use same rows report in \<open>simp_all add: same_rows_def\<close>)
qed

lemma run_keeps_sound:
  assumes "sound ir M r" and "run_identity_body ir contacts outcome now r = (result, r')"
  shows "sound ir M r'"
proof -
  obtain owner r1 where p: "wf_roster r'" "normal_handles ir r'" "resolved r' = resolved r1" "known_handles r' = known_handles r1"
      "posts r' = map (attribute_message r1 owner now) (posts r)"
      "\<And>s p. person_of_source r s = Some p \<Longrightarrow> person_of_source r1 s = Some p"
    by (rule run_parts [OF assms]) blast
  have "attributed M r" using assms(1) by (simp add: sound_def)
  then have "attributed M r'"
    unfolding attributed_def p(5) person_of_source_cong [OF p(3,4)]
    by (auto simp: attributed_message p(6) split: option.splits)
  then show ?thesis using p by (simp add: sound_def)
qed

section \<open>Curation keeps it\<close>

lemma marked_posts:
  assumes "mark_chats_dirty now r ids = (cs, r')"
  shows "\<exists>f. r' = r\<lparr>posts := map f (posts r)\<rparr> \<and> (\<forall>m. message_row.truncate (f m) = message_row.truncate m \<and> rm_source (f m) = rm_source m)"
proof -
  let ?f = "\<lambda>m. if msg_chat m \<in> set (naming_chats r (sort (remdups ids))) \<and> rm_updated m < now then m\<lparr>rm_updated := now\<rparr> else m"
  have "r' = r\<lparr>posts := map ?f (posts r)\<rparr>" using assms by (auto simp: mark_chats_dirty_def Let_def)
  moreover have "message_row.truncate (?f m) = message_row.truncate m \<and> rm_source (?f m) = rm_source m" for m
    by (simp add: message_row.defs)
  ultimately show ?thesis by blast
qed

lemma mark_keeps_sound:
  assumes "sound ir M r" and "mark_chats_dirty now r ids = (cs, r')"
  shows "sound ir M r'"
proof -
  obtain f where r': "r' = r\<lparr>posts := map f (posts r)\<rparr>"
      and f: "\<And>m. message_row.truncate (f m) = message_row.truncate m \<and> rm_source (f m) = rm_source m"
    using marked_posts [OF assms(2)] by blast
  have "from_me (f m) = from_me m \<and> sender_person (f m) = sender_person m \<and> message_key (f m) = message_key m" for m
    using f [of m] by (simp add: message_row.defs)
  moreover have "person_of_source r' = person_of_source r" by (rule person_of_source_cong) (simp_all add: r')
  ultimately have "attributed M r'" using assms(1) f by (auto simp: sound_def attributed_def r')
  then show ?thesis using assms(1) by (simp add: sound_def r' wf_roster_def normal_handles_def)
qed

text \<open>The senders follow the handles: a change of the handles' persons that the posts go along with.\<close>

lemma person_of_source_moved:
  assumes "resolved r' = resolved r" and "known_handles r' = map (\<lambda>h. h\<lparr>handle_person := g (handle_key h) (handle_person h)\<rparr>) (known_handles r)"
  shows "person_of_source r' s = Option.bind (find (\<lambda>x. res_source_handle x = s) (resolved r))
     (\<lambda>x. map_option (\<lambda>h. g (handle_key h) (handle_person h)) (find (\<lambda>h. handle_key h = res_handle x) (known_handles r)))"
proof -
  have keys: "find (\<lambda>h. handle_key h = k) (known_handles r')
      = map_option (\<lambda>h. h\<lparr>handle_person := g (handle_key h) (handle_person h)\<rparr>) (find (\<lambda>h. handle_key h = k) (known_handles r))" for k
    unfolding assms(2) by (rule find_map_same) simp
  show ?thesis unfolding person_of_source_def assms(1) keys by (simp add: option.map_comp comp_def)
qed

lemma merge_keeps_sound:
  assumes "sound ir M r" and "keep \<noteq> absorb" and "keep \<in> person_id ` set (people r)"
  shows "sound ir M (merge_rows now keep absorb r)"
proof -
  let ?r = "merge_rows now keep absorb r"
  have wf: "wf_roster r" "normal_handles ir r" "attributed M r" using assms(1) by (simp_all add: sound_def)
  let ?g = "\<lambda>k p. if p = absorb then keep else p"
  have handles: "known_handles ?r = map (\<lambda>h. h\<lparr>handle_person := ?g (handle_key h) (handle_person h)\<rparr>) (known_handles r)"
    by (simp add: merge_rows_def)
  have res: "resolved ?r = resolved r" by (simp add: merge_rows_def)
  have keys: "map handle_key (known_handles ?r) = map handle_key (known_handles r)"
    "map (\<lambda>h. (rh_value h, rh_kind h)) (known_handles ?r) = map (\<lambda>h. (rh_value h, rh_kind h)) (known_handles r)"
    by (simp_all add: handles)
  have "handle_key ` set (known_handles ?r) = handle_key ` set (known_handles r)"
    using keys(1) by (metis list.set_map)
  moreover have "\<forall>h \<in> set (known_handles ?r). handle_person h \<in> person_id ` set (people ?r)"
    using wf(1) assms(2,3) by (force simp: handles merge_rows_def wf_roster_def)
  moreover have "\<forall>h \<in> set (known_handles ?r). handle_key h < next_handle ?r"
    using wf(1) by (auto simp: handles wf_roster_def) (simp_all add: merge_rows_def)
  moreover have "distinct (map person_id (people ?r))" "distinct (map pp_short (people ?r))"
    "length (filter is_owner (people ?r)) \<le> 1" "\<forall>p \<in> set (people ?r). person_id p < next_person ?r"
    using wf(1) length_filter_le [of "\<lambda>p. person_id p \<noteq> absorb" "filter is_owner (people r)"]
    by (auto simp: merge_rows_def wf_roster_def distinct_map_filter filter_filter conj_commute)
  ultimately have "wf_roster ?r" using wf(1) keys res by (simp add: wf_roster_def) (simp add: merge_rows_def)
  moreover have "normal_handles ir ?r"
    using wf(2) unfolding normal_handles_def res handles by (fastforce simp: merge_rows_def)
  moreover have "person_of_source ?r s = map_option (\<lambda>p. if p = absorb then keep else p) (person_of_source r s)" for s
    unfolding person_of_source_moved [OF res handles]
    by (simp add: person_of_source_def option.map_comp comp_def map_option_bind)
  then have "attributed M ?r" using wf(3) by (auto simp: attributed_def merge_rows_def)
  ultimately show ?thesis by (simp add: sound_def)
qed

lemma assigned_handles:
  "known_handles (assign_rows now h p r) =
     map (\<lambda>x. x\<lparr>handle_person := if handle_key x = h then p else handle_person x\<rparr>) (known_handles r)"
  "resolved (assign_rows now h p r) = resolved r"
  by (simp_all add: assign_rows_def Let_def)

lemma assigned_source:
  assumes "wf_roster r" and source: "s \<in> res_source_handle ` set (resolved r)"
  shows "person_of_source (assign_rows now h p r) s =
      (if \<exists>x \<in> set (resolved r). res_source_handle x = s \<and> res_handle x = h then Some p else person_of_source r s)"
proof -
  obtain x where x: "x \<in> set (resolved r)" "res_source_handle x = s" using source by auto
  have "res_handle x \<in> handle_key ` set (known_handles r)" using assms(1) x(1) by (simp add: wf_roster_def)
  then obtain y where y: "y \<in> set (known_handles r)" "handle_key y = res_handle x" by auto
  have fx: "find (\<lambda>z. res_source_handle z = s) (resolved r) = Some x"
    using find_key [of res_source_handle "resolved r" x] assms(1) x by (simp add: wf_roster_def)
  have fy: "find (\<lambda>z. handle_key z = res_handle x) (known_handles r) = Some y"
    using find_key [of handle_key "known_handles r" y] assms(1) y by (simp add: wf_roster_def)
  have "z = x" if "z \<in> set (resolved r)" "res_source_handle z = s" for z
    using distinct_key_eq [of res_source_handle "resolved r" z x] assms(1) x that by (simp add: wf_roster_def)
  then have "(\<exists>z \<in> set (resolved r). res_source_handle z = s \<and> res_handle z = h) \<longleftrightarrow> res_handle x = h" using x by blast
  then show ?thesis unfolding person_of_source_moved [OF assigned_handles(2,1)] by (simp add: fx fy y person_of_source_def)
qed

lemma assign_keeps_attributed:
  assumes "wf_roster r" and "attributed M r"
  shows "attributed M (assign_rows now h p r)"
  unfolding attributed_def
proof (intro ballI allI impI)
  fix m s
  assume m: "m \<in> set (posts (assign_rows now h p r))" "message_key m \<notin> M \<and> \<not> from_me m \<and> rm_source m = Some s \<and> sender_person m \<noteq> None"
  let ?from = "\<exists>x \<in> set (resolved r). res_source_handle x = s \<and> res_handle x = h"
  let ?f = "\<lambda>m. if \<exists>x \<in> set (map res_source_handle (filter (\<lambda>x. res_handle x = h) (resolved r))). rm_source m = Some x
      then m\<lparr>sender_person := Some p, rm_updated := now\<rparr> else m"
  have "posts (assign_rows now h p r) = map ?f (posts r)" by (simp add: assign_rows_def Let_def)
  then have "m \<in> ?f ` set (posts r)" using m(1) by (simp only: set_map)
  then obtain m0 where at_m: "m0 \<in> set (posts r)" "m = ?f m0" by (rule imageE)
  have same: "rm_source (?f x) = rm_source x" "from_me (?f x) = from_me x" "message_key (?f x) = message_key x" for x by simp_all
  have m0: "m0 \<in> set (posts r)" "from_me m0 = from_me m" "rm_source m0 = Some s" "message_key m0 = message_key m"
    using at_m(1) same [of m0] m(2) unfolding at_m(2) by simp_all
  have "(\<exists>x \<in> set (map res_source_handle (filter (\<lambda>x. res_handle x = h) (resolved r))). rm_source m0 = Some x) \<longleftrightarrow> ?from"
    using m0(3) by auto
  then have sender: "sender_person m = (if ?from then Some p else sender_person m0)" using at_m(2) by auto
  have old: "person_of_source r s = sender_person m0" if "\<not> ?from"
  proof -
    have "message_key m0 \<notin> M \<and> \<not> from_me m0 \<and> rm_source m0 = Some s \<and> sender_person m0 \<noteq> None" using m0 m(2) sender that by simp
    then show ?thesis using assms(2) m0(1) unfolding attributed_def by blast
  qed
  show "person_of_source (assign_rows now h p r) s = sender_person m"
  proof (cases "s \<in> res_source_handle ` set (resolved r)")
    case True
    show ?thesis
      using old unfolding assigned_source [OF assms(1) True] sender by (cases ?from) (simp_all only: if_True if_False simp_thms)
  next
    case False
    then have none: "find (\<lambda>x. res_source_handle x = s) (resolved r) = None" and not: "\<not> ?from"
      by (auto simp: find_None_iff)
    have "person_of_source r s = sender_person m" using old [OF not] sender not by simp
    then show ?thesis using m(2) by (simp add: person_of_source_def none assigned_handles(2))
  qed
qed

lemma assign_keeps_sound:
  assumes "sound ir M r" and "p \<in> person_id ` set (people r)"
  shows "sound ir M (assign_rows now h p r)"
proof -
  let ?r = "assign_rows now h p r"
  have wf: "wf_roster r" "normal_handles ir r" "attributed M r" using assms(1) by (simp_all add: sound_def)
  let ?g = "\<lambda>k q. if k = h then p else q"
  have handles: "known_handles ?r = map (\<lambda>x. x\<lparr>handle_person := ?g (handle_key x) (handle_person x)\<rparr>) (known_handles r)"
    by (simp add: assign_rows_def Let_def)
  have res: "resolved ?r = resolved r" by (simp add: assign_rows_def Let_def)
  have keys: "map handle_key (known_handles ?r) = map handle_key (known_handles r)"
    "map (\<lambda>h. (rh_value h, rh_kind h)) (known_handles ?r) = map (\<lambda>h. (rh_value h, rh_kind h)) (known_handles r)"
    by (simp_all add: handles)
  have "handle_key ` set (known_handles ?r) = handle_key ` set (known_handles r)"
    using keys(1) by (metis list.set_map)
  moreover have "\<forall>x \<in> set (known_handles ?r). handle_person x \<in> person_id ` set (people ?r)"
    using wf(1) assms(2) by (auto simp: handles wf_roster_def) (simp_all add: assign_rows_def Let_def)
  moreover have "\<forall>x \<in> set (known_handles ?r). handle_key x < next_handle ?r"
    using wf(1) by (auto simp: handles wf_roster_def) (simp_all add: assign_rows_def Let_def)
  ultimately have "wf_roster ?r" using wf(1) keys res by (simp add: wf_roster_def) (simp add: assign_rows_def Let_def)
  moreover have "normal_handles ir ?r"
    using wf(2) unfolding normal_handles_def res handles by (fastforce simp: assign_rows_def Let_def)
  moreover have "attributed M ?r" by (rule assign_keeps_attributed [OF wf(1,3)])
  ultimately show ?thesis by (simp add: sound_def)
qed

lemma distinct_map_one:
  assumes "distinct (map k xs)" and "distinct (map f xs)" and "\<And>x. x \<in> set xs \<Longrightarrow> g x = (if k x = p then v else f x)"
    and "\<And>x. x \<in> set xs \<Longrightarrow> k x \<noteq> p \<Longrightarrow> f x \<noteq> v"
  shows "distinct (map g xs)"
  using assms
proof (induction xs)
  case (Cons a xs)
  have "g a \<noteq> g x" if "x \<in> set xs" for x
  proof -
    have "k a \<noteq> k x" "f a \<noteq> f x" using Cons.prems(1,2) that by (auto simp: image_iff)
    moreover have "g a = (if k a = p then v else f a)" "g x = (if k x = p then v else f x)"
      using Cons.prems(3) that by simp_all
    moreover have "k a \<noteq> p \<Longrightarrow> f a \<noteq> v" "k x \<noteq> p \<Longrightarrow> f x \<noteq> v" using Cons.prems(4) that by simp_all
    ultimately show ?thesis by (cases "k a = p"; cases "k x = p") simp_all
  qed
  then have "g a \<notin> set (map g xs)" by force
  moreover have "distinct (map g xs)" using Cons by simp
  ultimately show ?case by simp
qed simp

lemma rename_keeps_sound:
  assumes "sound ir M r" and "\<forall>x \<in> set (people r). person_id x \<noteq> p \<longrightarrow> short \<noteq> Some (pp_short x)"
  shows "sound ir M (rename_rows p display short mark_reviewed r)"
proof -
  let ?r = "rename_rows p display short mark_reviewed r"
  let ?f = "\<lambda>x. if person_id x = p
              then x\<lparr>pp_display := display, pp_short := (case short of None \<Rightarrow> pp_short x | Some s \<Rightarrow> s),
                     pp_review := (if mark_reviewed then False else pp_review x)\<rparr>
              else x"
  have wf: "wf_roster r" "normal_handles ir r" "attributed M r" using assms(1) by (simp_all add: sound_def)
  have same: "known_handles ?r = known_handles r" "resolved ?r = resolved r" "raw_handles ?r = raw_handles r"
    "posts ?r = posts r" "next_person ?r = next_person r" "next_handle ?r = next_handle r" "people ?r = map ?f (people r)"
    by (simp_all add: rename_rows_def)
  have ids: "map person_id (people ?r) = map person_id (people r)" unfolding same(7) by simp
  then have id_set: "person_id ` set (people ?r) = person_id ` set (people r)" by (metis list.set_map)
  have owner: "is_owner (?f x) = is_owner x" for x by simp
  have owners: "length (filter is_owner (people ?r)) = length (filter is_owner (people r))"
    unfolding same(7) filter_map comp_def owner by simp
  have shorts: "distinct (map pp_short (people ?r))"
  proof (cases short)
    case None
    have "map pp_short (people ?r) = map pp_short (people r)" unfolding same(7) by (simp add: None)
    then show ?thesis using wf(1) by (simp add: wf_roster_def)
  next
    case (Some s)
    have "distinct (map (\<lambda>x. pp_short (?f x)) (people r))"
      by (rule distinct_map_one [of person_id _ pp_short _ p s]) (use wf(1) assms(2) Some in \<open>auto simp: wf_roster_def\<close>)
    then show ?thesis unfolding same(7) by (simp add: comp_def)
  qed
  have "\<forall>q \<in> set (people ?r). person_id q < next_person r"
    using wf(1) ids by (auto simp: wf_roster_def same(7))
  then have "wf_roster ?r"
    using wf(1) unfolding wf_roster_def ids same(1-6) owners id_set by (simp add: shorts)
  moreover have "normal_handles ir ?r" using wf(2) by (simp only: normal_handles_def same)
  moreover have "attributed M ?r"
    using wf(3) person_of_source_cong [OF same(2,1)] by (simp only: attributed_def same)
  ultimately show ?thesis by (simp add: sound_def)
qed

section \<open>Histories\<close>

text \<open>
  What extraction does to these tables: new raw handles under new keys, rows without a sender, and rows it
  knew, which keep their sender. A run on this machine's own database may replace the raw handle of a message
  (\<^verbatim>\<open>Merge.PRESENT\<close>) and its direction (\<^verbatim>\<open>Merge.ASSERTED\<close>) after it got its sender; \<open>refiled\<close> are those.
\<close>

definition extracted :: "roster \<Rightarrow> roster \<Rightarrow> bool" where
  "extracted r r' \<longleftrightarrow>
     (\<exists>new. raw_handles r' = raw_handles r @ new) \<and> distinct (map fst (raw_handles r'))
     \<and> people r' = people r \<and> known_handles r' = known_handles r \<and> resolved r' = resolved r
     \<and> members r' = members r \<and> allowed_people r' = allowed_people r
     \<and> next_person r' = next_person r \<and> next_handle r' = next_handle r
     \<and> (\<forall>m \<in> set (posts r'). sender_person m \<noteq> None \<longrightarrow>
          (\<exists>m0 \<in> set (posts r). message_key m0 = message_key m \<and> sender_person m0 = sender_person m))"

definition refiled :: "roster \<Rightarrow> roster \<Rightarrow> int set" where
  "refiled r r' = message_key ` {m \<in> set (posts r'). sender_person m \<noteq> None
     \<and> \<not> (\<exists>m0 \<in> set (posts r). message_key m0 = message_key m \<and> sender_person m0 = sender_person m
             \<and> from_me m0 = from_me m \<and> rm_source m0 = rm_source m)}"

definition no_roster :: roster where
  "no_roster = \<lparr>people = [], raw_handles = [], known_handles = [], resolved = [], posts = [], reacts = [],
     members = [], raw_members = [], allowed_people = [], rooms = [], next_person = 1, next_handle = 1\<rparr>"

inductive curated :: "identity_rules \<Rightarrow> int set \<Rightarrow> roster \<Rightarrow> bool" for ir where
  empty: "curated ir {} no_roster"
| read: "curated ir M r \<Longrightarrow> extracted r r' \<Longrightarrow> curated ir (M \<union> refiled r r') r'"
| resolve: "curated ir M r \<Longrightarrow> curated ir M (snd (run_identity ir import importer dry now r))"
| merge: "curated ir M r \<Longrightarrow> merge_persons now keep absorb r = Inr (cs, r') \<Longrightarrow> curated ir M r'"
| rename: "curated ir M r \<Longrightarrow> rename_person now p display short reviewed force r = Inr (cs, r') \<Longrightarrow> curated ir M r'"
| assign: "curated ir M r \<Longrightarrow> assign_handle now ident p r = Inr (cs, r') \<Longrightarrow> curated ir M r'"
| allow: "curated ir M r \<Longrightarrow> curated ir M (r\<lparr>allowed_people := rows\<rparr>)"

lemma extraction_keeps_sound:
  assumes "sound ir M r" and "extracted r r'"
  shows "sound ir (M \<union> refiled r r') r'"
proof -
  have wf: "wf_roster r" "normal_handles ir r" "attributed M r" using assms(1) by (simp_all add: sound_def)
  obtain new where raw: "raw_handles r' = raw_handles r @ new" "distinct (map fst (raw_handles r'))"
    using assms(2) by (auto simp: extracted_def)
  have same: "people r' = people r" "known_handles r' = known_handles r" "resolved r' = resolved r"
    "next_person r' = next_person r" "next_handle r' = next_handle r"
    using assms(2) by (simp_all add: extracted_def)
  have "wf_roster r'" using wf(1) raw by (auto simp: wf_roster_def same)
  moreover have "normal_handles ir r'"
    unfolding normal_handles_def same
  proof (intro ballI allI impI)
    fix x v
    assume x: "x \<in> set (resolved r)" "(res_source_handle x, v) \<in> set (raw_handles r')"
    have "res_source_handle x \<in> fst ` set (raw_handles r)" using wf(1) x(1) by (simp add: wf_roster_def)
    then obtain w where w: "(res_source_handle x, w) \<in> set (raw_handles r)" by auto
    then have "v = w"
      using eq_key_imp_eq_value [OF raw(2) x(2)] raw(1) by simp
    then show "\<exists>h \<in> set (known_handles r). handle_key h = res_handle x
        \<and> (rh_value h, rh_kind h) = normalize_handle (read_phone ir) (lower_text ir) v"
      using wf(2) x(1) w by (simp add: normal_handles_def)
  qed
  moreover have "attributed (M \<union> refiled r r') r'"
    unfolding attributed_def person_of_source_cong [OF same(3,2)]
  proof (intro ballI allI impI)
    fix m s
    assume m: "m \<in> set (posts r')" "message_key m \<notin> M \<union> refiled r r' \<and> \<not> from_me m \<and> rm_source m = Some s \<and> sender_person m \<noteq> None"
    then have "m \<notin> {m \<in> set (posts r'). sender_person m \<noteq> None
        \<and> \<not> (\<exists>m0 \<in> set (posts r). message_key m0 = message_key m \<and> sender_person m0 = sender_person m
             \<and> from_me m0 = from_me m \<and> rm_source m0 = rm_source m)}"
      unfolding refiled_def by blast
    then obtain m0 where m0: "m0 \<in> set (posts r)" "message_key m0 = message_key m" "sender_person m0 = sender_person m"
        "from_me m0 = from_me m" "rm_source m0 = rm_source m"
      using m by blast
    moreover have "message_key m \<notin> M" using m(2) by blast
    ultimately show "person_of_source r s = sender_person m" using wf(3) m(2) unfolding attributed_def by metis
  qed
  ultimately show ?thesis by (simp add: sound_def)
qed

lemma run_identity_sound:
  assumes "sound ir M r"
  shows "sound ir M (snd (run_identity ir import importer dry now r))"
proof -
  have "sound ir M (snd (run_identity_body ir contacts outcome now r))" for contacts outcome
    using run_keeps_sound [OF assms, of contacts outcome now] prod.collapse by metis
  then show ?thesis using assms by (simp add: run_identity_def Let_def case_prod_beta split: sum.split)
qed

lemma merge_persons_sound:
  assumes "sound ir M r" and "merge_persons now keep absorb r = Inr (cs, r')"
  shows "sound ir M r'"
proof -
  let ?rows = "filter (\<lambda>p. person_id p \<in> {keep, absorb}) (people r)"
  have m: "keep \<noteq> absorb" "length ?rows = 2" "mark_chats_dirty now (merge_rows now keep absorb r) [keep] = (cs, r')"
    using assms(2) by (auto simp: merge_persons_def Let_def split: if_splits)
  have "keep \<in> person_id ` set (people r)"
  proof (rule ccontr)
    assume no: "keep \<notin> person_id ` set (people r)"
    then have "set (map person_id ?rows) \<subseteq> {absorb}" by auto
    moreover have "distinct (map person_id ?rows)" using assms(1) by (simp add: sound_def wf_roster_def distinct_map_filter)
    ultimately have "length (map person_id ?rows) \<le> 1"
      using distinct_card [of "map person_id ?rows"] card_mono [of "{absorb}" "set (map person_id ?rows)"] by simp
    then show False using m(2) by simp
  qed
  then show ?thesis using mark_keeps_sound [OF merge_keeps_sound [OF assms(1) m(1)] m(3)] by simp
qed

lemma rename_person_sound:
  assumes "sound ir M r" and "rename_person now p display short reviewed force r = Inr (cs, r')"
  shows "sound ir M r'"
proof -
  have "mark_chats_dirty now (rename_rows p display short reviewed r) [p] = (cs, r')"
    and "\<forall>x \<in> set (people r). person_id x \<noteq> p \<longrightarrow> short \<noteq> Some (pp_short x)"
    using assms(2) by (auto simp: rename_person_def split: option.splits if_splits)
  then show ?thesis using mark_keeps_sound [OF rename_keeps_sound [OF assms(1)]] by simp
qed

lemma assign_handle_sound:
  assumes "sound ir M r" and "assign_handle now ident p r = Inr (cs, r')"
  shows "sound ir M r'"
proof -
  have "p \<in> person_id ` set (people r)" using assms(2) by (auto simp: assign_handle_def split: if_splits)
  moreover obtain h q where "mark_chats_dirty now (assign_rows now h p r) [q, p] = (cs, r')"
    using assms(2) by (auto simp: assign_handle_def split: if_splits option.splits)
  ultimately show ?thesis using mark_keeps_sound [OF assign_keeps_sound [OF assms(1)]] by simp
qed

lemma curated_sound: "curated ir M r \<Longrightarrow> sound ir M r"
proof (induction rule: curated.induct)
  case empty
  then show ?case by (simp add: sound_def wf_roster_def normal_handles_def attributed_def no_roster_def)
next
  case (allow M r rows)
  moreover have "person_of_source (r\<lparr>allowed_people := rows\<rparr>) = person_of_source r"
    by (rule person_of_source_cong) simp_all
  ultimately show ?case by (simp add: sound_def wf_roster_def normal_handles_def attributed_def)
qed (blast intro: extraction_keeps_sound run_identity_sound merge_persons_sound rename_person_sound assign_handle_sound)+

section \<open>One sender, one person\<close>

lemma normal_person:
  assumes "sound ir M r" and "(s, raw) \<in> set (raw_handles r)" and "person_of_source r s = Some p"
  shows "\<exists>h \<in> set (known_handles r). handle_person h = p
     \<and> (rh_value h, rh_kind h) = normalize_handle (read_phone ir) (lower_text ir) raw"
proof -
  have wf: "wf_roster r" "normal_handles ir r" using assms(1) by (simp_all add: sound_def)
  obtain x h where x: "x \<in> set (resolved r)" "h \<in> set (known_handles r)" "res_source_handle x = s"
      "handle_key h = res_handle x" "handle_person h = p"
    using person_of_sourceD [OF wf(1) assms(3)] by blast
  then obtain k where k: "k \<in> set (known_handles r)" "handle_key k = res_handle x"
      "(rh_value k, rh_kind k) = normalize_handle (read_phone ir) (lower_text ir) raw"
    using wf(2) assms(2) unfolding normal_handles_def by blast
  have "k = h"
    using distinct_key_eq [of handle_key "known_handles r" k h] wf(1) x k by (simp add: wf_roster_def)
  then show ?thesis using k x(5) by blast
qed

text \<open>
  C10: Whatever was extracted, resolved, merged, renamed, assigned and allowlisted before, two received messages
  whose raw handles have the same normal form are attributed to the same person, if neither is among the
  messages whose raw handle or direction an extraction replaced after they had a sender: those keep the
  person of their former handle.
\<close>

theorem one_sender_one_person:
  assumes "curated ir M r"
    and "m \<in> set (posts r)" and "\<not> from_me m" and "rm_source m = Some s" and "(s, raw) \<in> set (raw_handles r)"
    and "m' \<in> set (posts r)" and "\<not> from_me m'" and "rm_source m' = Some s'" and "(s', raw') \<in> set (raw_handles r)"
    and "normalize_handle (read_phone ir) (lower_text ir) raw = normalize_handle (read_phone ir) (lower_text ir) raw'"
    and "sender_person m = Some p" and "sender_person m' = Some p'"
    and "message_key m \<notin> M" and "message_key m' \<notin> M"
  shows "p = p'"
proof -
  have sound: "sound ir M r" by (rule curated_sound [OF assms(1)])
  have people: "person_of_source r s = Some p" "person_of_source r s' = Some p'"
    using sound assms unfolding sound_def attributed_def by (metis option.distinct(1))+
  obtain h where h: "h \<in> set (known_handles r)" "handle_person h = p"
      "(rh_value h, rh_kind h) = normalize_handle (read_phone ir) (lower_text ir) raw"
    using normal_person [OF sound assms(5) people(1)] by blast
  obtain h' where h': "h' \<in> set (known_handles r)" "handle_person h' = p'"
      "(rh_value h', rh_kind h') = normalize_handle (read_phone ir) (lower_text ir) raw'"
    using normal_person [OF sound assms(9) people(2)] by blast
  have "distinct (map (\<lambda>h. (rh_value h, rh_kind h)) (known_handles r))" using sound by (simp add: sound_def wf_roster_def)
  then have "h = h'" by (rule distinct_key_eq) (use h h' assms(10) in simp_all)
  then show ?thesis using h(2) h'(2) by simp
qed

section \<open>A second run\<close>

lemma attribute_twice:
  assumes "person_of_source r = person_of_source r'"
  shows "attribute_message r owner' now' (attribute_message r' owner now m) = attribute_message r' owner now m"
    "attribute_tapback r owner' (attribute_tapback r' owner t) = attribute_tapback r' owner t"
  by (auto simp: attribute_message_def attribute_tapback_def Let_def assms split: option.splits)

text \<open>
  C12: A run of identity resolution leaves nothing to a second one: it changes no row, resolves no handle and
  creates no person, whatever the address book says by then.
\<close>

theorem identity_run_is_idempotent:
  assumes "curated ir M r" and "run_identity_body ir contacts outcome now r = (result, r')"
    and "run_identity_body ir contacts' outcome' now' r' = (result', r'')"
  shows "r'' = r' \<and> handles_processed result' = 0 \<and> persons_created result' = 0 \<and> handles_created result' = 0
    \<and> participants_resolved result' = 0 \<and> invariant result' = invariant result"
proof -
  obtain owner r1 where p: "map person_id (filter is_owner (people r')) = [owner]" "resolved r' = resolved r1"
      "known_handles r' = known_handles r1" "raw_handles r' = raw_handles r"
      "posts r' = map (attribute_message r1 owner now) (posts r)" "reacts r' = map (attribute_tapback r1 owner) (reacts r)"
      "fst ` set (raw_handles r) \<subseteq> res_source_handle ` set (resolved r')" "invariant result = compute_invariant_report r'"
      "set (source_members r') \<subseteq> set (members r')" "set (owner_members r' owner) \<subseteq> set (members r')"
    by (rule run_parts [OF curated_sound [OF assms(1)] assms(2)]) (rule that; assumption)
  have source: "person_of_source r' = person_of_source r1" by (rule person_of_source_cong [OF p(2,3)])
  have owner: "resolve_owner_person ir r' = (owner, r')"
    using p(1) by (auto simp: resolve_owner_person_def split: list.split)
  have raw: "unresolved_raw r' = []"
    using p(4,7) by (force simp: unresolved_raw_def filter_empty_conv)
  have posts: "map (attribute_message r' owner now') (posts r') = posts r'"
    unfolding p(5) by (simp add: attribute_twice(1) [OF source])
  have reacts: "map (attribute_tapback r' owner) (reacts r') = reacts r'"
    unfolding p(6) by (simp add: attribute_twice(2) [OF source])
  have none: "new_members ys xs = []" if "set xs \<subseteq> set ys" for xs ys
    using that by (auto simp: new_members_def filter_empty_conv)
  have attr: "attribute_all owner now' r' = r'" unfolding attribute_all_def posts reacts by simp
  have same_members: "r'\<lparr>members := members r'\<rparr> = r'" by simp
  have "run_identity_body ir contacts' outcome' now' r' =
      (\<lparr>handles_processed = 0, persons_created = 0, handles_created = 0,
        messages_resolved = length (filter (\<lambda>m. sender_person m \<noteq> None) (posts r')),
        tapbacks_resolved = length (filter (\<lambda>t. tap_sender t \<noteq> None) (reacts r')), participants_resolved = 0,
        contacts_import = outcome', invariant = compute_invariant_report r', was_dry_run = False\<rparr>, r')"
    unfolding run_identity_body_def owner raw Let_def prod.case foldl.simps attr none [OF p(9)] append_Nil2 same_members none [OF p(10)]
    by simp
  then show ?thesis using assms(3) p(8) by auto
qed

section \<open>The report is clean\<close>

text \<open>
  C11: After a run, and given that raw handles are rows of their table, the report lets segmentation start exactly
  when every received message and tapback had a raw handle or a sender already.
\<close>

theorem identity_run_completes:
  assumes "curated ir M r" and "run_identity_body ir contacts outcome now r = (result, r')"
    and "\<forall>m \<in> set (posts r). \<forall>s. rm_source m = Some s \<longrightarrow> s \<in> fst ` set (raw_handles r)"
    and "\<forall>t \<in> set (reacts r). \<forall>s. rt_source t = Some s \<longrightarrow> s \<in> fst ` set (raw_handles r)"
    and "\<forall>sp \<in> set (raw_members r). sp_source_handle sp \<in> fst ` set (raw_handles r)"
  shows "assert_invariant_or_raise (invariant result) = Inr () \<longleftrightarrow>
     (\<forall>m \<in> set (posts r). from_me m \<or> sender_person m \<noteq> None \<or> rm_source m \<noteq> None)
     \<and> (\<forall>t \<in> set (reacts r). tap_from_me t \<or> tap_sender t \<noteq> None \<or> rt_source t \<noteq> None)"
proof -
  obtain owner r1 where p: "wf_roster r'" "map person_id (filter is_owner (people r')) = [owner]" "resolved r' = resolved r1"
      "known_handles r' = known_handles r1" "raw_members r' = raw_members r"
      "posts r' = map (attribute_message r1 owner now) (posts r)" "reacts r' = map (attribute_tapback r1 owner) (reacts r)"
      "fst ` set (raw_handles r) \<subseteq> res_source_handle ` set (resolved r')" "invariant result = compute_invariant_report r'"
    by (rule run_parts [OF curated_sound [OF assms(1)] assms(2)]) (rule that; assumption)
  have source: "person_of_source r' = person_of_source r1" by (rule person_of_source_cong [OF p(3,4)])
  have known: "person_of_source r1 s \<noteq> None" if "s \<in> fst ` set (raw_handles r)" for s
    using resolved_by_handle [OF p(1)] p(8) that unfolding source by blast
  have post: "sender_person (attribute_message r1 owner now m) \<noteq> None \<longleftrightarrow> from_me m \<or> sender_person m \<noteq> None \<or> rm_source m \<noteq> None"
    if "m \<in> set (posts r)" for m
    using known assms(3) that attributed_message(4) [of m r1 owner now]
    by (cases "from_me m"; cases "rm_source m") (auto simp: attributed_message(1) split: option.split)
  have tap: "\<not> (\<not> tap_from_me t \<and> tap_sender (attribute_tapback r1 owner t) = None) \<longleftrightarrow>
      tap_from_me t \<or> tap_sender t \<noteq> None \<or> rt_source t \<noteq> None" if "t \<in> set (reacts r)" for t
    using known assms(4) that
    by (cases "tap_from_me t"; cases "rt_source t") (auto simp: attributed_tapback(1) split: option.split)
  let ?i = "invariant result"
  have "unresolved_message_senders ?i = 0 \<longleftrightarrow> (\<forall>m \<in> set (posts r). sender_person (attribute_message r1 owner now m) \<noteq> None)"
    by (simp add: p(6,9) compute_invariant_report_def filter_empty_conv)
  also have "\<dots> \<longleftrightarrow> (\<forall>m \<in> set (posts r). from_me m \<or> sender_person m \<noteq> None \<or> rm_source m \<noteq> None)"
    by (rule ball_cong [OF refl post])
  finally have senders: "unresolved_message_senders ?i = 0 \<longleftrightarrow> \<dots>" .
  have "unresolved_tapback_senders ?i = 0
      \<longleftrightarrow> (\<forall>t \<in> set (reacts r). \<not> (\<not> tap_from_me t \<and> tap_sender (attribute_tapback r1 owner t) = None))"
    by (simp add: p(7,9) compute_invariant_report_def filter_empty_conv attributed_tapback(2))
  also have "\<dots> \<longleftrightarrow> (\<forall>t \<in> set (reacts r). tap_from_me t \<or> tap_sender t \<noteq> None \<or> rt_source t \<noteq> None)"
    by (rule ball_cong [OF refl tap])
  finally have taps: "unresolved_tapback_senders ?i = 0 \<longleftrightarrow> \<dots>" .
  have "unresolved_chat_participants ?i = 0"
    using assms(5) p(8) by (auto simp: p(5,9) compute_invariant_report_def filter_empty_conv)
  moreover have "owner_person_count ?i = 1"
    using arg_cong [OF p(2), of length] by (simp add: p(9) compute_invariant_report_def)
  ultimately have "report_ok ?i \<longleftrightarrow> (\<forall>m \<in> set (posts r). from_me m \<or> sender_person m \<noteq> None \<or> rm_source m \<noteq> None)
     \<and> (\<forall>t \<in> set (reacts r). tap_from_me t \<or> tap_sender t \<noteq> None \<or> rt_source t \<noteq> None)"
    unfolding report_ok_def senders taps by (simp only: simp_thms)
  then show ?thesis by (simp add: assert_invariant_or_raise_def)
qed

section \<open>An example\<close>

text \<open>Two messages of one number, the second filtered, and a tapback, as extraction leaves them.\<close>

definition sample_rules :: identity_rules where
  "sample_rules = \<lparr>word_char = (\<lambda>_. True), casefold = id,
     read_phone = (\<lambda>s. if list_all (\<lambda>c. c < 58) s then Some s else None), lower_text = id, nfkd_text = id\<rparr>"

definition sample_post :: "int \<Rightarrow> int \<Rightarrow> int option \<Rightarrow> roster_message" where
  "sample_post k source sender = \<lparr>message_key = k, msg_chat = 1, sender_person = sender, from_me = False, is_unsent = False,
     deleted_at = None, row_sent_at = 0, rm_source = Some source, rm_updated = 0\<rparr>"

definition sample_intake :: roster where
  "sample_intake = no_roster\<lparr>raw_handles := [(1, [43, 49]), (2, [43, 49] @ 40 # SMSFT @ [41])],
     posts := [sample_post 1 1 None, sample_post 2 2 None],
     reacts := [\<lparr>target_message = Some 1, tap_sender = None, tap_from_me = False, rt_source = Some 2\<rparr>],
     raw_members := [\<lparr>sp_chat = 1, sp_source_handle = 1\<rparr>], rooms := [\<lparr>chat_key = 1, unfiled_key = None\<rparr>]\<rparr>"

definition sample_roster :: roster where
  "sample_roster = snd (run_identity sample_rules False (Inr []) False 5 sample_intake)"

lemma sample_curated: "curated sample_rules {} sample_intake" "curated sample_rules {} sample_roster"
proof -
  have "extracted no_roster sample_intake"
    by (simp add: extracted_def sample_intake_def no_roster_def sample_post_def)
  then have "curated sample_rules ({} \<union> refiled no_roster sample_intake) sample_intake"
    by (rule curated.read [OF curated.empty])
  moreover have "\<forall>m \<in> set (posts sample_intake). sender_person m = None"
    by (simp add: sample_intake_def sample_post_def)
  then have "refiled no_roster sample_intake = {}" by (auto simp: refiled_def)
  ultimately show "curated sample_rules {} sample_intake" by simp
  then show "curated sample_rules {} sample_roster" unfolding sample_roster_def by (rule curated.resolve)
qed

lemma sample_rows:
  "raw_handles sample_roster = [(1, [43, 49]), (2, [43, 49] @ 40 # SMSFT @ [41])]"
  "map (\<lambda>m. (from_me m, rm_source m, sender_person m)) (posts sample_roster) = [(False, Some 1, Some 2), (False, Some 2, Some 2)]"
  "map (\<lambda>p. (person_id p, is_owner p)) (people sample_roster) = [(1, True), (2, False)]"
  by code_simp+

theorem one_sender_one_person_witness:
  "length (posts sample_roster) = 2 \<and> length (remdups (map sender_person (posts sample_roster))) = 1"
proof -
  obtain m m' where posts: "posts sample_roster = [m, m']" and rows: "\<not> from_me m" "rm_source m = Some 1" "sender_person m = Some 2"
      "\<not> from_me m'" "rm_source m' = Some 2" "sender_person m' = Some 2"
    using sample_rows(2) by (auto simp: map_eq_Cons_conv)
  have same: "normalize_handle (read_phone sample_rules) (lower_text sample_rules) [43, 49]
      = normalize_handle (read_phone sample_rules) (lower_text sample_rules) ([43, 49] @ 40 # SMSFT @ [41])" by code_simp
  have raw: "(1, [43, 49]) \<in> set (raw_handles sample_roster)" "(2, [43, 49] @ 40 # SMSFT @ [41]) \<in> set (raw_handles sample_roster)"
    by (simp_all add: sample_rows(1))
  have in_posts: "m \<in> set (posts sample_roster)" "m' \<in> set (posts sample_roster)" by (simp_all add: posts)
  have "the (sender_person m) = the (sender_person m')"
    by (rule one_sender_one_person [OF sample_curated(2) in_posts(1) rows(1,2) raw(1) in_posts(2) rows(4,5) raw(2) same])
      (simp_all add: rows)
  then show ?thesis using rows by (simp add: posts)
qed

theorem identity_run_is_idempotent_witness:
  "snd (run_identity sample_rules False (Inr []) False 9 sample_roster) = sample_roster"
proof -
  let ?outcome = "\<lparr>co_attempted = False, co_loaded = 0, co_degraded = False, co_reason = None\<rparr>"
  obtain result r' where first: "run_identity_body sample_rules None ?outcome 5 sample_intake = (result, r')" by force
  then have r': "r' = sample_roster" by (simp add: sample_roster_def run_identity_def Let_def)
  obtain result' r'' where second: "run_identity_body sample_rules None ?outcome 9 sample_roster = (result', r'')" by force
  have "r'' = sample_roster"
    using identity_run_is_idempotent [OF sample_curated(1) first [unfolded r'] second] by simp
  then show ?thesis using second by (simp add: run_identity_def Let_def)
qed

theorem identity_run_completes_witness:
  "assert_invariant_or_raise (invariant (fst (run_identity sample_rules False (Inr []) False 5 sample_intake))) = Inr ()"
proof -
  let ?outcome = "\<lparr>co_attempted = False, co_loaded = 0, co_degraded = False, co_reason = None\<rparr>"
  obtain result r' where run: "run_identity_body sample_rules None ?outcome 5 sample_intake = (result, r')" by force
  have "assert_invariant_or_raise (invariant result) = Inr ()"
    by (subst identity_run_completes [OF sample_curated(1) run])
      (simp_all add: sample_intake_def no_roster_def sample_post_def)
  then show ?thesis using run by (simp add: run_identity_def Let_def)
qed

end
