(* ===== verification/Spec2Isabelle.thy ===== *)
theory Spec2Isabelle
  imports Boundaries Auth_Gate Eligibility Backup_Retention Enrich_Queue Background_Gate Model_Serving Export_Store Rank_Fusion Vector_Collapse Query_Analysis Embed_Batching Text_Chunking Search_Secrecy Directory Attribution
begin

text \<open>
  A model of \<^verbatim>\<open>imsg\<close> (\<^verbatim>\<open>src/src/imsg\<close>), a single-owner archive of a message history: messages are
  extracted from Apple's database into Postgres, grouped into segments, enriched, embedded and indexed;
  an MCP server answers searches over them, locally with full access and publicly under the owner's
  allowlist; an export ships the allowlisted part to a managed store. This theory imports the whole
  development. A path below is relative to \<^verbatim>\<open>src/src/imsg\<close>.

  \<^bold>\<open>How the parts meet.\<close> Segmentation writes the segments everything else reads. Eligibility decides,
  from the rows of the database at the time of asking, which threads and which (segment, attachment)
  pairs may leave; the export planner and the retrieval service ask the same rule. A public call passes
  the gate (token, rate limits, verdict cache, audit row), then the retrieval service resolves one scope
  for the request and reads through it. The servers share the host's memory with background work through
  the reservation ledger, and the export pushes what the owner approved through a transport.

  \<^bold>\<open>Theories.\<close>
  \<^item> \<open>Prelude\<close>, \<open>Py_Strings\<close>, \<open>Unicode_Text\<close>, \<open>Ordered_Dict\<close>, \<open>Binary64\<close>, \<open>Sequence_Matcher\<close>: what the
    code uses of Python: list and string functions, UTF-8, \<^verbatim>\<open>OrderedDict\<close>, rounded floats, \<^verbatim>\<open>difflib\<close>.
  \<^item> \<open>Sessionize\<close>, \<open>Boundaries\<close> (\<^verbatim>\<open>segment/models.py\<close>, \<^verbatim>\<open>sessionize.py\<close>, \<^verbatim>\<open>boundaries.py\<close>, part of
    \<^verbatim>\<open>pipeline.py\<close>): messages to sessions to segments, whole and incrementally. Shown: both passes
    partition the messages, sizes are bounded, an incremental rebuild agrees with a full one, and the
    gap at which it does not.
  \<^item> \<open>Handle_Names\<close>, \<open>Identity\<close>, \<open>Attribution\<close> (\<^verbatim>\<open>stages/identity.py\<close>): raw handles to canonical handles to
    people, the attribution of messages, the report segmentation waits for, and merge, rename and assign;
    histories of extraction, resolution and curation as an inductive relation. Shown: a filter tag changes
    no identity, contact cards agree on a person only when one carries every word, one sender stays one
    person through every history (but for messages extraction gave another handle since), a run is
    idempotent, and when the report is clean.
  \<^item> \<open>Eligibility\<close> (\<^verbatim>\<open>export/eligibility.py\<close>): the two-pass deny engine over joins, against the contract
    \<open>thread_open\<close>; denial is monotone in evidence.
  \<^item> \<open>Canonical_Json\<close>, \<open>Export_Documents\<close>, \<open>Export_Plan\<close>, \<open>Export_Push\<close>, \<open>Export_Store\<close> (\<^verbatim>\<open>export/\<close>): documents,
    the plan and its pins, approval, the push through a transport whose laws are locales, and retries.
    Shown: the content of what is withheld does not influence a plan, a push happens only under every pin, it stays inside the
    plan, retries reach it, and the two runs in which a document escapes.
  \<^item> \<open>Tokeninfo\<close>, \<open>Rate_Limit\<close>, \<open>Audit_Trail\<close>, \<open>Auth_Gate\<close> (\<^verbatim>\<open>mcp/auth.py\<close>, \<^verbatim>\<open>ratelimit.py\<close>, \<^verbatim>\<open>audit.py\<close>): one public
    call from the header to the handler and its audit rows. Shown: a handler runs only for the pinned
    owner, no foreign row is ever accepted, a payload is out only with its row written, budgets hold.
  \<^item> \<open>Request_Scope\<close>, \<open>Archive\<close>, \<open>People_Filter\<close>, \<open>Segment_View\<close>, \<open>View_Secrecy\<close>, \<open>Conversation\<close>, \<open>Directory\<close>
    (\<^verbatim>\<open>retrieval/access.py\<close>, \<^verbatim>\<open>people.py\<close>, \<^verbatim>\<open>filters.py\<close>, \<^verbatim>\<open>segments.py\<close>, \<^verbatim>\<open>directory.py\<close>, \<^verbatim>\<open>service.py\<close>): the reads of
    one request in its scope. Shown: two archives that differ only in the content of what is withheld answer alike, a
    closed thread, an unseen person and a gated attachment are answered as ones that do not exist.
  \<^item> \<open>Query_Analysis\<close>, \<open>Rank_Fusion\<close>, \<open>Vector_Collapse\<close>, \<open>Search_Service\<close>, \<open>Search_Secrecy\<close> (\<^verbatim>\<open>textnorm.py\<close>,
    \<^verbatim>\<open>retrieval/query.py\<close>, \<^verbatim>\<open>fuse.py\<close>, \<^verbatim>\<open>vector_search.py\<close>, \<^verbatim>\<open>fts_search.py\<close>, \<^verbatim>\<open>service.py\<close>): the hybrid search
    from the query to the hits. Shown: hits satisfy scope and filters, quoting is exact, fusion and the
    early stop of a vector scan are exact, the search reads nothing withheld but for the emoji path.
  \<^item> \<open>Enrich_Queue\<close>, \<open>Text_Chunking\<close>, \<open>Embed_Batching\<close> (\<^verbatim>\<open>enrich/\<close>, \<^verbatim>\<open>embed/batching.py\<close>): leases of enrichment
    tasks, chunks of their text, batches for the encoder.
  \<^item> \<open>Memory_Admission\<close>, \<open>Background_Gate\<close>, \<open>Model_Serving\<close> (\<^verbatim>\<open>memory_admission.py\<close>, \<^verbatim>\<open>host_memory.py\<close>,
    \<^verbatim>\<open>background_gate.py\<close>, \<^verbatim>\<open>background_pause.py\<close>, \<^verbatim>\<open>retrieval/idle_unload.py\<close>, \<^verbatim>\<open>background_warm_up.py\<close>): who may
    load models, who gives way, and the life of a server's models as an inductive step relation.
  \<^item> \<open>Backup_Retention\<close> (\<^verbatim>\<open>backup/retention.py\<close>): which backup sets are deleted.

  \<^bold>\<open>Conventions.\<close> A table is a list of records and a query a comprehension over lists; rows that a query
  leaves in no order keep the order of the table. A raised exception is the left side of a sum. A
  \<^verbatim>\<open>datetime\<close> is its microseconds. Text of the database and of documents is UTF-8, counted and cut by
  code points; header text is Latin-1. A float that is only added to or compared with a clock is an exact
  rational; fused scores, distances and ratios are rounded as binary64 does. What is not under \<^verbatim>\<open>src/\<close> is an
  argument: hashes, time zones, NFC, lower case, the FTS5 and vector indexes, embeddings, the reranker, the
  boundary model, the store behind the transport, the token introspection.

  \<^bold>\<open>Loops and fuel.\<close> Every loop is a structural recursion or a function with a proved measure; the wait
  of \<open>gate_admit\<close> and the jobs of the model thread, whose length the environment decides, are bounded by
  explicit measures of the remaining wait and work, and that they end is a theorem.

  \<^bold>\<open>Interfaces.\<close> The boundary provider, the cooperative transport, the document store, the reservation
  ledger, the store with a capacity and the sliding window are locales, each interpreted on the code's own
  model of it.

  \<^bold>\<open>Not modelled.\<close> The stages that read Apple's database and files (snapshot, sync, extract, unlinked filing,
  backfill), where the work is SQL against a schema outside the repository; the model providers and their
  runtimes, native libraries throughout; the web search page, the command line and the ops commands, glue
  over the parts above; configuration and secrets, validated by a library; database connections, pools and
  migrations. The manifest lists them with their files. Interleavings of two database connections inside
  one request are not modelled either: a request reads one snapshot.
\<close>

end
